(* ===== verification/Prelude.thy ===== *)
theory Prelude
  imports Main "HOL-Library.Word"
begin

text \<open>
  What every component of the development shares: bytes and byte strings, the string
  operations of the C++ library the sources use (\<open>find\<close>, \<open>substr\<close>, \<open>starts_with\<close>,
  \<open>tolower\<close>, \<open>to_string\<close>, \<open>from_chars\<close>), big-endian integers as they are put on the wire,
  and \<open>unordered_map\<close> as an association list.

  A \<open>std::string\<close> is a list of bytes, a byte is an 8-bit word.  Sizes and offsets
  (\<open>size_t\<close>) are natural numbers: they measure strings that are in memory, so they stay
  below \<open>2^64\<close>; a \<open>size_t\<close> that is read from the wire keeps its width.
\<close>

unbundle bit_operations_syntax

type_synonym byte = "8 word"
type_synonym bytes = "byte list"
type_synonym u16 = "16 word"
type_synonym u32 = "32 word"
type_synonym u64 = "64 word"

named_theorems str_facts \<open>facts about searching and cutting byte strings\<close>
named_theorems wire_facts \<open>facts about integers on the wire\<close>

section \<open>Byte strings\<close>

text \<open>A string literal of the source.\<close>

definition lit :: "string \<Rightarrow> bytes" where
  "lit s = map of_char s"

lemma length_lit [simp]: "length (lit s) = length s"
  by (simp add: lit_def)

text \<open>\<open>std::tolower\<close> in the C locale, and the \<open>std::transform\<close> idiom that maps it over a string.\<close>

definition tolower :: "byte \<Rightarrow> byte" where
  "tolower c = (if 65 \<le> c \<and> c \<le> 90 then c + 32 else c)"

definition lower :: "bytes \<Rightarrow> bytes" where
  "lower s = map tolower s"

lemma length_lower [simp]: "length (lower s) = length s"
  by (simp add: lower_def)

lemma tolower_idem [simp]: "tolower (tolower c) = tolower c"
proof (cases "65 \<le> c \<and> c \<le> 90")
  case True
  then have "unat c \<ge> 65" "unat c \<le> 90"
    by (auto simp: word_le_nat_alt)
  then have "unat (c + 32) = unat c + 32"
    by (simp add: unat_word_ariths)
  with \<open>65 \<le> unat c\<close> have "\<not> c + 32 \<le> 90"
    by (simp add: word_le_nat_alt)
  with True show ?thesis
    by (simp add: tolower_def)
next
  case False
  then show ?thesis by (simp add: tolower_def)
qed

lemma lower_idem [simp]: "lower (lower s) = lower s"
  by (simp add: lower_def)

text \<open>\<open>starts_with\<close>.\<close>

definition starts_with :: "'a list \<Rightarrow> 'a list \<Rightarrow> bool" where
  "starts_with s p = (take (length p) s = p)"

lemma starts_with_append [str_facts]: "starts_with s p \<Longrightarrow> starts_with (s @ t) p"
proof -
  assume "starts_with s p"
  then have p: "take (length p) s = p"
    by (simp add: starts_with_def)
  then have "length (take (length p) s) = length p"
    by simp
  then have "length p \<le> length s"
    by simp
  with p show ?thesis
    by (simp add: starts_with_def)
qed

lemma starts_with_length [str_facts]: "starts_with s p \<Longrightarrow> length p \<le> length s"
  by (metis length_take min.cobounded1 starts_with_def)

lemma find_SomeD: "find P xs = Some x \<Longrightarrow> x \<in> set xs \<and> P x"
  by (auto simp: find_Some_iff)

text \<open>
  \<open>s.find(p)\<close>: the index of the first occurrence, \<open>npos\<close> is \<open>None\<close>; and
  \<open>s.find(p, pos)\<close>, which starts at \<open>pos\<close>.
\<close>

fun find_sub :: "'a list \<Rightarrow> 'a list \<Rightarrow> nat option" where
  "find_sub p [] = (if p = [] then Some 0 else None)"
| "find_sub p (x # xs) =
     (if starts_with (x # xs) p then Some 0 else map_option Suc (find_sub p xs))"

definition find_from :: "'a list \<Rightarrow> nat \<Rightarrow> 'a list \<Rightarrow> nat option" where
  "find_from p pos s =
     (if length s < pos then None else map_option (\<lambda>i. pos + i) (find_sub p (drop pos s)))"

lemma find_sub_SomeD:
  "find_sub p s = Some i \<Longrightarrow>
     i + length p \<le> length s \<and> starts_with (drop i s) p
     \<and> (\<forall>j < i. \<not> starts_with (drop j s) p)"
proof (induction p s arbitrary: i rule: find_sub.induct)
  case (1 p)
  then show ?case by (simp add: starts_with_def split: if_splits)
next
  case (2 p x xs)
  show ?case
  proof (cases "starts_with (x # xs) p")
    case True
    with "2.prems" show ?thesis
      by (auto dest: starts_with_length)
  next
    case False
    with "2.prems" obtain k where k: "find_sub p xs = Some k" "i = Suc k"
      by auto
    from "2.IH" [OF False k(1)] k(2) False show ?thesis
      by (auto simp: less_Suc_eq_0_disj)
  qed
qed

lemma find_sub_None_iff:
  "find_sub p s = None \<longleftrightarrow> (\<forall>j \<le> length s. \<not> starts_with (drop j s) p)"
proof (induction p s rule: find_sub.induct)
  case (1 p)
  then show ?case by (auto simp: starts_with_def)
next
  case (2 p x xs)
  show ?case
  proof (cases "starts_with (x # xs) p")
    case True
    then show ?thesis by (auto intro: exI [of _ 0])
  next
    case False
    have "(\<forall>j \<le> length (x # xs). \<not> starts_with (drop j (x # xs)) p)
        \<longleftrightarrow> (\<forall>j \<le> length xs. \<not> starts_with (drop j xs) p)"
      using False by (metis Suc_le_mono drop_Suc_Cons drop0 length_Cons not0_implies_Suc)
    with "2.IH" [OF False] False show ?thesis by simp
  qed
qed

lemma find_sub_append [str_facts]: "find_sub p s = Some i \<Longrightarrow> find_sub p (s @ t) = Some i"
proof (induction p s arbitrary: i rule: find_sub.induct)
  case (1 p)
  then show ?case
    by (cases t) (auto simp: starts_with_def split: if_splits)
next
  case (2 p x xs)
  show ?case
  proof (cases "starts_with (x # xs) p")
    case True
    with "2.prems" starts_with_append [OF True, of t] show ?thesis by simp
  next
    case False
    with "2.prems" obtain k where k: "find_sub p xs = Some k" "i = Suc k"
      by auto
    from find_sub_SomeD [OF k(1)] have "length p \<le> length (x # xs)"
      by simp
    then have "take (length p) ((x # xs) @ t) = take (length p) (x # xs)"
      by (simp only: take_append) simp
    then have "\<not> starts_with (x # xs @ t) p"
      using False by (simp add: starts_with_def)
    with "2.IH" [OF False k(1)] k(2) show ?thesis by simp
  qed
qed

lemma find_from_bound: "find_from p pos s = Some e \<Longrightarrow> pos \<le> e \<and> e + length p \<le> length s"
  by (auto simp: find_from_def split: if_splits dest!: find_sub_SomeD)

text \<open>A one-byte pattern: the index of the first byte equal to \<open>c\<close>.\<close>

lemma starts_with_single [simp]: "starts_with s [c] \<longleftrightarrow> s \<noteq> [] \<and> hd s = c"
  by (cases s) (auto simp: starts_with_def)

lemma find_sub_single_None: "find_sub [c] s = None \<longleftrightarrow> c \<notin> set s"
  by (induction s) auto

lemma find_sub_single_append:
  "c \<notin> set s \<Longrightarrow> find_sub [c] (s @ c # t) = Some (length s)"
  by (induction s) auto

lemma find_sub_single_take: "find_sub [c] s = Some i \<Longrightarrow> c \<notin> set (take i s)"
  by (induction s arbitrary: i) (auto split: if_splits)

lemma find_sub_takeWhile:
  "find_sub [c] s = Some i \<Longrightarrow> take i s = takeWhile (\<lambda>x. x \<noteq> c) s \<and> drop (i + 1) s = tl (dropWhile (\<lambda>x. x \<noteq> c) s)"
  by (induction s arbitrary: i) (auto split: if_splits)

lemma find_sub_None_takeWhile:
  "find_sub [c] s = None \<Longrightarrow> takeWhile (\<lambda>x. x \<noteq> c) s = s"
  "find_sub [c] s = None \<Longrightarrow> dropWhile (\<lambda>x. x \<noteq> c) s = []"
  by (induction s) (auto split: if_splits)

lemma find_sub_skip [str_facts]:
  "c \<notin> set l \<Longrightarrow> find_sub (c # p) (l @ s) = map_option (\<lambda>i. length l + i) (find_sub (c # p) s)"
proof (induction l)
  case Nil
  then show ?case by (simp add: option.map_ident)
next
  case (Cons a l)
  then have "\<not> starts_with (a # l @ s) (c # p)"
    by (auto simp: starts_with_def)
  with Cons show ?case by (simp add: option.map_comp o_def)
qed

text \<open>A pattern of two bytes, as \<open>find("\r\n")\<close> uses it.\<close>

lemma starts_with_pair: "starts_with s [c, d] \<longleftrightarrow> (\<exists>t. s = c # d # t)"
  by (cases s rule: list.exhaust; cases "tl s") (auto simp: starts_with_def)

lemma find_sub_pair_append:
  "c \<notin> set s \<Longrightarrow> find_sub [c, d] (s @ c # d # t) = Some (length s)"
  by (induction s) (auto simp: starts_with_def)

section \<open>Decimal and hexadecimal numbers\<close>

text \<open>\<open>std::to_string\<close> of a non-negative number.\<close>

fun to_dec :: "nat \<Rightarrow> bytes" where
  "to_dec n = (if n < 10 then [48 + of_nat n] else to_dec (n div 10) @ [48 + of_nat (n mod 10)])"

declare to_dec.simps [simp del]

text \<open>
  \<open>std::from_chars\<close> on an unsigned 64-bit target: the longest prefix of digits of the base;
  \<open>None\<close> stands for a result whose \<open>ec\<close> is set (no digit, or a value that does not fit).
  What follows the digits is ignored, as the callers ignore \<open>result.ptr\<close>.
\<close>

definition digit_val :: "nat \<Rightarrow> byte \<Rightarrow> nat option" where
  "digit_val base c =
     (let v = (if 48 \<le> c \<and> c \<le> 57 then unat c - 48
               else if 97 \<le> c \<and> c \<le> 122 then unat c - 87
               else if 65 \<le> c \<and> c \<le> 90 then unat c - 55
               else base)
      in if v < base then Some v else None)"

fun digits_prefix :: "nat \<Rightarrow> bytes \<Rightarrow> nat list" where
  "digits_prefix base [] = []"
| "digits_prefix base (c # cs) =
     (case digit_val base c of None \<Rightarrow> [] | Some v \<Rightarrow> v # digits_prefix base cs)"

definition from_chars :: "nat \<Rightarrow> bytes \<Rightarrow> nat option" where
  "from_chars base s =
     (let ds = digits_prefix base s; v = foldl (\<lambda>acc d. acc * base + d) 0 ds
      in if ds = [] \<or> 2 ^ 64 \<le> v then None else Some v)"

lemma digits_prefix_append:
  "\<forall>c \<in> set s. digit_val b c \<noteq> None \<Longrightarrow>
     digits_prefix b (s @ t) = map (\<lambda>c. the (digit_val b c)) s @ digits_prefix b t"
  by (induction s) auto

lemma digit_val_dec:
  assumes "n < 10"
  shows "digit_val 10 (48 + of_nat n) = Some n"
proof -
  have "unat (48 + of_nat n :: byte) = 48 + n"
    using assms by (simp add: unat_word_ariths unat_of_nat)
  then show ?thesis
    using assms by (simp add: digit_val_def word_le_nat_alt)
qed

lemma to_dec_digits: "c \<in> set (to_dec n) \<Longrightarrow> digit_val 10 c \<noteq> None"
proof (induction n rule: to_dec.induct)
  case (1 n)
  then show ?case
    by (cases "n < 10") (auto simp: to_dec.simps [of n] digit_val_dec)
qed

lemma to_dec_value:
  "foldl (\<lambda>acc d. acc * 10 + d) 0 (map (\<lambda>c. the (digit_val 10 c)) (to_dec n)) = n"
proof (induction n rule: to_dec.induct)
  case (1 n)
  then show ?case
    by (cases "n < 10") (simp_all add: to_dec.simps [of n] digit_val_dec)
qed

lemma to_dec_not_Nil [simp]: "to_dec n \<noteq> []"
  by (subst to_dec.simps) simp

text \<open>Printing and parsing a decimal number, whatever non-digit follows.\<close>

lemma from_chars_to_dec:
  assumes "n < 2 ^ 64" and "digits_prefix 10 rest = []"
  shows "from_chars 10 (to_dec n @ rest) = Some n"
proof -
  have "digits_prefix 10 (to_dec n @ rest) = map (\<lambda>c. the (digit_val 10 c)) (to_dec n)"
    using assms(2) digits_prefix_append [of "to_dec n" 10 rest] to_dec_digits by force
  then show ?thesis
    using assms(1) by (simp add: from_chars_def to_dec_value)
qed

text \<open>Hexadecimal digits, as \<open>%02x\<close> prints a byte.\<close>

definition hex_char :: "nat \<Rightarrow> byte" where
  "hex_char d = (if d < 10 then word_of_nat (48 + d) else word_of_nat (87 + d))"

lemma digit_val_hex_char: "d < 16 \<Longrightarrow> digit_val 16 (hex_char d) = Some d"
proof -
  assume "d < 16"
  then have "unat (hex_char d) = (if d < 10 then 48 + d else 87 + d)"
    by (simp add: hex_char_def unat_word_ariths unat_of_nat)
  with \<open>d < 16\<close> show ?thesis
    by (simp add: digit_val_def word_le_nat_alt Let_def)
qed

definition hex_of :: "bytes \<Rightarrow> bytes" where
  "hex_of bs = concat (map (\<lambda>b. [hex_char (unat b div 16), hex_char (unat b mod 16)]) bs)"

section \<open>Integers on the wire\<close>

lemma unat_byte_less: "unat (b :: byte) < 256"
proof -
  have "unat b < 2 ^ LENGTH(8)"
    by (rule unsigned_less)
  then show ?thesis by simp
qed

lemma byte_bit_ge [simp]: "8 \<le> n \<Longrightarrow> bit (b :: byte) n = False"
  using bit_imp_le_length by fastforce

text \<open>\<open>(b0 << 8) | b1\<close> and its longer forms, and the bytes of an integer, most significant first.\<close>

definition be16 :: "byte \<Rightarrow> byte \<Rightarrow> u16" where
  "be16 b0 b1 = push_bit 8 (ucast b0) OR ucast b1"

definition be24 :: "byte \<Rightarrow> byte \<Rightarrow> byte \<Rightarrow> u32" where
  "be24 b0 b1 b2 = push_bit 16 (ucast b0) OR push_bit 8 (ucast b1) OR ucast b2"

definition be32 :: "byte \<Rightarrow> byte \<Rightarrow> byte \<Rightarrow> byte \<Rightarrow> u32" where
  "be32 b0 b1 b2 b3 =
     push_bit 24 (ucast b0) OR push_bit 16 (ucast b1) OR push_bit 8 (ucast b2) OR ucast b3"

definition bytes16 :: "u16 \<Rightarrow> bytes" where
  "bytes16 w = [ucast (drop_bit 8 w), ucast w]"

definition bytes24 :: "u32 \<Rightarrow> bytes" where
  "bytes24 w = [ucast (drop_bit 16 w), ucast (drop_bit 8 w), ucast w]"

definition bytes32 :: "u32 \<Rightarrow> bytes" where
  "bytes32 w = [ucast (drop_bit 24 w), ucast (drop_bit 16 w), ucast (drop_bit 8 w), ucast w]"

text \<open>The loop \<open>v = (v << 8) | b\<close> over a byte string.\<close>

definition be_fold :: "bytes \<Rightarrow> u64" where
  "be_fold bs = foldl (\<lambda>v b. push_bit 8 v OR ucast b) 0 bs"

lemma length_bytes16 [simp]: "length (bytes16 w) = 2"
  by (simp add: bytes16_def)

lemma length_bytes32 [simp]: "length (bytes32 w) = 4"
  by (simp add: bytes32_def)

lemma length_bytes24 [simp]: "length (bytes24 w) = 3"
  by (simp add: bytes24_def)

lemma be16_bytes16 [wire_facts]: "be16 (ucast (drop_bit 8 w)) (ucast w) = w" (is "?l = w")
proof (rule bit_word_eqI)
  fix n assume "n < LENGTH(16)"
  then consider "n < 8" | "8 \<le> n" "n < 16"
    by fastforce
  then show "bit ?l n = bit w n"
    by cases (auto simp: be16_def bit_simps)
qed

lemma be32_bytes32 [wire_facts]:
  "be32 (ucast (drop_bit 24 w)) (ucast (drop_bit 16 w)) (ucast (drop_bit 8 w)) (ucast w) = w"
  (is "?l = w")
proof (rule bit_word_eqI)
  fix n assume "n < LENGTH(32)"
  then consider "n < 8" | "8 \<le> n" "n < 16" | "16 \<le> n" "n < 24" | "24 \<le> n" "n < 32"
    by fastforce
  then show "bit ?l n = bit w n"
    by cases (auto simp: be32_def bit_simps)
qed

lemma be24_bytes24 [wire_facts]:
  assumes "unat w < 2 ^ 24"
  shows "be24 (ucast (drop_bit 16 w)) (ucast (drop_bit 8 w)) (ucast w) = w" (is "?l = w")
proof (rule bit_word_eqI)
  fix n assume "n < LENGTH(32)"
  have "take_bit 24 w = w"
    using assms by (simp add: take_bit_eq_mod word_unat_eq_iff unat_mod_distrib)
  then have high: "bit w n \<longleftrightarrow> n < 24 \<and> bit w n"
    by (metis bit_take_bit_iff)
  from \<open>n < LENGTH(32)\<close> consider "n < 8" | "8 \<le> n" "n < 16" | "16 \<le> n" "n < 24" | "24 \<le> n"
    by fastforce
  then show "bit ?l n = bit w n"
    using high by cases (auto simp: be24_def bit_simps)
qed

lemma unat_push_or [wire_facts]:
  fixes w :: "'a::len word" and b :: byte
  assumes "unat w < 2 ^ (LENGTH('a) - 8)" and "8 < LENGTH('a)"
  shows "unat (push_bit 8 w OR ucast b) = unat w * 256 + unat b"
proof -
  have p: "(2::nat) ^ LENGTH('a) = 2 ^ (LENGTH('a) - 8) * 256"
    using assms(2) power_add [of "2::nat" "LENGTH('a) - 8" 8] by simp
  have b: "unat b < 256"
    by (rule unat_byte_less)
  have "push_bit 8 w AND ucast b = (0 :: 'a word)"
    by (rule bit_word_eqI) (auto simp: bit_simps)
  then have e: "push_bit 8 w OR ucast b = push_bit 8 w + (ucast b :: 'a word)"
    by (simp add: disjunctive_add_eq_or)
  have 1: "unat (push_bit 8 w) = unat w * 256"
    using assms p unat_mult_lem [of w 256]
    by (simp add: push_bit_eq_mult unsigned_push_bit_eq take_bit_eq_mod)
  have "(256::nat) \<le> 2 ^ LENGTH('a)"
    using p by simp
  with b have "unat b < 2 ^ LENGTH('a)"
    by linarith
  then have 2: "unat (ucast b :: 'a word) = unat b"
    by (simp add: unsigned_ucast_eq take_bit_eq_mod)
  have "unat w * 256 + unat b < 2 ^ LENGTH('a)"
    using assms(1) p b by simp
  then show ?thesis
    unfolding e using unat_add_lem [of "push_bit 8 w" "ucast b :: 'a word"] unfolding 1 2 by simp
qed

text \<open>The value of a big-endian byte string, and the loop computes it while it fits.\<close>

definition be_nat :: "bytes \<Rightarrow> nat" where
  "be_nat bs = foldl (\<lambda>v b. v * 256 + unat b) 0 bs"

lemma be_nat_snoc: "be_nat (bs @ [b]) = be_nat bs * 256 + unat b"
  by (simp add: be_nat_def)

lemma be_nat_less: "be_nat bs < 256 ^ length bs"
proof (induction bs rule: rev_induct)
  case Nil
  then show ?case by (simp add: be_nat_def)
next
  case (snoc b bs)
  have "unat b < 256"
    by (rule unat_byte_less)
  with snoc show ?case
    by (simp add: be_nat_snoc)
qed

lemma unat_be_fold: "length bs \<le> 8 \<Longrightarrow> unat (be_fold bs) = be_nat bs"
proof (induction bs rule: rev_induct)
  case Nil
  then show ?case by (simp add: be_fold_def be_nat_def)
next
  case (snoc b bs)
  have "be_nat bs < 256 ^ length bs"
    by (rule be_nat_less)
  also have "\<dots> \<le> 256 ^ 7"
    using snoc.prems by (intro power_increasing) auto
  finally have "unat (be_fold bs) < 2 ^ (LENGTH(64) - 8)"
    using snoc by simp
  from unat_push_or [OF this, of b] snoc show ?case
    by (simp add: be_fold_def be_nat_snoc)
qed

text \<open>The bytes \<open>(v >> 8*i) & 0xFF\<close> for \<open>i\<close> from \<open>k-1\<close> down to \<open>0\<close>.\<close>

fun nat_bytes :: "nat \<Rightarrow> nat \<Rightarrow> bytes" where
  "nat_bytes 0 v = []"
| "nat_bytes (Suc k) v = nat_bytes k (v div 256) @ [of_nat (v mod 256)]"

lemma length_nat_bytes [simp]: "length (nat_bytes k v) = k"
  by (induction k arbitrary: v) auto

lemma unat_of_nat_byte [simp]: "unat (of_nat (v mod 256) :: byte) = v mod 256"
  by (simp add: unat_of_nat)

lemma be_nat_nat_bytes [wire_facts]: "v < 256 ^ k \<Longrightarrow> be_nat (nat_bytes k v) = v"
proof (induction k arbitrary: v)
  case 0
  then show ?case by (simp add: be_nat_def)
next
  case (Suc k)
  from Suc.prems have "v div 256 < 256 ^ k"
    by (simp add: less_mult_imp_div_less mult.commute)
  with Suc.IH show ?case
    by (simp add: be_nat_snoc)
qed

text \<open>A small number as a byte and back.\<close>

lemma byte_of_u64:
  fixes v :: u64
  assumes "unat v < 256"
  shows "unat (ucast v :: byte) = unat v" and "ucast (ucast v :: byte) = v"
  using assms by (simp_all add: word_unat_eq_iff unsigned_ucast_eq take_bit_eq_mod unat_mod)

text \<open>Single bits of a byte.\<close>

lemma bit_small:
  fixes w :: "'a::len word"
  assumes "unat w < 2 ^ k" and "k \<le> j"
  shows "\<not> bit w j"
proof
  assume "bit w j"
  then have "bit (unat w) j"
    by (auto simp: bit_unsigned_iff)
  moreover have "unat w < 2 ^ j"
    using assms by (meson less_le_trans one_le_numeral power_increasing)
  ultimately show False
    by (simp add: bit_iff_odd)
qed

lemma byte_masks: "(15 :: byte) = mask 4" "(7 :: byte) = mask 3" "(127 :: byte) = mask 7"
  by (simp_all add: mask_numeral)

lemma bit_byte_128: "bit (128 :: byte) n \<longleftrightarrow> n = 7"
  using bit_exp_iff [where 'a = byte, of 7 n] by auto

lemmas byte_bits = bit_and_iff bit_or_iff bit_byte_128 bit_mask_iff bit_drop_bit_eq comp_def

lemma high_bit:
  fixes b :: byte
  assumes "unat b < 128"
  shows "(b OR 128) AND 128 = 128" "b AND 128 = 0" "(b OR 128) AND 127 = b" "b AND 127 = b"
proof -
  have hi: "j < 7" if "bit b j" for j
    using assms bit_small [of b 7 j] that by (simp add: not_le [symmetric]) blast
  show "(b OR 128) AND 128 = 128"
    by (rule bit_word_eqI, unfold byte_bits) auto
  show "b AND 128 = 0"
    by (rule bit_word_eqI, unfold byte_bits) (auto dest: hi)
  show "(b OR 128) AND 127 = b"
    unfolding byte_masks by (rule bit_word_eqI, unfold byte_bits) (auto dest: hi)
  show "b AND 127 = b"
    unfolding byte_masks by (rule bit_word_eqI, unfold byte_bits) (auto dest: hi)
qed

section \<open>Maps with string keys\<close>

text \<open>
  An \<open>unordered_map\<close> is an association list without duplicate keys; the list is one order
  in which the map may be iterated.  \<open>m[k] = v\<close> replaces the value in place or adds the key.
\<close>

type_synonym 'v smap = "(bytes \<times> 'v) list"

fun hput :: "'k \<Rightarrow> 'v \<Rightarrow> ('k \<times> 'v) list \<Rightarrow> ('k \<times> 'v) list" where
  "hput k v [] = [(k, v)]"
| "hput k v ((a, b) # r) = (if a = k then (a, v) # r else (a, b) # hput k v r)"

definition hdel :: "'k \<Rightarrow> ('k \<times> 'v) list \<Rightarrow> ('k \<times> 'v) list" where
  "hdel k m = filter (\<lambda>(a, b). a \<noteq> k) m"

lemma map_of_hput [simp]: "map_of (hput k v m) = (map_of m)(k \<mapsto> v)"
  by (induction m) auto

lemma hput_new: "k \<notin> fst ` set m \<Longrightarrow> hput k v m = m @ [(k, v)]"
  by (induction m) auto

lemma keys_hput: "set (map fst (hput k v m)) = insert k (set (map fst m))"
  by (induction m rule: hput.induct) (simp_all add: insert_commute)

lemma distinct_hput [simp]: "distinct (map fst m) \<Longrightarrow> distinct (map fst (hput k v m))"
  by (induction k v m rule: hput.induct) (auto simp: keys_hput [unfolded set_map])

lemma set_hput_subset: "set (hput k v m) \<subseteq> insert (k, v) (set m)"
  by (induction m) (auto split: if_splits)

lemma map_of_hdel [simp]: "map_of (hdel k m) = (map_of m)(k := None)"
  by (induction m) (auto simp: hdel_def)

lemma distinct_hdel [simp]: "distinct (map fst m) \<Longrightarrow> distinct (map fst (hdel k m))"
  by (induction m) (auto simp: hdel_def)

end
