(* ===== verification/Hpack_Tables.thy ===== *)
theory Hpack_Tables
  imports Prelude "HOL-Library.Product_Lexorder"
begin

text \<open>
  The constant tables of HPACK as \<open>src/http2.cpp\<close> has them: the Huffman code
  (\<open>HUFFMAN_TABLE\<close>, code and length of each symbol), the two-level lookup structure the
  decoder builds from it (\<open>struct HuffmanLookup\<close>), and the static header table.

  Shown: the direct-access table is exact: an index of ten bits holds the last symbol in table order whose code is a prefix of
  those bits, and nothing if there is none.  (The code as a whole is not prefix-free: one of its entries is wrong, see \<open>Huffman\<close>.)
\<close>

section \<open>The Huffman code\<close>

text \<open>Entries are (code, number of bits); the codes have at most 30 bits.\<close>

definition HUFFMAN_TABLE :: "(nat \<times> nat) list" where
  "HUFFMAN_TABLE = [
      (0x1ff8, 13), (0x7fffd8, 23), (0xfffffe2, 28), (0xfffffe3, 28), (0xfffffe4, 28), (0xfffffe5, 28),
      (0xfffffe6, 28), (0xfffffe7, 28), (0xfffffe8, 28), (0xffffea, 24), (0x3ffffffc, 30), (0xfffffe9, 28),
      (0xfffffea, 28), (0x3ffffffd, 30), (0xfffffeb, 28), (0xfffffec, 28), (0xfffffed, 28), (0xfffffee, 28),
      (0xfffffef, 28), (0xffffff0, 28), (0xffffff1, 28), (0xffffff2, 28), (0x3ffffffe, 30), (0xffffff3, 28),
      (0xffffff4, 28), (0xffffff5, 28), (0xffffff6, 28), (0xffffff7, 28), (0xffffff8, 28), (0xffffff9, 28),
      (0xffffffa, 28), (0xffffffb, 28), (0x14, 6), (0x3f8, 10), (0x3f9, 10), (0xffa, 12),
      (0x1ff9, 13), (0x15, 6), (0xf8, 8), (0x7fa, 11), (0x3fa, 10), (0x3fb, 10),
      (0xf9, 8), (0x7fb, 11), (0xfa, 8), (0x16, 6), (0x17, 6), (0x18, 6),
      (0x0, 5), (0x1, 5), (0x2, 5), (0x19, 6), (0x1a, 6), (0x1b, 6),
      (0x1c, 6), (0x1d, 6), (0x1e, 6), (0x1f, 6), (0x5c, 7), (0xfb, 8),
      (0x7ffc, 15), (0x20, 6), (0xffb, 12), (0x3fc, 10), (0x1ffa, 13), (0x21, 6),
      (0x5d, 7), (0x5e, 7), (0x5f, 7), (0x60, 7), (0x61, 7), (0x62, 7),
      (0x63, 7), (0x64, 7), (0x65, 7), (0x66, 7), (0x67, 7), (0x68, 7),
      (0x69, 7), (0x6a, 7), (0x6b, 7), (0x6c, 7), (0x6d, 7), (0x6e, 7),
      (0x6f, 7), (0x70, 7), (0x71, 7), (0x72, 7), (0xfc, 8), (0x73, 7),
      (0xfd, 8), (0x1ffb, 13), (0x7fff0, 19), (0x1ffc, 13), (0x3ffc, 14), (0x22, 6),
      (0x7ffd, 15), (0x3, 5), (0x23, 6), (0x4, 5), (0x24, 6), (0x5, 5),
      (0x25, 6), (0x26, 6), (0x27, 6), (0x6, 5), (0x74, 7), (0x75, 7),
      (0x28, 6), (0x29, 6), (0x2a, 6), (0x7, 5), (0x2b, 6), (0x76, 7),
      (0x2c, 6), (0x8, 5), (0x9, 5), (0x2d, 6), (0x77, 7), (0x78, 7),
      (0x79, 7), (0x7a, 7), (0x7b, 7), (0x7fffe, 19), (0x7fc, 11), (0x3ffd, 14),
      (0x1ffd, 13), (0xffffffc, 28), (0xfffe6, 20), (0x3fffd2, 22), (0xfffe7, 20), (0xfffe8, 20),
      (0x3fffd3, 22), (0x3fffd4, 22), (0x3fffd5, 22), (0x7fffd9, 23), (0x3fffd6, 22), (0x7fffda, 23),
      (0x7fffdb, 23), (0x7fffdc, 23), (0x7fffdd, 23), (0x7fffde, 23), (0xffffeb, 24), (0x7fffdf, 23),
      (0xffffec, 24), (0xffffed, 24), (0x3fffd7, 22), (0x7fffe0, 23), (0xffffee, 24), (0x7fffe1, 23),
      (0x7fffe2, 23), (0x7fffe3, 23), (0x7fffe4, 23), (0x1fffdc, 21), (0x3fffd8, 22), (0x7fffe5, 23),
      (0x3fffd9, 22), (0x7fffe6, 23), (0x7fffe7, 23), (0xffffef, 24), (0x3fffda, 22), (0x1fffdd, 21),
      (0xfffe9, 20), (0x3fffdb, 22), (0x3fffdc, 22), (0x7fffe8, 23), (0x7fffe9, 23), (0x1fffde, 21),
      (0x7fffea, 23), (0x3fffdd, 22), (0x3fffde, 22), (0xfffff0, 24), (0x1fffdf, 21), (0x3fffdf, 22),
      (0x7fffeb, 23), (0x7fffec, 23), (0x1fffe0, 21), (0x1fffe1, 21), (0x3fffe0, 22), (0x1fffe2, 21),
      (0x7fffed, 23), (0x3fffe1, 22), (0x7fffee, 23), (0x7fffef, 23), (0xfffea, 20), (0x3fffe2, 22),
      (0x3fffe3, 22), (0x3fffe4, 22), (0x7ffff0, 23), (0x3fffe5, 22), (0x3fffe6, 22), (0x7ffff1, 23),
      (0x3ffffe0, 26), (0x3ffffe1, 26), (0xfffeb, 20), (0x7fff1, 19), (0x3fffe7, 22), (0x7ffff2, 23),
      (0x3fffe8, 22), (0x1ffffec, 25), (0x3ffffe2, 26), (0x3ffffe3, 26), (0x3ffffe4, 26), (0x7ffffde, 27),
      (0x7ffffdf, 27), (0x3ffffe5, 26), (0xfffff1, 24), (0x1ffffed, 25), (0x7fff2, 19), (0x1fffe3, 21),
      (0x3ffffe6, 26), (0x7ffffe0, 27), (0x7ffffe1, 27), (0x3ffffe7, 26), (0x7ffffe2, 27), (0xfffff2, 24),
      (0x1fffe4, 21), (0x1fffe5, 21), (0x3ffffe8, 26), (0x3ffffe9, 26), (0xffffffd, 28), (0x7ffffe3, 27),
      (0x7ffffe4, 27), (0x7ffffe5, 27), (0xfffec, 20), (0xfffff3, 24), (0xfffed, 20), (0x1fffe6, 21),
      (0x3fffe9, 22), (0x1fffe7, 21), (0x1fffe8, 21), (0x7ffff3, 23), (0x3fffea, 22), (0x3fffeb, 22),
      (0x1ffffee, 25), (0x1ffffef, 25), (0xfffff4, 24), (0xfffff5, 24), (0x3ffffea, 26), (0x7ffff4, 23),
      (0x3ffffeb, 26), (0x7ffffe6, 27), (0x3ffffec, 26), (0x3ffffed, 26), (0x7ffffe7, 27), (0x7ffffe8, 27),
      (0x7ffffe9, 27), (0x7ffffea, 27), (0x7ffffeb, 27), (0xffffffe, 28), (0x7ffffec, 27), (0x7ffffed, 27),
      (0x7ffffee, 27), (0x7ffffef, 27), (0x7fffff0, 27), (0x3ffffee, 26), (0x3fffffff, 30)]"

definition HUFF_LOOKUP_BITS :: nat where "HUFF_LOOKUP_BITS = 10"
definition HUFF_LOOKUP_SIZE :: nat where "HUFF_LOOKUP_SIZE = 1024"

text \<open>
  \<open>HuffmanLookup\<close>: the loop of the constructor writes every symbol of at most ten bits
  to all indices that start with its code, and collects the others, as long as the array
  of 160 has room; then the long codes are sorted by length and code.
\<close>

definition fill_entry :: "nat \<Rightarrow> nat \<Rightarrow> nat \<Rightarrow> (int \<times> nat) list \<Rightarrow> (int \<times> nat) list" where
  "fill_entry symbol code bits table =
     (let shift = HUFF_LOOKUP_BITS - bits; base = code * 2 ^ shift
      in fold (\<lambda>j t. if base + j < HUFF_LOOKUP_SIZE then t[base + j := (int symbol, bits)] else t)
           [0..<2 ^ shift] table)"

definition add_symbol :: "nat \<Rightarrow> (int \<times> nat) list \<Rightarrow> (int \<times> nat) list" where
  "add_symbol symbol table =
     (let (code, bits) = HUFFMAN_TABLE ! symbol
      in if bits \<le> HUFF_LOOKUP_BITS then fill_entry symbol code bits table else table)"

definition fast_table :: "(int \<times> nat) list" where
  "fast_table = fold add_symbol [0..<256] (replicate HUFF_LOOKUP_SIZE (-1, 0))"

definition add_long_code :: "nat \<Rightarrow> (nat \<times> nat \<times> byte) list \<Rightarrow> (nat \<times> nat \<times> byte) list" where
  "add_long_code symbol long =
     (let (code, bits) = HUFFMAN_TABLE ! symbol
      in if bits \<le> HUFF_LOOKUP_BITS then long
         else if length long < 160 then long @ [(bits, code, of_nat symbol)] else long)"

definition long_codes :: "(nat \<times> nat \<times> byte) list" where
  "long_codes = sort_key (\<lambda>(bits, code, symbol). (bits, code)) (fold add_long_code [0..<256] [])"

section \<open>The direct-access table is exact\<close>

lemma length_fold_update:
  "length (fold (\<lambda>j t. if P j then t[f j := v] else t) js t) = length t"
  by (induction js arbitrary: t) auto

lemma length_fill_entry [simp]: "length (fill_entry s c b t) = length t"
  unfolding fill_entry_def Let_def by (rule length_fold_update)

lemma length_add_symbol [simp]: "length (add_symbol s t) = length t"
  by (simp add: add_symbol_def split: prod.split)

lemma length_fold_add_symbol [simp]: "length (fold add_symbol ss t) = length t"
  by (induction ss arbitrary: t) auto

lemma length_fast_table [simp]: "length fast_table = 1024"
  by (simp add: fast_table_def HUFF_LOOKUP_SIZE_def)

lemma nth_fold_update:
  assumes "i < length t"
  shows "fold (\<lambda>j t. if base + j < length t then t[base + j := v] else t) [0..<n] t ! i
       = (if base \<le> i \<and> i < base + n then v else t ! i)"
proof (induction n)
  case (Suc n)
  have len: "length (fold (\<lambda>j t. if base + j < length t then t[base + j := v] else t) [0..<n] t) = length t"
    for t :: "'a list"
    by (induction n) auto
  show ?case
    using Suc assms by (auto simp: len nth_list_update less_Suc_eq)
qed auto

lemma fold_update_cong_length:
  assumes "length t = N"
  shows "fold (\<lambda>j t. if base + j < N then t[base + j := v] else t) js t
       = fold (\<lambda>j t. if base + j < length t then t[base + j := v] else t) js t"
  using assms by (induction js arbitrary: t) auto

lemma nth_fill_entry:
  assumes "i < 1024" and "length t = 1024"
  shows "fill_entry s c b t ! i = (if i div 2 ^ (10 - b) = c then (int s, b) else t ! i)"
proof -
  have "(c * 2 ^ (10 - b) \<le> i \<and> i < c * 2 ^ (10 - b) + 2 ^ (10 - b)) = (i div 2 ^ (10 - b) = c)"
    using dividend_less_div_times [of "2 ^ (10 - b)" i] by (auto simp: div_nat_eqI ac_simps)
  then show ?thesis
    using assms nth_fold_update [of i t "c * 2 ^ (10 - b)" "(int s, b)" "2 ^ (10 - b)"]
    by (simp add: fill_entry_def HUFF_LOOKUP_BITS_def HUFF_LOOKUP_SIZE_def fold_update_cong_length Let_def)
qed

text \<open>The symbol whose code the index starts with, if any: the last one in table order.\<close>

definition covers :: "nat \<Rightarrow> nat \<Rightarrow> bool" where
  "covers i symbol = (let (code, bits) = HUFFMAN_TABLE ! symbol in bits \<le> 10 \<and> i div 2 ^ (10 - bits) = code)"

lemma nth_add_symbol:
  assumes "i < 1024" and "length t = 1024"
  shows "add_symbol s t ! i = (if covers i s then (int s, snd (HUFFMAN_TABLE ! s)) else t ! i)"
  using assms by (auto simp: add_symbol_def covers_def nth_fill_entry HUFF_LOOKUP_BITS_def split: prod.split)

lemma nth_fold_add_symbol:
  assumes "i < 1024" and "length t = 1024"
  shows "fold add_symbol ss t ! i =
     (case find (covers i) (rev ss) of None \<Rightarrow> t ! i | Some s \<Rightarrow> (int s, snd (HUFFMAN_TABLE ! s)))"
proof (induction ss rule: rev_induct)
  case (snoc s ss)
  then show ?case
    using assms by (simp add: nth_add_symbol)
qed simp

lemma nth_fast_table:
  assumes "i < 1024"
  shows "fast_table ! i =
     (case find (covers i) (rev [0..<256]) of None \<Rightarrow> (-1, 0) | Some s \<Rightarrow> (int s, snd (HUFFMAN_TABLE ! s)))"
  unfolding fast_table_def HUFF_LOOKUP_SIZE_def
  using nth_fold_add_symbol [OF assms, of "replicate 1024 (-1, 0)" "[0..<256]"] assms
  by (simp split: option.split del: upt_rec_numeral)

section \<open>The static header table\<close>

definition STATIC_TABLE :: "(bytes \<times> bytes) list" where
  "STATIC_TABLE = [
      (lit '''', lit ''''), (lit '':authority'', lit ''''),
      (lit '':method'', lit ''GET''), (lit '':method'', lit ''POST''),
      (lit '':path'', lit ''/''), (lit '':path'', lit ''/index.html''),
      (lit '':scheme'', lit ''http''), (lit '':scheme'', lit ''https''),
      (lit '':status'', lit ''200''), (lit '':status'', lit ''204''),
      (lit '':status'', lit ''206''), (lit '':status'', lit ''304''),
      (lit '':status'', lit ''400''), (lit '':status'', lit ''404''),
      (lit '':status'', lit ''500''), (lit ''accept-charset'', lit ''''),
      (lit ''accept-encoding'', lit ''gzip, deflate''), (lit ''accept-language'', lit ''''),
      (lit ''accept-ranges'', lit ''''), (lit ''accept'', lit ''''),
      (lit ''access-control-allow-origin'', lit ''''), (lit ''age'', lit ''''),
      (lit ''allow'', lit ''''), (lit ''authorization'', lit ''''),
      (lit ''cache-control'', lit ''''), (lit ''content-disposition'', lit ''''),
      (lit ''content-encoding'', lit ''''), (lit ''content-language'', lit ''''),
      (lit ''content-length'', lit ''''), (lit ''content-location'', lit ''''),
      (lit ''content-range'', lit ''''), (lit ''content-type'', lit ''''),
      (lit ''cookie'', lit ''''), (lit ''date'', lit ''''),
      (lit ''etag'', lit ''''), (lit ''expect'', lit ''''),
      (lit ''expires'', lit ''''), (lit ''from'', lit ''''),
      (lit ''host'', lit ''''), (lit ''if-match'', lit ''''),
      (lit ''if-modified-since'', lit ''''), (lit ''if-none-match'', lit ''''),
      (lit ''if-range'', lit ''''), (lit ''if-unmodified-since'', lit ''''),
      (lit ''last-modified'', lit ''''), (lit ''link'', lit ''''),
      (lit ''location'', lit ''''), (lit ''max-forwards'', lit ''''),
      (lit ''proxy-authenticate'', lit ''''), (lit ''proxy-authorization'', lit ''''),
      (lit ''range'', lit ''''), (lit ''referer'', lit ''''),
      (lit ''refresh'', lit ''''), (lit ''retry-after'', lit ''''),
      (lit ''server'', lit ''''), (lit ''set-cookie'', lit ''''),
      (lit ''strict-transport-security'', lit ''''), (lit ''transfer-encoding'', lit ''''),
      (lit ''user-agent'', lit ''''), (lit ''vary'', lit ''''),
      (lit ''via'', lit ''''), (lit ''www-authenticate'', lit '''')]"

definition STATIC_TABLE_SIZE :: nat where
  "STATIC_TABLE_SIZE = length STATIC_TABLE - 1"

end
