(* ===== verification/Huffman.thy ===== *)
theory Huffman
  imports Hpack_Tables
begin

text \<open>
  The Huffman decoder of \<open>src/http2.cpp\<close> (\<open>huffman_decode\<close>).  The accumulator \<open>acc\<close> is
  a 64-bit number and \<open>bits\<close> counts how many of its low bits are not decoded yet; shifts
  and masks are written as multiplication, \<open>div\<close> and \<open>mod\<close> by powers of two.

  Shown: what the decoder returns really is encoded in the input (soundness), strings over
  the symbols with five-bit codes come back (round trip), no symbol with a code of more
  than twelve bits can ever be decoded, and an input can be cut short silently.
\<close>

section \<open>The decoder\<close>

text \<open>The scan of the long codes, which stops at the first code longer than what is left.\<close>

fun scan_long :: "(nat \<times> nat \<times> byte) list \<Rightarrow> nat \<Rightarrow> nat \<Rightarrow> (byte \<times> nat) option" where
  "scan_long [] acc bits = None"
| "scan_long ((b, code, symbol) # long) acc bits =
     (if bits < b then None
      else if (acc div 2 ^ (bits - b)) mod 2 ^ b = code then Some (symbol, b)
      else scan_long long acc bits)"

definition lookup_index :: "nat \<Rightarrow> nat \<Rightarrow> nat" where
  "lookup_index acc bits =
     (if HUFF_LOOKUP_BITS \<le> bits
      then (acc div 2 ^ (bits - HUFF_LOOKUP_BITS)) mod HUFF_LOOKUP_SIZE
      else (acc * 2 ^ (HUFF_LOOKUP_BITS - bits)) mod HUFF_LOOKUP_SIZE)"

text \<open>One symbol from the front of the accumulator: the direct-access table, then the long codes.\<close>

definition next_symbol :: "nat \<Rightarrow> nat \<Rightarrow> (byte \<times> nat) option" where
  "next_symbol acc bits =
     (let (symbol, b) = fast_table ! lookup_index acc bits
      in if 0 \<le> symbol \<and> b \<le> bits then Some (of_int symbol, b)
         else scan_long long_codes acc bits)"

definition all_ones :: "nat \<Rightarrow> nat \<Rightarrow> bool" where
  "all_ones acc bits = (acc mod 2 ^ bits = 2 ^ bits - 1)"

text \<open>The inner loop either runs dry (\<open>Low\<close>) or returns from the function (\<open>Stop\<close>).\<close>

datatype huff_state = Low nat nat bytes | Stop "bytes option"

section \<open>Facts about the tables the loop rests on\<close>

lemma length_HUFFMAN_TABLE [simp]: "length HUFFMAN_TABLE = 257"
  by (simp add: HUFFMAN_TABLE_def)

lemma huffman_table_ok: "\<forall>(c, b) \<in> set HUFFMAN_TABLE. 5 \<le> b \<and> c < 2 ^ b"
  unfolding HUFFMAN_TABLE_def by simp

lemma code_length_bounds:
  assumes "s < 257"
  shows "5 \<le> snd (HUFFMAN_TABLE ! s)" and "fst (HUFFMAN_TABLE ! s) < 2 ^ snd (HUFFMAN_TABLE ! s)"
  using bspec [OF huffman_table_ok nth_mem [of s HUFFMAN_TABLE]] assms by (auto split: prod.splits)

lemma lookup_index_less [simp]: "lookup_index acc bits < 1024"
  by (simp add: lookup_index_def HUFF_LOOKUP_SIZE_def)

lemma fast_table_SomeD:
  assumes "i < 1024" and "fast_table ! i = (s, b)" and "0 \<le> s"
  shows "\<exists>n < 256. s = int n \<and> b = snd (HUFFMAN_TABLE ! n) \<and> covers i n"
proof (cases "find (covers i) (rev [0..<256])")
  case None
  with assms nth_fast_table show ?thesis
    by simp
next
  case (Some n)
  then have "n < 256" and "covers i n"
    using find_SomeD [OF Some] by (auto simp del: upt_rec_numeral)
  with Some assms nth_fast_table show ?thesis
    by (auto simp del: upt_rec_numeral)
qed

lemma set_add_long_codes:
  "set (fold add_long_code ss long)
     \<subseteq> set long \<union> {(b, c, of_nat s) | b c s. s \<in> set ss \<and> HUFFMAN_TABLE ! s = (c, b) \<and> 10 < b}"
proof (induction ss rule: rev_induct)
  case (snoc s ss)
  have "set (add_long_code s l) \<subseteq> set l \<union> {(b, c, of_nat s) | b c. HUFFMAN_TABLE ! s = (c, b) \<and> 10 < b}" for l
    by (auto simp: add_long_code_def HUFF_LOOKUP_BITS_def split: prod.splits if_splits)
  with snoc show ?case
    by fastforce
qed simp

lemma long_codesD:
  assumes "(b, c, s) \<in> set long_codes"
  shows "\<exists>n < 256. s = of_nat n \<and> HUFFMAN_TABLE ! n = (c, b) \<and> 10 < b"
  using assms set_add_long_codes [of "[0..<256]" "[]"]
  by (auto simp: long_codes_def simp del: upt_rec_numeral)

lemma scan_long_SomeD:
  assumes "scan_long long acc bits = Some (s, b)"
  shows "\<exists>c. (b, c, s) \<in> set long \<and> b \<le> bits \<and> (acc div 2 ^ (bits - b)) mod 2 ^ b = c"
  using assms by (induction long acc bits rule: scan_long.induct) (auto split: if_splits)

lemma top_bits_less: "acc < 2 ^ bits \<Longrightarrow> b \<le> bits \<Longrightarrow> acc div 2 ^ (bits - b) < 2 ^ b" for acc :: nat
  by (rule less_mult_imp_div_less) (simp flip: power_add)

text \<open>The decoded symbol's code is the front of the accumulator.\<close>

lemma lookup_index_front:
  assumes "acc < 2 ^ bits" and "b \<le> bits" and "b \<le> 10"
  shows "lookup_index acc bits div 2 ^ (10 - b) = (acc div 2 ^ (bits - b)) mod 2 ^ b"
proof (cases "10 \<le> bits")
  case True
  have "(1024::nat) = 2 ^ (10 - b) * 2 ^ b"
    using assms(3) by (simp flip: power_add)
  moreover have "(x mod (2 ^ (10 - b) * 2 ^ b)) div 2 ^ (10 - b) = (x div 2 ^ (10 - b)) mod 2 ^ b" for x :: nat
    by (simp add: mod_mult2_eq)
  moreover have "(acc div 2 ^ (bits - 10)) div 2 ^ (10 - b) = acc div 2 ^ (bits - b)"
    using True assms(3) by (simp add: div_mult2_eq [symmetric] flip: power_add)
  ultimately show ?thesis
    using True by (simp add: lookup_index_def HUFF_LOOKUP_BITS_def HUFF_LOOKUP_SIZE_def)
next
  case False
  then have "acc * 2 ^ (10 - bits) < 2 ^ bits * 2 ^ (10 - bits)"
    using assms(1) by simp
  also have "\<dots> = (1024::nat)"
    using False by (simp flip: power_add)
  finally have "lookup_index acc bits = acc * 2 ^ (10 - bits)"
    using False by (simp add: lookup_index_def HUFF_LOOKUP_BITS_def HUFF_LOOKUP_SIZE_def)
  moreover have "10 - b = (bits - b) + (10 - bits)"
    using False assms(2) by simp
  then have "(acc * 2 ^ (10 - bits)) div 2 ^ (10 - b) = acc div 2 ^ (bits - b)"
    by (simp add: power_add)
  moreover have "acc div 2 ^ (bits - b) < 2 ^ b"
    using assms(1,2) by (rule top_bits_less)
  ultimately show ?thesis
    by simp
qed

lemma next_symbol_SomeD:
  assumes "next_symbol acc bits = Some (s, b)" and "acc < 2 ^ bits"
  shows "b = snd (HUFFMAN_TABLE ! unat s) \<and> 5 \<le> b \<and> b \<le> bits
       \<and> acc div 2 ^ (bits - b) = fst (HUFFMAN_TABLE ! unat s)"
proof -
  obtain n c where n: "n < 256" "s = of_nat n" "HUFFMAN_TABLE ! n = (c, b)" "b \<le> bits"
      "(acc div 2 ^ (bits - b)) mod 2 ^ b = c"
  proof (cases "fast_table ! lookup_index acc bits")
    case (Pair f fb)
    show ?thesis
    proof (cases "0 \<le> f \<and> fb \<le> bits")
      case True
      with Pair assms(1) have *: "s = of_int f" "fb = b"
        by (auto simp: next_symbol_def)
      from fast_table_SomeD [OF lookup_index_less Pair] True * obtain m where
        m: "m < 256" "f = int m" "b = snd (HUFFMAN_TABLE ! m)" "covers (lookup_index acc bits) m"
        by auto
      obtain c where c: "HUFFMAN_TABLE ! m = (c, b)"
        using m(3) by (metis prod.collapse)
      with m have "b \<le> 10" "lookup_index acc bits div 2 ^ (10 - b) = c"
        by (auto simp: covers_def)
      moreover have "b \<le> bits"
        using True * by simp
      ultimately have "(acc div 2 ^ (bits - b)) mod 2 ^ b = c"
        using lookup_index_front [OF assms(2), of b] by simp
      with that [of m c] m(1,2) c *(1) \<open>b \<le> bits\<close> show ?thesis
        by simp
    next
      case False
      with Pair assms(1) have "scan_long long_codes acc bits = Some (s, b)"
        by (auto simp: next_symbol_def split: if_splits)
      with scan_long_SomeD long_codesD that show ?thesis
        by metis
    qed
  qed
  moreover have "acc div 2 ^ (bits - b) < 2 ^ b"
    using assms(2) n(4) by (rule top_bits_less)
  moreover have "unat s = n"
    using n(1,2) by (simp add: unat_of_nat)
  ultimately show ?thesis
    using code_length_bounds [of n] by auto
qed

section \<open>The loops\<close>

lemma next_symbol_progress:
  assumes "next_symbol acc bits = Some (s, b)"
  shows "0 < b"
proof (cases "fast_table ! lookup_index acc bits")
  case (Pair f fb)
  show ?thesis
  proof (cases "0 \<le> f \<and> fb \<le> bits")
    case True
    with Pair assms have "fb = b"
      by (auto simp: next_symbol_def)
    with fast_table_SomeD [OF lookup_index_less Pair] True obtain n where
      "n < 256" "b = snd (HUFFMAN_TABLE ! n)"
      by auto
    with code_length_bounds(1) [of n] show ?thesis
      by simp
  next
    case False
    with Pair assms have "scan_long long_codes acc bits = Some (s, b)"
      by (auto simp: next_symbol_def split: if_splits)
    from scan_long_SomeD [OF this] long_codesD show ?thesis
      by fastforce
  qed
qed

function huff_while :: "nat \<Rightarrow> nat \<Rightarrow> bytes \<Rightarrow> huff_state" where
  "huff_while acc bits result =
     (if 5 \<le> bits then
        case next_symbol acc bits of
          Some (symbol, b) \<Rightarrow> huff_while (acc mod 2 ^ (bits - b)) (bits - b) (result @ [symbol])
        | None \<Rightarrow> Stop (if bits \<le> 7 \<and> all_ones acc bits then Some result else None)
      else Low acc bits result)"
  by pat_completeness auto
termination
  by (relation "measure (\<lambda>(acc, bits, result). bits)") (auto dest: next_symbol_progress)

declare huff_while.simps [simp del]

fun huff_bytes :: "nat \<Rightarrow> nat \<Rightarrow> bytes \<Rightarrow> bytes \<Rightarrow> huff_state" where
  "huff_bytes acc bits result [] = Low acc bits result"
| "huff_bytes acc bits result (d # data) =
     (case huff_while ((acc * 2 ^ 8) mod 2 ^ 64 + unat d) (bits + 8) result of
        Low acc bits result \<Rightarrow> huff_bytes acc bits result data
      | Stop r \<Rightarrow> Stop r)"

definition huffman_decode :: "bytes \<Rightarrow> bytes option" where
  "huffman_decode data =
     (case huff_bytes 0 0 [] data of
        Stop r \<Rightarrow> r
      | Low acc bits result \<Rightarrow>
          if 0 < bits then if 7 < bits then None
                           else if all_ones acc bits then Some result else None
          else Some result)"

section \<open>Soundness\<close>

text \<open>A number as a bit string, most significant bit first; the encoding the table defines.\<close>

definition to_bits :: "nat \<Rightarrow> nat \<Rightarrow> bool list" where
  "to_bits n x = map (\<lambda>i. odd (x div 2 ^ i)) (rev [0..<n])"

definition huffman_code :: "byte \<Rightarrow> bool list" where
  "huffman_code s = (let (code, bits) = HUFFMAN_TABLE ! unat s in to_bits bits code)"

definition huffman_encode :: "bytes \<Rightarrow> bool list" where
  "huffman_encode s = concat (map huffman_code s)"

definition byte_bits_of :: "bytes \<Rightarrow> bool list" where
  "byte_bits_of data = concat (map (\<lambda>d. to_bits 8 (unat d)) data)"

lemma to_bits_rec:
  "to_bits 0 x = []" "to_bits (Suc n) x = odd (x div 2 ^ n) # to_bits n x"
  "to_bits (numeral k) x = odd (x div 2 ^ pred_numeral k) # to_bits (pred_numeral k) x"
  by (simp_all add: to_bits_def numeral_eq_Suc)

lemma length_to_bits [simp]: "length (to_bits n x) = n"
  by (simp add: to_bits_def)

lemma length_huffman_code: "length (huffman_code s) = snd (HUFFMAN_TABLE ! unat s)"
  by (simp add: huffman_code_def split: prod.split)

lemma to_bits_cong: "x mod 2 ^ n = y mod 2 ^ n \<Longrightarrow> to_bits n x = to_bits n y"
proof -
  assume eq: "x mod 2 ^ n = y mod 2 ^ n"
  have "odd (z div 2 ^ i) = odd ((z mod 2 ^ n) div 2 ^ i)" if "i < n" for z i :: nat
    using that bit_take_bit_iff [of n z i] unfolding bit_iff_odd take_bit_eq_mod by simp
  with eq have "odd (x div 2 ^ i) = odd (y div 2 ^ i)" if "i < n" for i
    using that by metis
  then show ?thesis
    by (auto simp: to_bits_def)
qed

lemma to_bits_append: "to_bits (m + n) x = to_bits m (x div 2 ^ n) @ to_bits n x"
proof -
  have "[0..<m + n] = [0..<n] @ map (\<lambda>i. i + n) [0..<m]"
    using upt_add_eq_append [of 0 n m] by (simp add: map_add_upt add.commute)
  then have "rev [0..<m + n] = map (\<lambda>i. i + n) (rev [0..<m]) @ rev [0..<n]"
    by (simp add: rev_map)
  then show ?thesis
    by (simp add: to_bits_def power_add div_mult2_eq [symmetric] mult.commute)
qed

lemma to_bits_split:
  assumes "b \<le> bits"
  shows "to_bits bits acc = to_bits b (acc div 2 ^ (bits - b)) @ to_bits (bits - b) (acc mod 2 ^ (bits - b))"
proof -
  have "to_bits (bits - b) (acc mod 2 ^ (bits - b)) = to_bits (bits - b) acc"
    by (rule to_bits_cong) simp
  then show ?thesis
    using to_bits_append [of b "bits - b" acc] assms by simp
qed

lemma to_bits_push: "d < 256 \<Longrightarrow> to_bits (bits + 8) (acc * 256 + d) = to_bits bits acc @ to_bits 8 d"
  using to_bits_append [of bits 8 "acc * 256 + d"] to_bits_cong [of "acc * 256 + d" 8 d] by simp

lemma all_ones_bits: "all_ones acc bits \<Longrightarrow> to_bits bits acc = replicate bits True"
proof -
  assume "all_ones acc bits"
  then have "to_bits bits acc = to_bits bits (2 ^ bits - 1)"
    by (intro to_bits_cong) (simp add: all_ones_def)
  moreover have "odd ((2 ^ bits - 1) div 2 ^ i :: nat)" if "i < bits" for i
    using that bit_mask_iff [of bits i, where ?'a = nat] unfolding bit_iff_odd mask_eq_exp_minus_1 by simp
  ultimately show ?thesis
    by (auto simp: to_bits_def intro: nth_equalityI simp: rev_nth)
qed

text \<open>
  The loop invariant: what was read so far is the encoding of the result followed by the
  bits still in the accumulator, of which there are at most twelve; and every symbol of
  the result has a code of at most twelve bits.
\<close>

definition huff_inv :: "bool list \<Rightarrow> nat \<Rightarrow> nat \<Rightarrow> bytes \<Rightarrow> bool" where
  "huff_inv input acc bits result =
     (acc < 2 ^ bits \<and> bits \<le> 12 \<and> input = huffman_encode result @ to_bits bits acc
      \<and> (\<forall>s \<in> set result. length (huffman_code s) \<le> 12))"

definition huff_sound :: "bool list \<Rightarrow> bytes \<Rightarrow> bool" where
  "huff_sound input result =
     ((\<exists>n \<le> 7. input = huffman_encode result @ replicate n True)
      \<and> (\<forall>s \<in> set result. length (huffman_code s) \<le> 12))"

lemma huff_inv_symbol:
  assumes "huff_inv input acc bits result" and "next_symbol acc bits = Some (s, b)"
  shows "huff_inv input (acc mod 2 ^ (bits - b)) (bits - b) (result @ [s])"
proof -
  from assms have s: "b = snd (HUFFMAN_TABLE ! unat s)" "b \<le> bits"
      "acc div 2 ^ (bits - b) = fst (HUFFMAN_TABLE ! unat s)"
    using next_symbol_SomeD [OF assms(2)] by (auto simp: huff_inv_def)
  then have "huffman_code s = to_bits b (acc div 2 ^ (bits - b))"
    by (simp add: huffman_code_def split: prod.split)
  then show ?thesis
    using assms(1) s(2) to_bits_split [OF s(2), of acc]
    by (auto simp: huff_inv_def huffman_encode_def)
qed

lemma huff_while_sound:
  assumes "huff_inv input acc bits result"
  shows "case huff_while acc bits result of
           Low acc' bits' result' \<Rightarrow> huff_inv input acc' bits' result' \<and> bits' < 5
         | Stop r \<Rightarrow> (\<forall>s. r = Some s \<longrightarrow> huff_sound input s)"
  using assms
proof (induction acc bits result rule: huff_while.induct)
  case (1 acc bits result)
  show ?case
  proof (cases "5 \<le> bits")
    case True
    show ?thesis
    proof (cases "next_symbol acc bits")
      case None
      have "huff_sound input result" if "bits \<le> 7" "all_ones acc bits"
        using that 1(2) all_ones_bits [OF that(2)] by (auto simp: huff_sound_def huff_inv_def)
      with True None show ?thesis
        by (simp add: huff_while.simps [of acc])
    next
      case (Some sb)
      then show ?thesis
        using True 1(1) [OF True Some] huff_inv_symbol [OF 1(2)]
        by (cases sb) (simp add: huff_while.simps [of acc])
    qed
  next
    case False
    with 1(2) show ?thesis
      by (simp add: huff_while.simps [of acc])
  qed
qed

lemma huff_bytes_Cons:
  assumes "acc < 2 ^ bits" and "bits < 5"
  shows "huff_bytes acc bits result (d # data) =
      (case huff_while (acc * 256 + unat d) (bits + 8) result of
         Low acc bits result \<Rightarrow> huff_bytes acc bits result data | Stop r \<Rightarrow> Stop r)"
    and "acc * 256 + unat d < 2 ^ (bits + 8)"
proof -
  have "acc < 16"
    using assms power_increasing [of bits 4 "2::nat"] by auto
  then have wrap: "(acc * 2 ^ 8) mod 2 ^ 64 + unat d = acc * 256 + unat d"
    by simp
  show "huff_bytes acc bits result (d # data) =
      (case huff_while (acc * 256 + unat d) (bits + 8) result of
         Low acc bits result \<Rightarrow> huff_bytes acc bits result data | Stop r \<Rightarrow> Stop r)"
    by (simp only: huff_bytes.simps wrap)
  show "acc * 256 + unat d < 2 ^ (bits + 8)"
    using assms(1) unat_byte_less [of d] by (simp add: power_add)
qed

lemma huff_bytes_sound:
  assumes "huff_inv input acc bits result" and "bits < 5"
  shows "case huff_bytes acc bits result data of
           Low acc' bits' result' \<Rightarrow> huff_inv (input @ byte_bits_of data) acc' bits' result' \<and> bits' < 5
         | Stop r \<Rightarrow> (\<forall>s. r = Some s \<longrightarrow>
             (\<exists>rest. \<exists>front. input @ byte_bits_of data = front @ rest \<and> huff_sound front s))"
  using assms
proof (induction data arbitrary: input acc bits result)
  case (Cons d data)
  let ?acc = "acc * 256 + unat d"
  have less: "acc < 2 ^ bits"
    using Cons.prems(1) by (simp add: huff_inv_def)
  note step = huff_bytes_Cons(1) [OF less Cons.prems(2)]
  have "huff_inv (input @ to_bits 8 (unat d)) ?acc (bits + 8) result"
    using Cons.prems to_bits_push [OF unat_byte_less] huff_bytes_Cons(2) [OF less]
    by (auto simp: huff_inv_def)
  note while = huff_while_sound [OF this]
  have input: "input @ byte_bits_of (d # data) = (input @ to_bits 8 (unat d)) @ byte_bits_of data"
    by (simp add: byte_bits_of_def)
  show ?case
  proof (cases "huff_while ?acc (bits + 8) result")
    case (Low acc1 bits1 result1)
    with while Cons.IH [of "input @ to_bits 8 (unat d)" acc1 bits1 result1] show ?thesis
      unfolding step input by simp
  next
    case (Stop r)
    with while show ?thesis
      unfolding step input by (simp del: append_assoc) blast
  qed
qed (simp add: byte_bits_of_def)

lemma huffman_decode_encoded:
  assumes "huffman_decode data = Some s"
  shows "\<exists>front rest. byte_bits_of data = front @ rest \<and> huff_sound front s"
proof -
  have "huff_inv [] 0 0 []"
    by (simp add: huff_inv_def huffman_encode_def to_bits_def)
  note run = huff_bytes_sound [OF this, of data]
  show ?thesis
  proof (cases "huff_bytes 0 0 [] data")
    case (Low acc bits result)
    then have inv: "huff_inv (byte_bits_of data) acc bits result" "bits < 5"
      using run by simp_all
    from Low assms have "s = result" "bits = 0 \<or> all_ones acc bits"
      by (auto simp: huffman_decode_def split: if_splits)
    with inv have "huff_sound (byte_bits_of data) s"
      using all_ones_bits [of acc bits]
      by (auto simp: huff_inv_def huff_sound_def to_bits_def intro: exI [of _ bits])
    then show ?thesis
      by (metis append_Nil2)
  next
    case (Stop r)
    with run assms show ?thesis
      by (simp add: huffman_decode_def) metis
  qed
qed

text \<open>
  Soundness of the Huffman decoder.  Whatever it returns stands encoded at the front of
  the input, followed by at most seven one-bits; and no symbol whose code is longer than
  twelve bits is ever returned, so that none of those symbols can be received.
\<close>

theorem huffman_decode_sound:
  assumes "huffman_decode data = Some s"
  shows "(\<exists>n rest. n \<le> 7 \<and> byte_bits_of data = huffman_encode s @ replicate n True @ rest)
       \<and> (\<forall>c \<in> set s. length (huffman_code c) \<le> 12)"
  using huffman_decode_encoded [OF assms] by (auto simp: huff_sound_def)

section \<open>Round trip for the five-bit symbols\<close>

definition five_bit :: "byte \<Rightarrow> bool" where
  "five_bit c = (snd (HUFFMAN_TABLE ! unat c) = 5)"

definition five_bit_symbols :: "nat list" where
  "five_bit_symbols = [48, 49, 50, 97, 99, 101, 105, 111, 115, 116]"

text \<open>
  No other code starts with one of the ten five-bit codes, and no code of at most seven
  bits consists of ones.
\<close>

fun all_from :: "(nat \<Rightarrow> 'a \<Rightarrow> bool) \<Rightarrow> nat \<Rightarrow> 'a list \<Rightarrow> bool" where
  "all_from P m [] = True"
| "all_from P m (x # xs) = (P m x \<and> all_from P (m + 1) xs)"

lemma all_from_nth: "all_from P m xs \<Longrightarrow> i < length xs \<Longrightarrow> P (m + i) (xs ! i)"
proof (induction xs arbitrary: m i)
  case (Cons x xs)
  from Cons.prems Cons.IH [of "m + 1" "i - 1"] show ?case
    by (cases i) simp_all
qed simp

definition entry_ok :: "nat \<Rightarrow> nat \<times> nat \<Rightarrow> bool" where
  "entry_ok m = (\<lambda>(c, b).
     (b = 5 \<or> b \<le> 10 \<and> c div 2 ^ (b - 5) < 10 \<longrightarrow> b = 5 \<and> c < 10 \<and> m = five_bit_symbols ! c)
     \<and> (b \<le> 7 \<longrightarrow> c \<noteq> 2 ^ b - 1))"

lemma five_bit_table: "all_from entry_ok 0 HUFFMAN_TABLE"
  unfolding HUFFMAN_TABLE_def by (simp add: entry_ok_def five_bit_symbols_def)

lemma table_entryD:
  assumes "m < 257" and "HUFFMAN_TABLE ! m = (c, b)"
  shows "b = 5 \<or> b \<le> 10 \<and> c div 2 ^ (b - 5) < 10 \<Longrightarrow> b = 5 \<and> c < 10 \<and> m = five_bit_symbols ! c"
    and "b \<le> 7 \<Longrightarrow> c \<noteq> 2 ^ b - 1"
  using all_from_nth [OF five_bit_table, of m] assms by (auto simp: entry_ok_def)

lemma unat_byte_entry [simp]: "unat (s :: byte) < 257"
  using unat_byte_less [of s] by simp

lemma covers_five_bit:
  assumes "five_bit s" and "i < 1024" and "i div 32 = fst (HUFFMAN_TABLE ! unat s)" and "m < 256"
  shows "covers i m = (m = unat s)"
proof
  obtain c where c: "HUFFMAN_TABLE ! unat s = (c, 5)"
    using assms(1) by (metis five_bit_def prod.collapse)
  then show "m = unat s \<Longrightarrow> covers i m"
    using assms(3) by (simp add: covers_def)
  note sym = table_entryD(1) [OF unat_byte_entry c]
  assume "covers i m"
  then obtain d b where d: "HUFFMAN_TABLE ! m = (d, b)" "b \<le> 10" "i div 2 ^ (10 - b) = d"
    by (auto simp: covers_def split: prod.splits)
  have "5 \<le> b"
    using code_length_bounds(1) [of m] assms(4) d(1) by simp
  then have "i div 32 = d div 2 ^ (b - 5)"
    using d(2,3) div_mult2_eq [of i "2 ^ (10 - b)" "2 ^ (b - 5)"] by (simp flip: power_add)
  with assms(3) c sym have "d div 2 ^ (b - 5) < 10" "d div 2 ^ (b - 5) = c"
    by simp_all
  with table_entryD(1) [of m, OF _ d(1)] assms(4) d(2) sym show "m = unat s"
    by auto
qed

lemma find_unique:
  assumes "\<And>x. x \<in> set xs \<Longrightarrow> P x = (x = a)" and "a \<in> set xs"
  shows "find P xs = Some a"
  using assms by (induction xs) auto

lemma next_symbol_five:
  assumes "five_bit s" and "acc < 2 ^ bits" and "5 \<le> bits"
    and "acc div 2 ^ (bits - 5) = fst (HUFFMAN_TABLE ! unat s)"
  shows "next_symbol acc bits = Some (s, 5)"
proof -
  let ?i = "lookup_index acc bits"
  have "acc div 2 ^ (bits - 5) < 2 ^ 5"
    using assms(2,3) by (rule top_bits_less)
  then have "?i div 32 = fst (HUFFMAN_TABLE ! unat s)"
    using lookup_index_front [OF assms(2,3)] assms(4) by simp
  then have "find (covers ?i) (rev [0..<256]) = Some (unat s)"
    using covers_five_bit [OF assms(1) lookup_index_less] unat_byte_less [of s]
    by (intro find_unique) (auto simp del: upt_rec_numeral)
  then have "fast_table ! ?i = (int (unat s), 5)"
    using assms(1) nth_fast_table [of ?i] by (simp add: five_bit_def del: upt_rec_numeral)
  then show ?thesis
    using assms(3) by (simp add: next_symbol_def)
qed

lemma next_symbol_ones:
  assumes "bits \<le> 7"
  shows "next_symbol (2 ^ bits - 1) bits = None"
proof (rule ccontr)
  assume "next_symbol (2 ^ bits - 1) bits \<noteq> None"
  then obtain s b where "next_symbol (2 ^ bits - 1) bits = Some (s, b)"
    by auto
  from next_symbol_SomeD [OF this] have s: "b = snd (HUFFMAN_TABLE ! unat s)" "b \<le> bits"
      "(2 ^ bits - 1) div 2 ^ (bits - b) = fst (HUFFMAN_TABLE ! unat s)"
    by auto
  have "(2 ^ bits - 1) div 2 ^ (bits - b) = (2 ^ b - 1 :: nat)"
  proof (rule div_nat_eqI)
    have "(2::nat) ^ bits = 2 ^ (bits - b) * 2 ^ b"
      using s(2) by (simp flip: power_add)
    then show "2 ^ (bits - b) * (2 ^ b - 1) \<le> (2 ^ bits - 1 :: nat)"
        "2 ^ bits - 1 < 2 ^ (bits - b) * Suc (2 ^ b - 1)"
      by (simp_all add: diff_mult_distrib2 diff_le_mono2)
  qed
  with s assms table_entryD(2) [OF unat_byte_entry, of s "fst (HUFFMAN_TABLE ! unat s)" b] show False
    by simp
qed

text \<open>The bits still to decode determine what the loops return, for five-bit symbols.\<close>

lemma to_bits_inj:
  assumes "to_bits n x = to_bits n y" and "x < 2 ^ n" and "y < 2 ^ n"
  shows "x = y"
proof (rule bit_eqI)
  fix i
  have "odd (x div 2 ^ i) = odd (y div 2 ^ i)" if "i < n"
    using assms(1) that by (simp add: to_bits_def)
  moreover have "z div 2 ^ i = 0" if "\<not> i < n" "z < 2 ^ n" for z :: nat
    using that by (meson div_less le_less_trans less_le_trans linorder_not_less power_increasing one_le_numeral)
  ultimately show "bit x i = bit y i"
    using assms(2,3) unfolding bit_iff_odd by (cases "i < n") auto
qed

lemma ones_value:
  assumes "acc < 2 ^ bits" and "to_bits bits acc = replicate bits True"
  shows "acc = 2 ^ bits - 1"
proof -
  have "to_bits bits (2 ^ bits - 1) = replicate bits True"
    by (rule all_ones_bits) (simp add: all_ones_def)
  with assms show ?thesis
    using to_bits_inj [of bits acc "2 ^ bits - 1"] by simp
qed

lemma five_bit_front:
  assumes "five_bit c" and "acc < 2 ^ bits" and "5 \<le> bits"
    and "to_bits bits acc @ more = huffman_encode (c # s) @ pad"
  shows "next_symbol acc bits = Some (c, 5)"
    and "to_bits (bits - 5) (acc mod 2 ^ (bits - 5)) @ more = huffman_encode s @ pad"
proof -
  have code: "huffman_code c = to_bits 5 (fst (HUFFMAN_TABLE ! unat c))"
    using assms(1) by (cases "HUFFMAN_TABLE ! unat c") (simp add: huffman_code_def five_bit_def)
  have "to_bits 5 (acc div 2 ^ (bits - 5)) @ to_bits (bits - 5) (acc mod 2 ^ (bits - 5)) @ more
      = to_bits 5 (fst (HUFFMAN_TABLE ! unat c)) @ huffman_encode s @ pad"
    using assms(4) to_bits_split [OF assms(3), of acc] code by (simp add: huffman_encode_def)
  then have eq: "to_bits 5 (acc div 2 ^ (bits - 5)) = to_bits 5 (fst (HUFFMAN_TABLE ! unat c))"
    and "to_bits (bits - 5) (acc mod 2 ^ (bits - 5)) @ more = huffman_encode s @ pad"
    by simp_all
  then show "to_bits (bits - 5) (acc mod 2 ^ (bits - 5)) @ more = huffman_encode s @ pad"
    by simp
  have "fst (HUFFMAN_TABLE ! unat c) < 2 ^ 5"
    using code_length_bounds(2) [of "unat c"] assms(1) by (simp add: five_bit_def)
  with to_bits_inj [OF eq top_bits_less [OF assms(2,3)]] show "next_symbol acc bits = Some (c, 5)"
    by (intro next_symbol_five assms)
qed

lemma huff_while_five:
  assumes "\<forall>c \<in> set s. five_bit c" and "acc < 2 ^ bits" and "n \<le> 7"
    and "to_bits bits acc @ byte_bits_of data = huffman_encode s @ replicate n True"
  shows "huff_while acc bits result = Stop (Some (result @ s)) \<and> data = []
       \<or> (\<exists>acc' bits' u v. s = u @ v \<and> huff_while acc bits result = Low acc' bits' (result @ u)
            \<and> acc' < 2 ^ bits' \<and> bits' < 5
            \<and> to_bits bits' acc' @ byte_bits_of data = huffman_encode v @ replicate n True)"
  using assms
proof (induction s arbitrary: acc bits result)
  case Nil
  show ?case
  proof (cases "5 \<le> bits")
    case True
    have len: "bits + length (byte_bits_of data) = n"
      using arg_cong [OF Nil(4), of length] by (simp add: huffman_encode_def)
    have "data = []"
      using len Nil(3) True by (cases data) (auto simp: byte_bits_of_def)
    with Nil(4) len have "to_bits bits acc = replicate bits True"
      by (simp add: huffman_encode_def byte_bits_of_def)
    with Nil(2) have acc: "acc = 2 ^ bits - 1"
      by (intro ones_value)
    have "bits \<le> 7"
      using len Nil(3) by simp
    then have "huff_while acc bits result = Stop (Some result)"
      using True next_symbol_ones [of bits] unfolding acc huff_while.simps [of "2 ^ bits - 1"]
      by (simp add: all_ones_def)
    with \<open>data = []\<close> show ?thesis
      by simp
  qed (use Nil in \<open>auto simp: huff_while.simps [of acc]\<close>)
next
  case (Cons c s)
  show ?case
  proof (cases "5 \<le> bits")
    case True
    note front = five_bit_front [OF _ Cons.prems(2) True Cons.prems(4)]
    have "next_symbol acc bits = Some (c, 5)"
      using front(1) Cons.prems(1) by simp
    then have run: "huff_while acc bits result
        = huff_while (acc mod 2 ^ (bits - 5)) (bits - 5) (result @ [c])"
      using True by (simp add: huff_while.simps [of acc])
    have IH: "huff_while acc bits result = Stop (Some ((result @ [c]) @ s)) \<and> data = []
       \<or> (\<exists>acc' bits' u v. s = u @ v \<and> huff_while acc bits result = Low acc' bits' ((result @ [c]) @ u)
            \<and> acc' < 2 ^ bits' \<and> bits' < 5
            \<and> to_bits bits' acc' @ byte_bits_of data = huffman_encode v @ replicate n True)"
      unfolding run using Cons.prems front(2) by (intro Cons.IH) auto
    then show ?thesis
      by (metis append_Cons append_assoc append_Nil)
  qed (use Cons.prems in \<open>auto simp: huff_while.simps [of acc] intro!: exI [of _ "[]"]\<close>)
qed

lemma huff_bytes_five:
  assumes "\<forall>c \<in> set s. five_bit c" and "acc < 2 ^ bits" and "bits < 5" and "n \<le> 7"
    and "to_bits bits acc @ byte_bits_of data = huffman_encode s @ replicate n True"
  shows "huff_bytes acc bits result data = Stop (Some (result @ s))
       \<or> (\<exists>acc' bits'. huff_bytes acc bits result data = Low acc' bits' (result @ s)
            \<and> bits' < 5 \<and> all_ones acc' bits')"
  using assms
proof (induction data arbitrary: acc bits result s)
  case Nil
  have "s = []"
  proof (cases s)
    case (Cons c r)
    then have "length (huffman_code c) = 5"
      using Nil(1) by (simp add: five_bit_def length_huffman_code)
    with arg_cong [OF Nil(5), of length] Nil(3) Cons show ?thesis
      by (simp add: huffman_encode_def byte_bits_of_def)
  qed
  with Nil(5) have "to_bits bits acc = replicate bits True"
    by (simp add: huffman_encode_def byte_bits_of_def) (metis length_replicate length_to_bits)
  with Nil(2) have "acc = 2 ^ bits - 1"
    by (intro ones_value)
  with \<open>s = []\<close> Nil(3) show ?case
    by (simp add: all_ones_def)
next
  case (Cons d data)
  let ?acc = "acc * 256 + unat d"
  note step = huff_bytes_Cons(1) [OF Cons.prems(2,3)] and less = huff_bytes_Cons(2) [OF Cons.prems(2,3)]
  have "to_bits (bits + 8) ?acc @ byte_bits_of data = huffman_encode s @ replicate n True"
    using Cons.prems(5) to_bits_push [OF unat_byte_less] by (simp add: byte_bits_of_def)
  from huff_while_five [OF Cons.prems(1) less Cons.prems(4) this, of result] show ?case
  proof (elim disjE exE conjE)
    fix acc1 bits1 u v
    assume w: "s = u @ v" "huff_while ?acc (bits + 8) result = Low acc1 bits1 (result @ u)"
      "acc1 < 2 ^ bits1" "bits1 < 5"
      "to_bits bits1 acc1 @ byte_bits_of data = huffman_encode v @ replicate n True"
    have "huff_bytes acc1 bits1 (result @ u) data = Stop (Some ((result @ u) @ v))
       \<or> (\<exists>acc' bits'. huff_bytes acc1 bits1 (result @ u) data = Low acc' bits' ((result @ u) @ v)
            \<and> bits' < 5 \<and> all_ones acc' bits')"
      using Cons.prems(1,4) w by (intro Cons.IH) auto
    with w(1,2) show ?thesis
      unfolding step by simp
  qed (simp only: step huff_state.case, simp)
qed

text \<open>
  Round trip for the ten symbols with five-bit codes (the digits 0 to 2 and the letters
  a, c, e, i, o, s, t): a string over them, encoded by the table and padded with up to
  seven one-bits to whole bytes, is decoded to exactly that string.
\<close>

theorem huffman_five_bit_roundtrip:
  assumes "\<forall>c \<in> set s. five_bit c" and "n \<le> 7"
    and "byte_bits_of data = huffman_encode s @ replicate n True"
  shows "huffman_decode data = Some s"
  using huff_bytes_five [of s 0 0 n data "[]"] assms
  by (auto simp: huffman_decode_def to_bits_def)

section \<open>Concrete inputs\<close>

lemma table_a: "HUFFMAN_TABLE ! 97 = (3, 5)"
  and table_X: "HUFFMAN_TABLE ! 88 = (0xfc, 8)"
  and table_brace: "HUFFMAN_TABLE ! 123 = (0x7fffe, 19)"
  and table_147: "HUFFMAN_TABLE ! 147 = (0x7fffe0, 23)"
  by (simp_all add: HUFFMAN_TABLE_def)

lemma huffman_code_a: "huffman_code 97 = [False, False, False, True, True]"
  and huffman_code_X: "huffman_code 88 = [True, True, True, True, True, True, False, False]"
  by (simp_all add: huffman_code_def table_a table_X to_bits_rec)

lemma six_ones: "replicate 6 True = [True, True, True, True, True, True]"
  by (simp add: eval_nat_numeral)

lemma encoded_aa: "byte_bits_of [0x18, 0xFF] = huffman_encode (lit ''aa'') @ replicate 6 True"
  by (simp add: byte_bits_of_def huffman_encode_def lit_def huffman_code_a to_bits_rec six_ones)

theorem huffman_five_bit_roundtrip_witness: "huffman_decode [0x18, 0xFF] = Some (lit ''aa'')"
  by (rule huffman_five_bit_roundtrip [OF _ _ encoded_aa])
     (simp_all add: lit_def five_bit_def table_a)

lemma decode_aa: "huffman_decode ([0x18, 0xFF] @ rest) = Some (lit ''aa'')"
proof -
  have a: "five_bit 97" "fst (HUFFMAN_TABLE ! unat (97::byte)) = 3"
    by (simp_all add: five_bit_def table_a)
  have "next_symbol 24 8 = Some (97, 5)" "next_symbol 255 11 = Some (97, 5)" "next_symbol 63 6 = None"
    using next_symbol_five [OF a(1), of 24 8] next_symbol_five [OF a(1), of 255 11]
      next_symbol_ones [of 6] a(2) by simp_all
  then have "huff_while 24 8 [] = Low 0 3 [97]" "huff_while 255 11 [97] = Stop (Some [97, 97])"
    by (simp_all add: huff_while.simps all_ones_def)
  then show ?thesis
    by (simp add: huffman_decode_def lit_def)
qed

theorem huffman_decode_sound_witness:
  "huffman_decode [0x18, 0xFF] = Some (lit ''aa'')
   \<and> (\<exists>n rest. n \<le> 7 \<and> byte_bits_of [0x18, 0xFF] = huffman_encode (lit ''aa'') @ replicate n True @ rest)"
  using huffman_decode_sound [of "[0x18, 0xFF]" "lit ''aa''"] decode_aa [of "[]"] by simp

text \<open>
  An encoded string can be cut short silently: when five to seven one-bits are left
  behind a symbol, the decoder takes them for the padding at the end, although more bytes
  follow.  The encoding of \<open>aaX\<close> decodes to \<open>aa\<close>, and so does every input that starts
  with the same two bytes.
\<close>

theorem huffman_decode_truncates:
  "byte_bits_of [0x18, 0xFF, 0x3F] = huffman_encode (lit ''aaX'') @ replicate 6 True
   \<and> huffman_decode ([0x18, 0xFF] @ rest) = Some (lit ''aa'')"
  unfolding decode_aa
  by (simp add: byte_bits_of_def huffman_encode_def lit_def huffman_code_a huffman_code_X to_bits_rec
      six_ones)

text \<open>
  The table is not a prefix code: the entry of the left brace is a proper prefix of the
  code of symbol 147 (the specification gives the brace the 15-bit code 7ffe).
\<close>

lemma huffman_brace_not_prefix_free:
  "huffman_code 147 = huffman_code 123 @ [False, False, False, False]"
  by (simp add: huffman_code_def table_brace table_147 to_bits_rec)

text \<open>Only 160 of the 177 codes of more than ten bits fit the array of long codes.\<close>

lemma length_add_long_codes: "length long \<le> 160 \<Longrightarrow> length (fold add_long_code ss long) \<le> 160"
  by (induction ss arbitrary: long) (auto simp: add_long_code_def split: prod.split)

lemma huffman_long_codes_dropped:
  "length long_codes \<le> 160 \<and> length (filter (\<lambda>(c, b). 10 < b) (take 256 HUFFMAN_TABLE)) = 177"
proof
  show "length long_codes \<le> 160"
    using length_add_long_codes [of "[]" "[0..<256]"] by (simp add: long_codes_def)
  show "length (filter (\<lambda>(c, b). 10 < b) (take 256 HUFFMAN_TABLE)) = 177"
    by (simp add: HUFFMAN_TABLE_def)
qed

end
