(* ===== verification/Wire.thy ===== *)
theory Wire
  imports Prelude
begin

text \<open>
  The two interfaces the protocol components share.

  \<open>codec\<close>: an encoder and a decoder of one item at the front of a byte string.  What it
  promises is one law, the round trip in front of any following bytes; from it the locale
  derives that encodings are prefix free and that a sequence of items can be decoded.

  \<open>framed_input\<close>: a connection that appends what it receives to a buffer and works the
  buffer off frame by frame.  What it promises is that a step that can be taken is not
  changed by bytes that arrive behind it, and that steps use something up.  From this the
  locale derives that the run is determined and ends, and that its effects do not depend
  on how the input was cut into segments.
\<close>

section \<open>Encoders and decoders\<close>

fun decode_seq :: "(bytes \<Rightarrow> ('a \<times> bytes) option) \<Rightarrow> nat \<Rightarrow> bytes \<Rightarrow> ('a list \<times> bytes) option" where
  "decode_seq dec 0 bs = Some ([], bs)"
| "decode_seq dec (Suc n) bs =
     (case dec bs of
        None \<Rightarrow> None
      | Some (x, r) \<Rightarrow> (case decode_seq dec n r of
          None \<Rightarrow> None
        | Some (xs, r') \<Rightarrow> Some (x # xs, r')))"

locale codec =
  fixes enc :: "'a \<Rightarrow> bytes"
    and dec :: "bytes \<Rightarrow> ('a \<times> bytes) option"
    and ok :: "'a \<Rightarrow> bool"
  assumes dec_enc: "ok x \<Longrightarrow> dec (enc x @ rest) = Some (x, rest)"
begin

lemma enc_prefix_free:
  assumes "ok x" and "ok y" and "enc x @ r = enc y @ s"
  shows "x = y \<and> r = s"
proof -
  have "dec (enc y @ s) = Some (x, r)"
    using dec_enc [OF assms(1), of r] unfolding assms(3) .
  with dec_enc [OF assms(2), of s] show ?thesis by simp
qed

lemma enc_inj: "ok x \<Longrightarrow> ok y \<Longrightarrow> enc x = enc y \<Longrightarrow> x = y"
  using enc_prefix_free [of x y "[]" "[]"] by simp

lemma decode_seq_enc:
  "\<forall>x \<in> set xs. ok x \<Longrightarrow>
     decode_seq dec (length xs) (concat (map enc xs) @ rest) = Some (xs, rest)"
  by (induction xs) (simp_all add: dec_enc)

end

section \<open>Connections that work off a buffer\<close>

text \<open>
  Working off a state: \<open>step\<close> takes one frame and gives the effects of that frame;
  \<open>None\<close> ends the loop.  The relation collects the effects of the whole loop.
\<close>

inductive drives :: "('s \<Rightarrow> ('s \<times> 'o list) option) \<Rightarrow> 's \<Rightarrow> 's \<Rightarrow> 'o list \<Rightarrow> bool"
  for step :: "'s \<Rightarrow> ('s \<times> 'o list) option"
  where
    stop: "step s = None \<Longrightarrow> drives step s s []"
  | more: "step s = Some (s1, o1) \<Longrightarrow> drives step s1 s2 o2 \<Longrightarrow> drives step s s2 (o1 @ o2)"

inductive_cases drivesE: "drives step s t out"

lemma drives_deterministic:
  "drives step s t out \<Longrightarrow> drives step s t' out' \<Longrightarrow> t = t' \<and> out = out'"
proof (induction arbitrary: t' out' rule: drives.induct)
  case (stop s)
  then show ?case by (auto elim: drivesE)
next
  case (more s s1 o1 s2 o2)
  from more.prems more.hyps(1) obtain o3 where "drives step s1 t' o3" "out' = o1 @ o3"
    by (auto elim: drivesE)
  with more.IH show ?case by blast
qed

lemma drives_stopped: "drives step s t out \<Longrightarrow> step t = None"
  by (induction rule: drives.induct) auto

locale framed_input =
  fixes step :: "'s \<Rightarrow> ('s \<times> 'o list) option"
    and feed :: "'s \<Rightarrow> bytes \<Rightarrow> 's"
    and weight :: "'s \<Rightarrow> nat"
  assumes feed_feed: "feed (feed s a) b = feed s (a @ b)"
    and step_feed: "step s = Some (s', out) \<Longrightarrow> step (feed s b) = Some (feed s' b, out)"
    and step_weight: "step s = Some (s', out) \<Longrightarrow> weight s' < weight s"
begin

lemma drives_total: "\<exists>t out. drives step s t out"
proof (induction "weight s" arbitrary: s rule: less_induct)
  case less
  show ?case
  proof (cases "step s")
    case None
    then show ?thesis by (blast intro: drives.stop)
  next
    case (Some p)
    obtain s1 o1 where p: "p = (s1, o1)"
      by (cases p)
    with Some step_weight have "weight s1 < weight s"
      by blast
    from less.hyps [OF this] obtain t o2 where "drives step s1 t o2"
      by blast
    with Some p show ?thesis by (blast intro: drives.more)
  qed
qed

lemma drives_behind:
  "drives step s t o1 \<Longrightarrow> drives step (feed t b) u o2 \<Longrightarrow> drives step (feed s b) u (o1 @ o2)"
proof (induction rule: drives.induct)
  case (stop s)
  then show ?case by simp
next
  case (more s s1 o1 s2 o2')
  from more.IH [OF more.prems] more.hyps(1) step_feed show ?case
    by (auto intro: drives.more)
qed

text \<open>Two segments or one: the same effects and the same final state.\<close>

lemma segmentation:
  assumes "drives step (feed s a) t o1" and "drives step (feed t b) u o2"
  shows "drives step (feed s (a @ b)) u (o1 @ o2)"
  using drives_behind [OF assms] by (simp add: feed_feed)

end

end
