(* ===== verification/Hpack.thy ===== *)
theory Hpack
  imports Huffman Wire
begin

text \<open>
  HPACK header compression (\<open>class HPACKDecoder\<close>, \<open>class HPACKEncoder\<close>, \<open>src/http2.cpp\<close>):
  integers with a prefix, strings, the dynamic table with its eviction, the decoder loop and
  the encoder.  A span that shrinks while it is read is a byte list returned with the
  value; a \<open>nullopt\<close> is \<open>None\<close>.

  Shown: integers and strings are codecs, a header list comes back from its encoding
  whatever the decoder has seen before, the dynamic table keeps its accounted size within
  the limit, and new entries are found at index 62.
\<close>

section \<open>Integers\<close>

definition max_prefix :: "nat \<Rightarrow> byte" where
  "max_prefix prefix_bits = of_nat (2 ^ prefix_bits - 1)"

fun int_tail :: "bytes \<Rightarrow> u64 \<Rightarrow> nat \<Rightarrow> (u64 \<times> bytes) option" where
  "int_tail [] val m = None"
| "int_tail (b # data) val m =
     (let val = val + push_bit m (ucast (b AND 0x7F)); m = m + 7
      in if b AND 0x80 = 0 then Some (val, data)
         else if 63 < m then None else int_tail data val m)"

fun decode_integer :: "bytes \<Rightarrow> nat \<Rightarrow> (u64 \<times> bytes) option" where
  "decode_integer [] prefix_bits = None"
| "decode_integer (b # data) prefix_bits =
     (let val = b AND max_prefix prefix_bits
      in if val < max_prefix prefix_bits then Some (ucast val, data)
         else int_tail data (ucast val) 0)"

function int_bytes :: "u64 \<Rightarrow> bytes" where
  "int_bytes val =
     (if 128 \<le> val then (ucast (val AND 0x7F) OR 0x80) # int_bytes (drop_bit 7 val)
      else [ucast val])"
  by pat_completeness auto
termination
proof (relation "measure unat")
  fix val :: u64
  assume "128 \<le> val"
  then have "0 < unat val"
    using unat_gt_0 [of val] by auto
  then show "(drop_bit 7 val, val) \<in> measure unat"
    unfolding in_measure drop_bit_eq_div by (simp add: unat_div)
qed simp

declare int_bytes.simps [simp del]

definition encode_integer :: "u64 \<Rightarrow> nat \<Rightarrow> byte \<Rightarrow> bytes" where
  "encode_integer val prefix_bits pattern =
     (if val < ucast (max_prefix prefix_bits) then [pattern OR ucast val]
      else (pattern OR max_prefix prefix_bits) # int_bytes (val - ucast (max_prefix prefix_bits)))"

section \<open>Strings\<close>

definition decode_string :: "bytes \<Rightarrow> (bytes \<times> bytes) option" where
  "decode_string data =
     (if data = [] then None
      else let is_huffman = (hd data AND 0x80 \<noteq> 0)
           in case decode_integer data 7 of
                None \<Rightarrow> None
              | Some (len, data) \<Rightarrow>
                  if length data < unat len then None
                  else if is_huffman then
                    map_option (\<lambda>s. (s, drop (unat len) data)) (huffman_decode (take (unat len) data))
                  else Some (take (unat len) data, drop (unat len) data))"

definition encode_string :: "bytes \<Rightarrow> bytes" where
  "encode_string str = encode_integer (of_nat (length str)) 7 0 @ str"

section \<open>The decoder\<close>

record hpack_decoder =
  dynamic_table :: "(bytes \<times> bytes) list"
  dynamic_table_size :: nat
  max_dynamic_table_size :: nat

definition hpack_init :: hpack_decoder where
  "hpack_init = \<lparr>dynamic_table = [], dynamic_table_size = 0, max_dynamic_table_size = 4096\<rparr>"

definition entry_size :: "bytes \<times> bytes \<Rightarrow> nat" where
  "entry_size e = length (fst e) + length (snd e) + 32"

text \<open>
  Both eviction loops drop entries from the back while the table is too large, the one of
  \<open>add_to_dynamic_table\<close> with the size of the new entry on top.
\<close>

function evict_for :: "nat \<Rightarrow> hpack_decoder \<Rightarrow> hpack_decoder" where
  "evict_for extra d =
     (if max_dynamic_table_size d < dynamic_table_size d + extra \<and> dynamic_table d \<noteq> []
      then evict_for extra
             (d\<lparr>dynamic_table_size := dynamic_table_size d - entry_size (last (dynamic_table d)),
                dynamic_table := butlast (dynamic_table d)\<rparr>)
      else d)"
  by pat_completeness auto
termination
  by (relation "measure (\<lambda>(extra, d). length (dynamic_table d))") auto

declare evict_for.simps [simp del]

definition evict_dynamic_table :: "hpack_decoder \<Rightarrow> hpack_decoder" where
  "evict_dynamic_table d = evict_for 0 d"

definition set_max_table_size :: "nat \<Rightarrow> hpack_decoder \<Rightarrow> hpack_decoder" where
  "set_max_table_size sz d = evict_dynamic_table (d\<lparr>max_dynamic_table_size := sz\<rparr>)"

definition add_to_dynamic_table :: "bytes \<Rightarrow> bytes \<Rightarrow> hpack_decoder \<Rightarrow> hpack_decoder" where
  "add_to_dynamic_table name val d =
     (let d = evict_for (entry_size (name, val)) d
      in if entry_size (name, val) \<le> max_dynamic_table_size d
         then d\<lparr>dynamic_table := (name, val) # dynamic_table d,
                dynamic_table_size := dynamic_table_size d + entry_size (name, val)\<rparr>
         else d)"

definition lookup :: "hpack_decoder \<Rightarrow> nat \<Rightarrow> (bytes \<times> bytes) option" where
  "lookup d index =
     (if index = 0 then None
      else if index \<le> STATIC_TABLE_SIZE then Some (STATIC_TABLE ! index)
      else let dyn_index = index - STATIC_TABLE_SIZE - 1
           in if dyn_index < length (dynamic_table d) then Some (dynamic_table d ! dyn_index) else None)"

text \<open>A literal field: an indexed or literal name, then the value (the code has it twice).\<close>

definition literal_field :: "hpack_decoder \<Rightarrow> bytes \<Rightarrow> nat \<Rightarrow> ((bytes \<times> bytes) \<times> bytes) option" where
  "literal_field d data prefix_bits =
     (case decode_integer data prefix_bits of
        None \<Rightarrow> None
      | Some (index, data) \<Rightarrow>
          case (if 0 < index then map_option (\<lambda>e. (fst e, data)) (lookup d (unat index))
                else decode_string data) of
            None \<Rightarrow> None
          | Some (name, data) \<Rightarrow> map_option (\<lambda>(val, data). ((name, val), data)) (decode_string data))"

text \<open>One turn of the loop of \<open>decode\<close>: the new decoder, the fields it adds and the rest.\<close>

definition decode_field :: "hpack_decoder \<Rightarrow> bytes \<Rightarrow> (hpack_decoder \<times> (bytes \<times> bytes) list \<times> bytes) option" where
  "decode_field d data =
     (let b = hd data
      in if b AND 0x80 \<noteq> 0 then
           case decode_integer data 7 of
             None \<Rightarrow> None
           | Some (index, data) \<Rightarrow> map_option (\<lambda>e. (d, [e], data)) (lookup d (unat index))
         else if b AND 0x40 \<noteq> 0 then
           map_option (\<lambda>((name, val), data). (add_to_dynamic_table name val d, [(name, val)], data))
             (literal_field d data 6)
         else if b AND 0x20 \<noteq> 0 then
           map_option (\<lambda>(sz, data). (set_max_table_size (unat sz) d, [], data)) (decode_integer data 5)
         else map_option (\<lambda>(h, data). (d, [h], data)) (literal_field d data 4))"

section \<open>What is read gets shorter\<close>

lemma int_tail_shorter: "int_tail data v m = Some (w, rest) \<Longrightarrow> length rest < length data"
  by (induction data arbitrary: v m) (auto simp: Let_def less_Suc_eq split: if_splits)

lemma decode_integer_shorter: "decode_integer data p = Some (w, rest) \<Longrightarrow> length rest < length data"
  by (cases data) (auto simp: Let_def dest: int_tail_shorter split: if_splits)

lemma decode_string_shorter: "decode_string data = Some (s, rest) \<Longrightarrow> length rest < length data"
  by (auto simp: decode_string_def Let_def dest!: decode_integer_shorter split: if_splits option.splits)

lemma literal_field_shorter: "literal_field d data p = Some (h, rest) \<Longrightarrow> length rest < length data"
  by (auto simp: literal_field_def dest!: decode_integer_shorter decode_string_shorter
      split: if_splits option.splits)

lemma decode_field_shorter: "decode_field d data = Some (d', hs, rest) \<Longrightarrow> length rest < length data"
  by (auto simp: decode_field_def Let_def dest!: decode_integer_shorter literal_field_shorter
      split: if_splits option.splits)

text \<open>The decoder loop; its state also changes when a later field is malformed.\<close>

function decode_loop :: "hpack_decoder \<Rightarrow> bytes \<Rightarrow> (bytes \<times> bytes) list
    \<Rightarrow> hpack_decoder \<times> (bytes \<times> bytes) list option" where
  "decode_loop d data headers =
     (if data = [] then (d, Some headers)
      else case decode_field d data of
             None \<Rightarrow> (d, None)
           | Some (d', hs, rest) \<Rightarrow> decode_loop d' rest (headers @ hs))"
  by pat_completeness auto
termination
  by (relation "measure (\<lambda>(d, data, headers). length data)") (auto dest: decode_field_shorter)

declare decode_loop.simps [simp del]

definition decode :: "hpack_decoder \<Rightarrow> bytes \<Rightarrow> hpack_decoder \<times> (bytes \<times> bytes) list option" where
  "decode d data = decode_loop d data []"

section \<open>The encoder\<close>

text \<open>The scan of the static table for the first entry with the name.\<close>

definition find_static :: "bytes \<Rightarrow> nat option" where
  "find_static name = find (\<lambda>i. fst (STATIC_TABLE ! i) = name) [1..<STATIC_TABLE_SIZE + 1]"

definition encode_header :: "bytes \<times> bytes \<Rightarrow> bytes" where
  "encode_header h =
     (case find_static (fst h) of
        Some i \<Rightarrow> if snd (STATIC_TABLE ! i) = snd h then encode_integer (of_nat i) 7 0x80
                  else encode_integer (of_nat i) 4 0 @ encode_string (snd h)
      | None \<Rightarrow> 0 # encode_string (fst h) @ encode_string (snd h))"

definition encode :: "(bytes \<times> bytes) list \<Rightarrow> bytes" where
  "encode headers = concat (map encode_header headers)"

section \<open>Round trips\<close>

lemma max_prefix_mask: "p \<le> 8 \<Longrightarrow> max_prefix p = mask p"
  by (simp add: max_prefix_def mask_eq_exp_minus_1 of_nat_diff)

lemma unat_max_prefix: "p \<le> 8 \<Longrightarrow> unat (max_prefix p) = 2 ^ p - 1"
  using power_increasing [of p 8 "2::nat"] unfolding max_prefix_def unat_of_nat by simp

text \<open>The patterns leave the prefix bits free.\<close>

lemma pattern_or:
  fixes pattern w :: byte
  assumes "pattern AND mask p = 0"
  shows "(pattern OR w) AND mask p = w AND mask p"
  using assms by (simp add: bit.conj_disj_distrib2)

lemma low_seven:
  fixes v :: u64
  shows "unat (ucast (v AND 0x7F) :: byte) < 128" and "ucast (ucast (v AND 0x7F) :: byte) = v AND 0x7F"
proof -
  have 7: "v AND 0x7F = take_bit 7 v"
    by (simp add: take_bit_eq_mask mask_numeral)
  have "unat (v AND 0x7F) < 128"
    using take_bit_nat_less_exp [of 7 "unat v"] by (simp add: 7 unsigned_take_bit_eq)
  then show "unat (ucast (v AND 0x7F) :: byte) < 128" "ucast (ucast (v AND 0x7F) :: byte) = v AND 0x7F"
    using byte_of_u64 [of "v AND 0x7F"] by simp_all
qed

lemma split_seven: "(v :: u64) = (v AND 0x7F) + drop_bit 7 v * 128"
proof -
  have "v AND 0x7F = v mod 128"
    using take_bit_eq_mod [of 7 v] by (simp add: take_bit_eq_mask mask_numeral)
  moreover have "drop_bit 7 v = v div 128"
    by (simp add: drop_bit_eq_div)
  ultimately show ?thesis
    by (simp add: mod_div_mult_eq)
qed

lemma int_tail_int_bytes:
  assumes "unat v * 2 ^ m < 2 ^ 64"
  shows "int_tail (int_bytes v @ rest) acc m = Some (acc + push_bit m v, rest)"
  using assms
proof (induction v arbitrary: acc m rule: int_bytes.induct)
  case (1 v)
  show ?case
  proof (cases "128 \<le> v")
    case True
    let ?b = "ucast (v AND 0x7F) :: byte"
    have "128 \<le> unat v"
      using True by (simp add: word_le_nat_alt)
    then have "2 ^ 7 * 2 ^ m \<le> unat v * 2 ^ m"
      by simp
    then have "(2::nat) ^ 7 * 2 ^ m < 2 ^ 64"
      using 1(2) by (rule le_less_trans)
    then have "(2::nat) ^ (7 + m) < 2 ^ 64"
      unfolding power_add .
    then have m: "\<not> 63 < m + 7"
      using power_strict_increasing_iff [of "2::nat" "7 + m" 64] by simp
    have "unat (drop_bit 7 v) * 2 ^ (m + 7) \<le> unat v * 2 ^ m"
      by (simp add: drop_bit_eq_div unat_div power_add)
    with 1(2) have "unat (drop_bit 7 v) * 2 ^ (m + 7) < 2 ^ 64"
      by simp
    note IH = 1(1) [OF True this]
    have "push_bit m (v AND 0x7F) + push_bit (m + 7) (drop_bit 7 v) = push_bit m v"
      using arg_cong [OF split_seven [of v], of "\<lambda>x. x * 2 ^ m", symmetric]
      by (simp add: push_bit_eq_mult power_add distrib_left distrib_right ac_simps)
    then show ?thesis
      using True m high_bit [OF low_seven(1), of v] IH [of "acc + push_bit m (v AND 0x7F)"]
      by (simp add: int_bytes.simps [of v] low_seven(2) add.assoc)
  next
    case False
    then have v: "unat v < 128"
      by (simp add: word_le_nat_alt not_le)
    then have "unat (ucast v :: byte) < 128" "ucast (ucast v :: byte) = v"
      using byte_of_u64 [of v] by simp_all
    with False high_bit(2,4) [of "ucast v"] show ?thesis
      by (simp add: int_bytes.simps [of v])
  qed
qed

lemma decode_encode_integer:
  assumes "p \<le> 8" and "pattern AND max_prefix p = 0"
  shows "decode_integer (encode_integer v p pattern @ rest) p = Some (v, rest)"
proof -
  let ?m = "mask p :: byte"
  have m: "max_prefix p = ?m"
    using assms(1) by (rule max_prefix_mask)
  have or: "(pattern OR w) AND ?m = w AND ?m" for w :: byte
    using pattern_or assms(2) m by simp
  have um: "unat (ucast ?m :: u64) = unat ?m"
    using unat_byte_less [of ?m] by (simp add: unsigned_ucast_eq take_bit_eq_mod)
  show ?thesis
  proof (cases "v < ucast ?m")
    case True
    then have v: "unat v < unat ?m"
      using um by (simp add: word_less_nat_alt)
    with unat_byte_less [of ?m] have c: "unat (ucast v :: byte) = unat v" "ucast (ucast v :: byte) = v"
      using byte_of_u64 [of v] by simp_all
    have "unat (ucast v :: byte) < 2 ^ p"
      using v c(1) unat_max_prefix [OF assms(1)] m by simp
    then have "(ucast v :: byte) AND ?m = ucast v"
      by (simp add: take_bit_eq_mask [symmetric] word_unat_eq_iff unsigned_take_bit_eq take_bit_nat_eq_self)
    with True v c or m show ?thesis
      by (simp add: encode_integer_def word_less_nat_alt)
  next
    case False
    with or m show ?thesis
      using int_tail_int_bytes [of "v - ucast ?m" 0 rest "ucast ?m"]
        unsigned_less [where ?'a = nat, of "v - ucast ?m"]
      by (simp add: encode_integer_def Let_def)
  qed
qed

lemma encode_integer_hd:
  assumes "p \<le> 8"
  obtains w r where "encode_integer v p pattern = (pattern OR w) # r" and "unat w < 2 ^ p"
proof (cases "v < ucast (max_prefix p)")
  case True
  have "unat (ucast (max_prefix p) :: u64) = unat (max_prefix p)"
    using unat_byte_less [of "max_prefix p"] by (simp add: unsigned_ucast_eq take_bit_eq_mod)
  with True have "unat v < 2 ^ p - 1"
    using unat_max_prefix [OF assms] by (simp add: word_less_nat_alt)
  moreover have "(2::nat) ^ p \<le> 256"
    using power_increasing [of p 8 "2::nat"] assms by simp
  ultimately have "unat (ucast v :: byte) < 2 ^ p"
    using byte_of_u64(1) [of v] by simp
  with that True show ?thesis
    by (simp add: encode_integer_def)
next
  case False
  with that unat_max_prefix [OF assms] show ?thesis
    by (simp add: encode_integer_def)
qed

lemma small_byte_flags:
  fixes w :: byte
  shows "unat w < 16 \<Longrightarrow> w AND 0x20 = 0" "unat w < 16 \<Longrightarrow> w AND 0x40 = 0" "unat w < 128 \<Longrightarrow> w AND 0x80 = 0"
  using bit_small [of w 4 5] bit_small [of w 4 6] bit_small [of w 7 7]
    and_exp_eq_0_iff_not_bit [of w 5] and_exp_eq_0_iff_not_bit [of w 6] and_exp_eq_0_iff_not_bit [of w 7]
  by simp_all

lemma decode_encode_string:
  assumes "length s < 2 ^ 64"
  shows "decode_string (encode_string s @ rest) = Some (s, rest)"
proof -
  obtain w r where w: "encode_integer (of_nat (length s)) 7 0 = w # r" "unat w < 2 ^ 7"
    using encode_integer_hd [of 7 "of_nat (length s)" 0] by auto
  have "decode_integer (encode_integer (of_nat (length s)) 7 0 @ s @ rest) 7
      = Some (of_nat (length s), s @ rest)"
    by (rule decode_encode_integer) simp_all
  moreover have "unat (of_nat (length s) :: u64) = length s"
    using assms by (simp add: unat_of_nat)
  moreover have "w AND 0x80 = 0"
    using w(2) small_byte_flags(3) by simp
  ultimately show ?thesis
    using w(1) by (simp add: decode_string_def encode_string_def Let_def)
qed

interpretation hpack_string: codec encode_string decode_string "\<lambda>s. length s < 2 ^ 64"
  by unfold_locales (rule decode_encode_string)

lemma find_static_SomeD:
  "find_static name = Some i \<Longrightarrow> 0 < i \<and> i \<le> STATIC_TABLE_SIZE \<and> fst (STATIC_TABLE ! i) = name"
  unfolding find_static_def by (drule find_SomeD) auto

lemma STATIC_TABLE_SIZE_61: "STATIC_TABLE_SIZE = 61"
  by (simp add: STATIC_TABLE_SIZE_def STATIC_TABLE_def)

definition header_fits :: "bytes \<times> bytes \<Rightarrow> bool" where
  "header_fits h = (length (fst h) < 2 ^ 64 \<and> length (snd h) < 2 ^ 64)"

lemma decode_field_encoded:
  assumes "header_fits h"
  shows "decode_field d (encode_header h @ rest) = Some (d, [h], rest)"
proof (cases "find_static (fst h)")
  case None
  have "literal_field d (0 # encode_string (fst h) @ encode_string (snd h) @ rest) 4 = Some (h, rest)"
    using assms hpack_string.dec_enc
    by (simp add: literal_field_def max_prefix_def header_fits_def)
  with None show ?thesis
    by (simp add: decode_field_def encode_header_def)
next
  case (Some i)
  note i = find_static_SomeD [OF this]
  have idx: "unat (of_nat i :: u64) = i" "(0 :: u64) < of_nat i"
    using i STATIC_TABLE_SIZE_61 by (simp_all add: unat_of_nat word_less_nat_alt)
  have look: "lookup d i = Some (STATIC_TABLE ! i)"
    using i by (simp add: lookup_def)
  show ?thesis
  proof (cases "snd (STATIC_TABLE ! i) = snd h")
    case True
    obtain w r where w: "encode_integer (of_nat i) 7 0x80 = (0x80 OR w) # r"
      by (rule encode_integer_hd [of 7 "of_nat i" "0x80"], simp) blast
    have dec: "decode_integer (encode_integer (of_nat i) 7 0x80 @ rest) 7 = Some (of_nat i, rest)"
      by (rule decode_encode_integer) (simp_all add: max_prefix_def)
    have "(0x80 OR w) AND 0x80 \<noteq> 0"
      using and_exp_eq_0_iff_not_bit [of "0x80 OR w" 7] bit_byte_128 [of 7] by (simp add: bit_or_iff)
    moreover have "STATIC_TABLE ! i = h"
      using True i by (simp add: prod_eq_iff)
    ultimately show ?thesis
      using Some True dec idx look w by (simp add: decode_field_def encode_header_def)
  next
    case False
    obtain w r where w: "encode_integer (of_nat i) 4 0 = w # r" "unat w < 2 ^ 4"
      using encode_integer_hd [of 4 "of_nat i" 0] by auto
    have "decode_integer (encode_integer (of_nat i) 4 0 @ encode_string (snd h) @ rest) 4
        = Some (of_nat i, encode_string (snd h) @ rest)"
      by (rule decode_encode_integer) simp_all
    then have "literal_field d (encode_integer (of_nat i) 4 0 @ encode_string (snd h) @ rest) 4 = Some (h, rest)"
      using assms idx look i hpack_string.dec_enc [of "snd h" rest]
      by (simp add: literal_field_def header_fits_def)
    with Some False w small_byte_flags [of w] show ?thesis
      by (simp add: decode_field_def encode_header_def)
  qed
qed

lemma encode_header_Nil [simp]: "encode_header h \<noteq> []"
proof
  assume "encode_header h = []"
  then show False
    using decode_field_shorter
    by (auto simp: encode_header_def encode_integer_def split: option.splits if_splits)
qed

lemma decode_loop_encoded:
  assumes "\<forall>h \<in> set hs. header_fits h"
  shows "decode_loop d (encode hs) acc = (d, Some (acc @ hs))"
  using assms
proof (induction hs arbitrary: acc)
  case Nil
  then show ?case
    by (simp add: encode_def decode_loop.simps [of d "[]"])
next
  case (Cons h hs)
  then show ?case
    using decode_field_encoded [of h d "encode hs"]
    by (simp add: encode_def decode_loop.simps [of d "encode_header h @ _"])
qed

text \<open>
  C5. HPACK round trip.  Decoding the encoding of a header list gives exactly that list and
  leaves the decoder as it was, whatever its dynamic table holds: the encoder only uses the
  static table and literals without indexing.
\<close>

theorem hpack_roundtrip:
  assumes "\<forall>(name, val) \<in> set headers. length name < 2 ^ 64 \<and> length val < 2 ^ 64"
  shows "decode d (encode headers) = (d, Some headers)"
proof -
  have "\<forall>h \<in> set headers. header_fits h"
    using assms by (auto simp: header_fits_def)
  then show ?thesis
    using decode_loop_encoded [of headers d "[]"] by (simp add: decode_def)
qed

theorem hpack_roundtrip_witness:
  "decode hpack_init (encode [(lit '':status'', lit ''200''), (lit ''server'', lit ''JustServer/1.0'')])
   = (hpack_init, Some [(lit '':status'', lit ''200''), (lit ''server'', lit ''JustServer/1.0'')])"
  by (rule hpack_roundtrip) (simp add: lit_def)

text \<open>The size of an encoded header block.\<close>

lemma length_int_bytes: "unat v < 128 ^ Suc k \<Longrightarrow> length (int_bytes v) \<le> Suc k"
proof (induction k arbitrary: v)
  case 0
  then show ?case
    by (simp add: int_bytes.simps [of v] word_le_nat_alt)
next
  case (Suc k)
  then have "unat (drop_bit 7 v) < 128 ^ Suc k"
    by (simp add: drop_bit_eq_div unat_div less_mult_imp_div_less mult.commute)
  from Suc.IH [OF this] show ?case
    by (simp add: int_bytes.simps [of v])
qed

lemma length_encode_integer: "length (encode_integer v p pattern) \<le> 11"
proof -
  have "unat w < 128 ^ Suc 9" for w :: u64
    using unsigned_less [where ?'a = nat, of w] by simp
  from length_int_bytes [OF this] show ?thesis
    by (simp add: encode_integer_def)
qed

lemma length_encode_string: "length (encode_string s) \<le> 11 + length s"
  using length_encode_integer [of "of_nat (length s)" 7 0] by (simp add: encode_string_def)

lemma length_encode_header: "length (encode_header h) \<le> 23 + length (fst h) + length (snd h)"
proof (cases "find_static (fst h)")
  case None
  then show ?thesis
    using length_encode_string [of "fst h"] length_encode_string [of "snd h"]
    by (simp add: encode_header_def)
next
  case (Some i)
  then show ?thesis
    using length_encode_integer [of "of_nat i" 7 "0x80"] length_encode_integer [of "of_nat i" 4 0]
      length_encode_string [of "snd h"]
    by (simp add: encode_header_def)
qed

lemma length_encode: "length (encode hs) \<le> sum_list (map (\<lambda>h. 23 + length (fst h) + length (snd h)) hs)"
  unfolding encode_def by (induction hs) (auto intro: add_mono [OF length_encode_header])

section \<open>The dynamic table\<close>

text \<open>
  The specification of the table: of the entries, newest first, the longest run from the
  front that fits the limit.
\<close>

fun fit :: "nat \<Rightarrow> (bytes \<times> bytes) list \<Rightarrow> (bytes \<times> bytes) list" where
  "fit n [] = []"
| "fit n (e # es) = (if entry_size e \<le> n then e # fit (n - entry_size e) es else [])"

definition table_bytes :: "(bytes \<times> bytes) list \<Rightarrow> nat" where
  "table_bytes es = sum_list (map entry_size es)"

definition hpack_ok :: "hpack_decoder \<Rightarrow> bool" where
  "hpack_ok d = (dynamic_table_size d = table_bytes (dynamic_table d)
                 \<and> dynamic_table_size d \<le> max_dynamic_table_size d)"

lemma fit_all: "table_bytes es \<le> n \<Longrightarrow> fit n es = es"
  by (induction es arbitrary: n) (auto simp: table_bytes_def)

lemma fit_bound: "table_bytes (fit n es) \<le> n"
  by (induction n es rule: fit.induct) (auto simp: table_bytes_def)

lemma fit_snoc: "n < table_bytes (es @ [e]) \<Longrightarrow> fit n (es @ [e]) = fit n es"
  by (induction es arbitrary: n) (auto simp: table_bytes_def)

lemma fit_zero [simp]: "fit 0 es = []"
  by (cases es) (auto simp: entry_size_def)

text \<open>The eviction loop meets the specification; it starts from an exact size account.\<close>

lemma evict_for_fit:
  assumes "dynamic_table_size d = table_bytes (dynamic_table d)"
  shows "dynamic_table (evict_for extra d) = fit (max_dynamic_table_size d - extra) (dynamic_table d)
       \<and> dynamic_table_size (evict_for extra d) = table_bytes (dynamic_table (evict_for extra d))
       \<and> max_dynamic_table_size (evict_for extra d) = max_dynamic_table_size d"
  using assms
proof (induction extra d rule: evict_for.induct)
  case (1 extra d)
  show ?case
  proof (cases "max_dynamic_table_size d < dynamic_table_size d + extra \<and> dynamic_table d \<noteq> []")
    case True
    then obtain es e where es: "dynamic_table d = es @ [e]"
      by (metis append_butlast_last_id)
    have "max_dynamic_table_size d - extra < table_bytes (es @ [e]) \<or> max_dynamic_table_size d - extra = 0"
      using True 1(2) es by auto
    then have "fit (max_dynamic_table_size d - extra) (es @ [e]) = fit (max_dynamic_table_size d - extra) es"
      using fit_snoc [of _ es e] by auto
    with 1 True es show ?thesis
      by (simp add: evict_for.simps [of extra d] table_bytes_def)
  next
    case False
    then show ?thesis
      using 1(2) fit_all [of "dynamic_table d" "max_dynamic_table_size d - extra"]
      by (auto simp: evict_for.simps [of extra d])
  qed
qed

lemma add_to_dynamic_table_fit:
  assumes "dynamic_table_size d = table_bytes (dynamic_table d)"
  shows "dynamic_table (add_to_dynamic_table name val d)
         = fit (max_dynamic_table_size d) ((name, val) # dynamic_table d)"
    and "dynamic_table_size (add_to_dynamic_table name val d)
         = table_bytes (dynamic_table (add_to_dynamic_table name val d))"
    and "max_dynamic_table_size (add_to_dynamic_table name val d) = max_dynamic_table_size d"
  using evict_for_fit [OF assms, of "entry_size (name, val)"]
  by (auto simp: add_to_dynamic_table_def Let_def table_bytes_def)

lemma set_max_table_size_fit:
  assumes "dynamic_table_size d = table_bytes (dynamic_table d)"
  shows "dynamic_table (set_max_table_size n d) = fit n (dynamic_table d)"
    and "dynamic_table_size (set_max_table_size n d) = table_bytes (dynamic_table (set_max_table_size n d))"
    and "max_dynamic_table_size (set_max_table_size n d) = n"
  using evict_for_fit [of "d\<lparr>max_dynamic_table_size := n\<rparr>" 0] assms
  by (auto simp: set_max_table_size_def evict_dynamic_table_def)

text \<open>
  C23. The dynamic table is a bounded queue: adding an entry leaves the longest run of
  the newest entries, the new one first, whose total size fits the limit (nothing, if
  the entry alone is too large), and lowering the limit keeps the longest run that fits.
\<close>

theorem dynamic_table_refines_fit:
  assumes "hpack_ok d"
  shows "dynamic_table (add_to_dynamic_table name val d)
         = fit (max_dynamic_table_size d) ((name, val) # dynamic_table d)
       \<and> dynamic_table (set_max_table_size n d) = fit n (dynamic_table d)"
  using assms add_to_dynamic_table_fit(1) set_max_table_size_fit(1) by (simp add: hpack_ok_def)

lemma hpack_ok_init: "hpack_ok hpack_init"
  by (simp add: hpack_ok_def hpack_init_def table_bytes_def)

theorem dynamic_table_refines_fit_witness:
  "dynamic_table (add_to_dynamic_table (lit ''a'') (lit ''b'') hpack_init) = [(lit ''a'', lit ''b'')]"
  using dynamic_table_refines_fit [OF hpack_ok_init]
  by (simp add: hpack_init_def entry_size_def lit_def)

lemma hpack_ok_add: "hpack_ok d \<Longrightarrow> hpack_ok (add_to_dynamic_table name val d)"
  using add_to_dynamic_table_fit [of d name val] fit_bound
  by (simp add: hpack_ok_def del: fit.simps)

lemma hpack_ok_set_max: "hpack_ok d \<Longrightarrow> hpack_ok (set_max_table_size n d)"
  using set_max_table_size_fit [of d n] fit_bound by (simp add: hpack_ok_def)

lemma hpack_ok_field: "hpack_ok d \<Longrightarrow> decode_field d data = Some (d', hs, rest) \<Longrightarrow> hpack_ok d'"
  by (auto simp: decode_field_def Let_def hpack_ok_add hpack_ok_set_max split: if_splits option.splits)

lemma hpack_ok_loop: "hpack_ok d \<Longrightarrow> hpack_ok (fst (decode_loop d data acc))"
proof (induction d data acc rule: decode_loop.induct)
  case (1 d data acc)
  then show ?case
    using hpack_ok_field
    by (auto simp: decode_loop.simps [of d data] split: option.split)
qed

inductive hpack_reachable :: "hpack_decoder \<Rightarrow> bool" where
  fresh: "hpack_reachable hpack_init"
| decoded: "hpack_reachable d \<Longrightarrow> hpack_reachable (fst (decode d data))"
| resized: "hpack_reachable d \<Longrightarrow> hpack_reachable (set_max_table_size n d)"

lemma hpack_reachable_ok: "hpack_reachable d \<Longrightarrow> hpack_ok d"
  by (induction rule: hpack_reachable.induct)
     (simp_all add: hpack_ok_init hpack_ok_loop decode_def hpack_ok_set_max)

text \<open>
  Memory bound of the dynamic table.  After any sequence of header blocks, well-formed
  or not, and table-size settings, the accounted size is exactly the sum of the entries'
  sizes and does not exceed the current limit; each entry counts at least 32 bytes, so
  there are at most limit/32 entries.
\<close>

theorem dynamic_table_bounded:
  assumes "hpack_reachable d"
  shows "dynamic_table_size d = sum_list (map entry_size (dynamic_table d))
       \<and> dynamic_table_size d \<le> max_dynamic_table_size d
       \<and> 32 * length (dynamic_table d) \<le> max_dynamic_table_size d"
proof -
  have "32 * length es \<le> sum_list (map entry_size es)" for es
    by (induction es) (auto simp: entry_size_def)
  from this [of "dynamic_table d"] hpack_reachable_ok [OF assms] show ?thesis
    by (simp add: hpack_ok_def table_bytes_def)
qed

theorem dynamic_table_bounded_witness:
  "32 * length (dynamic_table (fst (decode hpack_init [0x40, 1, 97, 1, 98])))
   \<le> max_dynamic_table_size (fst (decode hpack_init [0x40, 1, 97, 1, 98]))"
  using dynamic_table_bounded [OF hpack_reachable.decoded [OF hpack_reachable.fresh], of "[0x40, 1, 97, 1, 98]"]
  by simp

text \<open>
  An entry that fits is found at once: after a literal with incremental indexing the
  index 62 yields that field, and every entry found before at index i is found at i + 1
  unless it was evicted.
\<close>

theorem lookup_after_add:
  assumes "hpack_ok d" and "entry_size (name, val) \<le> max_dynamic_table_size d"
  shows "lookup (add_to_dynamic_table name val d) 62 = Some (name, val)
       \<and> (\<forall>i > 61. lookup (add_to_dynamic_table name val d) (i + 1) \<in> {None, lookup d i})"
proof -
  let ?d = "add_to_dynamic_table name val d"
  let ?rest = "fit (max_dynamic_table_size d - entry_size (name, val)) (dynamic_table d)"
  have tab: "dynamic_table ?d = (name, val) # ?rest"
    using assms add_to_dynamic_table_fit(1) [of d name val] by (simp add: hpack_ok_def)
  have prefix: "j < length (fit n es) \<Longrightarrow> j < length es \<and> fit n es ! j = es ! j" for j n es
    by (induction n es arbitrary: j rule: fit.induct) (auto simp: nth_Cons split: if_splits nat.splits)
  show ?thesis
    using prefix [of _ "max_dynamic_table_size d - entry_size (name, val)" "dynamic_table d"]
    by (auto simp: lookup_def tab STATIC_TABLE_SIZE_61 Let_def nth_Cons' Suc_diff_le)
qed

theorem lookup_after_add_witness:
  "lookup (add_to_dynamic_table (lit ''a'') (lit ''b'') hpack_init) 62 = Some (lit ''a'', lit ''b'')"
  using lookup_after_add [OF hpack_ok_init, of "lit ''a''" "lit ''b''"]
  by (simp add: entry_size_def hpack_init_def lit_def)

text \<open>
  A size update of the peer is not compared with any limit the server announced: one field
  sets the limit of the table to any 64-bit number.
\<close>

lemma size_update_unbounded:
  "max_dynamic_table_size (fst (decode d (encode_integer v 5 0x20))) = unat v"
proof -
  obtain w r where w: "encode_integer v 5 0x20 = (0x20 OR w) # r" "unat w < 2 ^ 5"
    by (rule encode_integer_hd [of 5 v "0x20"], simp) blast
  have flags: "(0x20 OR w) AND 0x80 = 0" "(0x20 OR w) AND 0x40 = 0" "(0x20 OR w) AND 0x20 \<noteq> 0"
    using bit_small [of w 5 6] bit_small [of w 5 7] w(2)
      and_exp_eq_0_iff_not_bit [of "0x20 OR w" 5] and_exp_eq_0_iff_not_bit [of "0x20 OR w" 6]
      and_exp_eq_0_iff_not_bit [of "0x20 OR w" 7] bit_exp_iff [where 'a = byte, of 5]
    by (simp_all add: bit_or_iff)
  have "decode_integer (encode_integer v 5 0x20) 5 = Some (v, [])"
    using decode_encode_integer [of 5 "0x20" v "[]"] by (simp add: max_prefix_def)
  then have "decode_field d (encode_integer v 5 0x20) = Some (set_max_table_size (unat v) d, [], [])"
    using w flags by (simp add: decode_field_def)
  moreover have "max_dynamic_table_size (evict_for x e) = max_dynamic_table_size e" for x e
    by (induction x e rule: evict_for.induct) (subst evict_for.simps, simp)
  ultimately show ?thesis
    using w by (simp add: decode_def decode_loop.simps set_max_table_size_def evict_dynamic_table_def)
qed

end
