(* ===== verification/Http_Message.thy ===== *)
theory Http_Message
  imports Prelude
begin

text \<open>
  Requests and responses (\<open>include/http_parser.hpp\<close>, first half of \<open>src/http_parser.cpp\<close>):
  the enum of methods, the two structs as records, the case-insensitive header lookup, the
  serialisation of a response and the two canned responses.

  The theorem of this theory is that a serialised response is framed by its first empty
  line: no header value without a carriage return can forge the start of the body.
\<close>

section \<open>Data\<close>

datatype http_method = GET | POST | PUT | DELETE | HEAD | OPTIONS | PATCH | UNKNOWN

record http_request =
  req_method :: http_method
  method_str :: bytes
  uri :: bytes
  path :: bytes
  query_string :: bytes
  version :: bytes
  req_headers :: "bytes smap"
  req_body :: bytes

definition empty_request :: http_request where
  "empty_request =
     \<lparr>req_method = UNKNOWN, method_str = [], uri = [], path = [], query_string = [],
      version = [], req_headers = [], req_body = []\<rparr>"

record http_response =
  status_code :: int
  status_text :: bytes
  resp_headers :: "bytes smap"
  resp_body :: bytes

definition empty_response :: http_response where
  "empty_response =
     \<lparr>status_code = 200, status_text = lit ''OK'', resp_headers = [], resp_body = []\<rparr>"

section \<open>Operations\<close>

text \<open>
  \<open>get_header\<close> walks over the map and returns the first value whose key agrees up to case;
  a missing header is the empty view.
\<close>

fun lookup_header :: "bytes \<Rightarrow> bytes smap \<Rightarrow> bytes" where
  "lookup_header lower_name [] = []"
| "lookup_header lower_name ((key, val) # hs) =
     (if lower key = lower_name then val else lookup_header lower_name hs)"

definition get_header :: "http_request \<Rightarrow> bytes \<Rightarrow> bytes" where
  "get_header req name = lookup_header (lower name) (req_headers req)"

definition has_header :: "http_request \<Rightarrow> bytes \<Rightarrow> bool" where
  "has_header req name = (get_header req name \<noteq> [])"

text \<open>\<open>std::to_string\<close> of an \<open>int\<close>.\<close>

definition to_string :: "int \<Rightarrow> bytes" where
  "to_string i = (if i < 0 then 45 # to_dec (nat (- i)) else to_dec (nat i))"

abbreviation (input) crlf :: bytes where
  "crlf \<equiv> [13, 10]"

definition header_line :: "bytes \<times> bytes \<Rightarrow> bytes" where
  "header_line kv = fst kv @ lit '': '' @ snd kv"

definition serialize :: "http_response \<Rightarrow> bytes" where
  "serialize resp =
     lit ''HTTP/1.1 '' @ to_string (status_code resp) @ lit '' '' @ status_text resp @ crlf
     @ concat (map (\<lambda>kv. header_line kv @ crlf) (resp_headers resp))
     @ (if \<exists>kv \<in> set (resp_headers resp). lower (fst kv) = lit ''content-length'' then []
        else lit ''Content-Length: '' @ to_dec (length (resp_body resp)) @ crlf)
     @ crlf @ resp_body resp"

definition make_error :: "int \<Rightarrow> bytes \<Rightarrow> http_response" where
  "make_error code message =
     (let st = (if code = 400 then lit ''Bad Request''
                else if code = 403 then lit ''Forbidden''
                else if code = 404 then lit ''Not Found''
                else if code = 405 then lit ''Method Not Allowed''
                else if code = 408 then lit ''Request Timeout''
                else if code = 413 then lit ''Payload Too Large''
                else if code = 429 then lit ''Too Many Requests''
                else if code = 500 then lit ''Internal Server Error''
                else if code = 502 then lit ''Bad Gateway''
                else lit ''Error'')
      in \<lparr>status_code = code, status_text = st,
          resp_headers = hput (lit ''Connection'') (lit ''close'')
            (hput (lit ''Content-Type'') (lit ''text/html; charset=utf-8'') []),
          resp_body =
            lit ''<!DOCTYPE html><html><head><title>'' @ to_string code @ lit '' '' @ st
            @ lit ''</title></head><body><h1>'' @ to_string code @ lit '' '' @ st
            @ lit ''</h1><p>'' @ message
            @ lit ''</p><hr><p>JustServer/1.0</p></body></html>''\<rparr>)"

definition make_redirect :: "bytes \<Rightarrow> int \<Rightarrow> http_response" where
  "make_redirect location code =
     \<lparr>status_code = code,
      status_text = (if code = 301 then lit ''Moved Permanently'' else lit ''Found''),
      resp_headers = hput (lit ''Connection'') (lit ''close'')
        (hput (lit ''Location'') location []),
      resp_body = []\<rparr>"

section \<open>Looking up headers\<close>

lemma lookup_header_cases:
  "lookup_header n hs \<noteq> [] \<Longrightarrow> \<exists>k. (k, lookup_header n hs) \<in> set hs \<and> lower k = n"
  by (induction n hs rule: lookup_header.induct) (auto split: if_splits)

lemma lookup_header_unique:
  assumes "(k, v) \<in> set hs" and "lower k = n"
    and "\<forall>(k', v') \<in> set hs. lower k' = n \<longrightarrow> v' = v"
  shows "lookup_header n hs = v"
  using assms by (induction n hs rule: lookup_header.induct) (auto split: if_splits)

section \<open>Where a serialised message ends\<close>

text \<open>
  A block of lines, each closed by CR LF, then an empty line.  When no line is empty and
  none holds a CR, the first CR LF CR LF is the empty line.
\<close>

lemma find_end_of_lines:
  assumes "lines \<noteq> []" and "\<forall>l \<in> set lines. l \<noteq> [] \<and> (13 :: byte) \<notin> set l"
  shows "find_sub (crlf @ crlf) (concat (map (\<lambda>l. l @ crlf) lines) @ crlf @ rest)
       = Some (length (concat (map (\<lambda>l. l @ crlf) lines)) - 2)"
  using assms
proof (induction lines)
  case Nil
  then show ?case by simp
next
  case (Cons l ls)
  let ?tl = "concat (map (\<lambda>l. l @ crlf) ls) @ crlf @ rest"
  have no13: "find_sub [13, 10, 13, 10] (l @ s) = map_option (\<lambda>i. length l + i) (find_sub [13, 10, 13, 10] s)"
    for s using Cons.prems(2) by (simp add: find_sub_skip)
  show ?case
  proof (cases ls)
    case Nil
    then show ?thesis
      by (simp add: no13 starts_with_def)
  next
    case (Cons m ms)
    with Cons.prems obtain c m' where m: "m = c # m'" "c \<noteq> 13"
      by (cases m) auto
    have len: "2 \<le> length (concat (map (\<lambda>l. l @ crlf) ls))"
      using Cons by simp
    have "find_sub (crlf @ crlf) ?tl = Some (length (concat (map (\<lambda>l. l @ crlf) ls)) - 2)"
      using Cons.IH Cons.prems Cons by simp
    with m Cons len show ?thesis
      by (simp add: no13 starts_with_def)
  qed
qed

lemma to_dec_no_CR: "13 \<notin> set (to_dec n)"
  using to_dec_digits [of 13 n] by (auto simp: digit_val_def)

lemma to_string_no_CR: "13 \<notin> set (to_string i)"
  by (simp add: to_string_def to_dec_no_CR)

text \<open>The lines of the head of a serialised response.\<close>

definition response_lines :: "http_response \<Rightarrow> bytes list" where
  "response_lines resp =
     (lit ''HTTP/1.1 '' @ to_string (status_code resp) @ lit '' '' @ status_text resp)
     # map header_line (resp_headers resp)
     @ (if \<exists>kv \<in> set (resp_headers resp). lower (fst kv) = lit ''content-length'' then []
        else [lit ''Content-Length: '' @ to_dec (length (resp_body resp))])"

lemma serialize_lines:
  "serialize resp =
     concat (map (\<lambda>l. l @ crlf) (response_lines resp)) @ crlf @ resp_body resp"
  by (simp add: serialize_def response_lines_def comp_def)

lemma response_lines_no_CR:
  assumes "13 \<notin> set (status_text resp)"
    and "\<forall>(k, v) \<in> set (resp_headers resp). 13 \<notin> set k \<and> 13 \<notin> set v"
  shows "\<forall>l \<in> set (response_lines resp). l \<noteq> [] \<and> 13 \<notin> set l"
  using assms by (auto simp: response_lines_def header_line_def lit_def to_dec_no_CR to_string_no_CR)

text \<open>
  A serialised response is framed by its first empty line: when neither the status text
  nor any header name or value holds a carriage return, the first CR LF CR LF of
  \<open>serialize\<close> is the end of the head, and what follows it is exactly the body, whatever
  the body contains.
\<close>

theorem serialize_body_framing:
  assumes "13 \<notin> set (status_text resp)"
    and "\<forall>(k, v) \<in> set (resp_headers resp). 13 \<notin> set k \<and> 13 \<notin> set v"
  shows "\<exists>i. find_sub (crlf @ crlf) (serialize resp) = Some i
           \<and> drop (i + 4) (serialize resp) = resp_body resp"
proof -
  let ?ls = "concat (map (\<lambda>l. l @ crlf) (response_lines resp))"
  have "response_lines resp \<noteq> []"
    by (simp add: response_lines_def)
  then have "find_sub (crlf @ crlf) (serialize resp) = Some (length ?ls - 2)"
    unfolding serialize_lines
    by (rule find_end_of_lines) (rule response_lines_no_CR [OF assms])
  moreover have "2 \<le> length ?ls"
    by (simp add: response_lines_def)
  ultimately show ?thesis
    by (simp add: serialize_lines)
qed

theorem serialize_body_framing_witness:
  "\<exists>i. find_sub (crlf @ crlf) (serialize (make_error 404 (lit ''gone''))) = Some i
     \<and> drop (i + 4) (serialize (make_error 404 (lit ''gone'')))
       = resp_body (make_error 404 (lit ''gone''))"
  by (rule serialize_body_framing) (simp_all add: make_error_def lit_def)

end
