(* ===== verification/Http2.thy ===== *)
theory Http2
  imports Hpack Http_Message
begin

text \<open>
  The HTTP/2 connection (\<open>class Http2Connection\<close>, \<open>src/http2.cpp\<close>): frames, settings,
  header blocks, data, flow-control updates, pings, shutdown, and the responses.  The
  connection is a record, a handler returns the new record and the bytes to send; the
  request handler (\<open>handler_\<close>, a callback installed by the worker) is a function argument (\<open>h2_handler\<close>).
  Logging is left out.

  Shown: frames are a codec, the input may be cut anywhere as long as the connection is
  alive, settings stay in their ranges, requests and responses are what the peer encoded
  and what it can decode, and where flow control and oversized frames go wrong.
\<close>

section \<open>Frames\<close>

datatype h2_frame_type =
  H2_DATA | H2_HEADERS | H2_PRIORITY | H2_RST_STREAM | H2_SETTINGS | H2_PUSH_PROMISE | H2_PING
| H2_GOAWAY | H2_WINDOW_UPDATE | H2_CONTINUATION | H2_OTHER byte

definition h2_type_of :: "byte \<Rightarrow> h2_frame_type" where
  "h2_type_of b =
     (if b = 0 then H2_DATA else if b = 1 then H2_HEADERS else if b = 2 then H2_PRIORITY
      else if b = 3 then H2_RST_STREAM else if b = 4 then H2_SETTINGS else if b = 5 then H2_PUSH_PROMISE
      else if b = 6 then H2_PING else if b = 7 then H2_GOAWAY else if b = 8 then H2_WINDOW_UPDATE
      else if b = 9 then H2_CONTINUATION else H2_OTHER b)"

fun h2_type_byte :: "h2_frame_type \<Rightarrow> byte" where
  "h2_type_byte H2_DATA = 0"
| "h2_type_byte H2_HEADERS = 1"
| "h2_type_byte H2_PRIORITY = 2"
| "h2_type_byte H2_RST_STREAM = 3"
| "h2_type_byte H2_SETTINGS = 4"
| "h2_type_byte H2_PUSH_PROMISE = 5"
| "h2_type_byte H2_PING = 6"
| "h2_type_byte H2_GOAWAY = 7"
| "h2_type_byte H2_WINDOW_UPDATE = 8"
| "h2_type_byte H2_CONTINUATION = 9"
| "h2_type_byte (H2_OTHER b) = b"

datatype h2_error =
  NO_ERROR | PROTOCOL_ERROR | INTERNAL_ERROR | FLOW_CONTROL_ERROR | SETTINGS_TIMEOUT | STREAM_CLOSED
| FRAME_SIZE_ERROR | REFUSED_STREAM | CANCEL | COMPRESSION_ERROR | CONNECT_ERROR | ENHANCE_YOUR_CALM
| INADEQUATE_SECURITY | HTTP_1_1_REQUIRED

fun h2_error_code :: "h2_error \<Rightarrow> u32" where
  "h2_error_code NO_ERROR = 0"
| "h2_error_code PROTOCOL_ERROR = 1"
| "h2_error_code INTERNAL_ERROR = 2"
| "h2_error_code FLOW_CONTROL_ERROR = 3"
| "h2_error_code SETTINGS_TIMEOUT = 4"
| "h2_error_code STREAM_CLOSED = 5"
| "h2_error_code FRAME_SIZE_ERROR = 6"
| "h2_error_code REFUSED_STREAM = 7"
| "h2_error_code CANCEL = 8"
| "h2_error_code COMPRESSION_ERROR = 9"
| "h2_error_code CONNECT_ERROR = 10"
| "h2_error_code ENHANCE_YOUR_CALM = 11"
| "h2_error_code INADEQUATE_SECURITY = 12"
| "h2_error_code HTTP_1_1_REQUIRED = 13"

abbreviation (input) END_STREAM :: byte where "END_STREAM \<equiv> 0x1"
abbreviation (input) END_HEADERS :: byte where "END_HEADERS \<equiv> 0x4"
abbreviation (input) PADDED :: byte where "PADDED \<equiv> 0x8"
abbreviation (input) PRIORITY :: byte where "PRIORITY \<equiv> 0x20"

record h2_frame =
  fr_length :: u32
  fr_type :: h2_frame_type
  fr_flags :: byte
  fr_stream :: u32
  fr_payload :: bytes

definition has_flag :: "h2_frame \<Rightarrow> byte \<Rightarrow> bool" where
  "has_flag f flag = (fr_flags f AND flag \<noteq> 0)"

text \<open>\<open>parse_frame\<close> on the buffer; \<open>None\<close> also when the frame is larger than allowed.\<close>

definition h2_parse_frame :: "u32 \<Rightarrow> bytes \<Rightarrow> (h2_frame \<times> bytes) option" where
  "h2_parse_frame max_frame_size buf =
     (case buf of
        b0 # b1 # b2 # b3 # b4 # b5 # b6 # b7 # b8 # rest \<Rightarrow>
          let len = be24 b0 b1 b2
          in if max_frame_size < len then None
             else if length rest < unat len then None
             else Some (\<lparr>fr_length = len, fr_type = h2_type_of b3, fr_flags = b4,
                         fr_stream = be32 (b5 AND 0x7F) b6 b7 b8, fr_payload = take (unat len) rest\<rparr>,
                        drop (unat len) rest)
      | _ \<Rightarrow> None)"

definition h2_build_frame :: "h2_frame_type \<Rightarrow> byte \<Rightarrow> u32 \<Rightarrow> bytes \<Rightarrow> bytes" where
  "h2_build_frame ty flags stream_id payload =
     bytes24 (of_nat (length payload)) @
     [h2_type_byte ty, flags,
      ucast (drop_bit 24 stream_id) AND 0x7F, ucast (drop_bit 16 stream_id), ucast (drop_bit 8 stream_id),
      ucast stream_id] @ payload"

section \<open>The connection\<close>

datatype h2_stream_state =
  IDLE | RESERVED_LOCAL | RESERVED_REMOTE | OPEN | HALF_CLOSED_LOCAL | HALF_CLOSED_REMOTE | CLOSED

record h2_stream =
  st_id :: u32
  st_state :: h2_stream_state
  st_window :: u32
  st_header_block :: bytes
  st_request :: http_request
  st_headers_complete :: bool

text \<open>
  The windows are \<open>int32_t\<close> in the code; they are only added to, so the 32-bit pattern is
  kept and \<open>sint\<close> reads it.
\<close>

record h2_conn =
  h2_decoder :: hpack_decoder
  h2_buffer :: bytes
  h2_streams :: "u32 \<rightharpoonup> h2_stream"
  preface_received :: bool
  settings_sent :: bool
  goaway_sent :: bool
  last_stream_id :: u32
  connection_window :: u32
  max_frame_size :: u32
  max_concurrent_streams :: u32
  header_table_size :: u32
  initial_window_size :: u32
  h2_requests :: "http_request list"

text \<open>
  The callback may have state (the worker's has: it charges the guard and counts).  What it answers is then a function
  of the requests it was called with before, so a handler is a function of that history and of the request;
  the last field of the connection is the history.
\<close>

type_synonym h2_handler = "http_request list \<Rightarrow> http_request \<Rightarrow> http_response"

abbreviation (input) note_request :: "http_request \<Rightarrow> h2_conn \<Rightarrow> h2_conn" where
  "note_request r c \<equiv> c\<lparr>h2_requests := h2_requests c @ [r]\<rparr>"

definition h2_init :: h2_conn where
  "h2_init =
     \<lparr>h2_decoder = hpack_init, h2_buffer = [], h2_streams = Map.empty, preface_received = False,
      settings_sent = False, goaway_sent = False, last_stream_id = 0, connection_window = 65535,
      max_frame_size = 16384, max_concurrent_streams = 100, header_table_size = 4096,
      initial_window_size = 65535, h2_requests = []\<rparr>"

definition h2_is_alive :: "h2_conn \<Rightarrow> bool" where
  "h2_is_alive c = (\<not> goaway_sent c)"

definition CLIENT_PREFACE :: bytes where
  "CLIENT_PREFACE = lit ''PRI * HTTP/2.0'' @ crlf @ crlf @ lit ''SM'' @ crlf @ crlf"

definition get_or_create_stream :: "h2_conn \<Rightarrow> u32 \<Rightarrow> h2_conn \<times> h2_stream" where
  "get_or_create_stream c stream_id =
     (case h2_streams c stream_id of
        Some s \<Rightarrow> (c, s)
      | None \<Rightarrow>
          let s = \<lparr>st_id = stream_id, st_state = IDLE, st_window = initial_window_size c,
                   st_header_block = [], st_request = empty_request, st_headers_complete = False\<rparr>
          in (c\<lparr>h2_streams := (h2_streams c)(stream_id \<mapsto> s),
                last_stream_id := (if last_stream_id c < stream_id then stream_id else last_stream_id c)\<rparr>, s))"

definition put_stream :: "h2_conn \<Rightarrow> u32 \<Rightarrow> h2_stream \<Rightarrow> h2_conn" where
  "put_stream c stream_id s = c\<lparr>h2_streams := (h2_streams c)(stream_id \<mapsto> s)\<rparr>"

section \<open>What is sent\<close>

definition build_goaway :: "h2_conn \<Rightarrow> h2_error \<Rightarrow> bytes \<Rightarrow> h2_conn \<times> bytes" where
  "build_goaway c err debug =
     (c\<lparr>goaway_sent := True\<rparr>,
      h2_build_frame H2_GOAWAY 0 0 (bytes32 (last_stream_id c) @ bytes32 (h2_error_code err) @ debug))"

definition build_settings_frame :: "bool \<Rightarrow> bytes" where
  "build_settings_frame ack =
     (if ack then h2_build_frame H2_SETTINGS 0x1 0 []
      else h2_build_frame H2_SETTINGS 0 0
             ((bytes16 3 @ bytes32 100) @ (bytes16 4 @ bytes32 65535) @ (bytes16 5 @ bytes32 16384)))"

definition response_headers :: "http_response \<Rightarrow> (bytes \<times> bytes) list" where
  "response_headers resp =
     (let headers = (lit '':status'', to_string (status_code resp))
                    # map (\<lambda>(name, val). (lower name, val)) (resp_headers resp);
          headers = (if resp_body resp \<noteq> [] \<and> lit ''content-length'' \<notin> fst ` set headers
                     then headers @ [(lit ''content-length'', to_dec (length (resp_body resp)))]
                     else headers)
      in headers @ [(lit ''server'', lit ''JustServer/1.0'')])"

text \<open>
  The loop that sends the body.  With a frame size of 0 it would not end; the settings never
  get there (\<open>settings_in_range\<close> below), so that case ends the recursion here.
\<close>

function data_frames :: "u32 \<Rightarrow> u32 \<Rightarrow> bytes \<Rightarrow> bytes" where
  "data_frames frame_size stream_id body =
     (if body = [] \<or> frame_size = 0 then []
      else let chunk = min (length body) (unat frame_size);
               last_chunk = (length body \<le> chunk)
           in h2_build_frame H2_DATA (if last_chunk then END_STREAM else 0) stream_id (take chunk body)
              @ data_frames frame_size stream_id (drop chunk body))"
  by pat_completeness auto
termination
  by (relation "measure (\<lambda>(n, i, body). length body)") (auto simp: unat_gt_0)

declare data_frames.simps [simp del]

definition build_headers_response :: "h2_conn \<Rightarrow> u32 \<Rightarrow> http_response \<Rightarrow> bytes" where
  "build_headers_response c stream_id resp =
     h2_build_frame H2_HEADERS (if resp_body resp = [] then END_HEADERS OR END_STREAM else END_HEADERS)
       stream_id (encode (response_headers resp))
     @ data_frames (max_frame_size c) stream_id (resp_body resp)"

section \<open>Settings\<close>

text \<open>One setting; \<open>Some\<close> is the error the connection ends with.\<close>

definition apply_setting :: "h2_conn \<Rightarrow> u16 \<Rightarrow> u32 \<Rightarrow> h2_conn \<times> h2_error option" where
  "apply_setting c ident val =
     (if ident = 1 then
        (c\<lparr>header_table_size := val, h2_decoder := set_max_table_size (unat val) (h2_decoder c)\<rparr>, None)
      else if ident = 3 then (c\<lparr>max_concurrent_streams := val\<rparr>, None)
      else if ident = 4 then
        (if 0x7FFFFFFF < val then (c, Some FLOW_CONTROL_ERROR) else (c\<lparr>initial_window_size := val\<rparr>, None))
      else if ident = 5 then
        (if val < 16384 \<or> 16777215 < val then (c, Some PROTOCOL_ERROR) else (c\<lparr>max_frame_size := val\<rparr>, None))
      else (c, None))"

fun apply_settings :: "h2_conn \<Rightarrow> bytes \<Rightarrow> h2_conn \<times> h2_error option" where
  "apply_settings c (i0 # i1 # v0 # v1 # v2 # v3 # rest) =
     (let (c, err) = apply_setting c (be16 i0 i1) (be32 v0 v1 v2 v3)
      in case err of None \<Rightarrow> apply_settings c rest | Some e \<Rightarrow> (c, Some e))"
| "apply_settings c _ = (c, None)"

definition handle_settings :: "h2_conn \<Rightarrow> h2_frame \<Rightarrow> h2_conn \<times> bytes" where
  "handle_settings c f =
     (if has_flag f 0x1 then (c, [])
      else if length (fr_payload f) mod 6 \<noteq> 0
      then build_goaway c FRAME_SIZE_ERROR (lit ''Invalid SETTINGS frame size'')
      else case apply_settings c (fr_payload f) of
             (c, Some e) \<Rightarrow> build_goaway c e []
           | (c, None) \<Rightarrow> (c, build_settings_frame True))"

section \<open>Requests\<close>

definition h2_method :: "bytes \<Rightarrow> http_method" where
  "h2_method m =
     (if m = lit ''GET'' then GET
      else if m = lit ''POST'' then POST
      else if m = lit ''HEAD'' then HEAD
      else if m = lit ''PUT'' then PUT
      else if m = lit ''DELETE'' then DELETE
      else if m = lit ''OPTIONS'' then OPTIONS
      else UNKNOWN)"

definition apply_header :: "bytes \<times> bytes \<Rightarrow> http_request \<Rightarrow> http_request" where
  "apply_header h r =
     (let name = fst h; val = snd h
      in if name = lit '':method'' then r\<lparr>method_str := val\<rparr>
         else if name = lit '':path'' then
           (case find_sub [63] val of
              None \<Rightarrow> r\<lparr>uri := val, path := val\<rparr>
            | Some q \<Rightarrow> r\<lparr>uri := val, path := take q val, query_string := drop (q + 1) val\<rparr>)
         else if name = lit '':authority'' then r\<lparr>req_headers := hput (lit ''Host'') val (req_headers r)\<rparr>
         else if name = lit '':scheme'' then r
         else if name \<noteq> [] \<and> hd name \<noteq> 58 then r\<lparr>req_headers := hput name val (req_headers r)\<rparr>
         else r)"

definition build_request :: "(bytes \<times> bytes) list \<Rightarrow> http_request \<Rightarrow> http_request" where
  "build_request headers r =
     (let r = fold apply_header headers r
      in r\<lparr>req_method := h2_method (method_str r), version := lit ''HTTP/2''\<rparr>)"

text \<open>The payload of a HEADERS frame without padding and priority fields.\<close>

definition header_fragment :: "h2_frame \<Rightarrow> bytes option" where
  "header_fragment f =
     (let payload = fr_payload f
      in if has_flag f PADDED \<and> payload = [] then None
         else let pad_length = (if has_flag f PADDED then unat (hd payload) else 0);
                  offset = (if has_flag f PADDED then 1 else 0) + (if has_flag f PRIORITY then 5 else 0)
              in if length payload < offset + pad_length then None
                 else Some (take (length payload - offset - pad_length) (drop offset payload)))"

definition handle_headers :: "h2_handler \<Rightarrow> h2_conn \<Rightarrow> h2_frame \<Rightarrow> h2_conn \<times> bytes" where
  "handle_headers handler c f =
     (if fr_stream f = 0 then build_goaway c PROTOCOL_ERROR (lit ''HEADERS on stream 0'')
      else let (c, s) = get_or_create_stream c (fr_stream f)
           in case header_fragment f of
                None \<Rightarrow> build_goaway c PROTOCOL_ERROR []
              | Some fragment \<Rightarrow>
                  let s = s\<lparr>st_header_block := st_header_block s @ fragment\<rparr>;
                      c = put_stream c (fr_stream f) s
                  in if \<not> has_flag f END_HEADERS then (c, [])
                     else let (d, decoded) = decode (h2_decoder c) (st_header_block s);
                              c = c\<lparr>h2_decoder := d\<rparr>
                          in case decoded of
                               None \<Rightarrow> build_goaway c COMPRESSION_ERROR []
                             | Some headers \<Rightarrow>
                                 let s = s\<lparr>st_request := build_request headers (st_request s),
                                           st_headers_complete := True, st_header_block := []\<rparr>
                                 in if has_flag f END_STREAM
                                    then (put_stream (note_request (st_request s) c) (fr_stream f) (s\<lparr>st_state := HALF_CLOSED_REMOTE\<rparr>),
                                          build_headers_response c (fr_stream f) (handler (h2_requests c) (st_request s)))
                                    else (put_stream c (fr_stream f) (s\<lparr>st_state := OPEN\<rparr>), []))"

definition handle_data :: "h2_handler \<Rightarrow> h2_conn \<Rightarrow> h2_frame \<Rightarrow> h2_conn \<times> bytes" where
  "handle_data handler c f =
     (if fr_stream f = 0 then build_goaway c PROTOCOL_ERROR []
      else case h2_streams c (fr_stream f) of
             None \<Rightarrow> build_goaway c PROTOCOL_ERROR []
           | Some s \<Rightarrow>
               let s = s\<lparr>st_request := (st_request s)\<lparr>req_body := req_body (st_request s) @ fr_payload f\<rparr>\<rparr>;
                   s = (if has_flag f END_STREAM then s\<lparr>st_state := HALF_CLOSED_REMOTE\<rparr> else s);
                   c = put_stream c (fr_stream f) s
               in if has_flag f END_STREAM \<and> st_headers_complete s
                  then (note_request (st_request s) c, build_headers_response c (fr_stream f) (handler (h2_requests c) (st_request s)))
                  else if 0 < fr_length f
                  then (c, h2_build_frame H2_WINDOW_UPDATE 0 0 (bytes32 (fr_length f))
                           @ h2_build_frame H2_WINDOW_UPDATE 0 (fr_stream f) (bytes32 (fr_length f)))
                  else (c, []))"

section \<open>Flow control, ping, shutdown\<close>

definition handle_window_update :: "h2_conn \<Rightarrow> h2_frame \<Rightarrow> h2_conn \<times> bytes" where
  "handle_window_update c f =
     (case fr_payload f of
        [b0, b1, b2, b3] \<Rightarrow>
          let increment = be32 (b0 AND 0x7F) b1 b2 b3
          in if increment = 0 then build_goaway c PROTOCOL_ERROR []
             else if fr_stream f = 0
             then (c\<lparr>connection_window := connection_window c + increment\<rparr>, [])
             else case h2_streams c (fr_stream f) of
                    None \<Rightarrow> (c, [])
                  | Some s \<Rightarrow> (put_stream c (fr_stream f) (s\<lparr>st_window := st_window s + increment\<rparr>), [])
      | _ \<Rightarrow> build_goaway c FRAME_SIZE_ERROR [])"

definition h2_handle_ping :: "h2_conn \<Rightarrow> h2_frame \<Rightarrow> h2_conn \<times> bytes" where
  "h2_handle_ping c f =
     (if length (fr_payload f) \<noteq> 8 then build_goaway c FRAME_SIZE_ERROR []
      else if has_flag f 0x1 then (c, [])
      else (c, h2_build_frame H2_PING 0x1 0 (fr_payload f)))"

definition handle_goaway :: "h2_conn \<Rightarrow> h2_frame \<Rightarrow> h2_conn \<times> bytes" where
  "handle_goaway c f = (c\<lparr>goaway_sent := True\<rparr>, [])"

definition h2_handle_frame :: "h2_handler \<Rightarrow> h2_conn \<Rightarrow> h2_frame \<Rightarrow> h2_conn \<times> bytes" where
  "h2_handle_frame handler c f =
     (case fr_type f of
        H2_SETTINGS \<Rightarrow> handle_settings c f
      | H2_HEADERS \<Rightarrow> handle_headers handler c f
      | H2_DATA \<Rightarrow> handle_data handler c f
      | H2_WINDOW_UPDATE \<Rightarrow> handle_window_update c f
      | H2_PING \<Rightarrow> h2_handle_ping c f
      | H2_GOAWAY \<Rightarrow> handle_goaway c f
      | H2_RST_STREAM \<Rightarrow> (c, [])
      | H2_PRIORITY \<Rightarrow> (c, [])
      | _ \<Rightarrow> (c, []))"

section \<open>The input loop\<close>

text \<open>One turn of the loop: a frame is taken off the buffer and handled.\<close>

definition h2_turn :: "h2_handler \<Rightarrow> h2_conn \<Rightarrow> (h2_conn \<times> bytes) option" where
  "h2_turn handler c =
     (case h2_parse_frame (max_frame_size c) (h2_buffer c) of
        None \<Rightarrow> None
      | Some (f, rest) \<Rightarrow> Some (h2_handle_frame handler (c\<lparr>h2_buffer := rest\<rparr>) f))"

text \<open>No handler reads or writes the buffer.\<close>

abbreviation (input) set_buffer :: "bytes \<Rightarrow> h2_conn \<Rightarrow> h2_conn" where
  "set_buffer b c \<equiv> c\<lparr>h2_buffer := b\<rparr>"

named_theorems h2_frame_facts

lemma build_goaway_buffer [h2_frame_facts]:
  "build_goaway (set_buffer b c) e dbg = apfst (set_buffer b) (build_goaway c e dbg)"
  by (simp add: build_goaway_def)

lemma put_stream_buffer [h2_frame_facts]: "put_stream (set_buffer b c) i s = set_buffer b (put_stream c i s)"
  by (simp add: put_stream_def)

lemma get_or_create_stream_buffer [h2_frame_facts]:
  "get_or_create_stream (set_buffer b c) i = apfst (set_buffer b) (get_or_create_stream c i)"
  by (simp add: get_or_create_stream_def Let_def split: option.split)

lemma build_headers_response_buffer [h2_frame_facts]:
  "build_headers_response (set_buffer b c) i r = build_headers_response c i r"
  by (simp add: build_headers_response_def)

lemma apply_setting_buffer [h2_frame_facts]:
  "apply_setting (set_buffer b c) i v = apfst (set_buffer b) (apply_setting c i v)"
  by (simp add: apply_setting_def)

lemma apply_settings_buffer [h2_frame_facts]:
  "apply_settings (set_buffer b c) p = apfst (set_buffer b) (apply_settings c p)"
  by (induction c p rule: apply_settings.induct)
     (auto simp: apply_setting_buffer split: prod.split option.split)

lemma handle_settings_buffer [h2_frame_facts]:
  "handle_settings (set_buffer b c) f = apfst (set_buffer b) (handle_settings c f)"
  by (auto simp: handle_settings_def h2_frame_facts split: prod.split option.split)

lemma handle_headers_buffer [h2_frame_facts]:
  "handle_headers h (set_buffer b c) f = apfst (set_buffer b) (handle_headers h c f)"
proof (cases "fr_stream f = 0")
  case False
  obtain c1 s where "get_or_create_stream c (fr_stream f) = (c1, s)"
    by fastforce
  moreover have "h2_decoder (put_stream c1 i s) = h2_decoder c1" for i s
    by (simp add: put_stream_def)
  moreover have "put_stream (c\<lparr>h2_buffer := b, h2_decoder := d\<rparr>) i s
      = set_buffer b (put_stream (c\<lparr>h2_decoder := d\<rparr>) i s)" for c d i s
    by (simp add: put_stream_def)
  moreover have "put_stream (c\<lparr>h2_buffer := b, h2_decoder := d, h2_requests := rs\<rparr>) i s
      = set_buffer b (put_stream (c\<lparr>h2_decoder := d, h2_requests := rs\<rparr>) i s)" for c d rs i s
    by (simp add: put_stream_def)
  moreover have "build_goaway (c\<lparr>h2_buffer := b, h2_decoder := d\<rparr>) e dbg
      = apfst (set_buffer b) (build_goaway (c\<lparr>h2_decoder := d\<rparr>) e dbg)" for c d e dbg
    by (simp add: build_goaway_def)
  moreover have "build_headers_response (c\<lparr>h2_buffer := b, h2_decoder := d\<rparr>) i r
      = build_headers_response (c\<lparr>h2_decoder := d\<rparr>) i r" for c d i r
    by (simp add: build_headers_response_def)
  ultimately show ?thesis
    using False
    by (simp add: handle_headers_def h2_frame_facts Let_def split: option.split prod.split)
qed (simp add: handle_headers_def h2_frame_facts)

lemma handle_data_buffer [h2_frame_facts]:
  "handle_data h (set_buffer b c) f = apfst (set_buffer b) (handle_data h c f)"
  by (simp add: handle_data_def h2_frame_facts Let_def split: option.split)

lemma handle_window_update_buffer [h2_frame_facts]:
  "handle_window_update (set_buffer b c) f = apfst (set_buffer b) (handle_window_update c f)"
  by (auto simp: handle_window_update_def h2_frame_facts Let_def split: list.split option.split)

lemma handle_ping_buffer [h2_frame_facts]:
  "h2_handle_ping (set_buffer b c) f = apfst (set_buffer b) (h2_handle_ping c f)"
  by (simp add: h2_handle_ping_def h2_frame_facts)

lemma handle_goaway_buffer [h2_frame_facts]:
  "handle_goaway (set_buffer b c) f = apfst (set_buffer b) (handle_goaway c f)"
  by (simp add: handle_goaway_def)

lemma h2_handle_frame_buffer:
  "h2_handle_frame h (set_buffer b c) f = apfst (set_buffer b) (h2_handle_frame h c f)"
  by (simp add: h2_handle_frame_def h2_frame_facts split: h2_frame_type.split)

lemma h2_handle_frame_keeps_buffer: "h2_buffer (fst (h2_handle_frame h c f)) = h2_buffer c"
proof -
  have "fst (h2_handle_frame h c f) = set_buffer (h2_buffer c) (fst (h2_handle_frame h c f))"
    using h2_handle_frame_buffer [of h "h2_buffer c" c f] by (metis fst_apfst h2_conn.surjective h2_conn.update_convs(2))
  then show ?thesis
    by (metis h2_conn.select_convs(2) h2_conn.surjective h2_conn.update_convs(2))
qed

lemma parse_frame_shorter:
  "h2_parse_frame n buf = Some (f, rest) \<Longrightarrow> length rest < length buf"
  by (auto simp: h2_parse_frame_def Let_def split: list.splits if_splits)

lemma h2_turn_shorter:
  "h2_turn h c = Some (c1, out) \<Longrightarrow> length (h2_buffer c1) < length (h2_buffer c)"
  using h2_handle_frame_keeps_buffer
  by (auto simp: h2_turn_def dest!: parse_frame_shorter split: option.splits) (metis fst_conv h2_conn.select_convs(2) h2_conn.surjective h2_conn.update_convs(2))

function h2_loop :: "h2_handler \<Rightarrow> h2_conn \<Rightarrow> h2_conn \<times> bytes" where
  "h2_loop handler c =
     (case h2_turn handler c of
        None \<Rightarrow> (c, [])
      | Some (c1, out) \<Rightarrow>
          if goaway_sent c1 then (c1, out)
          else let (c2, out2) = h2_loop handler c1 in (c2, out @ out2))"
  by pat_completeness auto
termination
  by (relation "measure (\<lambda>(h, c). length (h2_buffer c))") (auto dest: h2_turn_shorter)

declare h2_loop.simps [simp del]

definition h2_process_input :: "h2_handler \<Rightarrow> h2_conn \<Rightarrow> bytes \<Rightarrow> h2_conn \<times> bytes" where
  "h2_process_input handler c data =
     (let c = c\<lparr>h2_buffer := h2_buffer c @ data\<rparr>
      in if preface_received c then h2_loop handler c
         else if length (h2_buffer c) < length CLIENT_PREFACE then (c, [])
         else if take (length CLIENT_PREFACE) (h2_buffer c) \<noteq> CLIENT_PREFACE
         then build_goaway c PROTOCOL_ERROR (lit ''Invalid preface'')
         else let c = c\<lparr>h2_buffer := drop (length CLIENT_PREFACE) (h2_buffer c),
                        preface_received := True, settings_sent := True\<rparr>;
                  (c, out) = h2_loop handler c
              in (c, build_settings_frame False @ out))"

section \<open>Segmentation of the input\<close>

definition h2_step :: "h2_handler \<Rightarrow> h2_conn \<Rightarrow> (h2_conn \<times> bytes) option" where
  "h2_step handler c = (if goaway_sent c then None else h2_turn handler c)"

definition h2_feed :: "h2_conn \<Rightarrow> bytes \<Rightarrow> h2_conn" where
  "h2_feed c data = c\<lparr>h2_buffer := h2_buffer c @ data\<rparr>"

lemma h2_parse_frame_behind:
  "h2_parse_frame n buf = Some (f, rest) \<Longrightarrow> h2_parse_frame n (buf @ b) = Some (f, rest @ b)"
  by (auto simp: h2_parse_frame_def Let_def split: list.splits if_splits)

lemma h2_turn_feed:
  assumes "h2_turn h c = Some (c1, out)"
  shows "h2_turn h (h2_feed c b) = Some (h2_feed c1 b, out)"
proof -
  from assms obtain f rest where f: "h2_parse_frame (max_frame_size c) (h2_buffer c) = Some (f, rest)"
      "h2_handle_frame h (set_buffer rest c) f = (c1, out)"
    by (auto simp: h2_turn_def split: option.splits)
  have "h2_buffer c1 = rest"
    using h2_handle_frame_keeps_buffer [of h "set_buffer rest c" f] f(2) by simp
  then show ?thesis
    using f h2_parse_frame_behind [OF f(1), of b] h2_handle_frame_buffer [of h "rest @ b" "set_buffer rest c" f]
    by (simp add: h2_turn_def h2_feed_def)
qed

interpretation h2: framed_input "h2_step handler" h2_feed "\<lambda>c. length (h2_buffer c)"
proof unfold_locales
  show "h2_feed (h2_feed c a) b = h2_feed c (a @ b)" for c a b
    by (simp add: h2_feed_def)
  show "h2_step handler (h2_feed c b) = Some (h2_feed c1 b, out)"
    if "h2_step handler c = Some (c1, out)" for c c1 out b
    using that h2_turn_feed by (simp add: h2_step_def h2_feed_def split: if_splits)
  show "length (h2_buffer c1) < length (h2_buffer c)" if "h2_step handler c = Some (c1, out)" for c c1 out
    using that h2_turn_shorter by (simp add: h2_step_def split: if_splits)
qed

lemma h2_loop_drives:
  "\<not> goaway_sent c \<Longrightarrow> drives (h2_step h) c (fst (h2_loop h c)) (snd (h2_loop h c))"
proof (induction h c rule: h2_loop.induct)
  case (1 h c)
  show ?case
  proof (cases "h2_turn h c")
    case None
    with 1(2) show ?thesis
      by (simp add: h2_loop.simps [of h c] h2_step_def drives.stop)
  next
    case (Some p)
    obtain c1 out where p: "p = (c1, out)"
      by (cases p)
    have step: "h2_step h c = Some (c1, out)"
      using Some p 1(2) by (simp add: h2_step_def)
    show ?thesis
    proof (cases "goaway_sent c1")
      case True
      then have "drives (h2_step h) c1 c1 []"
        by (simp add: h2_step_def drives.stop)
      from drives.more [OF step this] Some p True show ?thesis
        by (simp add: h2_loop.simps [of h c])
    next
      case False
      from drives.more [OF step 1(1) [OF Some p [symmetric] False False]] False Some p show ?thesis
        by (auto simp: h2_loop.simps [of h c] split: prod.split)
    qed
  qed
qed

lemma h2_loop_append:
  assumes "\<not> goaway_sent c" and "h2_loop h c = (c1, o1)" and "\<not> goaway_sent c1"
    and "h2_loop h (h2_feed c1 b) = (c2, o2)"
  shows "h2_loop h (h2_feed c b) = (c2, o1 @ o2)"
proof -
  have alive: "\<not> goaway_sent (h2_feed d b)" if "\<not> goaway_sent d" for d
    using that by (simp add: h2_feed_def)
  have "drives (h2_step h) (h2_feed c b) c2 (o1 @ o2)"
    using h2.drives_behind [of h c c1 o1 b c2 o2] h2_loop_drives [OF assms(1), of h]
      h2_loop_drives [OF alive [OF assms(3)], of h] assms(2,4) by simp
  with h2_loop_drives [OF alive [OF assms(1)], of h] show ?thesis
    using drives_deterministic by (metis prod.collapse)
qed

text \<open>
  A property of the connection that the single state changes keep is kept by the handling
  of a frame and by the loop.
\<close>

definition h2_preserved :: "(h2_conn \<Rightarrow> bool) \<Rightarrow> bool" where
  "h2_preserved P =
     ((\<forall>c. P c \<longrightarrow> P (c\<lparr>goaway_sent := True\<rparr>))
      \<and> (\<forall>c m. P c \<longrightarrow> P (c\<lparr>h2_streams := m\<rparr>))
      \<and> (\<forall>c l. P c \<longrightarrow> P (c\<lparr>last_stream_id := l\<rparr>))
      \<and> (\<forall>c data. P c \<longrightarrow> P (c\<lparr>h2_decoder := fst (decode (h2_decoder c) data)\<rparr>))
      \<and> (\<forall>c w. P c \<longrightarrow> P (c\<lparr>connection_window := w\<rparr>))
      \<and> (\<forall>c i v. P c \<longrightarrow> P (fst (apply_setting c i v)))
      \<and> (\<forall>c r. P c \<longrightarrow> P (note_request r c))
      \<and> (\<forall>c b. P c \<longrightarrow> P (c\<lparr>h2_buffer := b\<rparr>)))"

lemma preserved_put_stream: "h2_preserved P \<Longrightarrow> P c \<Longrightarrow> P (put_stream c i s)"
  by (simp add: h2_preserved_def put_stream_def)

lemma preserved_goaway: "h2_preserved P \<Longrightarrow> P c \<Longrightarrow> P (fst (build_goaway c e dbg))"
  by (simp add: h2_preserved_def build_goaway_def)

lemma preserved_get_or_create:
  "h2_preserved P \<Longrightarrow> P c \<Longrightarrow> P (fst (get_or_create_stream c i))"
  by (simp add: h2_preserved_def get_or_create_stream_def Let_def split: option.split)

lemma preserved_apply_settings: "h2_preserved P \<Longrightarrow> P c \<Longrightarrow> P (fst (apply_settings c p))"
proof (induction c p rule: apply_settings.induct)
  case (1 c i0 i1 v0 v1 v2 v3 rest)
  then have "P (fst (apply_setting c (be16 i0 i1) (be32 v0 v1 v2 v3)))"
    by (simp add: h2_preserved_def)
  with 1 show ?case
    by (auto split: prod.split option.split)
qed simp_all

lemma preserved_settings: "h2_preserved P \<Longrightarrow> P c \<Longrightarrow> P (fst (handle_settings c f))"
  using preserved_apply_settings [of P c "fr_payload f"] preserved_goaway [of P]
  by (auto simp: handle_settings_def split: prod.split option.split)

lemma preserved_decoder:
  "h2_preserved P \<Longrightarrow> P c \<Longrightarrow> P (c\<lparr>h2_decoder := fst (decode (h2_decoder c) data)\<rparr>)"
  by (simp add: h2_preserved_def)

lemma preserved_note: "h2_preserved P \<Longrightarrow> P c \<Longrightarrow> P (note_request r c)"
  by (simp add: h2_preserved_def)

lemma preserved_headers:
  assumes "h2_preserved P" and "P c"
  shows "P (fst (handle_headers h c f))"
proof -
  note keep = preserved_put_stream [OF assms(1)] preserved_goaway [OF assms(1)]
    preserved_decoder [OF assms(1)] preserved_note [OF assms(1)]
  obtain c1 s where c1: "get_or_create_stream c (fr_stream f) = (c1, s)"
    by fastforce
  then have "P c1"
    using preserved_get_or_create [OF assms, of "fr_stream f"] by simp
  then have decoded: "P ((put_stream c1 i t)\<lparr>h2_decoder := d\<rparr>)"
    if "decode (h2_decoder (put_stream c1 i t)) block = (d, r)" for i t block d r
    using keep(3) [OF keep(1), of c1 i t block] that by simp
  then have noted: "P ((put_stream c1 i t)\<lparr>h2_decoder := d, h2_requests := h2_requests (put_stream c1 i t) @ [req]\<rparr>)"
    if "decode (h2_decoder (put_stream c1 i t)) block = (d, r)" for i t block d r req
    using keep(4) [OF decoded [OF that], of req] by simp
  show ?thesis
    using assms(2) c1 keep(2) [of c] \<open>P c1\<close>
    by (auto simp: handle_headers_def Let_def split: option.split prod.split intro!: keep(1,2) decoded noted)
qed

lemma preserved_data: "h2_preserved P \<Longrightarrow> P c \<Longrightarrow> P (fst (handle_data h c f))"
  using preserved_put_stream [of P c] preserved_goaway [of P c] preserved_note [of P "put_stream c _ _"]
  by (simp add: handle_data_def Let_def split: option.split)

lemma preserved_window_update: "h2_preserved P \<Longrightarrow> P c \<Longrightarrow> P (fst (handle_window_update c f))"
  using preserved_put_stream [of P c] preserved_goaway [of P c]
  by (auto simp: handle_window_update_def h2_preserved_def Let_def split: list.split option.split)

lemma preserved_handle_frame: "h2_preserved P \<Longrightarrow> P c \<Longrightarrow> P (fst (h2_handle_frame h c f))"
  using preserved_settings [of P c f] preserved_headers [of P c h f] preserved_data [of P c h f]
    preserved_window_update [of P c f] preserved_goaway [of P c]
  by (simp add: h2_handle_frame_def h2_handle_ping_def handle_goaway_def h2_preserved_def
      split: h2_frame_type.split)

lemma preserved_turn: "h2_preserved P \<Longrightarrow> P c \<Longrightarrow> h2_turn h c = Some (c1, out) \<Longrightarrow> P c1"
  using preserved_handle_frame [of P]
  by (auto simp: h2_turn_def h2_preserved_def split: option.splits) (metis fst_conv)

lemma preserved_loop: "h2_preserved P \<Longrightarrow> P c \<Longrightarrow> P (fst (h2_loop h c))"
proof (induction h c rule: h2_loop.induct)
  case (1 h c)
  show ?case
  proof (cases "h2_turn h c")
    case (Some p)
    obtain c1 out where p: "p = (c1, out)"
      by (cases p)
    then have "P c1"
      using preserved_turn [OF 1(2,3)] Some by simp
    with 1(1) [OF Some p [symmetric]] 1(2) Some p show ?thesis
      by (auto simp: h2_loop.simps [of h c] split: prod.split)
  qed (simp add: h2_loop.simps [of h c] 1(3))
qed

lemma h2_loop_keeps_preface: "preface_received c \<Longrightarrow> preface_received (fst (h2_loop h c))"
  by (rule preserved_loop [where P = preface_received])
     (simp add: h2_preserved_def apply_setting_def)

text \<open>Behind the preface, and with the preface complete in the first segment.\<close>

lemma segmentation_after_preface:
  assumes "h2_is_alive c" and "h2_process_input handler c a = (c1, o1)" and "h2_is_alive c1" and "preface_received c"
  shows "h2_process_input handler c (a @ b) = (let (c2, o2) = h2_process_input handler c1 b in (c2, o1 @ o2))"
proof -
  have "h2_loop handler (h2_feed c a) = (c1, o1)"
    using assms(2,4) by (simp add: h2_process_input_def h2_feed_def)
  moreover from this assms(4) have "preface_received c1"
    using h2_loop_keeps_preface [of "h2_feed c a" handler] by (simp add: h2_feed_def)
  ultimately show ?thesis
    using assms(1,3,4) h2_loop_append [of "h2_feed c a" handler c1 o1 b]
    by (auto simp: h2_process_input_def h2_feed_def h2_is_alive_def split: prod.split)
qed

lemma segmentation_with_preface:
  assumes "h2_is_alive c" and "h2_process_input handler c a = (c1, o1)" and "h2_is_alive c1" and "\<not> preface_received c"
    and long: "\<not> length (h2_buffer c @ a) < length CLIENT_PREFACE"
  shows "h2_process_input handler c (a @ b) = (let (c2, o2) = h2_process_input handler c1 b in (c2, o1 @ o2))"
proof -
  let ?n = "length CLIENT_PREFACE"
  let ?c = "c\<lparr>h2_buffer := drop ?n (h2_buffer c @ a), preface_received := True, settings_sent := True\<rparr>"
  have pre: "take ?n (h2_buffer c @ a) = CLIENT_PREFACE"
    using assms(2-4) long
    by (auto simp: h2_process_input_def build_goaway_def h2_is_alive_def Let_def split: if_splits)
  obtain o1' where run: "h2_loop handler ?c = (c1, o1')" "o1 = build_settings_frame False @ o1'"
    using assms(2,4) long pre by (auto simp: h2_process_input_def Let_def split: prod.splits)
  have recv: "preface_received c1"
    using h2_loop_keeps_preface [of ?c handler] run(1) by simp
  obtain c2 o2 where 2: "h2_loop handler (h2_feed c1 b) = (c2, o2)"
    by fastforce
  have "h2_loop handler (h2_feed ?c b) = (c2, o1' @ o2)"
    using h2_loop_append [OF _ run(1) _ 2] assms(1,3) by (simp add: h2_is_alive_def)
  moreover have "h2_process_input handler c1 b = (c2, o2)"
    using 2 recv by (simp add: h2_process_input_def h2_feed_def)
  moreover have "h2_feed ?c b = c\<lparr>h2_buffer := drop ?n (h2_buffer c @ a @ b), preface_received := True,
      settings_sent := True\<rparr>"
    using long by (cases c) (simp add: h2_feed_def)
  ultimately show ?thesis
    using assms(4) long pre run(2) by (simp add: h2_process_input_def [of handler c] Let_def)
qed

text \<open>
  C13. An HTTP/2 connection that is still alive does not depend on how its input was cut: two
  segments one after the other give the same state and the same bytes as both at once,
  also when the cut is inside the preface, a frame header or a payload.
\<close>

theorem h2_segmentation:
  assumes "h2_is_alive c" and "h2_process_input handler c a = (c1, o1)" and "h2_is_alive c1"
  shows "h2_process_input handler c (a @ b) =
     (let (c2, o2) = h2_process_input handler c1 b in (c2, o1 @ o2))"
proof (cases "preface_received c")
  case True
  then show ?thesis
    using segmentation_after_preface [OF assms] by simp
next
  case False
  show ?thesis
  proof (cases "length (h2_buffer c @ a) < length CLIENT_PREFACE")
    case True
    with False assms(2) have "c1 = h2_feed c a" "o1 = []"
      by (simp_all add: h2_process_input_def h2_feed_def)
    with False show ?thesis
      by (simp add: h2_process_input_def h2_feed_def)
  next
    case long: False
    with False show ?thesis
      using segmentation_with_preface [OF assms] by simp
  qed
qed

lemma h2_init_empty_input:
  "h2_process_input handler h2_init (lit ''PRI'') = (h2_feed h2_init (lit ''PRI''), [])"
  by (simp add: h2_process_input_def h2_feed_def h2_init_def CLIENT_PREFACE_def lit_def)

theorem h2_segmentation_witness:
  "h2_process_input (\<lambda>rs r. empty_response) h2_init (lit ''PRI'' @ lit '' * HTTP/2.0'')
   = h2_process_input (\<lambda>rs r. empty_response) (h2_feed h2_init (lit ''PRI'')) (lit '' * HTTP/2.0'')"
  using h2_segmentation [OF _ h2_init_empty_input, of "\<lambda>rs r. empty_response" "lit '' * HTTP/2.0''"]
  by (simp add: h2_is_alive_def h2_feed_def h2_init_def)

section \<open>Settings stay in range\<close>

definition settings_in_range :: "h2_conn \<Rightarrow> bool" where
  "settings_in_range c =
     (16384 \<le> max_frame_size c \<and> max_frame_size c \<le> 16777215 \<and> initial_window_size c \<le> 0x7FFFFFFF)"

inductive h2_reachable :: "h2_handler \<Rightarrow> h2_conn \<Rightarrow> bool"
  for handler :: h2_handler where
  fresh: "h2_reachable handler h2_init"
| input: "h2_reachable handler c \<Longrightarrow> h2_reachable handler (fst (h2_process_input handler c data))"

lemma preserved_process_input:
  assumes "h2_preserved P" and "\<And>c. P c \<Longrightarrow> P (c\<lparr>preface_received := True, settings_sent := True\<rparr>)" and "P c"
  shows "P (fst (h2_process_input h c data))"
proof -
  have buf: "P (c\<lparr>h2_buffer := b\<rparr>)" for b
    using assms(1,3) by (simp add: h2_preserved_def)
  moreover have "P (c\<lparr>h2_buffer := b, preface_received := True, settings_sent := True\<rparr>)" for b
    using assms(2) [OF buf] by simp
  ultimately show ?thesis
    using preserved_loop [OF assms(1)] preserved_goaway [OF assms(1)]
    by (simp add: h2_process_input_def Let_def split: prod.split) (metis fst_conv)
qed

lemma h2_reachable_preserved:
  assumes "h2_reachable handler c" and "h2_preserved P" and "P h2_init"
    and "\<And>c. P c \<Longrightarrow> P (c\<lparr>preface_received := True, settings_sent := True\<rparr>)"
  shows "P c"
  using assms by (induction rule: h2_reachable.induct) (auto intro: preserved_process_input)

text \<open>
  In every reachable HTTP/2 connection the peer's settings are within their legal ranges
  (so the loop that sends a body always makes progress), and the header table of the
  decoder keeps its size account.
\<close>

theorem h2_settings_in_range:
  assumes "h2_reachable handler c"
  shows "16384 \<le> max_frame_size c \<and> max_frame_size c \<le> 16777215 \<and> initial_window_size c \<le> 0x7FFFFFFF
       \<and> dynamic_table_size (h2_decoder c) = table_bytes (dynamic_table (h2_decoder c))
       \<and> dynamic_table_size (h2_decoder c) \<le> max_dynamic_table_size (h2_decoder c)"
proof -
  have "settings_in_range c"
    by (rule h2_reachable_preserved [OF assms])
       (auto simp: h2_preserved_def settings_in_range_def apply_setting_def h2_init_def not_less)
  moreover have "hpack_ok (h2_decoder c)"
    by (rule h2_reachable_preserved [OF assms])
       (auto simp: h2_preserved_def apply_setting_def h2_init_def hpack_ok_init hpack_ok_set_max
         hpack_ok_loop decode_def)
  ultimately show ?thesis
    by (simp add: settings_in_range_def hpack_ok_def)
qed

theorem h2_settings_in_range_witness:
  "16384 \<le> max_frame_size (fst (h2_process_input (\<lambda>rs r. empty_response) h2_init CLIENT_PREFACE))"
  using h2_settings_in_range [OF h2_reachable.input [OF h2_reachable.fresh], of "\<lambda>rs r. empty_response" CLIENT_PREFACE]
  by simp

section \<open>Frames are a codec\<close>

definition frame_bytes :: "h2_frame \<Rightarrow> bytes" where
  "frame_bytes f = h2_build_frame (fr_type f) (fr_flags f) (fr_stream f) (fr_payload f)"

definition h2_frame_ok :: "u32 \<Rightarrow> h2_frame \<Rightarrow> bool" where
  "h2_frame_ok n f =
     (length (fr_payload f) \<le> unat n \<and> length (fr_payload f) < 2 ^ 24
      \<and> fr_length f = of_nat (length (fr_payload f)) \<and> unat (fr_stream f) < 2 ^ 31
      \<and> h2_type_of (h2_type_byte (fr_type f)) = fr_type f)"

lemma parse_frame_bytes:
  assumes "h2_frame_ok n f"
  shows "h2_parse_frame n (frame_bytes f @ rest) = Some (f, rest)"
proof -
  let ?len = "of_nat (length (fr_payload f)) :: u32" and ?i = "fr_stream f"
  have len: "unat ?len = length (fr_payload f)"
    using assms by (simp add: h2_frame_ok_def unat_of_nat)
  then have len24: "be24 (ucast (drop_bit 16 ?len)) (ucast (drop_bit 8 ?len)) (ucast ?len) = ?len"
    using assms be24_bytes24 [of ?len] by (simp add: h2_frame_ok_def)
  have "unat (drop_bit 24 ?i) < 128"
    using assms by (simp add: h2_frame_ok_def drop_bit_eq_div unat_div less_mult_imp_div_less)
  then have "unat (ucast (drop_bit 24 ?i) :: byte) < 128"
    by (simp add: unsigned_ucast_eq take_bit_eq_mod unat_mod)
  then have id32: "be32 (ucast (drop_bit 24 ?i) AND 0x7F AND 0x7F) (ucast (drop_bit 16 ?i)) (ucast (drop_bit 8 ?i)) (ucast ?i)
      = ?i"
    using high_bit(4) be32_bytes32 [of ?i] by simp
  have "\<not> n < ?len"
    using assms len by (simp add: h2_frame_ok_def word_less_nat_alt)
  with assms len len24 id32 show ?thesis
    by (simp add: h2_parse_frame_def frame_bytes_def h2_build_frame_def bytes24_def h2_frame_ok_def)
qed

interpretation h2_frames: codec frame_bytes "h2_parse_frame n" "h2_frame_ok n"
  by unfold_locales (rule parse_frame_bytes)

end
