(* ===== verification/Http2_Exchange.thy ===== *)
theory Http2_Exchange
  imports Http2
begin

text \<open>
  Requests and responses over HTTP/2: what a client that reads the server's frames gets
  back, what the handler is called with, and the frames the connection treats wrongly.
\<close>

section \<open>Responses\<close>

definition mk_frame :: "h2_frame_type \<Rightarrow> byte \<Rightarrow> u32 \<Rightarrow> bytes \<Rightarrow> h2_frame" where
  "mk_frame ty flags i payload =
     \<lparr>fr_length = of_nat (length payload), fr_type = ty, fr_flags = flags, fr_stream = i, fr_payload = payload\<rparr>"

lemma frame_bytes_mk_frame [simp]: "frame_bytes (mk_frame ty flags i p) = h2_build_frame ty flags i p"
  by (simp add: frame_bytes_def mk_frame_def)

text \<open>The chunks a body is cut into, and the frames that carry them.\<close>

function chunks :: "nat \<Rightarrow> bytes \<Rightarrow> bytes list" where
  "chunks n body = (if body = [] \<or> n = 0 then [] else take n body # chunks n (drop n body))"
  by pat_completeness auto
termination
  by (relation "measure (\<lambda>(n, body). length body)") auto

declare chunks.simps [simp del]

lemma chunks_concat: "0 < n \<Longrightarrow> concat (chunks n body) = body"
  by (induction n body rule: chunks.induct) (subst chunks.simps, auto)

lemma chunks_bound: "x \<in> set (chunks n body) \<Longrightarrow> x \<noteq> [] \<and> length x \<le> n"
proof (induction n body rule: chunks.induct)
  case (1 n body)
  then show ?case
    by (cases "body = [] \<or> n = 0") (auto simp: chunks.simps [of n body])
qed

lemma chunks_Nil_iff: "0 < n \<Longrightarrow> chunks n body = [] \<longleftrightarrow> body = []"
  by (subst chunks.simps) simp

text \<open>END_STREAM is set on the last one only.\<close>

fun body_frames :: "u32 \<Rightarrow> bytes list \<Rightarrow> h2_frame list" where
  "body_frames i [] = []"
| "body_frames i [x] = [mk_frame H2_DATA END_STREAM i x]"
| "body_frames i (x # xs) = mk_frame H2_DATA 0 i x # body_frames i xs"

lemma data_frames_chunks:
  "data_frames n i body = concat (map frame_bytes (body_frames i (chunks (unat n) body)))"
proof (induction n i body rule: data_frames.induct)
  case (1 n i body)
  show ?case
  proof (cases "body = [] \<or> n = 0")
    case False
    then have n: "0 < unat n"
      by (simp add: unat_gt_0)
    have ch: "chunks (unat n) body = take (unat n) body # chunks (unat n) (drop (unat n) body)"
      using False n by (subst chunks.simps) simp
    show ?thesis
    proof (cases "length body \<le> unat n")
      case True
      then show ?thesis
        using False n ch by (simp add: data_frames.simps [of n i body] data_frames.simps [of n i "[]"] chunks.simps [of _ "[]"])
    next
      case long: False
      then obtain y ys where "chunks (unat n) (drop (unat n) body) = y # ys"
        using chunks_Nil_iff [OF n, of "drop (unat n) body"] by (cases "chunks (unat n) (drop (unat n) body)") auto
      moreover have "data_frames n i (drop (unat n) body)
          = concat (map frame_bytes (body_frames i (chunks (unat n) (drop (unat n) body))))"
        using 1 [OF False refl refl] long by (simp add: min_def)
      ultimately show ?thesis
        using False long ch by (simp add: data_frames.simps [of n i body] Let_def min_def)
    qed
  next
    case True
    then show ?thesis
      by (auto simp: data_frames.simps [of n i body] chunks.simps [of _ body] chunks.simps [of 0 body])
  qed
qed

lemma body_frames_facts:
  "concat (map fr_payload (body_frames i xs)) = concat xs"
  "f \<in> set (body_frames i xs) \<Longrightarrow> fr_type f = H2_DATA \<and> fr_stream f = i \<and> fr_payload f \<in> set xs
     \<and> f = mk_frame H2_DATA (fr_flags f) i (fr_payload f)"
  "xs \<noteq> [] \<Longrightarrow> map (\<lambda>f. has_flag f END_STREAM) (body_frames i xs) = replicate (length xs - 1) False @ [True]"
  by (induction i xs rule: body_frames.induct) (auto simp: mk_frame_def has_flag_def)

text \<open>
  C15. A response can be read back.  When the encoded header block fits one frame, the bytes
  the server sends for a response parse, with the same frame-size limit, to one HEADERS
  frame whose block decodes to exactly the response's header list, followed by DATA frames
  of at most that size whose payloads joined are the body; all are on the stream, and
  END_STREAM is on the last frame only.
\<close>

theorem h2_response_readable:
  assumes "settings_in_range c" and "unat i < 2 ^ 31"
    and "length (encode (response_headers resp)) \<le> unat (max_frame_size c)"
    and "\<forall>h \<in> set (response_headers resp). header_fits h"
  shows "\<exists>hd_frame ds.
     decode_seq (h2_parse_frame (max_frame_size c)) (length (hd_frame # ds)) (build_headers_response c i resp)
       = Some (hd_frame # ds, [])
     \<and> fr_type hd_frame = H2_HEADERS \<and> decode d (fr_payload hd_frame) = (d, Some (response_headers resp))
     \<and> concat (map fr_payload ds) = resp_body resp
     \<and> (\<forall>f \<in> set ds. fr_type f = H2_DATA \<and> length (fr_payload f) \<le> unat (max_frame_size c))
     \<and> (\<forall>f \<in> set (hd_frame # ds). fr_stream f = i)
     \<and> map (\<lambda>f. has_flag f END_STREAM) (hd_frame # ds) = replicate (length ds) False @ [True]"
proof -
  let ?n = "max_frame_size c"
  let ?flags = "if resp_body resp = [] then END_HEADERS OR END_STREAM else END_HEADERS"
  let ?h = "mk_frame H2_HEADERS ?flags i (encode (response_headers resp))"
  let ?ds = "body_frames i (chunks (unat ?n) (resp_body resp))"
  have n: "unat ?n < 2 ^ 24" "0 < unat ?n"
    using assms(1) by (auto simp: settings_in_range_def word_le_nat_alt)
  have ok: "h2_frame_ok ?n f" if "f \<in> set (?h # ?ds)" for f
  proof -
    have "h2_frame_ok ?n (mk_frame H2_DATA fl i p)" if "p \<in> set (chunks (unat ?n) (resp_body resp))" for p fl
      using chunks_bound [OF that] n assms(2) by (simp add: h2_frame_ok_def mk_frame_def h2_type_of_def)
    moreover have "h2_frame_ok ?n ?h"
      using n assms(2,3) by (simp add: h2_frame_ok_def mk_frame_def h2_type_of_def)
    ultimately show ?thesis
      using that body_frames_facts(2) [of f i] by (metis set_ConsD)
  qed
  have bytes: "build_headers_response c i resp = concat (map frame_bytes (?h # ?ds)) @ []"
    by (simp add: build_headers_response_def data_frames_chunks)
  have "decode_seq (h2_parse_frame ?n) (length (?h # ?ds)) (build_headers_response c i resp) = Some (?h # ?ds, [])"
    unfolding bytes using ok by (intro h2_frames.decode_seq_enc) blast
  moreover have "decode d (fr_payload ?h) = (d, Some (response_headers resp))"
    using decode_loop_encoded [OF assms(4), of d "[]"] by (simp add: mk_frame_def decode_def)
  moreover have "concat (map fr_payload ?ds) = resp_body resp"
    using body_frames_facts(1) chunks_concat [OF n(2)] by simp
  moreover have "map (\<lambda>f. has_flag f END_STREAM) (?h # ?ds) = replicate (length ?ds) False @ [True]"
  proof (cases "resp_body resp = []")
    case False
    then have "chunks (unat ?n) (resp_body resp) \<noteq> []"
      using chunks_Nil_iff [OF n(2)] by simp
    from body_frames_facts(3) [OF this, of i] this False show ?thesis
      by (simp add: has_flag_def mk_frame_def) (metis (no_types, lifting) length_append_singleton length_map length_replicate replicate_Suc append_Cons)
  qed (simp add: chunks.simps has_flag_def mk_frame_def)
  moreover have "\<forall>f \<in> set ?ds. fr_type f = H2_DATA \<and> length (fr_payload f) \<le> unat ?n \<and> fr_stream f = i"
    using body_frames_facts(2) chunks_bound by blast
  ultimately show ?thesis
    by (intro exI [of _ ?h] exI [of _ ?ds]) (auto simp: mk_frame_def)
qed

definition ok_response :: http_response where
  "ok_response = empty_response\<lparr>status_code := 200, resp_body := lit ''hi''\<rparr>"

lemma ok_response_headers:
  "response_headers ok_response =
     [(lit '':status'', lit ''200''), (lit ''content-length'', lit ''2''), (lit ''server'', lit ''JustServer/1.0'')]"
  by code_simp

lemma ok_response_block: "length (encode (response_headers ok_response)) \<le> 16384"
  using length_encode [of "response_headers ok_response"] by (simp add: ok_response_headers lit_def)

theorem h2_response_readable_witness:
  "\<exists>hd_frame ds.
     decode_seq (h2_parse_frame 16384) (length (hd_frame # ds)) (build_headers_response h2_init 1 ok_response)
       = Some (hd_frame # ds, []) \<and> concat (map fr_payload ds) = lit ''hi''"
proof -
  have *: "max_frame_size h2_init = 16384" "settings_in_range h2_init" "resp_body ok_response = lit ''hi''"
    by (simp_all add: h2_init_def settings_in_range_def ok_response_def)
  have "\<forall>h \<in> set (response_headers ok_response). header_fits h"
    by (simp add: ok_response_headers header_fits_def lit_def)
  with h2_response_readable [of h2_init 1 ok_response] * ok_response_block show ?thesis
    by (simp del: decode_seq.simps list.size) metis
qed

section \<open>Requests\<close>

lemma headers_frame_answered:
  assumes "h2_is_alive c" and "preface_received c" and "h2_buffer c = []" and "settings_in_range c"
    and "i \<noteq> 0" and "unat i < 2 ^ 31" and "h2_streams c i = None"
    and "length (encode hs) \<le> unat (max_frame_size c)" and "\<forall>h \<in> set hs. header_fits h"
  shows "\<exists>c'. h2_process_input handler c (h2_build_frame H2_HEADERS (END_STREAM OR END_HEADERS) i (encode hs))
         = (c', build_headers_response c i (handler (h2_requests c) (build_request hs empty_request)))
       \<and> h2_is_alive c' \<and> h2_buffer c' = [] \<and> h2_decoder c' = h2_decoder c
       \<and> map_option st_request (h2_streams c' i) = Some (build_request hs empty_request)
       \<and> h2_requests c' = h2_requests c @ [build_request hs empty_request]
       \<and> (\<forall>j. j \<noteq> i \<longrightarrow> h2_streams c' j = h2_streams c j)"
proof -
  let ?f = "mk_frame H2_HEADERS (END_STREAM OR END_HEADERS) i (encode hs)"
  have "unat (max_frame_size c) < 2 ^ 24"
    using assms(4) by (auto simp: settings_in_range_def word_le_nat_alt)
  then have "h2_frame_ok (max_frame_size c) ?f"
    using assms(6,8) by (simp add: h2_frame_ok_def mk_frame_def h2_type_of_def)
  then have parse: "h2_parse_frame (max_frame_size c) (h2_build_frame H2_HEADERS (END_STREAM OR END_HEADERS) i (encode hs))
      = Some (?f, [])"
    using h2_frames.dec_enc [of "max_frame_size c" ?f "[]"] by simp
  have dec: "decode (h2_decoder c) (encode hs) = (h2_decoder c, Some hs)"
    using decode_loop_encoded [OF assms(9), of "h2_decoder c" "[]"] by (simp add: decode_def)
  have frag: "header_fragment ?f = Some (encode hs)" "has_flag ?f END_HEADERS" "has_flag ?f END_STREAM"
    "fr_stream ?f = i"
    by (simp_all add: header_fragment_def mk_frame_def has_flag_def)
  obtain c1 s where new: "get_or_create_stream c i = (c1, s)" "st_header_block s = []"
      "st_request s = empty_request" "h2_decoder c1 = h2_decoder c" "goaway_sent c1 = goaway_sent c"
      "h2_buffer c1 = h2_buffer c" "max_frame_size c1 = max_frame_size c" "h2_requests c1 = h2_requests c"
      "\<forall>j. j \<noteq> i \<longrightarrow> h2_streams c1 j = h2_streams c j"
    using assms(7) by (simp add: get_or_create_stream_def Let_def)
  let ?r = "build_request hs empty_request"
  obtain c2 where c2: "handle_headers handler c ?f = (c2, build_headers_response c i (handler (h2_requests c) ?r))"
      "goaway_sent c2 = goaway_sent c" "h2_buffer c2 = h2_buffer c" "h2_decoder c2 = h2_decoder c"
      "map_option st_request (h2_streams c2 i) = Some ?r" "h2_requests c2 = h2_requests c @ [?r]" "\<forall>j. j \<noteq> i \<longrightarrow> h2_streams c2 j = h2_streams c j"
    using assms(5) new dec frag
    by (simp add: handle_headers_def put_stream_def build_headers_response_def)
  have "h2_turn handler (c\<lparr>h2_buffer := h2_build_frame H2_HEADERS (END_STREAM OR END_HEADERS) i (encode hs)\<rparr>)
      = Some (c2, build_headers_response c i (handler (h2_requests c) ?r))"
    using parse assms(3) handle_headers_buffer [of handler "[]" c ?f] c2(1,3)
    by (simp add: h2_turn_def h2_handle_frame_def mk_frame_def)
  moreover have "h2_turn handler c2 = None"
    using c2(3) assms(3) by (simp add: h2_turn_def h2_parse_frame_def)
  ultimately show ?thesis
    using assms(1,2,3) c2
    by (simp add: h2_process_input_def h2_loop.simps [of handler c2]
        h2_loop.simps [of handler "c\<lparr>h2_buffer := _\<rparr>"] h2_is_alive_def)
qed

text \<open>
  C14. A request in one HEADERS frame is answered at once: on a live connection with an empty
  buffer, a frame that opens a new stream, ends it and carries a header list as the server's own encoder writes it makes
  the handler be called with the request those headers describe and nothing else, and its response is what
  is sent; the connection is ready for the next frame.
\<close>

theorem h2_request_answered:
  assumes "h2_is_alive c" and "preface_received c" and "h2_buffer c = []" and "settings_in_range c"
    and "i \<noteq> 0" and "unat i < 2 ^ 31" and "h2_streams c i = None"
    and "length (encode hs) \<le> unat (max_frame_size c)" and "\<forall>h \<in> set hs. header_fits h"
  shows "\<exists>c'. h2_process_input handler c (h2_build_frame H2_HEADERS (END_STREAM OR END_HEADERS) i (encode hs))
         = (c', build_headers_response c i (handler (h2_requests c) (build_request hs empty_request)))
       \<and> h2_is_alive c' \<and> h2_buffer c' = [] \<and> h2_decoder c' = h2_decoder c
       \<and> map_option st_request (h2_streams c' i) = Some (build_request hs empty_request)
       \<and> h2_requests c' = h2_requests c @ [build_request hs empty_request]
       \<and> (\<forall>j. j \<noteq> i \<longrightarrow> h2_streams c' j = h2_streams c j)"
  using assms by (rule headers_frame_answered)

definition get_root :: "(bytes \<times> bytes) list" where
  "get_root = [(lit '':method'', lit ''GET''), (lit '':path'', lit ''/?a=1''), (lit '':authority'', lit ''h'')]"

definition live_conn :: h2_conn where
  "live_conn = h2_init\<lparr>preface_received := True, settings_sent := True\<rparr>"

theorem h2_request_answered_witness:
  "\<exists>c'. h2_process_input (\<lambda>rs r. empty_response\<lparr>resp_body := path r\<rparr>) live_conn
           (h2_build_frame H2_HEADERS (END_STREAM OR END_HEADERS) 1 (encode get_root))
         = (c', build_headers_response live_conn 1 (empty_response\<lparr>resp_body := path (build_request get_root empty_request)\<rparr>))
       \<and> h2_is_alive c'"
proof -
  have "length (encode get_root) \<le> 16384" "\<forall>h \<in> set get_root. header_fits h"
    using length_encode [of get_root] by (simp_all add: get_root_def lit_def header_fits_def)
  then show ?thesis
    using h2_request_answered [of live_conn 1 get_root "\<lambda>rs r. empty_response\<lparr>resp_body := path r\<rparr>"]
    by (auto simp: live_conn_def h2_init_def h2_is_alive_def settings_in_range_def)
qed

text \<open>
  The fields of a request: for a header list with a method, a path and an authority, the
  handler sees the method, the target, the part before the first question mark as path, the
  part behind it as query string, and the authority as Host header.
\<close>

theorem h2_request_fields:
  "build_request [(lit '':method'', m), (lit '':path'', p), (lit '':authority'', a)] empty_request
   = \<lparr>req_method = h2_method m, method_str = m, uri = p, path = takeWhile (\<lambda>b. b \<noteq> 63) p,
      query_string = tl (dropWhile (\<lambda>b. b \<noteq> 63) p), version = lit ''HTTP/2'',
      req_headers = [(lit ''Host'', a)], req_body = []\<rparr>"
proof -
  have names: "lit '':method'' \<noteq> lit '':path''" "lit '':path'' \<noteq> lit '':method''"
      "lit '':authority'' \<noteq> lit '':method''" "lit '':authority'' \<noteq> lit '':path''"
    by (simp_all add: lit_def)
  show ?thesis
  proof (cases "find_sub [63] p")
    case None
    then show ?thesis
      using names
      by (simp add: find_sub_None_takeWhile build_request_def apply_header_def empty_request_def Let_def)
  next
    case (Some q)
    with find_sub_takeWhile [OF Some] names show ?thesis
      by (simp add: build_request_def apply_header_def empty_request_def Let_def)
  qed
qed

section \<open>Frames the connection treats wrongly\<close>

text \<open>
  A frame whose length field exceeds the limit stops a connection for good: no byte that
  arrives later is looked at, nothing is sent, the connection counts as alive and its
  buffer grows with the input.
\<close>

theorem h2_oversized_frame_stalls:
  assumes "preface_received c" and "h2_buffer c = b0 # b1 # b2 # rest" and "6 \<le> length rest"
    and "max_frame_size c < be24 b0 b1 b2"
  shows "h2_process_input handler c data = (c\<lparr>h2_buffer := h2_buffer c @ data\<rparr>, [])"
proof -
  have "h2_parse_frame (max_frame_size c) (h2_buffer c @ data) = None"
    using assms by (auto simp: h2_parse_frame_def split: list.split)
  then show ?thesis
    using assms(1) by (simp add: h2_process_input_def h2_loop.simps h2_turn_def)
qed

theorem h2_oversized_frame_stalls_witness:
  "h2_process_input (\<lambda>rs r. empty_response) (live_conn\<lparr>h2_buffer := [0, 0x40, 1, 0, 0, 0, 0, 0, 1]\<rparr>) [0, 0]
   = (live_conn\<lparr>h2_buffer := [0, 0x40, 1, 0, 0, 0, 0, 0, 1, 0, 0]\<rparr>, [])"
  using h2_oversized_frame_stalls [of "live_conn\<lparr>h2_buffer := [0, 0x40, 1, 0, 0, 0, 0, 0, 1]\<rparr>" 0 "0x40" 1
      "[0, 0, 0, 0, 0, 1]" "\<lambda>rs r. empty_response" "[0, 0]"]
  by (simp add: live_conn_def h2_init_def be24_def)

text \<open>
  The padding of a padded DATA frame is not removed: the whole payload, with the length byte
  in front and the padding behind, becomes part of the request body.
\<close>

lemma h2_data_padding_kept:
  assumes "h2_streams c i = Some s" and "i \<noteq> 0" and "fr_stream f = i"
  shows "map_option (\<lambda>s. req_body (st_request s)) (h2_streams (fst (handle_data handler c f)) i)
       = Some (req_body (st_request s) @ fr_payload f)"
  using assms by (simp add: handle_data_def put_stream_def Let_def)

text \<open>
  Flow-control windows wrap around: an update of the connection window is added without
  the check the protocol asks for, so the largest legal increment makes a fresh window negative.
\<close>

theorem h2_window_wraps:
  assumes "fr_stream f = 0" and "fr_payload f = [0x7F, 0xFF, 0xFF, 0xFF]" and "connection_window c = 65535"
  shows "sint (connection_window (fst (handle_window_update c f))) = - 2147418114
       \<and> snd (handle_window_update c f) = []"
  using assms by (simp add: handle_window_update_def be32_def)

theorem h2_window_wraps_witness:
  "sint (connection_window (fst (handle_window_update h2_init
     (mk_frame H2_WINDOW_UPDATE 0 0 [0x7F, 0xFF, 0xFF, 0xFF])))) = - 2147418114"
  using h2_window_wraps [of "mk_frame H2_WINDOW_UPDATE 0 0 [0x7F, 0xFF, 0xFF, 0xFF]" h2_init]
  by (simp add: mk_frame_def h2_init_def)

end
