(* ===== verification/Rate_Limit.thy ===== *)
theory Rate_Limit
  imports Prelude Complex_Main
begin

text \<open>
  Rate limits and connection limits: \<open>class TokenBucketLimiter\<close> of \<open>src/anti_bot.cpp\<close> and
  \<open>class DDoSGuard\<close> of \<open>src/ddos_guard.cpp\<close>.  Both count requests with token buckets.  Times
  are real numbers of seconds and are arguments, tokens are real numbers (the rounding of
  \<open>double\<close> is left out); each operation runs alone, as under the mutex.

  The locale \<open>bucket_store\<close> says that a component keeps one token bucket per key; both classes
  interpret it, and what follows for a bucket (an upper bound on what is admitted in any
  period, and that a slow client is never refused) holds for both.  The guard's connection
  counts are shown exact on all reachable states.
\<close>

section \<open>The bucket\<close>

record bucket =
  tokens :: real
  rate :: real
  burst :: real
  last_refill :: real

definition refill :: "real \<Rightarrow> bucket \<Rightarrow> bucket" where
  "refill now b = b\<lparr>tokens := min (burst b) (tokens b + (now - last_refill b) * rate b), last_refill := now\<rparr>"

text \<open>Asking a bucket for one token.\<close>

definition take_token :: "real \<Rightarrow> bucket \<Rightarrow> bucket \<times> bool" where
  "take_token now b =
     (let b = refill now b
      in if 1 \<le> tokens b then (b\<lparr>tokens := tokens b - 1\<rparr>, True) else (b, False))"

section \<open>The limiter of the anti-bot engine\<close>

record limiter_config =
  lc_rate :: real
  lc_burst :: real
  window :: int

record token_limiter =
  limiter_conf :: limiter_config
  buckets :: "bucket smap"
  total_allowed :: u64
  total_rejected :: u64

definition limiter_init :: "limiter_config \<Rightarrow> token_limiter" where
  "limiter_init conf = \<lparr>limiter_conf = conf, buckets = [], total_allowed = 0, total_rejected = 0\<rparr>"

definition limiter_allow :: "real \<Rightarrow> bytes \<Rightarrow> token_limiter \<Rightarrow> token_limiter \<times> bool" where
  "limiter_allow now key l =
     (case map_of (buckets l) key of
        None \<Rightarrow>
          (l\<lparr>buckets := hput key \<lparr>tokens = lc_burst (limiter_conf l) - 1, rate = lc_rate (limiter_conf l),
                burst = lc_burst (limiter_conf l), last_refill = now\<rparr> (buckets l),
             total_allowed := total_allowed l + 1\<rparr>, True)
      | Some b \<Rightarrow>
          let (b', granted) = take_token now b;
              l = l\<lparr>buckets := hput key b' (buckets l)\<rparr>
          in if granted then (l\<lparr>total_allowed := total_allowed l + 1\<rparr>, True)
             else (l\<lparr>total_rejected := total_rejected l + 1\<rparr>, False))"

definition limiter_check :: "real \<Rightarrow> bytes \<Rightarrow> token_limiter \<Rightarrow> bool" where
  "limiter_check now key l =
     (case map_of (buckets l) key of None \<Rightarrow> True | Some b \<Rightarrow> 1 \<le> tokens (refill now b))"

definition limiter_remaining :: "real \<Rightarrow> bytes \<Rightarrow> token_limiter \<Rightarrow> real" where
  "limiter_remaining now key l =
     (case map_of (buckets l) key of None \<Rightarrow> lc_burst (limiter_conf l) | Some b \<Rightarrow> tokens (refill now b))"

definition limiter_set_rate :: "bytes \<Rightarrow> real \<Rightarrow> real \<Rightarrow> token_limiter \<Rightarrow> token_limiter" where
  "limiter_set_rate key r bu l =
     (case map_of (buckets l) key of
        None \<Rightarrow> l
      | Some b \<Rightarrow> l\<lparr>buckets := hput key (b\<lparr>rate := r, burst := bu\<rparr>) (buckets l)\<rparr>)"

definition limiter_cleanup :: "real \<Rightarrow> token_limiter \<Rightarrow> token_limiter" where
  "limiter_cleanup now l =
     l\<lparr>buckets := filter (\<lambda>(key, b). \<not> window (limiter_conf l) < \<lfloor>now - last_refill b\<rfloor>) (buckets l)\<rparr>"

section \<open>The guard\<close>

text \<open>The four fields of \<open>IpEntry\<close> that belong to its token bucket are kept as one bucket.\<close>

record guard_config =
  max_connections_per_ip :: int
  max_total_connections :: int
  rate_limit_rps :: real
  rate_limit_burst :: real

record ip_entry =
  ip_active :: int
  last_seen :: real
  ip_bucket :: bucket

definition ip_entry_init :: ip_entry where
  "ip_entry_init = \<lparr>ip_active = 0, last_seen = 0, ip_bucket = \<lparr>tokens = 0, rate = 0, burst = 0, last_refill = 0\<rparr>\<rparr>"

record ddos_guard =
  guard_conf :: guard_config
  max_per_ip :: int
  connections :: "ip_entry smap"
  total_connections :: int

definition guard_init :: "guard_config \<Rightarrow> ddos_guard" where
  "guard_init conf =
     \<lparr>guard_conf = conf, max_per_ip = max_connections_per_ip conf, connections = [], total_connections = 0\<rparr>"

definition init_bucket :: "guard_config \<Rightarrow> real \<Rightarrow> bucket \<Rightarrow> bucket" where
  "init_bucket conf now b =
     (if rate b = 0
      then \<lparr>tokens = rate_limit_burst conf, rate = rate_limit_rps conf, burst = rate_limit_burst conf, last_refill = now\<rparr>
      else b)"

definition allow_connection :: "real \<Rightarrow> bytes \<Rightarrow> ddos_guard \<Rightarrow> ddos_guard \<times> bool" where
  "allow_connection now ip g =
     (if max_total_connections (guard_conf g) \<le> total_connections g then (g, False)
      else let e = (case map_of (connections g) ip of None \<Rightarrow> ip_entry_init | Some e \<Rightarrow> e)\<lparr>last_seen := now\<rparr>
           in if max_per_ip g \<le> ip_active e then (g\<lparr>connections := hput ip e (connections g)\<rparr>, False)
              else let e = e\<lparr>ip_bucket := init_bucket (guard_conf g) now (ip_bucket e), ip_active := ip_active e + 1\<rparr>
                   in (g\<lparr>connections := hput ip e (connections g), total_connections := total_connections g + 1\<rparr>, True))"

definition allow_request :: "real \<Rightarrow> bytes \<Rightarrow> ddos_guard \<Rightarrow> ddos_guard \<times> bool" where
  "allow_request now ip g =
     (case map_of (connections g) ip of
        None \<Rightarrow> (g, True)
      | Some e \<Rightarrow>
          let (b, granted) = take_token now (ip_bucket e)
          in (g\<lparr>connections := hput ip (e\<lparr>ip_bucket := b\<rparr>) (connections g)\<rparr>, granted))"

definition release_connection :: "bytes \<Rightarrow> ddos_guard \<Rightarrow> ddos_guard" where
  "release_connection ip g =
     (case map_of (connections g) ip of
        None \<Rightarrow> g
      | Some e \<Rightarrow>
          let e = e\<lparr>ip_active := ip_active e - 1\<rparr>;
              g = g\<lparr>total_connections := total_connections g - 1\<rparr>
          in if ip_active e \<le> 0 then g\<lparr>connections := hdel ip (connections g)\<rparr>
             else g\<lparr>connections := hput ip e (connections g)\<rparr>)"

definition set_max_per_ip :: "int \<Rightarrow> ddos_guard \<Rightarrow> ddos_guard" where
  "set_max_per_ip m g = g\<lparr>max_per_ip := m, guard_conf := (guard_conf g)\<lparr>max_connections_per_ip := m\<rparr>\<rparr>"

definition guard_cleanup :: "real \<Rightarrow> ddos_guard \<Rightarrow> ddos_guard" where
  "guard_cleanup now g =
     g\<lparr>connections := filter (\<lambda>(ip, e). \<not> (ip_active e \<le> 0 \<and> 300 < now - last_seen e)) (connections g)\<rparr>"

section \<open>One bucket over time\<close>

definition bucket_ok :: "bucket \<Rightarrow> bool" where
  "bucket_ok b = (0 \<le> tokens b \<and> tokens b \<le> burst b \<and> 0 \<le> rate b)"

lemma take_token_props:
  assumes "bucket_ok b" and "last_refill b \<le> now" and "take_token now b = (b', granted)"
  shows "bucket_ok b'" and "last_refill b' = now" and "rate b' = rate b" and "burst b' = burst b"
    and "tokens b' + (if granted then 1 else 0) \<le> tokens b + (now - last_refill b) * rate b"
  using assms by (auto simp: take_token_def refill_def bucket_ok_def Let_def min_def split: if_splits)

text \<open>A client that waits for its token gets it.\<close>

lemma take_token_granted:
  assumes "bucket_ok b" and "1 \<le> burst b" and "1 \<le> (now - last_refill b) * rate b"
  shows "snd (take_token now b)"
  using assms by (simp add: take_token_def refill_def bucket_ok_def Let_def min_def)

section \<open>A store of buckets\<close>

text \<open>Requests with their times and keys: the answers, and how many of a key were granted.\<close>

primrec answers :: "(real \<Rightarrow> bytes \<Rightarrow> 's \<Rightarrow> 's \<times> bool) \<Rightarrow> 's \<Rightarrow> (real \<times> bytes) list \<Rightarrow> bool list" where
  "answers ask s [] = []"
| "answers ask s (r # rs) = snd (ask (fst r) (snd r) s) # answers ask (fst (ask (fst r) (snd r) s)) rs"

definition granted :: "bytes \<Rightarrow> (real \<times> bytes) list \<Rightarrow> bool list \<Rightarrow> nat" where
  "granted key rs as = length (filter (\<lambda>(r, a). snd r = key \<and> a) (zip rs as))"

text \<open>Times that are at least \<open>d\<close> apart, the first at least \<open>d\<close> after \<open>t\<close>.\<close>

fun spaced :: "real \<Rightarrow> real \<Rightarrow> real list \<Rightarrow> bool" where
  "spaced d t [] = True"
| "spaced d t (u # us) = (t + d \<le> u \<and> spaced d u us)"

definition all_granted :: "bytes \<Rightarrow> (real \<times> bytes) list \<Rightarrow> bool list \<Rightarrow> bool" where
  "all_granted key rs as = list_all (\<lambda>(r, a). snd r = key \<longrightarrow> a) (zip rs as)"

text \<open>
  A component with one token bucket per key: a request for a key with a bucket asks that
  bucket and leaves the others alone.
\<close>

locale bucket_store =
  fixes ask :: "real \<Rightarrow> bytes \<Rightarrow> 's \<Rightarrow> 's \<times> bool"
    and bucket_of :: "'s \<Rightarrow> bytes \<Rightarrow> bucket option"
  assumes ask_own: "bucket_of s key = Some b \<Longrightarrow>
      snd (ask now key s) = snd (take_token now b) \<and> bucket_of (fst (ask now key s)) key = Some (fst (take_token now b))"
    and ask_other: "other \<noteq> key \<Longrightarrow> bucket_of (fst (ask now other s)) key = bucket_of s key"
begin

lemma admitted_bound:
  assumes "bucket_of s key = Some b" and "bucket_ok b" and "sorted (last_refill b # map fst rs @ [T])"
  shows "granted key rs (answers ask s rs) \<le> tokens b + (T - last_refill b) * rate b"
  using assms
proof (induction rs arbitrary: s b)
  case Nil
  then show ?case
    by (simp add: granted_def bucket_ok_def)
next
  case (Cons r rs)
  obtain now k where r: "r = (now, k)"
    by (cases r)
  show ?case
  proof (cases "k = key")
    case True
    obtain b' g where t: "take_token now b = (b', g)"
      by fastforce
    have le: "last_refill b \<le> now"
      using Cons.prems(3) r by simp
    note p = take_token_props [OF Cons.prems(2) le t]
    have "granted key rs (answers ask (fst (ask now k s)) rs) \<le> tokens b' + (T - now) * rate b"
      using Cons.IH [of _ b'] ask_own [OF Cons.prems(1), of now] t p(1-3) Cons.prems(3) True r by simp
    then show ?thesis
      using p(5) ask_own [OF Cons.prems(1), of now] t True r
      by (cases g) (simp_all add: granted_def algebra_simps)
  next
    case False
    then show ?thesis
      using Cons.IH [of _ b] ask_other [of k key now s] Cons.prems r by (simp add: granted_def)
  qed
qed

lemma patient_client:
  assumes "bucket_of s key = Some b" and "bucket_ok b" and "1 \<le> burst b" and "1 \<le> d * rate b"
    and "spaced d (last_refill b) (map fst (filter (\<lambda>r. snd r = key) rs))"
  shows "all_granted key rs (answers ask s rs)"
  using assms
proof (induction rs arbitrary: s b)
  case Nil
  then show ?case
    by (simp add: all_granted_def)
next
  case (Cons r rs)
  obtain now k where r: "r = (now, k)"
    by (cases r)
  show ?case
  proof (cases "k = key")
    case True
    obtain b' g where t: "take_token now b = (b', g)"
      by fastforce
    have d: "d \<le> now - last_refill b" and "0 \<le> rate b"
      using Cons.prems(2,5) True r by (simp_all add: bucket_ok_def)
    then have "d * rate b \<le> (now - last_refill b) * rate b"
      by (rule mult_right_mono)
    then have g: g
      using take_token_granted [OF Cons.prems(2,3), of now] Cons.prems(4) t by simp
    have "0 \<le> d"
      using Cons.prems(4) \<open>0 \<le> rate b\<close> by (smt (verit) mult_nonpos_nonneg)
    then have le: "last_refill b \<le> now"
      using d by simp
    note p = take_token_props [OF Cons.prems(2) le t]
    have "all_granted key rs (answers ask (fst (ask now k s)) rs)"
      using Cons.IH [of _ b'] ask_own [OF Cons.prems(1), of now] t p(1-4) Cons.prems(3-5) True r by simp
    then show ?thesis
      using ask_own [OF Cons.prems(1), of now] t g True r by (simp add: all_granted_def)
  next
    case False
    then show ?thesis
      using Cons.IH [of _ b] ask_other [of k key now s] Cons.prems r by (simp add: all_granted_def)
  qed
qed

end

interpretation limiter: bucket_store limiter_allow "\<lambda>l. map_of (buckets l)"
proof unfold_locales
  fix l :: token_limiter and key other :: bytes and now b
  show "snd (limiter_allow now key l) = snd (take_token now b)
      \<and> map_of (buckets (fst (limiter_allow now key l))) key = Some (fst (take_token now b))"
    if "map_of (buckets l) key = Some b"
    using that by (simp add: limiter_allow_def case_prod_unfold Let_def)
  show "map_of (buckets (fst (limiter_allow now other l))) key = map_of (buckets l) key" if "other \<noteq> key"
    using that by (auto simp: limiter_allow_def Let_def split: prod.split option.split)
qed

definition guard_bucket :: "ddos_guard \<Rightarrow> bytes \<Rightarrow> bucket option" where
  "guard_bucket g ip = map_option ip_bucket (map_of (connections g) ip)"

interpretation guard: bucket_store allow_request guard_bucket
proof unfold_locales
  fix g :: ddos_guard and key other :: bytes and now b
  show "snd (allow_request now key g) = snd (take_token now b)
      \<and> guard_bucket (fst (allow_request now key g)) key = Some (fst (take_token now b))"
    if "guard_bucket g key = Some b"
    using that by (auto simp: allow_request_def guard_bucket_def case_prod_unfold Let_def)
  show "guard_bucket (fst (allow_request now other g)) key = guard_bucket g key" if "other \<noteq> key"
    using that by (auto simp: allow_request_def guard_bucket_def Let_def split: prod.split option.split)
qed

section \<open>Properties\<close>

text \<open>
  C20. The rate limit holds.  Whatever the requests of all clients, from a fresh limiter to time
  \<open>T\<close> a client is granted at most \<open>burst\<close> requests plus \<open>rate\<close> per second since \<open>T0\<close>.
\<close>

theorem limiter_rate_bound:
  assumes "0 \<le> lc_rate conf" and "1 \<le> lc_burst conf" and "sorted (T0 # map fst rs @ [T])"
  shows "granted key rs (answers limiter_allow (limiter_init conf) rs) \<le> lc_burst conf + (T - T0) * lc_rate conf"
proof -
  have "granted key rs (answers limiter_allow l rs) \<le> lc_burst conf + (T - T0) * lc_rate conf"
    if "map_of (buckets l) key = None" "limiter_conf l = conf" "sorted (T0 # map fst rs @ [T])" for l
    using that
  proof (induction rs arbitrary: l)
    case Nil
    then show ?case
      using assms(1,2) by (simp add: granted_def)
  next
    case (Cons r rs)
    obtain now k where r: "r = (now, k)"
      by (cases r)
    let ?l = "fst (limiter_allow now k l)"
    show ?case
    proof (cases "k = key")
      case True
      let ?b = "\<lparr>tokens = lc_burst conf - 1, rate = lc_rate conf, burst = lc_burst conf, last_refill = now\<rparr>"
      have "map_of (buckets ?l) key = Some ?b" "snd (limiter_allow now k l)"
        using Cons.prems True by (simp_all add: limiter_allow_def)
      moreover have "bucket_ok ?b"
        using assms(1,2) by (simp add: bucket_ok_def)
      ultimately have "granted key rs (answers limiter_allow ?l rs) \<le> lc_burst conf - 1 + (T - now) * lc_rate conf"
        using limiter.admitted_bound [of ?l key ?b rs T] Cons.prems(3) r by simp
      moreover have "(T - now) * lc_rate conf \<le> (T - T0) * lc_rate conf"
        using Cons.prems(3) r assms(1) by (intro mult_right_mono) simp_all
      ultimately show ?thesis
        using True r \<open>snd (limiter_allow now k l)\<close> by (simp add: granted_def)
    next
      case False
      have "map_of (buckets ?l) key = None" "limiter_conf ?l = conf"
        using Cons.prems False by (auto simp: limiter_allow_def Let_def split: prod.split option.split)
      then show ?thesis
        using Cons.IH [of ?l] Cons.prems(3) r False by (simp add: granted_def)
    qed
  qed
  then show ?thesis
    using assms(3) by (simp add: limiter_init_def)
qed

definition small_limit :: limiter_config where
  "small_limit = \<lparr>lc_rate = 2, lc_burst = 3, window = 60\<rparr>"

theorem limiter_rate_bound_witness:
  "granted (lit ''c'') [(0, lit ''c''), (1/2, lit ''d''), (1, lit ''c'')]
     (answers limiter_allow (limiter_init small_limit) [(0, lit ''c''), (1/2, lit ''d''), (1, lit ''c'')]) \<le> (5::real)"
  using limiter_rate_bound [of small_limit 0 "[(0, lit ''c''), (1/2, lit ''d''), (1, lit ''c'')]" 1 "lit ''c''"]
  by (simp add: small_limit_def)

text \<open>
  C36. A patient client is always served: once a client has a bucket in good order, of capacity
  at least one, requests at least \<open>1 / rate\<close> apart are all granted, whatever other clients do.
\<close>

theorem patient_client_served:
  assumes "map_of (buckets l) key = Some b" and "0 \<le> tokens b" and "tokens b \<le> burst b" and "1 \<le> burst b"
    and "0 < rate b" and "spaced (1 / rate b) (last_refill b) (map fst (filter (\<lambda>r. snd r = key) rs))"
  shows "all_granted key rs (answers limiter_allow l rs)"
  using limiter.patient_client [OF assms(1), of "1 / rate b" rs] assms by (simp add: bucket_ok_def)

theorem patient_client_served_witness:
  "all_granted (lit ''c'') [(1, lit ''c''), (1, lit ''d''), (2, lit ''c'')]
     (answers limiter_allow (fst (limiter_allow 0 (lit ''c'') (limiter_init small_limit)))
       [(1, lit ''c''), (1, lit ''d''), (2, lit ''c'')])"
  by (rule patient_client_served [where b = "\<lparr>tokens = 2, rate = 2, burst = 3, last_refill = 0\<rparr>"])
     (simp_all add: limiter_allow_def limiter_init_def small_limit_def lit_def)

section \<open>Connections of the guard\<close>

text \<open>
  The reachable states of a guard under the server: a connection is released only if it was
  granted and is still held, and a reload may set the limit per address at any time.  \<open>held\<close> counts, per address, the
  connections the server holds, and \<open>most\<close> is the largest limit per address that was ever in force.
\<close>

inductive guard_reachable :: "guard_config \<Rightarrow> int \<Rightarrow> ddos_guard \<Rightarrow> (bytes \<Rightarrow> int) \<Rightarrow> bool" for conf where
  fresh: "guard_reachable conf (max_connections_per_ip conf) (guard_init conf) (\<lambda>ip. 0)"
| granted_connection: "guard_reachable conf most g held \<Longrightarrow> allow_connection now ip g = (g', True) \<Longrightarrow>
    guard_reachable conf most g' (held(ip := held ip + 1))"
| refused_connection: "guard_reachable conf most g held \<Longrightarrow> allow_connection now ip g = (g', False) \<Longrightarrow>
    guard_reachable conf most g' held"
| request: "guard_reachable conf most g held \<Longrightarrow> guard_reachable conf most (fst (allow_request now ip g)) held"
| released: "guard_reachable conf most g held \<Longrightarrow> 0 < held ip \<Longrightarrow>
    guard_reachable conf most (release_connection ip g) (held(ip := held ip - 1))"
| limit_set: "guard_reachable conf most g held \<Longrightarrow> guard_reachable conf (max most m) (set_max_per_ip m g) held"
| cleaned: "guard_reachable conf most g held \<Longrightarrow> guard_reachable conf most (guard_cleanup now g) held"

definition active :: "ddos_guard \<Rightarrow> bytes \<Rightarrow> int" where
  "active g ip = (case map_of (connections g) ip of None \<Rightarrow> 0 | Some e \<Rightarrow> ip_active e)"

definition sum_active :: "ip_entry smap \<Rightarrow> int" where
  "sum_active m = sum_list (map (\<lambda>(ip, e). ip_active e) m)"

lemma sum_active_hput:
  "distinct (map fst m) \<Longrightarrow>
   sum_active (hput ip e m) = sum_active m - (case map_of m ip of None \<Rightarrow> 0 | Some e' \<Rightarrow> ip_active e') + ip_active e"
  by (induction ip e m rule: hput.induct) (auto simp: sum_active_def split: option.splits)

lemma sum_active_hdel:
  "distinct (map fst m) \<Longrightarrow>
   sum_active (hdel ip m) = sum_active m - (case map_of m ip of None \<Rightarrow> 0 | Some e' \<Rightarrow> ip_active e')"
proof (induction m)
  case (Cons a m)
  have "hdel ip m = m" if "ip \<notin> fst ` set m"
    using that by (force simp: hdel_def filter_id_conv)
  with Cons show ?case
    by (auto simp: sum_active_def hdel_def map_of_eq_None_iff split: option.splits if_splits)
qed (simp add: sum_active_def hdel_def)

text \<open>
  The books of the guard, whatever the limit per address is: the entries count the connections held,
  the total is their sum and within the limit \<open>cap\<close>.
\<close>

definition guard_books :: "int \<Rightarrow> ddos_guard \<Rightarrow> (bytes \<Rightarrow> int) \<Rightarrow> bool" where
  "guard_books cap g held =
     (max_total_connections (guard_conf g) = cap \<and> distinct (map fst (connections g))
      \<and> total_connections g = sum_active (connections g) \<and> (\<forall>ip. active g ip = held ip \<and> 0 \<le> held ip)
      \<and> total_connections g \<le> max 0 cap)"

definition guard_inv :: "guard_config \<Rightarrow> int \<Rightarrow> ddos_guard \<Rightarrow> (bytes \<Rightarrow> int) \<Rightarrow> bool" where
  "guard_inv conf most g held =
     (guard_books (max_total_connections conf) g held \<and> guard_conf g = conf\<lparr>max_connections_per_ip := max_per_ip g\<rparr>
      \<and> max_per_ip g \<le> most \<and> (\<forall>ip. held ip \<le> max 0 most))"

lemma guard_books_entry:
  assumes "guard_books cap g held"
  shows "map_of (connections g) ip = Some e \<Longrightarrow> ip_active e = held ip"
    and "map_of (connections g) ip = None \<Longrightarrow> held ip = 0"
    and "(case map_of (connections g) ip of None \<Rightarrow> 0 | Some e' \<Rightarrow> ip_active e') = held ip"
    and "0 \<le> held ip"
proof -
  have a: "active g ip = held ip" "0 \<le> held ip"
    using assms unfolding guard_books_def by blast+
  then show "map_of (connections g) ip = Some e \<Longrightarrow> ip_active e = held ip"
    "map_of (connections g) ip = None \<Longrightarrow> held ip = 0" "0 \<le> held ip"
    by (simp_all add: active_def)
  show "(case map_of (connections g) ip of None \<Rightarrow> 0 | Some e' \<Rightarrow> ip_active e') = held ip"
    using a(1) by (simp add: active_def)
qed

text \<open>Changing the entry of one address, with the total kept in step.\<close>

lemma guard_books_put:
  assumes "guard_books cap g held" and "0 \<le> ip_active e"
    and "t = total_connections g - held ip + ip_active e" and "t \<le> max 0 cap"
  shows "guard_books cap (g\<lparr>connections := hput ip e (connections g), total_connections := t\<rparr>) (held(ip := ip_active e))"
proof -
  have "active (g\<lparr>connections := hput ip e (connections g), total_connections := t\<rparr>) j = (held(ip := ip_active e)) j" for j
    using guard_books_entry(3) [OF assms(1), of j] by (simp add: active_def)
  then show ?thesis
    using assms guard_books_entry(3) [OF assms(1), of ip] unfolding guard_books_def by (simp add: sum_active_hput)
qed

lemma guard_books_connection:
  assumes "guard_books cap g held" and "allow_connection now ip g = (g', res)"
  shows "guard_books cap g' (if res then held(ip := held ip + 1) else held)
     \<and> (res \<longrightarrow> held ip < max_per_ip g) \<and> max_per_ip g' = max_per_ip g \<and> guard_conf g' = guard_conf g"
proof -
  define e where "e = (case map_of (connections g) ip of None \<Rightarrow> ip_entry_init | Some e \<Rightarrow> e)"
  have active: "ip_active e = held ip"
    using guard_books_entry(1,2) [OF assms(1), of ip] by (auto simp: e_def ip_entry_init_def split: option.splits)
  have conf: "max_total_connections (guard_conf g) = cap" "total_connections g \<le> max 0 cap"
    using assms(1) by (simp_all add: guard_books_def)
  consider "g' = g" "\<not> res"
    | "g' = g\<lparr>connections := hput ip (e\<lparr>last_seen := now\<rparr>) (connections g)\<rparr>" "\<not> res"
    | b where "g' = g\<lparr>connections := hput ip (e\<lparr>last_seen := now, ip_bucket := b, ip_active := ip_active e + 1\<rparr>) (connections g),
              total_connections := total_connections g + 1\<rparr>" "res"
        "ip_active e < max_per_ip g" "total_connections g < max_total_connections (guard_conf g)"
    using assms(2) by (auto simp: allow_connection_def Let_def e_def [symmetric] split: if_splits)
  then show ?thesis
  proof cases
    case 1
    with assms(1) show ?thesis by simp
  next
    case 2
    with guard_books_put [OF assms(1), of "e\<lparr>last_seen := now\<rparr>" "total_connections g" ip] active conf
      guard_books_entry(4) [OF assms(1), of ip]
    show ?thesis by simp
  next
    case 3
    with guard_books_put [OF assms(1), of "e\<lparr>last_seen := now, ip_bucket := b, ip_active := ip_active e + 1\<rparr>"
        "total_connections g + 1" ip] active conf guard_books_entry(4) [OF assms(1), of ip]
    show ?thesis by simp
  qed
qed

lemma guard_books_request:
  assumes "guard_books cap g held"
  shows "guard_books cap (fst (allow_request now ip g)) held"
proof (cases "map_of (connections g) ip")
  case None
  with assms show ?thesis
    by (simp add: allow_request_def)
next
  case (Some e)
  let ?e = "e\<lparr>ip_bucket := fst (take_token now (ip_bucket e))\<rparr>"
  have "total_connections g \<le> max 0 cap"
    using assms by (simp add: guard_books_def)
  then show ?thesis
    using guard_books_put [OF assms, of ?e "total_connections g" ip] guard_books_entry [OF assms, of ip] Some
    by (simp add: allow_request_def case_prod_unfold Let_def)
qed

lemma guard_books_release:
  assumes "guard_books cap g held" and "0 < held ip"
  shows "guard_books cap (release_connection ip g) (held(ip := held ip - 1))"
proof -
  obtain e where e: "map_of (connections g) ip = Some e"
    using guard_books_entry(2) [OF assms(1), of ip] assms(2) by (cases "map_of (connections g) ip") auto
  note a = guard_books_entry [OF assms(1), of ip]
  show ?thesis
  proof (cases "held ip = 1")
    case True
    let ?g = "g\<lparr>total_connections := total_connections g - 1, connections := hdel ip (connections g)\<rparr>"
    have "active ?g j = (held(ip := 0)) j" for j
      using guard_books_entry(3) [OF assms(1), of j] by (simp add: active_def)
    moreover have "release_connection ip g = ?g"
      using True e a(1) by (simp add: release_connection_def)
    ultimately show ?thesis
      using assms(1) True a(3) unfolding guard_books_def by (simp add: sum_active_hdel)
  next
    case False
    have "total_connections g - 1 \<le> max 0 cap"
      using assms(1) unfolding guard_books_def by linarith
    then have "guard_books cap (g\<lparr>connections := hput ip (e\<lparr>ip_active := ip_active e - 1\<rparr>) (connections g),
        total_connections := total_connections g - 1\<rparr>) (held(ip := held ip - 1))"
      using guard_books_put [OF assms(1), of "e\<lparr>ip_active := ip_active e - 1\<rparr>" "total_connections g - 1" ip]
        False a(1) [OF e] assms(2) by simp
    moreover have "release_connection ip g = g\<lparr>connections := hput ip (e\<lparr>ip_active := ip_active e - 1\<rparr>) (connections g),
        total_connections := total_connections g - 1\<rparr>"
      using False e a(1) assms(2) by (cases g) (simp add: release_connection_def)
    ultimately show ?thesis
      by simp
  qed
qed

lemma guard_books_cleanup:
  assumes "guard_books cap g held"
  shows "guard_books cap (guard_cleanup now g) held"
proof -
  let ?P = "\<lambda>(ip, e). \<not> (ip_active e \<le> 0 \<and> 300 < now - last_seen e)" and ?m = "connections g"
  have dist: "distinct (map fst ?m)"
    using assms by (simp add: guard_books_def)
  have ge: "0 \<le> ip_active e" if "(ip, e) \<in> set ?m" for ip e
    using guard_books_entry(1) [OF assms, of ip e] guard_books_entry(4) [OF assms, of ip] map_of_is_SomeI [OF dist that] by simp
  have sum: "sum_active (filter ?P m) = sum_active m" if "\<And>ip e. (ip, e) \<in> set m \<Longrightarrow> 0 \<le> ip_active e" for m
    using that by (induction m) (fastforce simp: sum_active_def)+
  have "active (guard_cleanup now g) ip = active g ip" for ip
  proof (cases "map_of ?m ip")
    case None
    then have "map_of (filter ?P ?m) ip = None"
      unfolding map_of_eq_None_iff by auto
    with None show ?thesis
      by (simp add: active_def guard_cleanup_def)
  next
    case (Some e)
    then show ?thesis
    proof (cases "?P (ip, e)")
      case True
      then have "map_of (filter ?P ?m) ip = Some e"
        using Some dist by (intro map_of_is_SomeI) (auto simp: distinct_map_filter dest: map_of_SomeD)
      with Some show ?thesis
        by (simp add: active_def guard_cleanup_def)
    next
      case False
      then have "map_of (filter ?P ?m) ip = None"
        using Some dist by (auto simp: map_of_eq_None_iff dest: map_of_is_SomeI [OF dist])
      with Some False ge map_of_SomeD [OF Some] show ?thesis
        by (force simp: active_def guard_cleanup_def)
    qed
  qed
  with assms sum [OF ge] dist show ?thesis
    by (auto simp: guard_books_def guard_cleanup_def distinct_map_filter)
qed

lemma guard_books_max_per_ip: "guard_books cap g held \<Longrightarrow> guard_books cap (set_max_per_ip m g) held"
  by (simp add: guard_books_def set_max_per_ip_def active_def)

lemma guard_settings [simp]:
  "guard_conf (fst (allow_request now ip g)) = guard_conf g" "max_per_ip (fst (allow_request now ip g)) = max_per_ip g"
  "guard_conf (release_connection ip g) = guard_conf g" "max_per_ip (release_connection ip g) = max_per_ip g"
  "guard_conf (guard_cleanup now g) = guard_conf g" "max_per_ip (guard_cleanup now g) = max_per_ip g"
  by (simp_all add: allow_request_def release_connection_def guard_cleanup_def case_prod_unfold Let_def split: option.split)

lemma guard_reachable_inv: "guard_reachable conf most g held \<Longrightarrow> guard_inv conf most g held"
proof (induction rule: guard_reachable.induct)
  case fresh
  then show ?case
    by (simp add: guard_inv_def guard_books_def guard_init_def active_def sum_active_def)
next
  case (granted_connection most g held now ip g')
  then show ?case
    using guard_books_connection [of "max_total_connections conf" g held now ip g' True] by (auto simp: guard_inv_def fun_upd_def)
next
  case (refused_connection most g held now ip g')
  then show ?case
    using guard_books_connection [of "max_total_connections conf" g held now ip g' False] by (auto simp: guard_inv_def)
next
  case (request most g held now ip)
  then show ?case
    by (simp add: guard_inv_def guard_books_request)
next
  case (released most g held ip)
  then have "held ip - 1 \<le> max 0 most"
    by (simp add: guard_inv_def) (metis diff_left_mono diff_zero max.coboundedI2 max.commute order_trans zero_le_one)
  with released show ?case
    by (simp add: guard_inv_def guard_books_release [unfolded fun_upd_def])
next
  case (limit_set most g held m)
  then show ?case
    using guard_books_max_per_ip [of "max_total_connections conf" g held m]
    by (auto simp: guard_inv_def set_max_per_ip_def le_max_iff_disj)
next
  case (cleaned most g held now)
  then show ?case
    by (simp add: guard_inv_def guard_books_cleanup)
qed

text \<open>
  C19. The guard's books are exact, whatever limits a reload sets: in every reachable state the entry of an address counts
  the connections the server holds from it, the total is their sum and within its limit, and an address holds no more
  than the largest limit that was in force; a connection is granted only to an address that is below the limit in
  force now (after the limit was lowered an address may hold more, but gets no new connection), and only below the total.
\<close>

theorem guard_accounts:
  assumes "guard_reachable conf most g held"
  shows "(\<forall>ip. active g ip = held ip \<and> 0 \<le> held ip \<and> held ip \<le> max 0 most)
       \<and> total_connections g = sum_list (map (\<lambda>(ip, e). ip_active e) (connections g))
       \<and> total_connections g \<le> max 0 (max_total_connections conf)
       \<and> (\<forall>now ip. snd (allow_connection now ip g) \<longleftrightarrow>
             held ip < max_per_ip g \<and> total_connections g < max_total_connections conf)"
proof -
  have inv: "guard_inv conf most g held"
    by (rule guard_reachable_inv) (rule assms)
  then have "guard_books (max_total_connections conf) g held"
    by (simp add: guard_inv_def)
  from guard_books_entry [OF this]
  have "ip_active (case map_of (connections g) ip of None \<Rightarrow> ip_entry_init | Some e \<Rightarrow> e) = held ip" for ip
    by (auto simp: ip_entry_init_def split: option.split)
  with inv show ?thesis
    by (auto simp: guard_inv_def guard_books_def sum_active_def allow_connection_def Let_def)
qed

definition small_guard :: guard_config where
  "small_guard = \<lparr>max_connections_per_ip = 2, max_total_connections = 3, rate_limit_rps = 1, rate_limit_burst = 2\<rparr>"

theorem guard_accounts_witness:
  "let g = set_max_per_ip 1 (fst (allow_connection 0 (lit ''c'') (guard_init small_guard)))
   in active g (lit ''c'') = 1 \<and> \<not> snd (allow_connection 1 (lit ''c'') g)"
proof -
  let ?g = "fst (allow_connection 0 (lit ''c'') (guard_init small_guard))"
  have "allow_connection 0 (lit ''c'') (guard_init small_guard) = (?g, True)"
    by (simp add: allow_connection_def guard_init_def small_guard_def ip_entry_init_def)
  note r = guard_reachable.limit_set [OF guard_reachable.granted_connection [OF guard_reachable.fresh this], of 1]
  have "max_per_ip (set_max_per_ip 1 ?g) = 1"
    by (simp add: set_max_per_ip_def)
  with guard_accounts [OF r] show ?thesis
    by (auto simp: Let_def dest: spec [of _ "lit ''c''"])
qed

text \<open>
  The request limit of the guard is per connection epoch: when the last connection of an
  address is closed its bucket is thrown away, so a client with one connection that
  reconnects has a full bucket again, however many requests it just made.
\<close>

theorem guard_reconnect_refills:
  assumes "guard_reachable conf most g held" and "held ip = 1" and "0 < max_per_ip g"
    and "total_connections g \<le> max_total_connections conf"
  shows "guard_bucket (fst (allow_connection now ip (release_connection ip g))) ip
         = Some \<lparr>tokens = rate_limit_burst conf, rate = rate_limit_rps conf, burst = rate_limit_burst conf, last_refill = now\<rparr>"
proof -
  have inv: "guard_inv conf most g held"
    by (rule guard_reachable_inv) (rule assms(1))
  then have books: "guard_books (max_total_connections conf) g held"
    by (simp add: guard_inv_def)
  obtain e where e: "map_of (connections g) ip = Some e" "ip_active e = 1"
    using guard_books_entry(1,2) [OF books, of ip] assms(2) by (cases "map_of (connections g) ip") auto
  then have "release_connection ip g = g\<lparr>total_connections := total_connections g - 1, connections := hdel ip (connections g)\<rparr>"
    by (simp add: release_connection_def)
  with inv assms(3,4) show ?thesis
    by (simp add: allow_connection_def guard_bucket_def guard_inv_def ip_entry_init_def init_bucket_def Let_def)
qed

theorem guard_reconnect_refills_witness:
  "guard_bucket (fst (allow_connection 1 (lit ''c'') (release_connection (lit ''c'')
      (fst (allow_connection 0 (lit ''c'') (guard_init small_guard)))))) (lit ''c'')
   = Some \<lparr>tokens = 2, rate = 1, burst = 2, last_refill = 1\<rparr>"
proof -
  have g: "allow_connection 0 (lit ''c'') (guard_init small_guard)
      = (fst (allow_connection 0 (lit ''c'') (guard_init small_guard)), True)"
    and total: "total_connections (fst (allow_connection 0 (lit ''c'') (guard_init small_guard))) = 1"
      "max_per_ip (fst (allow_connection 0 (lit ''c'') (guard_init small_guard))) = 2"
    by (simp_all add: allow_connection_def guard_init_def small_guard_def ip_entry_init_def)
  show ?thesis
    using guard_reconnect_refills [OF guard_reachable.granted_connection [OF guard_reachable.fresh g], of "lit ''c''" 1] total
    by (simp add: small_guard_def)
qed

end
