(* ===== verification/Anti_Bot.thy ===== *)
theory Anti_Bot
  imports Http_Message Rate_Limit
begin

text \<open>
  The anti-bot engine (\<open>src/anti_bot.cpp\<close>): TLS fingerprints, the JavaScript and the
  proof-of-work challenge, the tarpit, the country filter and the inspection that combines
  them with the rate limiter of \<open>Rate_Limit\<close>.  OpenSSL's digests, random bytes, the clock, the
  state of the TLS connection and the results of \<open>poll\<close> and \<open>send\<close> are arguments.  Logging is
  left out.

  Shown: the cookie a challenge page sets is accepted, a proof of work is checked bit by bit
  and can be used once, the address parser reads dotted quads, a request is allowed exactly
  when every enabled check passes; and two defects, the solver in the challenge page that stops
  too early and the tarpit that does not slow anybody down.
\<close>

unbundle bit_operations_syntax

section \<open>Digests\<close>

record crypto =
  MD5 :: "bytes \<Rightarrow> bytes"
  SHA256 :: "bytes \<Rightarrow> bytes"

definition md5_hex :: "crypto \<Rightarrow> bytes \<Rightarrow> bytes" where
  "md5_hex cr data = hex_of (MD5 cr data)"

definition sha256_hex :: "crypto \<Rightarrow> bytes \<Rightarrow> bytes" where
  "sha256_hex cr data = hex_of (SHA256 cr data)"

text \<open>\<open>random_hex\<close>: the random bytes are an argument.\<close>

definition random_hex :: "bytes \<Rightarrow> bytes" where
  "random_hex rand = hex_of rand"

section \<open>TLS fingerprints\<close>

record fingerprint =
  ja3_hash :: bytes
  ja3_raw :: bytes
  fp_client_ip :: bytes
  fp_user_agent :: bytes
  is_known_bot :: bool

record tls_info =
  tls_version :: int
  cipher_id :: "nat option"

definition known_bot_hashes :: "bytes list" where
  "known_bot_hashes =
     [lit ''e7d705a3286e19ea42f587b344ee6865'', lit ''b32309a26951912be7dba376398abc3b'',
      lit ''3b5074b1b5d032e5620f69f9f700ff0e'', lit ''5d65ea3fb1d4aa7d826733d2f2cbbb1d'',
      lit ''9e10692f1b7f78228b2d4e424db3a98c'', lit ''7c02dbae662670040c7af9bd15fb7e2f'',
      lit ''c12f54a3f91dc7bafd92cb59fe009a35'', lit ''a0e9f5d64349fb13191bc781f81f42e1'',
      lit ''cd08e31494f9531f560d64c695473da9'']"

definition is_known_bot_fingerprint :: "bytes \<Rightarrow> bool" where
  "is_known_bot_fingerprint h = (h \<in> set known_bot_hashes)"

definition extract_ja3 :: "crypto \<Rightarrow> tls_info option \<Rightarrow> bytes \<Rightarrow> fingerprint" where
  "extract_ja3 cr ssl client_ip =
     (let fp = \<lparr>ja3_hash = [], ja3_raw = [], fp_client_ip = client_ip, fp_user_agent = [], is_known_bot = False\<rparr>
      in case ssl of
           None \<Rightarrow> fp\<lparr>ja3_hash := lit ''no_tls''\<rparr>
         | Some s \<Rightarrow>
             let ja3 = to_string (tls_version s) @ lit '','' @ (case cipher_id s of None \<Rightarrow> [] | Some c \<Rightarrow> to_dec c)
                         @ lit '','' @ lit ''0'' @ lit '','' @ lit ''0'' @ lit '','' @ lit ''0'';
                 h = md5_hex cr ja3
             in fp\<lparr>ja3_raw := ja3, ja3_hash := h, is_known_bot := is_known_bot_fingerprint h\<rparr>)"

text \<open>The set of blocked fingerprints is the state of the fingerprinter.\<close>

definition block_fingerprint :: "bytes \<Rightarrow> bytes list \<Rightarrow> bytes list" where
  "block_fingerprint h blocked_fps = List.insert h blocked_fps"

definition fingerprint_blocked :: "bytes list \<Rightarrow> bytes \<Rightarrow> bool" where
  "fingerprint_blocked blocked_fps h = (h \<in> set blocked_fps)"

section \<open>The JavaScript challenge\<close>

record js_challenge =
  cookie_name :: bytes
  cookie_ttl :: int
  page_title :: bytes
  secret_key :: bytes

definition js_init :: "bytes \<Rightarrow> bytes \<Rightarrow> int \<Rightarrow> bytes \<Rightarrow> js_challenge" where
  "js_init rand name ttl title = \<lparr>cookie_name = name, cookie_ttl = ttl, page_title = title, secret_key = random_hex rand\<rparr>"

definition generate_token :: "crypto \<Rightarrow> js_challenge \<Rightarrow> bytes \<Rightarrow> int \<Rightarrow> bytes" where
  "generate_token cr js client_ip ts_secs =
     sha256_hex cr (client_ip @ lit ''|'' @ to_string ts_secs @ lit ''|'' @ secret_key js)"

text \<open>The digits of the timestamp as a 64-bit number, and the trip through nanoseconds.\<close>

definition cookie_time :: "bytes \<Rightarrow> int" where
  "cookie_time ts_str =
     sint (foldl (\<lambda>ts c. if 48 \<le> c \<and> c \<le> 57 then ts * 10 + (ucast c - 48) else ts) (0 :: 64 word) ts_str)"

definition time_point_secs :: "int \<Rightarrow> int" where
  "time_point_secs ts =
     (let ns = sint (word_of_int (ts * 10 ^ 9) :: 64 word) in sgn ns * (\<bar>ns\<bar> div 10 ^ 9))"

text \<open>The value of a cookie, up to the next semicolon.\<close>

definition cookie_value :: "bytes \<Rightarrow> bytes \<Rightarrow> bytes option" where
  "cookie_value header name =
     (if header = [] then None
      else case find_sub (name @ lit ''='') header of
             None \<Rightarrow> None
           | Some pos \<Rightarrow> Some (takeWhile (\<lambda>c. c \<noteq> 59) (drop (pos + length (name @ lit ''='')) header)))"

definition is_verified :: "crypto \<Rightarrow> int \<Rightarrow> js_challenge \<Rightarrow> http_request \<Rightarrow> bytes \<Rightarrow> bool" where
  "is_verified cr now_ts js req client_ip =
     (case cookie_value (get_header req (lit ''Cookie'')) (cookie_name js) of
        None \<Rightarrow> False
      | Some val \<Rightarrow>
          case find_sub [58] val of
            None \<Rightarrow> False
          | Some sep \<Rightarrow>
              let ts = cookie_time (take sep val)
              in if cookie_ttl js < now_ts - ts then False
                 else drop (sep + 1) val = generate_token cr js client_ip (time_point_secs ts))"

text \<open>The page, and the cookie its script sets.\<close>

abbreviation (input) nl :: bytes where "nl \<equiv> [10]"

definition js_page :: "bytes \<Rightarrow> int \<Rightarrow> bytes \<Rightarrow> bytes \<Rightarrow> int \<Rightarrow> bytes" where
  \<open>js_page title ts token name ttl = concat
     [lit ''<!DOCTYPE html>'', nl, lit ''<html><head><title>'', title, lit ''</title>'', nl, lit ''<style>'', nl,
      lit ''body{display:flex;justify-content:center;align-items:center;height:100vh;margin:0;'', nl,
      lit ''font-family:sans-serif;background:#f5f5f5}'', nl,
      lit ''.box{text-align:center;padding:40px;background:white;border-radius:8px;box-shadow:0 2px 10px rgba(0,0,0,.1)}'',
      nl, lit ''.spinner{width:40px;height:40px;border:4px solid #ddd;border-top-color:#333;'', nl,
      lit ''border-radius:50%;animation:spin 1s linear infinite;margin:20px auto}'', nl,
      lit ''@keyframes spin{to{transform:rotate(360deg)}}'', nl, lit ''</style></head><body>'', nl,
      lit ''<div class="box">'', nl, lit ''<div class="spinner"></div>'', nl, lit ''<h2>'', title, lit ''</h2>'', nl,
      lit ''<p>This is an automatic process. Your browser will redirect shortly.</p>'', nl,
      lit ''<noscript><p>Please enable JavaScript to continue.</p></noscript>'', nl, lit ''</div>'', nl,
      lit ''<script>'', nl, lit ''(function(){'', nl, lit ''var t='', to_string ts, lit '';'', nl, lit ''var h='',
      [39], token, [39], lit '';'', nl, lit ''// Simple computation that proves JS execution'', nl,
      lit ''var r=0;for(var i=0;i<1000;i++){r=(r*31+i)>>>0;}'', nl, lit ''document.cookie='', [39], name,
      lit ''='+t+':'+h+';path=/;max-age='', to_string ttl, lit '';SameSite=Lax';'', nl,
      lit ''setTimeout(function(){location.reload();},1500);'', nl, lit ''})();'', nl,
      lit ''</script></body></html>'']\<close>

definition js_generate_challenge :: "crypto \<Rightarrow> int \<Rightarrow> js_challenge \<Rightarrow> bytes \<Rightarrow> http_response" where
  "js_generate_challenge cr ts js client_ip =
     (let token = generate_token cr js client_ip ts
      in empty_response\<lparr>status_code := 503, status_text := lit ''Service Temporarily Unavailable'',
           resp_headers := hput (lit ''Retry-After'') (lit ''2'') (hput (lit ''Cache-Control'') (lit ''no-store'')
             (hput (lit ''Content-Type'') (lit ''text/html; charset=utf-8'') (resp_headers empty_response))),
           resp_body := js_page (page_title js) ts token (cookie_name js) (cookie_ttl js)\<rparr>)"

definition js_cookie :: "crypto \<Rightarrow> js_challenge \<Rightarrow> bytes \<Rightarrow> int \<Rightarrow> bytes" where
  "js_cookie cr js client_ip ts =
     cookie_name js @ lit ''='' @ to_string ts @ lit '':'' @ generate_token cr js client_ip ts"

section \<open>The proof of work\<close>

record challenge =
  nonce :: bytes
  ch_difficulty :: nat
  challenge_id :: bytes

record pow_challenge =
  difficulty :: nat
  pow_secret :: bytes
  active_challenges :: "challenge smap"

definition pow_init :: "bytes \<Rightarrow> nat \<Rightarrow> pow_challenge" where
  "pow_init rand d = \<lparr>difficulty = d, pow_secret = random_hex rand, active_challenges = []\<rparr>"

definition pow_generate_challenge :: "crypto \<Rightarrow> bytes \<Rightarrow> pow_challenge \<Rightarrow> bytes \<Rightarrow> pow_challenge \<times> challenge" where
  "pow_generate_challenge cr rand p client_ip =
     (let n = random_hex rand;
          ch = \<lparr>nonce = n, ch_difficulty = difficulty p,
                challenge_id = sha256_hex cr (client_ip @ lit ''|'' @ n @ lit ''|'' @ pow_secret p)\<rparr>
      in (p\<lparr>active_challenges := hput (challenge_id ch) ch (active_challenges p)\<rparr>, ch))"

text \<open>The two checks of the leading bits of the hash, in hexadecimal.\<close>

definition nibble :: "byte \<Rightarrow> nat" where
  "nibble c = (if 48 \<le> c \<and> c \<le> 57 then unat c - 48 else 10 + unat c - 97)"

definition leading_zeros :: "nat \<Rightarrow> bytes \<Rightarrow> bool" where
  "leading_zeros d h =
     (let required_nibbles = d div 4; remaining_bits = d mod 4
      in list_all (\<lambda>c. c = 48) (take required_nibbles h)
         \<and> (0 < remaining_bits \<and> required_nibbles < length h \<longrightarrow>
              nibble (h ! required_nibbles) AND (push_bit (4 - remaining_bits) 15 AND 15) = 0))"

definition verify_solution :: "crypto \<Rightarrow> bytes \<Rightarrow> bytes \<Rightarrow> pow_challenge \<Rightarrow> pow_challenge \<times> bool" where
  "verify_solution cr cid solution p =
     (case map_of (active_challenges p) cid of
        None \<Rightarrow> (p, False)
      | Some ch \<Rightarrow>
          if leading_zeros (difficulty p) (sha256_hex cr (nonce ch @ solution))
          then (p\<lparr>active_challenges := hdel cid (active_challenges p)\<rparr>, True)
          else (p, False))"

text \<open>The page with the solver.\<close>

definition pow_page :: "bytes \<Rightarrow> bytes \<Rightarrow> nat \<Rightarrow> bytes" where
  \<open>pow_page n cid d = concat
     [lit ''<!DOCTYPE html>'', nl, lit ''<html><head><title>Security Check</title>'', nl, lit ''<style>'', nl,
      lit ''body{display:flex;justify-content:center;align-items:center;height:100vh;margin:0;'', nl,
      lit ''font-family:monospace;background:#1a1a1a;color:#00ff00}'', nl,
      lit ''.box{text-align:center;padding:40px;background:#222;border-radius:8px;border:1px solid #333}'', nl,
      lit ''#status{margin-top:20px}'', nl, lit ''</style></head><body>'', nl, lit ''<div class="box">'', nl,
      lit ''<h2>Security Verification Required</h2>'', nl, lit ''<p>Solving computational challenge...</p>'', nl,
      lit ''<div id="status">Computing: 0 hashes</div>'', nl,
      lit ''<canvas id="progress" width="300" height="20"></canvas>'', nl, lit ''</div>'', nl, lit ''<script>'', nl,
      lit ''(function(){'', nl, lit ''var nonce='', [39], n, [39], lit '';'', nl, lit ''var id='', [39], cid, [39],
      lit '';'', nl, lit ''var diff='', to_dec d, lit '';'', nl, lit ''var count=0;'', nl,
      lit ''var prefix='0'.repeat(Math.floor(diff/4));'', nl, nl, lit ''async function sha256(msg){'', nl,
      lit ''var enc=new TextEncoder();'', nl, lit ''var buf=await crypto.subtle.digest('SHA-256',enc.encode(msg));'',
      nl, lit ''return Array.from(new Uint8Array(buf)).map(b=>b.toString(16).padStart(2,'0')).join('', [39, 39],
      lit '');'', nl, lit ''}'', nl, nl, lit ''async function solve(){'', nl,
      lit ''var s=document.getElementById('status');'', nl, lit ''for(var i=0;i<1e8;i++){'', nl, lit ''count++;'',
      nl, lit ''var sol=i.toString(16);'', nl, lit ''var hash=await sha256(nonce+sol);'', nl,
      lit ''if(hash.startsWith(prefix)){'', nl, lit ''s.textContent='Solved! Redirecting...';'', nl,
      lit ''document.cookie='__pow='+id+':'+sol+';path=/;max-age=300;SameSite=Lax';'', nl,
      lit ''setTimeout(function(){location.reload();},500);'', nl, lit ''return;'', nl, lit ''}'', nl,
      lit ''if(count%10000===0)s.textContent='Computing: '+count+' hashes';'', nl, lit ''}'', nl,
      lit ''s.textContent='Challenge failed. Please refresh.';'', nl, lit ''}'', nl, lit ''solve();'', nl,
      lit ''})();'', nl, lit ''</script></body></html>'']\<close>

definition generate_challenge_page :: "challenge \<Rightarrow> http_response" where
  "generate_challenge_page ch =
     empty_response\<lparr>status_code := 503, status_text := lit ''Service Temporarily Unavailable'',
       resp_headers := hput (lit ''Cache-Control'') (lit ''no-store'')
         (hput (lit ''Content-Type'') (lit ''text/html; charset=utf-8'') (resp_headers empty_response)),
       resp_body := pow_page (nonce ch) (challenge_id ch) (ch_difficulty ch)\<rparr>"

text \<open>The test of the script in the page.\<close>

definition page_accepts :: "crypto \<Rightarrow> challenge \<Rightarrow> bytes \<Rightarrow> bool" where
  "page_accepts cr ch sol =
     starts_with (sha256_hex cr (nonce ch @ sol)) (replicate (ch_difficulty ch div 4) 48)"

section \<open>The tarpit\<close>

record tarpit =
  bytes_per_second :: int
  max_duration :: int
  tarpit_body :: bytes

definition tarpit_init :: "tarpit \<Rightarrow> tarpit" where
  "tarpit_init conf = (if tarpit_body conf = [] then conf\<lparr>tarpit_body := replicate 4096 32\<rparr> else conf)"

definition tarpit_response :: "tarpit \<Rightarrow> http_response" where
  "tarpit_response t =
     empty_response\<lparr>status_code := 200, status_text := lit ''OK'',
       resp_headers := hput (lit ''Content-Length'') (to_dec (length (tarpit_body t)))
         (hput (lit ''Content-Type'') (lit ''text/html'') (resp_headers empty_response)),
       resp_body := tarpit_body t\<rparr>"

text \<open>
  What \<open>poll\<close> reports: an error, the end of the time limit, a client that is gone, or, after
  some milliseconds, that the socket can be written to; then whether \<open>send\<close> succeeds.
\<close>

datatype poll_result = Poll_error | Poll_timeout | Poll_gone | Poll_writable int bool

text \<open>The loop; times in milliseconds.  It returns the bytes sent and the time at the end.\<close>

fun drip_loop :: "int \<Rightarrow> int \<Rightarrow> (nat \<Rightarrow> poll_result) \<Rightarrow> nat \<Rightarrow> bytes \<Rightarrow> int \<Rightarrow> bytes \<times> int" where
  "drip_loop deadline delay_ms poll i [] now = ([], now)"
| "drip_loop deadline delay_ms poll i (c # cs) now =
     (if deadline < now then ([], now)
      else case poll i of
             Poll_error \<Rightarrow> ([], now)
           | Poll_timeout \<Rightarrow> drip_loop deadline delay_ms poll (i + 1) cs (now + delay_ms)
           | Poll_gone \<Rightarrow> ([], now)
           | Poll_writable wait sent_ok \<Rightarrow>
               if sent_ok then map_prod (Cons c) id (drip_loop deadline delay_ms poll (i + 1) cs (now + wait))
               else ([], now + wait))"

definition drip_feed :: "tarpit \<Rightarrow> (nat \<Rightarrow> poll_result) \<Rightarrow> bytes \<Rightarrow> int \<Rightarrow> bytes \<times> int" where
  "drip_feed t poll data now =
     drip_loop (now + max_duration t * 1000) (1000 div max (bytes_per_second t) 1) poll 0 data now"

section \<open>The country filter\<close>

record ip_range =
  range_start :: u32
  range_end :: u32
  country :: bytes

record geoip =
  blocked_countries :: "bytes list"
  ranges :: "ip_range list"

text \<open>The number of a dotted address: the number so far, the current octet, and the shift.\<close>

fun parse_ip :: "u32 \<times> u32 \<times> int \<Rightarrow> bytes \<Rightarrow> u32 \<times> u32 \<times> int" where
  "parse_ip st [] = st"
| "parse_ip (ip_num, octet, shift) (c # cs) =
     (if c = 46 then parse_ip (ip_num OR push_bit (nat shift) octet, 0, shift - 8) cs
      else if 48 \<le> c \<and> c \<le> 57 then parse_ip (ip_num, octet * 10 + (ucast c - 48), shift) cs
      else parse_ip (ip_num, octet, shift) cs)"

definition ip_number :: "bytes \<Rightarrow> u32" where
  "ip_number ip = (let (ip_num, octet, shift) = parse_ip (0, 0, 24) ip in ip_num OR octet)"

definition lookup_country :: "geoip \<Rightarrow> bytes \<Rightarrow> bytes option" where
  "lookup_country g ip =
     map_option country (find (\<lambda>r. range_start r \<le> ip_number ip \<and> ip_number ip \<le> range_end r) (ranges g))"

definition geoip_blocked :: "geoip \<Rightarrow> bytes \<Rightarrow> bool" where
  "geoip_blocked g ip =
     (if blocked_countries g = [] then False
      else case lookup_country g ip of None \<Rightarrow> False | Some c \<Rightarrow> c \<in> set (blocked_countries g))"

text \<open>The loader of the database is not implemented: it changes nothing and reports failure.\<close>

definition load_database :: "geoip \<Rightarrow> geoip \<times> bool" where
  "load_database g = (g, False)"

section \<open>The engine\<close>

record engine_config =
  eng_enabled :: bool
  ja3_enabled :: bool
  rate_limit_enabled :: bool
  js_challenge_enabled :: bool
  pow_enabled :: bool
  tarpit_enabled :: bool
  geoip_enabled :: bool

record engine =
  eng_config :: engine_config
  blocked_fingerprints :: "bytes list"
  rate_limiter :: token_limiter
  eng_js :: js_challenge
  eng_pow :: pow_challenge
  eng_tarpit :: tarpit
  eng_geoip :: geoip

text \<open>The constructor, with the random bytes of the two secrets.\<close>

definition engine_init :: "bytes \<Rightarrow> bytes \<Rightarrow> engine_config \<Rightarrow> limiter_config \<Rightarrow> js_challenge \<Rightarrow> nat \<Rightarrow> tarpit \<Rightarrow> geoip \<Rightarrow> engine" where
  "engine_init rand1 rand2 conf limits js d t g =
     \<lparr>eng_config = conf, blocked_fingerprints = [], rate_limiter = limiter_init limits,
      eng_js = js_init rand1 (cookie_name js) (cookie_ttl js) (page_title js), eng_pow = pow_init rand2 d,
      eng_tarpit = tarpit_init t, eng_geoip = g\<lparr>ranges := []\<rparr>\<rparr>"

text \<open>What an inspection takes from outside: time, digests and random bytes.\<close>

record bot_env =
  env_now :: real
  env_secs :: int
  env_crypto :: crypto
  env_random :: bytes

record bot_verdict =
  allowed :: bool
  tarpitted :: bool
  challenged :: bool
  bot_reason :: bytes
  bot_response :: http_response

definition bot_verdict_init :: bot_verdict where
  "bot_verdict_init = \<lparr>allowed = True, tarpitted = False, challenged = False, bot_reason = [], bot_response = empty_response\<rparr>"

text \<open>The solution a client sends in its cookie.\<close>

definition pow_solution :: "http_request \<Rightarrow> (bytes \<times> bytes) option" where
  "pow_solution req =
     (case cookie_value (get_header req (lit ''Cookie'')) (lit ''__pow'') of
        None \<Rightarrow> None
      | Some val \<Rightarrow> (case find_sub [58] val of None \<Rightarrow> None | Some sep \<Rightarrow> Some (take sep val, drop (sep + 1) val)))"

definition rate_limited_response :: http_response where
  "rate_limited_response =
     empty_response\<lparr>status_code := 429, status_text := lit ''Too Many Requests'',
       resp_headers := hput (lit ''Retry-After'') (lit ''10'') (hput (lit ''Content-Type'') (lit ''text/plain'') (resp_headers empty_response)),
       resp_body := lit ''Rate limit exceeded. Please try again later.''\<rparr>"

definition deny :: "bytes \<Rightarrow> http_response \<Rightarrow> bot_verdict" where
  "deny why r = bot_verdict_init\<lparr>allowed := False, bot_reason := why, bot_response := r\<rparr>"

definition check_pow :: "bot_env \<Rightarrow> engine \<Rightarrow> http_request \<Rightarrow> bytes \<Rightarrow> engine \<times> bot_verdict" where
  "check_pow env e req client_ip =
     (let (p, solved) = (case pow_solution req of
                           None \<Rightarrow> (eng_pow e, False)
                         | Some (cid, sol) \<Rightarrow> verify_solution (env_crypto env) cid sol (eng_pow e))
      in if solved then (e\<lparr>eng_pow := p\<rparr>, bot_verdict_init)
         else let (p, ch) = pow_generate_challenge (env_crypto env) (env_random env) p client_ip
              in (e\<lparr>eng_pow := p\<rparr>,
                  (deny (lit ''PoW challenge required'') (generate_challenge_page ch))\<lparr>challenged := True\<rparr>))"

definition bot_inspect :: "bot_env \<Rightarrow> engine \<Rightarrow> http_request \<Rightarrow> bytes \<Rightarrow> tls_info option \<Rightarrow> engine \<times> bot_verdict" where
  "bot_inspect env e req client_ip ssl =
     (let conf = eng_config e; fp = extract_ja3 (env_crypto env) ssl client_ip
      in if \<not> eng_enabled conf then (e, bot_verdict_init)
         else if geoip_enabled conf \<and> geoip_blocked (eng_geoip e) client_ip
         then (e, deny (lit ''Blocked by GeoIP policy'') (make_error 403 (lit ''Access denied'')))
         else if ja3_enabled conf \<and> ssl \<noteq> None \<and> (is_known_bot fp \<or> fingerprint_blocked (blocked_fingerprints e) (ja3_hash fp))
         then (if tarpit_enabled conf
               then (e, (deny (lit ''Known bot fingerprint (tarpitting)'') (tarpit_response (eng_tarpit e)))\<lparr>tarpitted := True\<rparr>)
               else (e, deny (lit ''Known bot fingerprint blocked'') (make_error 403 (lit ''Access denied''))))
         else let (l, ok) = (if rate_limit_enabled conf then limiter_allow (env_now env) client_ip (rate_limiter e)
                             else (rate_limiter e, True));
                  e = e\<lparr>rate_limiter := l\<rparr>
              in if \<not> ok then (e, deny (lit ''Rate limit exceeded'') rate_limited_response)
                 else if js_challenge_enabled conf \<and> \<not> is_verified (env_crypto env) (env_secs env) (eng_js e) req client_ip
                 then (e, (deny (lit ''JS challenge required'')
                        (js_generate_challenge (env_crypto env) (env_secs env) (eng_js e) client_ip))
                        \<lparr>challenged := True\<rparr>)
                 else if pow_enabled conf then check_pow env e req client_ip
                 else (e, bot_verdict_init))"

section \<open>Cookies\<close>

lemma find_sub_here: "find_sub p (p @ s) = Some 0"
proof (cases "p @ s")
  case (Cons a r)
  have "take (length p) (p @ s) = p"
    by simp
  then show ?thesis
    unfolding Cons by (simp add: starts_with_def)
qed simp

lemma hex_char_plain: "d < 16 \<Longrightarrow> hex_char d \<noteq> 58 \<and> hex_char d \<noteq> 59"
proof -
  assume "d < 16"
  then have "unat (hex_char d) = (if d < 10 then 48 + d else 87 + d)"
    by (simp add: hex_char_def unat_word_ariths unat_of_nat)
  with \<open>d < 16\<close> show ?thesis
    by (auto simp: word_unat_eq_iff)
qed

lemma hex_of_plain: "58 \<notin> set (hex_of bs) \<and> 59 \<notin> set (hex_of bs)"
proof -
  have "unat (b :: byte) div 16 < 16" for b
    using unat_byte_less [of b] by (simp add: div_less_iff_less_mult)
  then show ?thesis
    using hex_char_plain by (fastforce simp: hex_of_def)
qed

lemma to_dec_chars: "c \<in> set (to_dec n) \<Longrightarrow> 48 \<le> c \<and> c \<le> 57"
proof (induction n rule: to_dec.induct)
  case (1 n)
  have d: "48 \<le> 48 + (word_of_nat m :: byte) \<and> 48 + (word_of_nat m :: byte) \<le> 57" if "m < 10" for m
    using that by (simp add: word_le_nat_alt unat_word_ariths unat_of_nat)
  from 1 show ?case
    by (cases "n < 10") (auto simp: to_dec.simps [of n] d)
qed

text \<open>The value of a decimal number in a machine word.\<close>

definition dec_word :: "'a::len word \<Rightarrow> bytes \<Rightarrow> 'a word" where
  "dec_word = foldl (\<lambda>v c. if 48 \<le> c \<and> c \<le> 57 then v * 10 + (ucast c - 48) else v)"

lemma dec_word_to_dec: "dec_word (0 :: 'a::len word) (to_dec n) = word_of_nat n"
proof (induction n rule: to_dec.induct)
  case (1 n)
  have d: "48 \<le> 48 + (word_of_nat m :: byte)" "48 + (word_of_nat m :: byte) \<le> 57"
      "ucast (48 + (word_of_nat m :: byte)) - 48 = (word_of_nat m :: 'a word)" if "m < 10" for m
  proof -
    have u: "unat (48 + (word_of_nat m :: byte)) = 48 + m"
      using that by (simp add: unat_word_ariths unat_of_nat)
    then show "48 \<le> 48 + (word_of_nat m :: byte)" "48 + (word_of_nat m :: byte) \<le> 57"
      using that by (simp_all add: word_le_nat_alt)
    have "(ucast (48 + (word_of_nat m :: byte)) :: 'a word) = word_of_nat (48 + m)"
      by (simp only: of_nat_unat u flip: u)
    then show "ucast (48 + (word_of_nat m :: byte)) - 48 = (word_of_nat m :: 'a word)"
      by simp
  qed
  show ?case
  proof (cases "n < 10")
    case True
    then show ?thesis
      using d [of n] by (simp add: to_dec.simps [of n] dec_word_def)
  next
    case False
    then have "dec_word (0 :: 'a word) (to_dec n) = dec_word 0 (to_dec (n div 10)) * 10 + word_of_nat (n mod 10)"
      using d [of "n mod 10"] by (simp add: to_dec.simps [of n] dec_word_def)
    also have "\<dots> = word_of_nat (n div 10 * 10 + n mod 10)"
      unfolding 1 [OF False] by (simp only: of_nat_add of_nat_mult of_nat_numeral)
    finally show ?thesis
      by simp
  qed
qed

lemma cookie_time_to_dec: "n < 2 ^ 63 \<Longrightarrow> cookie_time (to_dec n) = int n"
  using dec_word_to_dec [where 'a = 64, of n] unfolding cookie_time_def dec_word_def [symmetric]
  by (simp add: signed_of_nat signed_take_bit_int_eq_self)

lemma time_point_secs_id: "0 \<le> ts \<Longrightarrow> ts < 9 * 10 ^ 9 \<Longrightarrow> time_point_secs ts = ts"
proof -
  assume ts: "0 \<le> ts" "ts < 9 * 10 ^ 9"
  then have "sint (word_of_int (ts * 10 ^ 9) :: 64 word) = ts * 10 ^ 9"
    by (simp only: signed_of_int of_int_eq_id id_apply) (intro signed_take_bit_int_eq_self; simp)
  with ts show ?thesis
    by (simp only: time_point_secs_def Let_def) (simp add: sgn_if)
qed

section \<open>Properties\<close>

text \<open>
  A browser that runs the challenge page gets in: the cookie the page sets is accepted from
  the same address until its time to live is over.
\<close>

theorem js_cookie_accepted:
  assumes "get_header req (lit ''Cookie'') = js_cookie cr js client_ip ts"
    and "0 \<le> ts" and "ts < 9 * 10 ^ 9" and "now_ts - ts \<le> cookie_ttl js"
  shows "is_verified cr now_ts js req client_ip"
proof -
  let ?n = "nat ts" and ?tok = "generate_token cr js client_ip ts"
  have hdr: "get_header req (lit ''Cookie'') = (cookie_name js @ lit ''='') @ to_dec ?n @ 58 # ?tok"
    using assms(1,2) by (simp add: js_cookie_def to_string_def lit_def)
  have tok: "59 \<notin> set ?tok"
    using hex_of_plain by (simp add: generate_token_def sha256_hex_def)
  have digits: "58 \<notin> set (to_dec ?n)" "59 \<notin> set (to_dec ?n)"
    using to_dec_chars [of _ ?n] by fastforce+
  have "takeWhile (\<lambda>c. c \<noteq> 59) (to_dec ?n @ 58 # ?tok) = to_dec ?n @ 58 # ?tok"
    using tok digits by (subst takeWhile_eq_all_conv) auto
  then have val: "cookie_value (get_header req (lit ''Cookie'')) (cookie_name js) = Some (to_dec ?n @ 58 # ?tok)"
    unfolding hdr cookie_value_def find_sub_here by (simp add: lit_def)
  have sep: "find_sub [58] (to_dec ?n @ 58 # ?tok) = Some (length (to_dec ?n))"
    using digits(1) by (rule find_sub_single_append)
  have "cookie_time (to_dec ?n) = ts" "time_point_secs ts = ts"
    using assms(2,3) cookie_time_to_dec [of ?n] time_point_secs_id by simp_all
  then show ?thesis
    using assms(4) by (simp add: is_verified_def val sep)
qed

definition toy_crypto :: crypto where
  "toy_crypto = \<lparr>MD5 = (\<lambda>d. take 16 d), SHA256 = (\<lambda>d. [of_nat (length d)])\<rparr>"

definition toy_js :: js_challenge where
  "toy_js = \<lparr>cookie_name = lit ''__js_verify'', cookie_ttl = 3600, page_title = lit ''t'', secret_key = lit ''s''\<rparr>"

theorem js_cookie_accepted_witness:
  "is_verified toy_crypto 1700000500 toy_js
     (empty_request\<lparr>req_headers := [(lit ''cookie'', js_cookie toy_crypto toy_js (lit ''10.0.0.1'') 1700000000)]\<rparr>) (lit ''10.0.0.1'')"
proof (rule js_cookie_accepted)
  have "lower (lit ''Cookie'') = lit ''cookie''" "lower (lit ''cookie'') = lit ''cookie''"
    by code_simp+
  then show "get_header (empty_request\<lparr>req_headers := [(lit ''cookie'', js_cookie toy_crypto toy_js (lit ''10.0.0.1'') 1700000000)]\<rparr>)
      (lit ''Cookie'') = js_cookie toy_crypto toy_js (lit ''10.0.0.1'') 1700000000"
    by (simp add: get_header_def)
qed (simp_all add: toy_js_def)

section \<open>Proof of work, bit by bit\<close>

text \<open>The bits of a digest, the first one first.\<close>

definition digest_bits :: "bytes \<Rightarrow> bool list" where
  "digest_bits ds = concat (map (\<lambda>b. map (bit b) [7, 6, 5, 4, 3, 2, 1, 0]) ds)"

definition nibble_bits :: "nat \<Rightarrow> bool list" where
  "nibble_bits n = map (bit n) [3, 2, 1, 0]"

definition nibbles :: "bytes \<Rightarrow> nat list" where
  "nibbles ds = concat (map (\<lambda>b. [unat b div 16, unat b mod 16]) ds)"

lemma nibbles_less: "n \<in> set (nibbles ds) \<Longrightarrow> n < 16"
proof -
  have "unat (b :: byte) div 16 < 16" for b
    using unat_byte_less [of b] by (simp add: div_less_iff_less_mult)
  then show "n \<in> set (nibbles ds) \<Longrightarrow> n < 16"
    by (auto simp: nibbles_def)
qed

lemma hex_of_nibbles: "hex_of ds = map hex_char (nibbles ds)"
  by (induction ds) (simp_all add: hex_of_def nibbles_def)

lemma digest_bits_nibbles: "digest_bits ds = concat (map nibble_bits (nibbles ds))"
proof (induction ds)
  case (Cons b ds)
  have hi: "bit (unat b div 16) k = bit b (k + 4)" for k
    using bit_drop_bit_eq [of 4 "unat b"] by (simp add: drop_bit_eq_div bit_unsigned_iff fun_eq_iff add.commute)
  have lo: "bit (unat b mod 16) k = bit b k" if "k < 4" for k
    using that bit_take_bit_iff [of 4 "unat b" k] by (simp add: take_bit_eq_mod bit_unsigned_iff)
  show ?case
    using Cons hi [of 3] hi [of 2] hi [of 1] hi [of 0] lo [of 3] lo [of 2] lo [of 1] lo [of 0]
    by (simp add: digest_bits_def nibbles_def nibble_bits_def)
qed (simp add: digest_bits_def nibbles_def)

lemma nibble_hex_char: "n < 16 \<Longrightarrow> nibble (hex_char n) = n \<and> (hex_char n = 48 \<longleftrightarrow> n = 0)"
proof -
  assume "n < 16"
  then have "unat (hex_char n) = (if n < 10 then 48 + n else 87 + n)"
    by (simp add: hex_char_def unat_word_ariths unat_of_nat)
  with \<open>n < 16\<close> show ?thesis
    by (auto simp: nibble_def word_le_nat_alt word_unat_eq_iff)
qed

lemma nibble_masks:
  assumes "n < 16" and "r < 4"
  shows "n AND (push_bit (4 - r) 15 AND 15) = 0 \<longleftrightarrow> list_all Not (take r (nibble_bits n))"
    and "n = 0 \<longleftrightarrow> list_all Not (nibble_bits n)"
proof -
  have "\<forall>n \<in> set [0..<16]. \<forall>r \<in> set [0..<4]. (n AND (push_bit (4 - r) 15 AND 15) = 0) = list_all Not (take r (nibble_bits n))"
    "\<forall>n \<in> set [0..<16]. (n = 0) = list_all Not (nibble_bits n)"
    by code_simp+
  with assms show "n AND (push_bit (4 - r) 15 AND 15) = 0 \<longleftrightarrow> list_all Not (take r (nibble_bits n))"
    "n = 0 \<longleftrightarrow> list_all Not (nibble_bits n)"
    by simp_all
qed

lemma leading_zero_nibbles:
  assumes "\<forall>n \<in> set ns. n < 16"
  shows "list_all Not (take d (concat (map nibble_bits ns))) \<longleftrightarrow>
     list_all (\<lambda>n. n = 0) (take (d div 4) ns)
     \<and> (0 < d mod 4 \<and> d div 4 < length ns \<longrightarrow> ns ! (d div 4) AND (push_bit (4 - d mod 4) 15 AND 15) = 0)"
  using assms
proof (induction ns arbitrary: d)
  case (Cons n ns)
  have len: "length (nibble_bits n) = 4"
    by (simp add: nibble_bits_def)
  show ?case
  proof (cases "d < 4")
    case True
    then show ?thesis
      using nibble_masks(1) [of n d] Cons.prems len by (cases "d = 0") simp_all
  next
    case False
    then obtain e where d: "d = e + 4"
      by (metis add.commute le_Suc_ex not_less)
    then show ?thesis
      using Cons.IH [of e] Cons.prems nibble_masks(2) [of n 0] len by (simp add: take_Cons')
  qed
qed simp

lemma leading_zeros_bits: "leading_zeros d (hex_of ds) \<longleftrightarrow> list_all Not (take d (digest_bits ds))"
proof -
  have "list_all (\<lambda>c. c = 48) (take q (map hex_char (nibbles ds))) = list_all (\<lambda>n. n = 0) (take q (nibbles ds))" for q
    using nibble_hex_char nibbles_less [of _ ds] by (auto simp: take_map list_all_iff dest: in_set_takeD)
  moreover have "nibble (map hex_char (nibbles ds) ! q) = nibbles ds ! q" if "q < length (nibbles ds)" for q
    using that nibble_hex_char nibbles_less nth_mem by (simp add: nth_map) blast
  ultimately show ?thesis
    using leading_zero_nibbles [of "nibbles ds" d] nibbles_less
    by (simp add: leading_zeros_def hex_of_nibbles digest_bits_nibbles Let_def)
qed

text \<open>
  A proof of work is accepted exactly if its challenge is outstanding and the first
  \<open>difficulty\<close> bits of the digest of nonce and solution are zero; it is used up by that, so
  the same challenge is refused afterwards, and no other challenge is touched.
\<close>

theorem verify_solution_exact:
  assumes "verify_solution cr cid sol p = (p', ok)"
  shows "(ok \<longleftrightarrow> (\<exists>ch. map_of (active_challenges p) cid = Some ch
                     \<and> list_all Not (take (difficulty p) (digest_bits (SHA256 cr (nonce ch @ sol))))))
       \<and> (ok \<longrightarrow> \<not> snd (verify_solution cr cid sol' p'))
       \<and> (\<forall>other. other \<noteq> cid \<longrightarrow> map_of (active_challenges p') other = map_of (active_challenges p) other)"
  using assms
  by (auto simp: verify_solution_def leading_zeros_bits sha256_hex_def split: option.splits if_splits)

definition toy_pow :: pow_challenge where
  "toy_pow = \<lparr>difficulty = 5, pow_secret = [], active_challenges = [(lit ''id'', \<lparr>nonce = [], ch_difficulty = 5, challenge_id = lit ''id''\<rparr>)]\<rparr>"

theorem verify_solution_exact_witness:
  "\<not> snd (verify_solution toy_crypto (lit ''id'') (lit ''ab'') (fst (verify_solution toy_crypto (lit ''id'') (lit ''xy'') toy_pow)))"
proof -
  have "verify_solution toy_crypto (lit ''id'') (lit ''xy'') toy_pow = (toy_pow\<lparr>active_challenges := []\<rparr>, True)"
    by code_simp
  from verify_solution_exact [OF this, of "lit ''ab''"] this show ?thesis
    by simp
qed

text \<open>
  The solver in the challenge page stops too early when the difficulty is not a multiple of
  four: with the default difficulty of 18 the page takes a digest that starts with four zero
  digits for a solution, but the server also wants the next two bits to be zero.
\<close>

theorem page_solution_refused:
  "\<exists>cr ch sol. ch_difficulty ch = 18 \<and> page_accepts cr ch sol
     \<and> \<not> snd (verify_solution cr (challenge_id ch) sol
              \<lparr>difficulty = 18, pow_secret = [], active_challenges = [(challenge_id ch, ch)]\<rparr>)"
proof -
  let ?cr = "\<lparr>MD5 = (\<lambda>d. []), SHA256 = (\<lambda>d. [0, 0, 0xF0])\<rparr>" and ?ch = "\<lparr>nonce = [], ch_difficulty = 18, challenge_id = []\<rparr>"
  have "page_accepts ?cr ?ch []"
    "\<not> snd (verify_solution ?cr [] [] \<lparr>difficulty = 18, pow_secret = [], active_challenges = [([], ?ch)]\<rparr>)"
    by code_simp+
  then show ?thesis
    by (intro exI [of _ ?cr] exI [of _ ?ch] exI [of _ "[]"]) simp
qed

text \<open>
  The tarpit does not slow its victim: on a socket that accepts data, \<open>poll\<close> reports it at
  once and the loop sends the whole body without any delay, whatever \<open>bytes_per_second\<close> is.
\<close>

theorem tarpit_does_not_delay:
  assumes "\<And>i. poll i = Poll_writable 0 True" and "0 \<le> max_duration t"
  shows "drip_feed t poll data now = (data, now)"
proof -
  have "drip_loop d ms poll i data now = (data, now)" if "now \<le> d" for d ms i
    using that by (induction data arbitrary: i) (simp_all add: assms(1))
  with assms(2) show ?thesis
    by (simp add: drip_feed_def)
qed

theorem tarpit_does_not_delay_witness:
  "drip_feed \<lparr>bytes_per_second = 1, max_duration = 300, tarpit_body = lit ''slow''\<rparr> (\<lambda>i. Poll_writable 0 True) (lit ''slow'') 0
   = (lit ''slow'', 0)"
  by (rule tarpit_does_not_delay) simp_all

section \<open>Addresses\<close>

lemma parse_ip_digits: "\<forall>c \<in> set ds. 48 \<le> c \<and> c \<le> 57 \<Longrightarrow> parse_ip (ip, oct, s) (ds @ rest) = parse_ip (ip, dec_word oct ds, s) rest"
  by (induction ds arbitrary: oct) (auto simp: dec_word_def)

lemma parse_ip_octet: "parse_ip (ip, 0, s) (to_dec n @ rest) = parse_ip (ip, word_of_nat n, s) rest"
  using parse_ip_digits [of "to_dec n" ip 0 s rest] to_dec_chars by (simp add: dec_word_to_dec)

lemma unat_push_octet:
  assumes "n < 256" and "unat (w :: u32) < 2 ^ 24"
  shows "unat (push_bit 8 w OR word_of_nat n) = unat w * 256 + n"
proof -
  have "(word_of_nat n :: u32) = ucast (word_of_nat n :: byte)"
    using assms(1) by (simp add: word_unat_eq_iff unsigned_ucast_eq take_bit_eq_mod unat_of_nat)
  then show ?thesis
    using unat_push_or [of w "word_of_nat n"] assms by (simp add: unat_of_nat)
qed

text \<open>
  The address parser of the country filter reads a dotted quad as the big-endian number of
  its four octets.
\<close>

theorem ip_number_dotted:
  assumes "a < 256" and "b < 256" and "c < 256" and "d < 256"
  shows "unat (ip_number (to_dec a @ lit ''.'' @ to_dec b @ lit ''.'' @ to_dec c @ lit ''.'' @ to_dec d))
         = ((a * 256 + b) * 256 + c) * 256 + d"
proof -
  let ?w = "\<lambda>n. word_of_nat n :: u32"
  let ?ab = "push_bit 8 (?w a) OR ?w b"
  let ?abc = "push_bit 8 ?ab OR ?w c"
  have "ip_number (to_dec a @ lit ''.'' @ to_dec b @ lit ''.'' @ to_dec c @ lit ''.'' @ to_dec d)
      = ((push_bit 24 (?w a) OR push_bit 16 (?w b)) OR push_bit 8 (?w c)) OR ?w d"
    using parse_ip_octet [where rest = "[]"] by (simp add: ip_number_def parse_ip_octet lit_def)
  also have "\<dots> = push_bit 8 ?abc OR ?w d"
    by (simp add: push_bit_or)
  finally have n: "ip_number (to_dec a @ lit ''.'' @ to_dec b @ lit ''.'' @ to_dec c @ lit ''.'' @ to_dec d)
      = push_bit 8 ?abc OR ?w d" .
  have a: "unat (?w a) = a"
    using assms(1) by (simp add: unat_of_nat)
  have ab: "unat ?ab = a * 256 + b"
    using unat_push_octet [of b "?w a"] assms a by simp
  then have abc: "unat ?abc = (a * 256 + b) * 256 + c"
    using unat_push_octet [of c ?ab] assms by simp
  then show ?thesis
    using unat_push_octet [of d ?abc] assms unfolding n by simp
qed

theorem ip_number_dotted_witness: "unat (ip_number (lit ''10.0.0.1'')) = 167772161"
proof -
  have "to_dec 10 @ lit ''.'' @ to_dec 0 @ lit ''.'' @ to_dec 0 @ lit ''.'' @ to_dec 1 = lit ''10.0.0.1''"
    by code_simp
  then show ?thesis
    using ip_number_dotted [of 10 0 0 1] by simp
qed

section \<open>The inspection as a whole\<close>

lemma verdict_fields [simp]:
  "allowed bot_verdict_init" "\<not> allowed (deny w r)" "bot_reason (deny w r) = w" "bot_response (deny w r) = r"
  by (simp_all add: bot_verdict_init_def deny_def)

lemma response_status [simp]:
  "status_code (make_error code msg) = code" "status_code (tarpit_response t) = 200" "status_code rate_limited_response = 429"
  "status_code (js_generate_challenge cr ts js ip) = 503" "status_code (generate_challenge_page ch) = 503"
  by (simp_all add: make_error_def tarpit_response_def rate_limited_response_def js_generate_challenge_def
      generate_challenge_page_def Let_def)

lemma lit_Nil [simp]: "lit s = [] \<longleftrightarrow> s = []"
  by (simp add: lit_def)

lemma check_pow_exact:
  "(allowed (snd (check_pow env e req client_ip)) \<longleftrightarrow>
      (\<exists>cid sol. pow_solution req = Some (cid, sol) \<and> snd (verify_solution (env_crypto env) cid sol (eng_pow e))))
   \<and> (\<not> allowed (snd (check_pow env e req client_ip)) \<longrightarrow>
        bot_reason (snd (check_pow env e req client_ip)) \<noteq> []
        \<and> status_code (bot_response (snd (check_pow env e req client_ip))) = 503)"
  by (auto simp: check_pow_def case_prod_unfold Let_def split: option.splits)

text \<open>
  A request is allowed exactly if every enabled check passes, and a refusal always has a
  reason and a response that says so (403, 429, 503, or the decoy 200 of the tarpit).
\<close>

theorem bot_inspect_exact:
  assumes "bot_inspect env e req client_ip ssl = (e', v)" and "conf = eng_config e"
  shows "(allowed v \<longleftrightarrow> \<not> eng_enabled conf \<or>
           ((geoip_enabled conf \<longrightarrow> \<not> geoip_blocked (eng_geoip e) client_ip)
            \<and> (ja3_enabled conf \<and> ssl \<noteq> None \<longrightarrow>
                 \<not> is_known_bot (extract_ja3 (env_crypto env) ssl client_ip)
                 \<and> \<not> fingerprint_blocked (blocked_fingerprints e) (ja3_hash (extract_ja3 (env_crypto env) ssl client_ip)))
            \<and> (rate_limit_enabled conf \<longrightarrow> snd (limiter_allow (env_now env) client_ip (rate_limiter e)))
            \<and> (js_challenge_enabled conf \<longrightarrow> is_verified (env_crypto env) (env_secs env) (eng_js e) req client_ip)
            \<and> (pow_enabled conf \<longrightarrow>
                 (\<exists>cid sol. pow_solution req = Some (cid, sol) \<and> snd (verify_solution (env_crypto env) cid sol (eng_pow e))))))
       \<and> (\<not> allowed v \<longrightarrow> bot_reason v \<noteq> [] \<and> status_code (bot_response v) \<in> {403, 429, 503} \<union> (if tarpitted v then {200} else {}))"
proof -
  obtain l ok where l: "(if rate_limit_enabled conf then limiter_allow (env_now env) client_ip (rate_limiter e)
      else (rate_limiter e, True)) = (l, ok)"
    by fastforce
  have ok: "ok \<longleftrightarrow> (rate_limit_enabled conf \<longrightarrow> snd (limiter_allow (env_now env) client_ip (rate_limiter e)))"
    using l by (cases "rate_limit_enabled conf") auto
  note pow = check_pow_exact [of env "e\<lparr>rate_limiter := l\<rparr>" req client_ip]
  let ?geo = "geoip_enabled conf \<and> geoip_blocked (eng_geoip e) client_ip"
  let ?fp = "extract_ja3 (env_crypto env) ssl client_ip"
  let ?bot = "ja3_enabled conf \<and> ssl \<noteq> None \<and> (is_known_bot ?fp \<or> fingerprint_blocked (blocked_fingerprints e) (ja3_hash ?fp))"
  let ?js = "js_challenge_enabled conf \<and> \<not> is_verified (env_crypto env) (env_secs env) (eng_js e) req client_ip"
  have run: "bot_inspect env e req client_ip ssl =
      (if \<not> eng_enabled conf then (e, bot_verdict_init)
       else if ?geo then (e, deny (lit ''Blocked by GeoIP policy'') (make_error 403 (lit ''Access denied'')))
       else if ?bot then (if tarpit_enabled conf
               then (e, (deny (lit ''Known bot fingerprint (tarpitting)'') (tarpit_response (eng_tarpit e)))\<lparr>tarpitted := True\<rparr>)
               else (e, deny (lit ''Known bot fingerprint blocked'') (make_error 403 (lit ''Access denied''))))
       else if \<not> ok then (e\<lparr>rate_limiter := l\<rparr>, deny (lit ''Rate limit exceeded'') rate_limited_response)
       else if ?js then (e\<lparr>rate_limiter := l\<rparr>, (deny (lit ''JS challenge required'')
                (js_generate_challenge (env_crypto env) (env_secs env) (eng_js e) client_ip))\<lparr>challenged := True\<rparr>)
       else if pow_enabled conf then check_pow env (e\<lparr>rate_limiter := l\<rparr>) req client_ip
       else (e\<lparr>rate_limiter := l\<rparr>, bot_verdict_init))"
    unfolding bot_inspect_def Let_def assms(2) [symmetric] l by (simp split del: if_split cong: if_cong)
  have v: "v = snd (bot_inspect env e req client_ip ssl)"
    using assms(1) by simp
  consider "\<not> eng_enabled conf" | "eng_enabled conf" ?geo | "eng_enabled conf" "\<not> ?geo" ?bot
    | "eng_enabled conf" "\<not> ?geo" "\<not> ?bot" "\<not> ok" | "eng_enabled conf" "\<not> ?geo" "\<not> ?bot" ok ?js
    | "eng_enabled conf" "\<not> ?geo" "\<not> ?bot" ok "\<not> ?js"
    by blast
  then show ?thesis
  proof cases
    case 6
    show ?thesis
      unfolding v run using 6 pow ok by (cases "pow_enabled conf") auto
  qed (unfold v run, use ok in auto)
qed

definition toy_engine :: engine where
  "toy_engine =
     \<lparr>eng_config = \<lparr>eng_enabled = True, ja3_enabled = True, rate_limit_enabled = True, js_challenge_enabled = False,
        pow_enabled = False, tarpit_enabled = True, geoip_enabled = False\<rparr>,
      blocked_fingerprints = [], rate_limiter = limiter_init small_limit, eng_js = toy_js, eng_pow = toy_pow,
      eng_tarpit = \<lparr>bytes_per_second = 1, max_duration = 300, tarpit_body = []\<rparr>,
      eng_geoip = \<lparr>blocked_countries = [], ranges = []\<rparr>\<rparr>"

definition toy_env :: bot_env where
  "toy_env = \<lparr>env_now = 0, env_secs = 0, env_crypto = toy_crypto, env_random = []\<rparr>"

theorem bot_inspect_exact_witness: "allowed (snd (bot_inspect toy_env toy_engine empty_request (lit ''c'') None))"
proof -
  obtain e' v where run: "bot_inspect toy_env toy_engine empty_request (lit ''c'') None = (e', v)"
    by fastforce
  have "snd (limiter_allow (env_now toy_env) (lit ''c'') (rate_limiter toy_engine))"
    by (simp add: toy_engine_def toy_env_def limiter_allow_def limiter_init_def)
  then show ?thesis
    using bot_inspect_exact [OF run refl] unfolding run by (simp add: toy_engine_def)
qed

end
