(* ===== verification/Tracing.thy ===== *)
theory Tracing
  imports Http_Message Wire
begin

text \<open>
  Distributed tracing (\<open>src/src/tracing.cpp\<close>, \<open>src/include/tracing.hpp\<close>): the \<open>traceparent\<close>
  header, its propagation through requests and responses, and spans.  A random generator is the
  sequence of the numbers it still has to give; the clock is an argument.

  What is shown: printing and parsing a context are inverse to each other (up to the case of
  the digits), and a request that carries a context continues its trace.
\<close>

section \<open>Hexadecimal digits\<close>

definition nibble_char :: "byte \<Rightarrow> byte" where
  "nibble_char nibble = (if nibble < 10 then 48 + nibble else 97 + nibble - 10)"

text \<open>The \<open>-1\<close> of the code is \<open>None\<close>.\<close>

definition hex_val :: "byte \<Rightarrow> byte option" where
  "hex_val c =
     (if 48 \<le> c \<and> c \<le> 57 then Some (c - 48)
      else if 97 \<le> c \<and> c \<le> 102 then Some (10 + c - 97)
      else if 65 \<le> c \<and> c \<le> 70 then Some (10 + c - 65)
      else None)"

fun to_hex :: "bytes \<Rightarrow> bytes" where
  "to_hex [] = []"
| "to_hex (b # data) = nibble_char (drop_bit 4 b) # nibble_char (b AND 0x0F) # to_hex data"

definition hex_byte :: "byte \<Rightarrow> byte \<Rightarrow> byte option" where
  "hex_byte c d =
     (case (hex_val c, hex_val d) of (Some h, Some l) \<Rightarrow> Some (push_bit 4 h OR l) | _ \<Rightarrow> None)"

fun from_hex :: "nat \<Rightarrow> bytes \<Rightarrow> bytes option" where
  "from_hex 0 [] = Some []"
| "from_hex (Suc n) (c # d # hex) =
     (case hex_byte c d of
        None \<Rightarrow> None
      | Some b \<Rightarrow> map_option (\<lambda>out. b # out) (from_hex n hex))"
| "from_hex _ _ = None"

section \<open>Trace contexts\<close>

record trace_context =
  tc_version :: byte
  trace_id :: bytes
  parent_id :: bytes
  tc_flags :: byte

definition sampled :: "trace_context \<Rightarrow> bool" where
  "sampled ctx \<longleftrightarrow> tc_flags ctx AND 1 \<noteq> 0"

definition all_zero :: "bytes \<Rightarrow> bool" where
  "all_zero bs \<longleftrightarrow> list_all (\<lambda>b. b = 0) bs"

definition trace_parse :: "bytes \<Rightarrow> trace_context option" where
  "trace_parse traceparent =
     (if length traceparent < 55 then None
      else case hex_byte (traceparent ! 0) (traceparent ! 1) of
        None \<Rightarrow> None
      | Some ver \<Rightarrow>
          if traceparent ! 2 \<noteq> 45 then None
          else case from_hex 16 (take 32 (drop 3 traceparent)) of
            None \<Rightarrow> None
          | Some tid \<Rightarrow>
              if traceparent ! 35 \<noteq> 45 then None
              else case from_hex 8 (take 16 (drop 36 traceparent)) of
                None \<Rightarrow> None
              | Some pid \<Rightarrow>
                  if traceparent ! 52 \<noteq> 45 then None
                  else case hex_byte (traceparent ! 53) (traceparent ! 54) of
                    None \<Rightarrow> None
                  | Some fl \<Rightarrow>
                      if all_zero tid then None
                      else if all_zero pid then None
                      else Some \<lparr>tc_version = ver, trace_id = tid, parent_id = pid, tc_flags = fl\<rparr>)"

definition trace_serialize :: "trace_context \<Rightarrow> bytes" where
  "trace_serialize ctx =
     to_hex [tc_version ctx] @ 45 # to_hex (trace_id ctx) @ 45 # to_hex (parent_id ctx) @ 45 # to_hex [tc_flags ctx]"

text \<open>The bytes of a number as they are in memory, lowest first, and a buffer filled with them.\<close>

type_synonym draws = "nat \<Rightarrow> u64"

definition le_bytes :: "u64 \<Rightarrow> bytes" where
  "le_bytes v = rev (nat_bytes 8 (unat v))"

function gen_bytes :: "draws \<Rightarrow> nat \<Rightarrow> bytes" where
  "gen_bytes rng n =
     (if n = 0 then [] else take (if n < 8 then n else 8) (le_bytes (rng 0)) @ gen_bytes (\<lambda>i. rng (i + 1)) (n - 8))"
  by pat_completeness auto
termination
  by (relation "measure snd") auto

declare gen_bytes.simps [simp del]

definition trace_generate :: "draws \<Rightarrow> trace_context" where
  "trace_generate rng =
     \<lparr>tc_version = 0, trace_id = gen_bytes rng 16, parent_id = gen_bytes (\<lambda>i. rng (i + 2)) 8, tc_flags = 1\<rparr>"

definition create_child :: "draws \<Rightarrow> trace_context \<Rightarrow> trace_context" where
  "create_child rng ctx = ctx\<lparr>parent_id := le_bytes (rng 0)\<rparr>"

section \<open>The tracer\<close>

text \<open>The two functions that draw numbers have a generator of their own each.\<close>

definition extract_or_create :: "draws \<Rightarrow> draws \<Rightarrow> http_request \<Rightarrow> trace_context" where
  "extract_or_create child_rng new_rng req =
     (let tp_header = get_header req (lit ''traceparent'')
      in if tp_header \<noteq> [] then
           (case trace_parse tp_header of
              Some ctx \<Rightarrow> create_child child_rng ctx
            | None \<Rightarrow> trace_generate new_rng)
         else trace_generate new_rng)"

definition inject_request :: "trace_context \<Rightarrow> http_request \<Rightarrow> http_request" where
  "inject_request ctx req =
     req\<lparr>req_headers := hput (lit ''traceparent'') (trace_serialize ctx) (req_headers req)\<rparr>"

definition inject_response :: "trace_context \<Rightarrow> http_response \<Rightarrow> http_response" where
  "inject_response ctx resp =
     resp\<lparr>resp_headers := hput (lit ''traceparent'') (trace_serialize ctx) (resp_headers resp)\<rparr>"

record span =
  span_context :: trace_context
  operation_name :: bytes
  start_time :: int
  end_time :: int
  span_http_method :: bytes
  span_http_url :: bytes
  http_status_code :: int
  peer_address :: bytes

definition start_span :: "draws \<Rightarrow> int \<Rightarrow> bytes \<Rightarrow> trace_context \<Rightarrow> span" where
  "start_span rng now operation parent =
     \<lparr>span_context = create_child rng parent, operation_name = operation, start_time = now, end_time = 0,
      span_http_method = [], span_http_url = [], http_status_code = 0, peer_address = []\<rparr>"

definition finish_span :: "int \<Rightarrow> span \<Rightarrow> span" where
  "finish_span now sp = sp\<lparr>end_time := now\<rparr>"

section \<open>Digits are read back\<close>

lemma hex_val_facts:
  "\<forall>n \<in> set [0..<16]. hex_val (nibble_char (of_nat n)) = Some (of_nat n)"
  "\<forall>n \<in> set [0..<256]. case hex_val (of_nat n) of None \<Rightarrow> True
      | Some v \<Rightarrow> v < 16 \<and> nibble_char v = tolower (of_nat n)"
  by code_simp+

lemma hex_val_nibble_char: "v < 16 \<Longrightarrow> hex_val (nibble_char v) = Some v"
  using bspec [OF hex_val_facts(1), of "unat v"] by (simp add: word_less_nat_alt)


lemma nibbles_join:
  fixes b :: byte
  shows "drop_bit 4 b < 16" "b AND 0x0F < 16" "push_bit 4 (drop_bit 4 b) OR (b AND 0x0F) = b"
proof -
  have m: "(0x0F :: byte) = mask 4"
    by (simp add: mask_numeral)
  show "push_bit 4 (drop_bit 4 b) OR (b AND 0x0F) = b"
    unfolding m by (rule bit_word_eqI) (auto simp: bit_simps)
  show "drop_bit 4 b < 16"
    unfolding word_less_nat_alt unsigned_drop_bit_eq
    using unat_byte_less [of b] by (simp add: drop_bit_eq_div take_bit_eq_mod)
  show "b AND 0x0F < 16"
    unfolding m take_bit_eq_mask [symmetric] word_less_nat_alt unsigned_take_bit_eq
    by (simp add: take_bit_eq_mod)
qed


lemma hex_byte_char: "hex_byte (nibble_char (drop_bit 4 b)) (nibble_char (b AND 0x0F)) = Some b"
  by (simp only: hex_byte_def hex_val_nibble_char nibbles_join prod.case option.case)


lemma length_to_hex [simp]: "length (to_hex bs) = 2 * length bs"
  by (induction bs) simp_all

lemma from_hex_to_hex [simp]: "from_hex (length bs) (to_hex bs) = Some bs"
  by (induction bs) (simp_all add: hex_byte_char)


section \<open>Contexts are read back\<close>

definition trace_wf :: "trace_context \<Rightarrow> bool" where
  "trace_wf ctx \<longleftrightarrow> length (trace_id ctx) = 16 \<and> length (parent_id ctx) = 8
     \<and> \<not> all_zero (trace_id ctx) \<and> \<not> all_zero (parent_id ctx)"

lemma to_hex_single: "to_hex [b] = [nibble_char (drop_bit 4 b), nibble_char (b AND 0x0F)]"
  by simp

lemma trace_parse_parts:
  assumes "length t = 32" and "length p = 16"
  shows "trace_parse (v1 # v2 # 45 # t @ 45 # p @ 45 # f1 # f2 # rest) =
    (case (hex_byte v1 v2, from_hex 16 t, from_hex 8 p, hex_byte f1 f2) of
       (Some ver, Some tid, Some pid, Some fl) \<Rightarrow>
         if all_zero tid \<or> all_zero pid then None
         else Some \<lparr>tc_version = ver, trace_id = tid, parent_id = pid, tc_flags = fl\<rparr>
     | _ \<Rightarrow> None)"
proof -
  define s where "s = v1 # v2 # 45 # t @ 45 # p @ 45 # f1 # f2 # rest"
  have nths: "s ! 0 = v1" "s ! 1 = v2" "s ! 2 = 45" "s ! 35 = 45" "s ! 52 = 45" "s ! 53 = f1" "s ! 54 = f2"
    using assms by (simp_all add: s_def nth_append nth_Cons')
  have cuts: "take 32 (drop 3 s) = t" "take 16 (drop 36 s) = p" "(length s < 55) = False"
    using assms by (simp_all add: s_def drop_Cons')
  show ?thesis
    unfolding s_def [symmetric] trace_parse_def nths cuts
    by (simp split: option.splits)
qed

lemma trace_parse_serialize:
  assumes "trace_wf ctx"
  shows "trace_parse (trace_serialize ctx @ rest) = Some ctx"
proof -
  have "from_hex 16 (to_hex (trace_id ctx)) = Some (trace_id ctx)"
    "from_hex 8 (to_hex (parent_id ctx)) = Some (parent_id ctx)"
    using assms from_hex_to_hex unfolding trace_wf_def by metis+
  with assms show ?thesis
    unfolding trace_serialize_def to_hex_single append_assoc append_Cons append_Nil
    by (subst trace_parse_parts) (simp_all add: trace_wf_def hex_byte_char)
qed

interpretation traceparent: codec trace_serialize
    "\<lambda>s. map_option (\<lambda>ctx. (ctx, drop 55 s)) (trace_parse s)" trace_wf
  by unfold_locales (simp add: trace_parse_serialize, simp add: trace_wf_def trace_serialize_def)



section \<open>Propagation\<close>

lemma length_le_bytes [simp]: "length (le_bytes v) = 8"
  by (simp add: le_bytes_def)

lemma length_gen_bytes: "length (gen_bytes rng n) = n"
proof (induction rng n rule: gen_bytes.induct)
  case (1 rng n)
  then show ?case
    by (subst gen_bytes.simps) simp
qed

definition one_traceparent :: "http_request \<Rightarrow> bool" where
  "one_traceparent req \<longleftrightarrow>
     (\<forall>(k, v) \<in> set (req_headers req). lower k = lit ''traceparent'' \<longrightarrow> k = lit ''traceparent'')"

lemma lookup_hput_same:
  assumes "\<forall>(k', v') \<in> set hs. lower k' = n \<longrightarrow> k' = n" and "lower n = n"
  shows "lookup_header n (hput n v hs) = v"
  using assms by (induction n v hs rule: hput.induct) (auto simp: assms(2))

lemma lower_traceparent: "lower (lit ''traceparent'') = lit ''traceparent''"
  by code_simp

lemma get_injected:
  "one_traceparent req \<Longrightarrow> get_header (inject_request ctx req) (lit ''traceparent'') = trace_serialize ctx"
  unfolding get_header_def inject_request_def lower_traceparent
  by (simp add: one_traceparent_def lookup_hput_same lower_traceparent)

text \<open>
  A trace goes on through a proxied request: the server that receives a request into which a
  context was injected works under the same trace, with the same version and flags and a
  span of its own, and what it injects in turn is parsed by the next server.
\<close>

theorem trace_continues:
  assumes "trace_wf ctx" and "one_traceparent req" and "rng 0 \<noteq> 0"
  shows "extract_or_create rng new (inject_request ctx req) = ctx\<lparr>parent_id := le_bytes (rng 0)\<rparr>
    \<and> trace_wf (extract_or_create rng new (inject_request ctx req))"
proof -
  have "trace_serialize ctx \<noteq> []"
    by (simp add: trace_serialize_def)
  then have e: "extract_or_create rng new (inject_request ctx req) = ctx\<lparr>parent_id := le_bytes (rng 0)\<rparr>"
    using trace_parse_serialize [OF assms(1), of "[]"]
    by (simp add: extract_or_create_def get_injected [OF assms(2)] create_child_def)
  have "\<not> all_zero (le_bytes (rng 0))"
  proof
    assume "all_zero (le_bytes (rng 0))"
    then have z: "nat_bytes 8 (unat (rng 0)) = replicate 8 0"
      by (simp add: all_zero_def le_bytes_def list_all_iff replicate_eqI)
    have "be_nat (nat_bytes 8 (unat (rng 0))) = unat (rng 0)"
      using unsigned_less [of "rng 0"] by (intro be_nat_nat_bytes) simp
    then have "unat (rng 0) = 0"
      unfolding z by (simp add: be_nat_def eval_nat_numeral)
    with assms(3) show False by (simp add: word_unat_eq_iff)
  qed
  with e assms(1) show ?thesis
    by (simp add: trace_wf_def)
qed

text \<open>A header of the client that is spelled in another case is not replaced: the request then has both.\<close>

theorem inject_keeps_other_case:
  "map fst (req_headers (inject_request ctx (empty_request\<lparr>req_headers := [(lit ''Traceparent'', v)]\<rparr>)))
     = [lit ''Traceparent'', lit ''traceparent'']"
  by (simp add: inject_request_def) (simp add: lit_def)

text \<open>A fresh context is sampled and has identifiers of the right length.\<close>

lemma trace_generate_shape:
  "sampled (trace_generate rng) \<and> length (trace_id (trace_generate rng)) = 16
   \<and> length (parent_id (trace_generate rng)) = 8"
  by (simp add: sampled_def trace_generate_def length_gen_bytes)

definition sample_context :: trace_context where
  "sample_context = \<lparr>tc_version = 0, trace_id = replicate 15 0 @ [7], parent_id = replicate 7 0 @ [9], tc_flags = 1\<rparr>"

lemma sample_context_wf: "trace_wf sample_context"
  by code_simp


theorem trace_continues_witness:
  "trace_id (extract_or_create (\<lambda>_. 5) (\<lambda>_. 0) (inject_request sample_context empty_request)) = trace_id sample_context"
proof -
  have "one_traceparent empty_request"
    by (simp add: one_traceparent_def empty_request_def)
  from trace_continues [OF sample_context_wf this, of "\<lambda>_. 5" "\<lambda>_. 0"] show ?thesis by simp
qed

end
