(* ===== verification/Http_Parser.thy ===== *)
theory Http_Parser
  imports Http_Message
begin

text \<open>
  The incremental HTTP/1.1 parser (\<open>class HttpParser\<close>, \<open>src/http_parser.cpp\<close>): its state
  as a record, one definition per method, the two loops of \<open>feed\<close> (header lines, chunks)
  as recursive functions that are proved to end.

  Shown: what a parsed request is (round trip with a printed request), what the body of a
  chunked request is, the request-smuggling protections as invariants of every reachable
  parser, and how the result depends on the segmentation of the input.
\<close>

section \<open>State\<close>

datatype parse_state = INCOMPLETE | COMPLETE | ERROR

record http_parser =
  p_request :: http_request
  p_buffer :: bytes
  p_error :: bytes
  p_headers_done :: bool
  p_content_length :: nat
  p_has_content_length :: bool
  p_has_te_chunked :: bool
  p_use_chunked :: bool
  p_body_received :: nat
  p_body_start :: nat
  p_cl_count :: nat
  p_chunk_done :: bool
  p_chunk_remaining :: nat
  p_reading_size :: bool

text \<open>A fresh parser, and what \<open>reset\<close> leaves.\<close>

definition init_parser :: http_parser where
  "init_parser =
     \<lparr>p_request = empty_request, p_buffer = [], p_error = [], p_headers_done = False,
      p_content_length = 0, p_has_content_length = False, p_has_te_chunked = False,
      p_use_chunked = False, p_body_received = 0, p_body_start = 0, p_cl_count = 0,
      p_chunk_done = False, p_chunk_remaining = 0, p_reading_size = True\<rparr>"

definition reset :: "http_parser \<Rightarrow> http_parser" where
  "reset p =
     p\<lparr>p_request := empty_request, p_buffer := [], p_error := [], p_headers_done := False,
       p_content_length := 0, p_has_content_length := False, p_has_te_chunked := False,
       p_use_chunked := False, p_body_received := 0, p_body_start := 0, p_cl_count := 0,
       p_chunk_done := False, p_chunk_remaining := 0, p_reading_size := True\<rparr>"

section \<open>The request line\<close>

definition method_of :: "bytes \<Rightarrow> http_method" where
  "method_of m =
     (if m = lit ''GET'' then GET
      else if m = lit ''POST'' then POST
      else if m = lit ''PUT'' then PUT
      else if m = lit ''DELETE'' then DELETE
      else if m = lit ''HEAD'' then HEAD
      else if m = lit ''OPTIONS'' then OPTIONS
      else if m = lit ''PATCH'' then PATCH
      else UNKNOWN)"

definition parse_request_line :: "http_parser \<Rightarrow> bytes \<Rightarrow> http_parser \<times> bool" where
  "parse_request_line p line =
     (if 0 \<in> set line then (p\<lparr>p_error := lit ''Null byte in request line''\<rparr>, False)
      else case find_sub [32] line of
        None \<Rightarrow> (p\<lparr>p_error := lit ''Invalid request line: no method''\<rparr>, False)
      | Some sp1 \<Rightarrow>
          let m = take sp1 line;
              p = p\<lparr>p_request := (p_request p)\<lparr>method_str := m, req_method := method_of m\<rparr>\<rparr>;
              rest = drop (sp1 + 1) line
          in case find_sub [32] rest of
               None \<Rightarrow> (p\<lparr>p_error := lit ''Invalid request line: no URI''\<rparr>, False)
             | Some sp2 \<Rightarrow>
                 let v = drop (sp2 + 1) rest;
                     p = p\<lparr>p_request := (p_request p)\<lparr>uri := take sp2 rest, version := v\<rparr>\<rparr>
                 in if v \<noteq> lit ''HTTP/1.0'' \<and> v \<noteq> lit ''HTTP/1.1''
                    then (p\<lparr>p_error := lit ''Unsupported HTTP version: '' @ v\<rparr>, False)
                    else (p, True))"

section \<open>Header lines\<close>

text \<open>
  \<open>find_first_not_of\<close> and \<open>find_last_not_of\<close> with the blank and the tab: a value of
  whitespace only is left as it is.
\<close>

definition is_ws :: "byte \<Rightarrow> bool" where
  "is_ws c = (c = 32 \<or> c = 9)"

definition trim_value :: "bytes \<Rightarrow> bytes" where
  "trim_value v =
     (let v1 = (if \<forall>c \<in> set v. is_ws c then v else dropWhile is_ws v)
      in if \<forall>c \<in> set v1. is_ws c then v1 else rev (dropWhile is_ws (rev v1)))"

text \<open>The part of \<open>parse_header_line\<close> that tracks Content-Length, and the one for Transfer-Encoding.\<close>

definition track_content_length :: "http_parser \<Rightarrow> bytes \<Rightarrow> bytes \<Rightarrow> http_parser \<times> bool" where
  "track_content_length p lower_name value =
     (if lower_name = lit ''content-length'' then
        let p = p\<lparr>p_cl_count := p_cl_count p + 1\<rparr>
        in if 1 < p_cl_count p
           then (p\<lparr>p_error := lit ''Duplicate Content-Length header (request smuggling attempt)''\<rparr>,
                 False)
           else let p = p\<lparr>p_has_content_length := True\<rparr>
                in case from_chars 10 value of
                     None \<Rightarrow> (p\<lparr>p_error := lit ''Invalid Content-Length value''\<rparr>, False)
                   | Some n \<Rightarrow> (p\<lparr>p_content_length := n\<rparr>, True)
      else (p, True))"

definition track_transfer_encoding :: "http_parser \<Rightarrow> bytes \<Rightarrow> bytes \<Rightarrow> http_parser" where
  "track_transfer_encoding p lower_name value =
     (if lower_name = lit ''transfer-encoding'' \<and> find_sub (lit ''chunked'') (lower value) \<noteq> None
      then p\<lparr>p_has_te_chunked := True\<rparr> else p)"

definition store_header :: "http_parser \<Rightarrow> bytes \<Rightarrow> bytes \<Rightarrow> http_parser" where
  "store_header p name value =
     p\<lparr>p_request := (p_request p)\<lparr>req_headers := hput name value (req_headers (p_request p))\<rparr>\<rparr>"

definition parse_header_line :: "http_parser \<Rightarrow> bytes \<Rightarrow> http_parser \<times> bool" where
  "parse_header_line p line =
     (if 0 \<in> set line then (p\<lparr>p_error := lit ''Null byte in header''\<rparr>, False)
      else case find_sub [58] line of
        None \<Rightarrow> (p\<lparr>p_error := lit ''Invalid header line''\<rparr>, False)
      | Some colon \<Rightarrow>
          let name = take colon line; value0 = drop (colon + 1) line
          in if 32 \<in> set name \<or> 9 \<in> set name
             then (p\<lparr>p_error := lit ''Space in header name (request smuggling vector)''\<rparr>, False)
             else let value = trim_value value0;
                      (p, ok) = track_content_length p (lower name) value
                  in if ok
                     then (store_header (track_transfer_encoding p (lower name) value) name value, True)
                     else (p, False))"

text \<open>The loop over the header lines: \<open>remaining\<close> is cut at each CR LF, empty lines are skipped.\<close>

definition next_line :: "bytes \<Rightarrow> bytes \<times> bytes" where
  "next_line remaining =
     (case find_sub crlf remaining of
        None \<Rightarrow> (remaining, [])
      | Some line_end \<Rightarrow> (take line_end remaining, drop (line_end + 2) remaining))"

lemma next_line_shorter: "r \<noteq> [] \<Longrightarrow> length (snd (next_line r)) < length r"
  by (auto simp: next_line_def split: option.splits dest: find_sub_SomeD)

function parse_header_lines :: "http_parser \<Rightarrow> bytes \<Rightarrow> http_parser \<times> bool" where
  "parse_header_lines p remaining =
     (if remaining = [] then (p, True)
      else let (line, rest) = next_line remaining
           in if line = [] then parse_header_lines p rest
              else let (p, ok) = parse_header_line p line
                   in if ok then parse_header_lines p rest else (p, False))"
  by pat_completeness auto
termination
  by (relation "measure (\<lambda>(p, r). length r)") (auto dest: next_line_shorter simp: prod_eq_iff)

declare parse_header_lines.simps [simp del]

definition validate_headers :: "http_parser \<Rightarrow> http_parser" where
  "validate_headers p =
     (if p_has_te_chunked p \<and> p_has_content_length p
      then p\<lparr>p_use_chunked := True, p_content_length := 0, p_has_content_length := False\<rparr>
      else if p_has_te_chunked p then p\<lparr>p_use_chunked := True\<rparr>
      else p)"

definition parse_uri :: "http_parser \<Rightarrow> http_parser" where
  "parse_uri p =
     (let r = p_request p
      in case find_sub [63] (uri r) of
           None \<Rightarrow> p\<lparr>p_request := r\<lparr>path := uri r\<rparr>\<rparr>
         | Some q \<Rightarrow> p\<lparr>p_request := r\<lparr>path := take q (uri r), query_string := drop (q + 1) (uri r)\<rparr>\<rparr>)"

section \<open>The body\<close>

definition chunk_size_of :: "bytes \<Rightarrow> nat option" where
  "chunk_size_of size_str =
     from_chars 16 (case find_sub [59] size_str of None \<Rightarrow> size_str | Some semi \<Rightarrow> take semi size_str)"

text \<open>
  The loop over the chunks.  Where the loop returns from its middle the offset
  \<open>p_body_start\<close> keeps its old value; only the regular exit stores \<open>pos\<close>.
\<close>

function chunk_loop :: "http_parser \<Rightarrow> nat \<Rightarrow> http_parser \<times> parse_state" where
  "chunk_loop p pos =
     (if pos < length (p_buffer p) \<and> \<not> p_chunk_done p then
        if p_reading_size p then
          case find_from crlf pos (p_buffer p) of
            None \<Rightarrow> (p, INCOMPLETE)
          | Some e \<Rightarrow>
              (case chunk_size_of (take (e - pos) (drop pos (p_buffer p))) of
                 None \<Rightarrow> (p\<lparr>p_error := lit ''Invalid chunk size''\<rparr>, ERROR)
               | Some n \<Rightarrow>
                   if n = 0 then
                     (p\<lparr>p_chunk_done := True\<rparr>,
                      if e + 2 + 2 \<le> length (p_buffer p) then COMPLETE else INCOMPLETE)
                   else chunk_loop (p\<lparr>p_chunk_remaining := n, p_reading_size := False\<rparr>) (e + 2))
        else
          let to_read = min (length (p_buffer p) - pos) (p_chunk_remaining p);
              r = p_request p;
              p' = p\<lparr>p_request := r\<lparr>req_body := req_body r @ take to_read (drop pos (p_buffer p))\<rparr>,
                     p_chunk_remaining := p_chunk_remaining p - to_read\<rparr>;
              pos' = pos + to_read
          in if p_chunk_remaining p - to_read = 0 then
               if length (p_buffer p) < pos' + 2 then (p', INCOMPLETE)
               else chunk_loop (p'\<lparr>p_reading_size := True\<rparr>) (pos' + 2)
             else chunk_loop p' pos'
      else (p\<lparr>p_body_start := pos\<rparr>, if p_chunk_done p then COMPLETE else INCOMPLETE))"
  by pat_completeness auto
termination
proof (relation "measure (\<lambda>(p, pos). length (p_buffer p) - pos)", goal_cases)
  case (2 p pos e n)
  then show ?case
    using find_from_bound [of crlf pos "p_buffer p" e] by auto
next
  case (4 p pos)
  then show ?case by simp
qed simp_all

declare chunk_loop.simps [simp del]

definition feed_body :: "http_parser \<Rightarrow> http_parser \<times> parse_state" where
  "feed_body p =
     (if p_use_chunked p then chunk_loop p (p_body_start p)
      else
        let p = (if p_body_start p < length (p_buffer p)
                 then p\<lparr>p_body_received := length (p_buffer p) - p_body_start p,
                        p_request := (p_request p)\<lparr>req_body := drop (p_body_start p) (p_buffer p)\<rparr>\<rparr>
                 else p)
        in if p_content_length p \<le> p_body_received p
           then (p\<lparr>p_request := (p_request p)\<lparr>req_body :=
                    take (p_content_length p) (req_body (p_request p))\<rparr>\<rparr>, COMPLETE)
           else (p, INCOMPLETE))"

text \<open>The header part of \<open>feed\<close>, for a buffer whose header section ends at \<open>header_end\<close>.\<close>

definition parse_head :: "http_parser \<Rightarrow> nat \<Rightarrow> http_parser \<times> bool" where
  "parse_head p header_end =
     (let header_section = take header_end (p_buffer p)
      in case find_sub crlf header_section of
           None \<Rightarrow> (p\<lparr>p_error := lit ''Invalid request line''\<rparr>, False)
         | Some first_line_end \<Rightarrow>
             let (p, ok) = parse_request_line p (take first_line_end header_section)
             in if \<not> ok then (p, False)
                else let (p, ok) = parse_header_lines p (drop (first_line_end + 2) header_section)
                     in if \<not> ok then (p, False)
                        else (parse_uri ((validate_headers p)\<lparr>p_headers_done := True,
                                p_body_start := header_end + 4\<rparr>), True))"

definition feed :: "http_parser \<Rightarrow> bytes \<Rightarrow> http_parser \<times> parse_state" where
  "feed p data =
     (let p = p\<lparr>p_buffer := p_buffer p @ data\<rparr>
      in if \<not> p_headers_done p then
           case find_sub (crlf @ crlf) (p_buffer p) of
             None \<Rightarrow> (if 16 * 1024 < length (p_buffer p)
                      then (p\<lparr>p_error := lit ''Headers too large''\<rparr>, ERROR)
                      else (p, INCOMPLETE))
           | Some header_end \<Rightarrow>
               let (p, ok) = parse_head p header_end
               in if ok then feed_body p else (p, ERROR)
         else feed_body p)"

section \<open>The header loop over the list of its lines\<close>

function lines_of :: "bytes \<Rightarrow> bytes list" where
  "lines_of r =
     (if r = [] then []
      else (if fst (next_line r) = [] then [] else [fst (next_line r)]) @ lines_of (snd (next_line r)))"
  by pat_completeness auto
termination
  by (relation "measure length") (auto dest: next_line_shorter)

declare lines_of.simps [simp del]

fun parse_lines :: "http_parser \<Rightarrow> bytes list \<Rightarrow> http_parser \<times> bool" where
  "parse_lines p [] = (p, True)"
| "parse_lines p (l # ls) =
     (let (p, ok) = parse_header_line p l in if ok then parse_lines p ls else (p, False))"

lemma parse_header_lines_eq: "parse_header_lines p r = parse_lines p (lines_of r)"
proof (induction p r rule: parse_header_lines.induct)
  case (1 p r)
  show ?case
  proof (cases "r = []")
    case True
    then show ?thesis
      by (subst parse_header_lines.simps, subst lines_of.simps) simp
  next
    case False
    obtain l rest where nl: "next_line r = (l, rest)"
      by fastforce
    obtain q ok where q: "parse_header_line p l = (q, ok)"
      by fastforce
    from 1 False nl q show ?thesis
      by (subst parse_header_lines.simps, subst lines_of.simps) auto
  qed
qed

section \<open>What the header part leaves alone\<close>

definition same_body :: "http_parser \<Rightarrow> http_parser \<Rightarrow> bool" where
  "same_body p p' \<longleftrightarrow>
     p_buffer p' = p_buffer p \<and> p_headers_done p' = p_headers_done p
     \<and> p_use_chunked p' = p_use_chunked p \<and> p_body_received p' = p_body_received p
     \<and> p_body_start p' = p_body_start p \<and> p_chunk_done p' = p_chunk_done p
     \<and> p_chunk_remaining p' = p_chunk_remaining p \<and> p_reading_size p' = p_reading_size p
     \<and> req_body (p_request p') = req_body (p_request p)"

lemma same_body_trans: "same_body p q \<Longrightarrow> same_body q r \<Longrightarrow> same_body p r"
  by (simp add: same_body_def)

lemma parse_request_line_same: "same_body p (fst (parse_request_line p l))"
  by (simp add: parse_request_line_def same_body_def Let_def split: option.split)

lemma parse_request_line_cl:
  "p_cl_count (fst (parse_request_line p l)) = p_cl_count p
   \<and> p_has_content_length (fst (parse_request_line p l)) = p_has_content_length p
   \<and> p_content_length (fst (parse_request_line p l)) = p_content_length p"
  by (simp add: parse_request_line_def Let_def split: option.split)

lemma track_content_length_same: "same_body p (fst (track_content_length p n v))"
  by (simp add: track_content_length_def same_body_def Let_def split: option.split)

lemma store_header_same: "same_body p (store_header (track_transfer_encoding p m w) n v)"
  by (simp add: store_header_def track_transfer_encoding_def same_body_def)

lemma same_body_error: "same_body p (p\<lparr>p_error := e\<rparr>)"
  by (simp add: same_body_def)

text \<open>What holds of a parser after the parts of \<open>parse_header_line\<close> holds after it.\<close>

lemma parse_header_line_inv:
  assumes "\<And>e. P (p\<lparr>p_error := e\<rparr>)"
    and "\<And>n v. P (fst (track_content_length p n v))"
    and "\<And>q n v k w. P q \<Longrightarrow> P (store_header (track_transfer_encoding q n v) k w)"
  shows "P (fst (parse_header_line p l))"
proof -
  have "P (fst (let (p, ok) = track_content_length p m v
      in if ok then (store_header (track_transfer_encoding p m v) n v, True) else (p, False)))"
    for m n v
    using assms(2) [of m v] assms(3) by (auto split: prod.split)
  then show ?thesis
    using assms(1) by (simp add: parse_header_line_def Let_def split: option.split)
qed

lemma parse_header_line_same: "same_body p (fst (parse_header_line p l))"
  by (rule parse_header_line_inv)
     (auto intro: same_body_error track_content_length_same same_body_trans store_header_same)

lemma parse_lines_inv:
  assumes "\<And>p l. P p \<Longrightarrow> P (fst (parse_header_line p l))" and "P p"
  shows "P (fst (parse_lines p ls))"
  using assms(2)
proof (induction ls arbitrary: p)
  case Nil
  then show ?case by simp
next
  case (Cons l ls)
  obtain q ok where q: "parse_header_line p l = (q, ok)"
    by fastforce
  with assms(1) [OF Cons.prems, of l] have "P q"
    by simp
  with Cons.IH q show ?case by simp
qed

lemma parse_lines_same: "same_body p (fst (parse_lines p ls))"
  by (rule parse_lines_inv)
     (auto intro: same_body_trans parse_header_line_same simp: same_body_def [of p p])

section \<open>Duplicate Content-Length\<close>

definition is_cl_line :: "bytes \<Rightarrow> bool" where
  "is_cl_line l = (case find_sub [58] l of None \<Rightarrow> False
     | Some c \<Rightarrow> lower (take c l) = lit ''content-length'')"

lemma parse_header_line_TrueE:
  assumes "parse_header_line p l = (p', True)"
  obtains c q where "0 \<notin> set l" "find_sub [58] l = Some c" "32 \<notin> set (take c l)" "9 \<notin> set (take c l)"
    "track_content_length p (lower (take c l)) (trim_value (drop (c + 1) l)) = (q, True)"
    "p' = store_header (track_transfer_encoding q (lower (take c l)) (trim_value (drop (c + 1) l)))
            (take c l) (trim_value (drop (c + 1) l))"
  using assms unfolding parse_header_line_def Let_def
  by (auto split: if_splits option.splits prod.splits)

lemma parse_header_line_count:
  assumes "parse_header_line p l = (p', True)"
  shows "p_cl_count p' = p_cl_count p + (if is_cl_line l then 1 else 0)
       \<and> (is_cl_line l \<longrightarrow> p_cl_count p = 0)"
  using assms
proof (rule parse_header_line_TrueE)
  fix c q
  assume *: "find_sub [58] l = Some c"
    "track_content_length p (lower (take c l)) (trim_value (drop (c + 1) l)) = (q, True)"
    "p' = store_header (track_transfer_encoding q (lower (take c l)) (trim_value (drop (c + 1) l)))
            (take c l) (trim_value (drop (c + 1) l))"
  then have "p_cl_count p' = p_cl_count q"
    by (simp add: store_header_def track_transfer_encoding_def)
  with * show ?thesis
    by (auto simp: is_cl_line_def track_content_length_def Let_def split: if_splits option.splits)
qed

lemma parse_lines_count:
  "parse_lines p ls = (p', True) \<Longrightarrow>
     p_cl_count p' = p_cl_count p + length (filter is_cl_line ls)
     \<and> (p_cl_count p \<le> 1 \<longrightarrow> p_cl_count p' \<le> 1)"
proof (induction ls arbitrary: p)
  case Nil
  then show ?case by simp
next
  case (Cons l ls)
  then obtain q where "parse_header_line p l = (q, True)" "parse_lines q ls = (p', True)"
    by (auto split: prod.splits if_splits)
  with Cons.IH parse_header_line_count show ?case
    by (fastforce)
qed

text \<open>
  A head with two Content-Length lines (in any case) is refused: whatever else it holds,
  feeding it to a fresh parser returns \<open>ERROR\<close>.
\<close>

theorem duplicate_content_length_rejected:
  assumes "find_sub (crlf @ crlf) data = Some e" and "find_sub crlf (take e data) = Some f"
    and "2 \<le> length (filter is_cl_line (lines_of (drop (f + 2) (take e data))))"
  shows "snd (feed init_parser data) = ERROR"
proof -
  define p where "p = init_parser\<lparr>p_buffer := data\<rparr>"
  obtain q ok where q: "parse_request_line p (take f (take e data)) = (q, ok)"
    by fastforce
  have "p_cl_count q = p_cl_count p"
    using q parse_request_line_cl [of p "take f (take e data)"] by simp
  then have "p_cl_count q = 0"
    by (simp add: p_def init_parser_def)
  with assms(3) parse_lines_count [of q "lines_of (drop (f + 2) (take e data))"]
  have "snd (parse_header_lines q (drop (f + 2) (take e data))) = False"
    by (cases "parse_lines q (lines_of (drop (f + 2) (take e data)))")
       (auto simp: parse_header_lines_eq)
  then have "snd (parse_head p e) = False"
    using assms(2) q by (auto simp: parse_head_def p_def Let_def split: prod.split)
  then show ?thesis
    using assms(1) by (auto simp: feed_def p_def init_parser_def split: prod.split)
qed

inductive parser_reachable :: "http_parser \<Rightarrow> bool" where
  fresh: "parser_reachable init_parser"
| fed: "parser_reachable p \<Longrightarrow> parser_reachable (fst (feed p data))"
| reset: "parser_reachable p \<Longrightarrow> parser_reachable (reset p)"

definition cl_consistent :: "http_parser \<Rightarrow> bool" where
  "cl_consistent p \<longleftrightarrow> p_has_content_length p \<or> p_content_length p = 0"

definition parser_ok :: "http_parser \<Rightarrow> bool" where
  "parser_ok p \<longleftrightarrow>
     (if p_headers_done p
      then p_use_chunked p = p_has_te_chunked p
         \<and> (p_use_chunked p \<longrightarrow> p_content_length p = 0 \<and> \<not> p_has_content_length p
              \<and> p_body_received p = 0)
         \<and> p_body_start p \<le> length (p_buffer p)
         \<and> p_body_received p \<le> length (p_buffer p) - p_body_start p
         \<and> (\<not> p_use_chunked p \<longrightarrow> p_body_received p = 0 \<longrightarrow> req_body (p_request p) = [])
         \<and> cl_consistent p
      else \<not> p_use_chunked p \<and> p_body_received p = 0 \<and> req_body (p_request p) = []
         \<and> cl_consistent p)"


lemmas parser_ok_defs = parser_ok_def cl_consistent_def

definition chunk_frame :: "http_parser \<Rightarrow> http_parser \<Rightarrow> bool" where
  "chunk_frame p p' \<longleftrightarrow>
     p_buffer p' = p_buffer p \<and> p_headers_done p' = p_headers_done p
     \<and> p_use_chunked p' = p_use_chunked p \<and> p_has_te_chunked p' = p_has_te_chunked p
     \<and> p_content_length p' = p_content_length p \<and> p_has_content_length p' = p_has_content_length p
     \<and> p_body_received p' = p_body_received p \<and> p_cl_count p' = p_cl_count p
     \<and> (p_body_start p \<le> length (p_buffer p) \<longrightarrow> p_body_start p' \<le> length (p_buffer p))"

lemma chunk_frame_trans: "chunk_frame p q \<Longrightarrow> chunk_frame q r \<Longrightarrow> chunk_frame p r"
  by (simp add: chunk_frame_def)

lemma chunk_loop_frame: "pos \<le> length (p_buffer p) \<Longrightarrow> chunk_frame p (fst (chunk_loop p pos))"
proof (induction p pos rule: chunk_loop.induct)
  case (1 p pos)
  show ?case
  proof (cases "pos < length (p_buffer p) \<and> \<not> p_chunk_done p")
    case False
    with "1.prems" show ?thesis
      by (subst chunk_loop.simps) (auto simp: chunk_frame_def)
  next
    case True
    show ?thesis
    proof (cases "p_reading_size p")
      case size: True
      show ?thesis
      proof (cases "find_from crlf pos (p_buffer p)")
        case None
        with True size show ?thesis
          by (subst chunk_loop.simps) (simp add: chunk_frame_def)
      next
        case (Some e)
        note IH = "1.IH"(1) [OF True size Some]
        show ?thesis
          using True size Some IH find_from_bound [OF Some]
          by (subst chunk_loop.simps) (auto simp: chunk_frame_def split: option.split)
      qed
    next
      case data: False
      note IH = "1.IH"(2,3) [OF True data refl refl refl refl]
      show ?thesis
        using True data IH
        by (subst chunk_loop.simps) (auto simp: Let_def chunk_frame_def)
    qed
  qed
qed

lemma feed_body_ok:
  assumes "parser_ok p" and "p_headers_done p"
  shows "parser_ok (fst (feed_body p))"
proof (cases "p_use_chunked p")
  case True
  with assms have "p_body_start p \<le> length (p_buffer p)"
    by (simp add: parser_ok_defs)
  from chunk_loop_frame [OF this] assms True show ?thesis
    by (simp add: feed_body_def parser_ok_defs chunk_frame_def)
next
  case False
  with assms show ?thesis
    by (auto simp: feed_body_def parser_ok_defs Let_def)
qed

lemma same_body_head_ok:
  assumes "same_body p q" and "parser_ok p" and "\<not> p_headers_done p"
    and "cl_consistent q"
  shows "parser_ok q \<and> \<not> p_headers_done q \<and> p_buffer q = p_buffer p"
  using assms by (simp add: same_body_def parser_ok_defs)

lemma parse_lines_cl: "cl_consistent p \<Longrightarrow> cl_consistent (fst (parse_lines p ls))"
proof (rule parse_lines_inv)
  fix p l
  assume "cl_consistent p"
  then show "cl_consistent (fst (parse_header_line p l))"
    by (intro parse_header_line_inv [where P = cl_consistent])
       (simp_all add: cl_consistent_def track_content_length_def track_transfer_encoding_def
         store_header_def Let_def split: option.split)
qed

lemma finish_head_ok:
  assumes "parser_ok r" and "\<not> p_headers_done r" and "n \<le> length (p_buffer r)"
  shows "parser_ok (parse_uri ((validate_headers r)\<lparr>p_headers_done := True, p_body_start := n\<rparr>))
       \<and> p_buffer (parse_uri ((validate_headers r)\<lparr>p_headers_done := True, p_body_start := n\<rparr>)) = p_buffer r
       \<and> p_headers_done (parse_uri ((validate_headers r)\<lparr>p_headers_done := True, p_body_start := n\<rparr>))"
proof -
  have "parser_ok (parse_uri p) = parser_ok p \<and> p_buffer (parse_uri p) = p_buffer p
      \<and> p_headers_done (parse_uri p) = p_headers_done p" for p
    by (simp add: parse_uri_def parser_ok_defs Let_def split: option.split)
  moreover have "parser_ok ((validate_headers r)\<lparr>p_headers_done := True, p_body_start := n\<rparr>)"
    and "p_buffer (validate_headers r) = p_buffer r"
    using assms by (auto simp: parser_ok_defs validate_headers_def)
  ultimately show ?thesis by simp
qed

lemma parse_head_ok:
  assumes "parser_ok p" and "\<not> p_headers_done p" and "e + 4 \<le> length (p_buffer p)"
    and "parse_head p e = (p', ok)"
  shows "parser_ok p' \<and> p_buffer p' = p_buffer p \<and> p_headers_done p' = ok"
proof (cases "find_sub crlf (take e (p_buffer p))")
  case None
  with assms show ?thesis
    by (auto simp: parse_head_def parser_ok_defs)
next
  case (Some f)
  let ?hs = "take e (p_buffer p)"
  obtain q ok1 where q: "parse_request_line p (take f ?hs) = (q, ok1)"
    by fastforce
  have "cl_consistent q = cl_consistent p"
    using q parse_request_line_cl [of p "take f ?hs"] by (simp add: cl_consistent_def)
  with assms(1,2) same_body_head_ok [of p q] parse_request_line_same [of p "take f ?hs"] q
  have qok: "parser_ok q" "\<not> p_headers_done q" "p_buffer q = p_buffer p"
    by (auto simp: parser_ok_defs)
  obtain r ok2 where r: "parse_header_lines q (drop (f + 2) ?hs) = (r, ok2)"
    by fastforce
  have "cl_consistent r"
    using parse_lines_cl [of q "lines_of (drop (f + 2) ?hs)"] qok r
    by (auto simp: parse_header_lines_eq parser_ok_defs)
  with qok same_body_head_ok [of q r] parse_lines_same [of q "lines_of (drop (f + 2) ?hs)"] r
  have rok: "parser_ok r" "\<not> p_headers_done r" "p_buffer r = p_buffer p"
    by (auto simp: parse_header_lines_eq)
  show ?thesis
    using assms(3,4) Some q r qok rok finish_head_ok [OF rok(1,2), of "e + 4"]
    by (auto simp: parse_head_def Let_def split: if_splits)
qed

lemma feed_ok: "parser_ok p \<Longrightarrow> parser_ok (fst (feed p data))"
proof -
  assume ok: "parser_ok p"
  define q where "q = p\<lparr>p_buffer := p_buffer p @ data\<rparr>"
  from ok have q: "parser_ok q" "p_headers_done q = p_headers_done p"
    by (auto simp: parser_ok_defs q_def)
  show ?thesis
  proof (cases "p_headers_done p")
    case True
    with q feed_body_ok [of q] show ?thesis
      by (simp add: feed_def q_def)
  next
    case False
    show ?thesis
    proof (cases "find_sub (crlf @ crlf) (p_buffer q)")
      case None
      with False q show ?thesis
        by (auto simp: feed_def q_def parser_ok_defs Let_def)
    next
      case (Some e)
      obtain r ok' where r: "parse_head q e = (r, ok')"
        by fastforce
      from find_sub_SomeD [OF Some] have "e + 4 \<le> length (p_buffer q)"
        by simp
      from parse_head_ok [OF q(1) _ this r] q(2) False
      have "parser_ok r" "p_headers_done r = ok'"
        by simp_all
      with False Some r feed_body_ok [of r] show ?thesis
        by (simp add: feed_def q_def)
    qed
  qed
qed

lemma reachable_parser_ok: "parser_reachable p \<Longrightarrow> parser_ok p"
proof (induction rule: parser_reachable.induct)
  case fresh
  then show ?case by (simp add: parser_ok_defs init_parser_def empty_request_def)
next
  case (fed p data)
  then show ?case by (simp add: feed_ok)
next
  case (reset p)
  then show ?case by (simp add: parser_ok_defs reset_def empty_request_def)
qed

section \<open>Transfer-Encoding\<close>

text \<open>
  What the parser notices of Transfer-Encoding, told of the text of the head: the lines of the header section behind the
  request line, and of a line, that its name is Transfer-Encoding in any case and the word \<open>chunked\<close> occurs in its value.
\<close>

definition contains :: "bytes \<Rightarrow> bytes \<Rightarrow> bool" where
  "contains w s \<longleftrightarrow> (\<exists>pre post. s = pre @ w @ post)"

definition te_line :: "bytes \<Rightarrow> bool" where
  "te_line l \<longleftrightarrow> (\<exists>name val. l = name @ 58 # val \<and> 58 \<notin> set name \<and> lower name = lit ''transfer-encoding''
     \<and> contains (lit ''chunked'') (lower val))"

definition head_lines :: "bytes \<Rightarrow> bytes list" where
  "head_lines buf =
     (case find_sub (crlf @ crlf) buf of
        None \<Rightarrow> []
      | Some e \<Rightarrow> (case find_sub crlf (take e buf) of None \<Rightarrow> [] | Some f \<Rightarrow> lines_of (drop (f + 2) (take e buf))))"

lemma head_lines_append:
  assumes "find_sub (crlf @ crlf) buf = Some e"
  shows "head_lines (buf @ x) = head_lines buf"
proof -
  have "take e (buf @ x) = take e buf"
    using find_sub_SomeD [OF assms] by simp
  then show ?thesis
    unfolding head_lines_def find_sub_append [OF assms] assms by (simp only: option.case)
qed

lemma find_sub_contains: "find_sub w s \<noteq> None \<longleftrightarrow> contains w s"
proof
  assume "find_sub w s \<noteq> None"
  then obtain i where "find_sub w s = Some i" by blast
  from find_sub_SomeD [OF this] have "s = take i s @ w @ drop (i + length w) s"
    by (metis append_take_drop_id drop_drop add.commute starts_with_def)
  then show "contains w s"
    unfolding contains_def by blast
next
  assume "contains w s"
  then obtain pre post where "s = pre @ w @ post"
    by (auto simp: contains_def)
  then have "starts_with (drop (length pre) s) w" "length pre \<le> length s"
    by (simp_all add: starts_with_def)
  then show "find_sub w s \<noteq> None"
    unfolding find_sub_None_iff by blast
qed

text \<open>Blanks around a value do not matter to a word without blanks.\<close>

lemma contains_Cons: "w \<noteq> [] \<Longrightarrow> hd w \<noteq> c \<Longrightarrow> contains w (c # s) = contains w s"
proof
  assume w: "w \<noteq> []" "hd w \<noteq> c" and "contains w (c # s)"
  then obtain pre post where e: "c # s = pre @ w @ post"
    by (auto simp: contains_def)
  with w have "pre \<noteq> []"
    by (cases w) auto
  with e have "s = tl pre @ w @ post"
    by (cases pre) auto
  then show "contains w s"
    unfolding contains_def by blast
next
  assume "contains w s"
  then obtain pre post where "c # s = (c # pre) @ w @ post"
    by (auto simp: contains_def)
  then show "contains w (c # s)"
    unfolding contains_def by blast
qed

lemma contains_rev: "contains (rev w) (rev s) = contains w s"
  unfolding contains_def by (metis append.assoc rev_append rev_rev_ident)

lemma contains_dropWhile:
  "w \<noteq> [] \<Longrightarrow> \<not> is_ws (hd w) \<Longrightarrow> contains w (lower (dropWhile is_ws s)) = contains w (lower s)"
proof (induction s)
  case (Cons c s)
  have "lower (c # s) = (if is_ws c then c else tolower c) # lower s"
    by (auto simp: lower_def is_ws_def tolower_def)
  moreover have "is_ws c \<Longrightarrow> hd w \<noteq> c"
    using Cons.prems by auto
  ultimately show ?case
    using Cons contains_Cons [OF Cons.prems(1), of c "lower s"] by simp
qed simp

lemma contains_trim_value:
  assumes "w \<noteq> []" and "\<not> is_ws (hd w)" and "\<not> is_ws (last w)"
  shows "contains w (lower (trim_value v)) = contains w (lower v)"
proof -
  have r: "contains w (lower (rev (dropWhile is_ws (rev s)))) = contains w (lower s)" for s
  proof -
    have "contains w (lower (rev (dropWhile is_ws (rev s)))) = contains (rev w) (lower (dropWhile is_ws (rev s)))"
      using contains_rev [of w "lower (rev (dropWhile is_ws (rev s)))"] by (simp add: lower_def rev_map)
    also have "\<dots> = contains (rev w) (lower (rev s))"
      using assms by (intro contains_dropWhile) (simp_all add: hd_rev)
    also have "\<dots> = contains w (lower s)"
      using contains_rev [of w "lower s"] by (simp add: lower_def rev_map)
    finally show ?thesis .
  qed
  show ?thesis
    by (simp only: trim_value_def Let_def r contains_dropWhile [OF assms(1,2)] split: if_split) simp
qed

lemma te_line_iff:
  assumes "find_sub [58] l = Some c"
  shows "te_line l \<longleftrightarrow> lower (take c l) = lit ''transfer-encoding''
     \<and> find_sub (lit ''chunked'') (lower (trim_value (drop (c + 1) l))) \<noteq> None"
proof -
  obtain t where "drop c l = 58 # t"
    using find_sub_SomeD [OF assms] by (cases "drop c l") (auto simp: starts_with_def)
  moreover from this have "drop (c + 1) l = t"
    using drop_drop [of 1 c l] by simp
  ultimately have l: "l = take c l @ 58 # drop (c + 1) l" "58 \<notin> set (take c l)"
    using append_take_drop_id [of c l] find_sub_single_take [OF assms] by simp_all
  have split: "l = name @ 58 # val \<and> 58 \<notin> set name \<longleftrightarrow> name = take c l \<and> val = drop (c + 1) l" for name val
  proof
    assume n: "l = name @ 58 # val \<and> 58 \<notin> set name"
    then have "c = length name"
      using find_sub_single_append [of 58 name val] assms by simp
    with n show "name = take c l \<and> val = drop (c + 1) l"
      by simp
  qed (use l in simp)
  have "te_line l \<longleftrightarrow> (\<exists>name val. (l = name @ 58 # val \<and> 58 \<notin> set name)
      \<and> lower name = lit ''transfer-encoding'' \<and> contains (lit ''chunked'') (lower val))"
    unfolding te_line_def by (simp only: conj_assoc)
  then have "te_line l \<longleftrightarrow> lower (take c l) = lit ''transfer-encoding'' \<and> contains (lit ''chunked'') (lower (drop (c + 1) l))"
    unfolding split by blast
  moreover have "contains (lit ''chunked'') (lower (trim_value v)) = contains (lit ''chunked'') (lower v)" for v
    by (rule contains_trim_value) (simp_all add: lit_def is_ws_def)
  ultimately show ?thesis
    by (simp only: find_sub_contains)
qed

lemma track_content_length_te [simp]: "p_has_te_chunked (fst (track_content_length p n v)) = p_has_te_chunked p"
  by (simp add: track_content_length_def Let_def split: option.split)

lemma parse_header_line_te:
  assumes "parse_header_line p l = (p', ok)"
  shows "p_has_te_chunked p' = (p_has_te_chunked p \<or> ok \<and> te_line l)"
proof (cases ok)
  case True
  with assms have "parse_header_line p l = (p', True)"
    by simp
  then obtain c q where c: "find_sub [58] l = Some c"
    and q: "track_content_length p (lower (take c l)) (trim_value (drop (c + 1) l)) = (q, True)"
      "p' = store_header (track_transfer_encoding q (lower (take c l)) (trim_value (drop (c + 1) l)))
              (take c l) (trim_value (drop (c + 1) l))"
    by (rule parse_header_line_TrueE)
  have "p_has_te_chunked q = p_has_te_chunked p"
    using track_content_length_te [of p "lower (take c l)" "trim_value (drop (c + 1) l)"] unfolding q(1) by simp
  then show ?thesis
    using True unfolding q(2) te_line_iff [OF c] by (auto simp: store_header_def track_transfer_encoding_def)
next
  case False
  then have "(\<exists>e. p' = p\<lparr>p_error := e\<rparr>) \<or> (\<exists>n v. track_content_length p n v = (p', False))"
    using assms unfolding parse_header_line_def Let_def
    by (simp split: if_splits option.splits prod.splits) blast+
  then show ?thesis
    using track_content_length_te [of p] False by (auto; metis fst_conv)
qed

lemma te_parse_lines:
  assumes "parse_lines p ls = (p', ok)"
  shows "p_has_te_chunked p' \<longrightarrow> p_has_te_chunked p \<or> (\<exists>l \<in> set ls. te_line l)"
    and "ok \<Longrightarrow> p_has_te_chunked p' = (p_has_te_chunked p \<or> (\<exists>l \<in> set ls. te_line l))"
  using assms
  by (induction ls arbitrary: p; fastforce dest: parse_header_line_te split: prod.splits if_splits)+

definition te_seen :: "bytes \<Rightarrow> bool" where
  "te_seen buf \<longleftrightarrow> (\<exists>l \<in> set (head_lines buf). te_line l)"

definition te_ok :: "http_parser \<Rightarrow> bool" where
  "te_ok p \<longleftrightarrow> (p_has_te_chunked p \<longrightarrow> te_seen (p_buffer p)) \<and> (p_headers_done p \<longrightarrow> find_sub (crlf @ crlf) (p_buffer p) \<noteq> None
     \<and> (te_seen (p_buffer p) \<longrightarrow> p_has_te_chunked p))"

lemma te_ok_append: "te_ok p \<Longrightarrow> te_ok (p\<lparr>p_buffer := p_buffer p @ x\<rparr>)"
proof -
  assume ok: "te_ok p"
  show ?thesis
  proof (cases "find_sub (crlf @ crlf) (p_buffer p)")
    case None
    then have "\<not> te_seen (p_buffer p)"
      by (simp add: te_seen_def head_lines_def)
    with None ok show ?thesis
      by (simp add: te_ok_def)
  next
    case (Some e)
    have "te_seen (p_buffer p @ x) = te_seen (p_buffer p)"
      by (simp add: te_seen_def head_lines_append [OF Some])
    with Some ok find_sub_append [OF Some, of x] show ?thesis
      by (simp add: te_ok_def)
  qed
qed

lemma parse_head_te:
  assumes "te_ok p" and "\<not> p_headers_done p" and "find_sub (crlf @ crlf) (p_buffer p) = Some e"
    and "parse_head p e = (p', ok)"
  shows "te_ok p'"
proof (cases "find_sub crlf (take e (p_buffer p))")
  case None
  with assms show ?thesis
    by (auto simp: parse_head_def te_ok_def)
next
  case (Some f)
  let ?hs = "take e (p_buffer p)"
  let ?ls = "lines_of (drop (f + 2) ?hs)"
  have hl: "head_lines (p_buffer p) = ?ls"
    using assms(3) Some by (simp add: head_lines_def)
  obtain q ok1 where q: "parse_request_line p (take f ?hs) = (q, ok1)"
    by fastforce
  have qs: "p_has_te_chunked q = p_has_te_chunked p" "p_buffer q = p_buffer p" "p_headers_done q = p_headers_done p"
    using q by (auto simp: parse_request_line_def Let_def split: if_splits option.splits)
  obtain r ok2 where r: "parse_lines q ?ls = (r, ok2)"
    by fastforce
  have rs: "p_buffer r = p_buffer p" "p_headers_done r = p_headers_done p"
    using parse_lines_same [of q ?ls] r qs by (auto simp: same_body_def)
  have fin: "p_has_te_chunked (parse_uri t) = p_has_te_chunked t" "p_buffer (parse_uri t) = p_buffer t"
    "p_headers_done (parse_uri t) = p_headers_done t" "p_has_te_chunked (validate_headers t) = p_has_te_chunked t"
    "p_buffer (validate_headers t) = p_buffer t" for t
    by (simp_all add: parse_uri_def validate_headers_def Let_def split: option.split)
  have seen: "te_seen (p_buffer p) \<longleftrightarrow> (\<exists>l \<in> set ?ls. te_line l)"
    by (simp add: te_seen_def hl)
  show ?thesis
    using assms Some q r qs rs fin te_parse_lines [OF r] seen
    by (auto simp: parse_head_def te_ok_def parse_header_lines_eq Let_def split: if_splits)
qed

lemma feed_body_te:
  assumes "te_ok p" and "parser_ok p" and "p_headers_done p"
  shows "te_ok (fst (feed_body p))"
proof (cases "p_use_chunked p")
  case True
  then have "chunk_frame p (fst (feed_body p))"
    using chunk_loop_frame [of "p_body_start p" p] assms(2,3) by (simp add: feed_body_def parser_ok_defs)
  with assms(1) show ?thesis
    by (simp add: te_ok_def chunk_frame_def)
next
  case False
  with assms(1) show ?thesis
    by (auto simp: feed_body_def te_ok_def Let_def)
qed

lemma feed_te:
  assumes "te_ok p" and "parser_ok p"
  shows "te_ok (fst (feed p data))"
proof -
  define q where "q = p\<lparr>p_buffer := p_buffer p @ data\<rparr>"
  have q: "te_ok q" "parser_ok q" "p_headers_done q = p_headers_done p"
    using te_ok_append [OF assms(1), of data] assms(2) by (auto simp: q_def parser_ok_defs)
  show ?thesis
  proof (cases "p_headers_done p")
    case True
    with q feed_body_te [of q] show ?thesis
      by (simp add: feed_def q_def)
  next
    case False
    show ?thesis
    proof (cases "find_sub (crlf @ crlf) (p_buffer q)")
      case None
      with False q show ?thesis
        by (auto simp: feed_def q_def te_ok_def Let_def)
    next
      case (Some e)
      obtain r ok' where r: "parse_head q e = (r, ok')"
        by fastforce
      have "te_ok r" "parser_ok r" "p_headers_done r = ok'"
        using parse_head_te [OF q(1) _ Some r] parse_head_ok [OF q(2) _ _ r] find_sub_SomeD [OF Some] q(3) False by simp_all
      with False Some r feed_body_te [of r] show ?thesis
        by (simp add: feed_def q_def)
    qed
  qed
qed

lemma reachable_te_ok: "parser_reachable p \<Longrightarrow> te_ok p"
proof (induction rule: parser_reachable.induct)
  case (fed p data)
  then show ?case
    by (simp add: feed_te reachable_parser_ok)
qed (simp_all add: te_ok_def init_parser_def reset_def)

lemma feed_body_complete:
  assumes "parser_ok p" "p_headers_done p" "feed_body p = (p', COMPLETE)" "\<not> p_use_chunked p'"
  shows "p_content_length p' \<le> length (p_buffer p') - p_body_start p'
     \<and> req_body (p_request p') = take (p_content_length p') (drop (p_body_start p') (p_buffer p'))"
proof -
  have "\<not> p_use_chunked p"
    using assms chunk_loop_frame [of "p_body_start p" p]
    by (auto simp: feed_body_def parser_ok_defs chunk_frame_def)
  with assms show ?thesis
    by (auto simp: feed_body_def parser_ok_defs Let_def split: if_splits)
qed

lemma feed_complete:
  assumes "parser_reachable p" and "feed p data = (p', COMPLETE)" and "\<not> p_use_chunked p'"
  shows "length (req_body (p_request p')) = p_content_length p'
       \<and> req_body (p_request p') = take (p_content_length p') (drop (p_body_start p') (p_buffer p'))"
proof -
  define q where "q = p\<lparr>p_buffer := p_buffer p @ data\<rparr>"
  from reachable_parser_ok [OF assms(1)] have q: "parser_ok q" "p_headers_done q = p_headers_done p"
    by (auto simp: parser_ok_defs q_def)
  obtain r where r: "parser_ok r" "p_headers_done r" "feed_body r = (p', COMPLETE)"
  proof (cases "p_headers_done p")
    case True
    with assms(2) q that [of q] show ?thesis
      by (simp add: feed_def q_def)
  next
    case False
    with assms(2) obtain e where e: "find_sub (crlf @ crlf) (p_buffer q) = Some e"
      by (auto simp: feed_def q_def Let_def split: option.splits if_splits)
    obtain r ok where r: "parse_head q e = (r, ok)"
      by fastforce
    with assms(2) False e have "ok" "feed_body r = (p', COMPLETE)"
      by (auto simp: feed_def q_def split: if_splits)
    moreover from find_sub_SomeD [OF e] have "e + 4 \<le> length (p_buffer q)"
      by simp
    ultimately show ?thesis
      using parse_head_ok [OF q(1) _ _ r] q(2) False that [of r] by simp
  qed
  from feed_body_complete [OF r assms(3)] show ?thesis
    by simp
qed

section \<open>Segmentation\<close>

text \<open>The header part does not look at the buffer beyond the head.\<close>

lemma parse_request_line_buffer:
  "parse_request_line (p\<lparr>p_buffer := x\<rparr>) l = apfst (\<lambda>p. p\<lparr>p_buffer := x\<rparr>) (parse_request_line p l)"
  by (simp add: parse_request_line_def Let_def split: option.split)

lemma track_content_length_buffer:
  "track_content_length (p\<lparr>p_buffer := x\<rparr>) n v
   = apfst (\<lambda>p. p\<lparr>p_buffer := x\<rparr>) (track_content_length p n v)"
  by (simp add: track_content_length_def Let_def split: option.split)

lemma store_header_buffer:
  "store_header (track_transfer_encoding (p\<lparr>p_buffer := x\<rparr>) m w) n v
   = (store_header (track_transfer_encoding p m w) n v)\<lparr>p_buffer := x\<rparr>"
  by (auto simp: track_transfer_encoding_def store_header_def)

lemma parse_header_line_buffer:
  "parse_header_line (p\<lparr>p_buffer := x\<rparr>) l = apfst (\<lambda>p. p\<lparr>p_buffer := x\<rparr>) (parse_header_line p l)"
  by (simp add: parse_header_line_def track_content_length_buffer store_header_buffer Let_def
      split: option.split prod.split)

lemma parse_lines_buffer:
  "parse_lines (p\<lparr>p_buffer := x\<rparr>) ls = apfst (\<lambda>p. p\<lparr>p_buffer := x\<rparr>) (parse_lines p ls)"
  by (induction ls arbitrary: p) (simp_all add: parse_header_line_buffer split: prod.split)

lemma validate_headers_buffer:
  "validate_headers (r\<lparr>p_buffer := x\<rparr>) = (validate_headers r)\<lparr>p_buffer := x\<rparr>"
  by (simp add: validate_headers_def)

lemma parse_uri_buffer: "parse_uri (r\<lparr>p_buffer := x\<rparr>) = (parse_uri r)\<lparr>p_buffer := x\<rparr>"
  by (simp add: parse_uri_def Let_def split: option.split)

lemma finish_head_buffer:
  "parse_uri ((validate_headers (r\<lparr>p_buffer := x\<rparr>))\<lparr>p_headers_done := True, p_body_start := n\<rparr>)
   = (parse_uri ((validate_headers r)\<lparr>p_headers_done := True, p_body_start := n\<rparr>))\<lparr>p_buffer := x\<rparr>"
proof -
  let ?q = "(validate_headers r)\<lparr>p_headers_done := True, p_body_start := n\<rparr>"
  have "(validate_headers (r\<lparr>p_buffer := x\<rparr>))\<lparr>p_headers_done := True, p_body_start := n\<rparr>
      = ?q\<lparr>p_buffer := x\<rparr>"
    by (simp add: validate_headers_buffer)
  then show ?thesis
    by (simp only: parse_uri_buffer)
qed

lemma parse_head_buffer:
  assumes "e \<le> length (p_buffer p)"
  shows "parse_head (p\<lparr>p_buffer := p_buffer p @ x\<rparr>) e
       = apfst (\<lambda>q. q\<lparr>p_buffer := p_buffer p @ x\<rparr>) (parse_head p e)"
proof (cases "find_sub crlf (take e (p_buffer p))")
  case None
  with assms show ?thesis by (simp add: parse_head_def)
next
  case (Some f)
  let ?hs = "take e (p_buffer p)"
  obtain q ok1 where q: "parse_request_line p (take f ?hs) = (q, ok1)"
    by fastforce
  obtain r ok2 where r: "parse_lines q (lines_of (drop (f + 2) ?hs)) = (r, ok2)"
    by fastforce
  show ?thesis
    using assms Some q r
    by (simp add: parse_head_def Let_def parse_request_line_buffer parse_header_lines_eq
        parse_lines_buffer finish_head_buffer)
qed

lemma feed_body_again:
  assumes "\<not> p_use_chunked p" and "feed_body p = (p', INCOMPLETE)"
    and "p_body_start p \<le> length (p_buffer p)"
  shows "feed_body (p'\<lparr>p_buffer := p_buffer p @ x\<rparr>) = feed_body (p\<lparr>p_buffer := p_buffer p @ x\<rparr>)"
proof (cases "p_body_start p < length (p_buffer p)")
  case True
  with assms have "p' = p\<lparr>p_body_received := length (p_buffer p) - p_body_start p,
      p_request := (p_request p)\<lparr>req_body := drop (p_body_start p) (p_buffer p)\<rparr>\<rparr>"
    by (simp add: feed_body_def Let_def split: if_splits)
  with True assms(1) show ?thesis
    by (simp add: feed_body_def Let_def)
next
  case False
  with assms have "p' = p"
    by (simp add: feed_body_def Let_def split: if_splits)
  then show ?thesis by simp
qed

text \<open>
  For requests without chunked encoding the parser does not depend on how the input is cut:
  when the first segment is answered by \<open>INCOMPLETE\<close>, feeding the second one gives the very
  parser state and result that feeding both at once gives.
\<close>

theorem content_length_segmentation:
  assumes "feed init_parser a = (p, INCOMPLETE)" and "\<not> p_use_chunked p"
  shows "feed p b = feed init_parser (a @ b)"
proof (cases "find_sub (crlf @ crlf) a")
  case None
  with assms(1) have "p = init_parser\<lparr>p_buffer := a\<rparr>"
    by (auto simp: feed_def init_parser_def Let_def split: if_splits)
  then show ?thesis
    by (simp add: feed_def init_parser_def)
next
  case (Some e)
  let ?p = "init_parser\<lparr>p_buffer := a\<rparr>"
  have nd: "\<not> p_headers_done init_parser" "p_buffer init_parser = []"
    by (simp_all add: init_parser_def)
  from find_sub_SomeD [OF Some] have e: "e + 4 \<le> length a"
    by simp
  obtain q where q: "parse_head ?p e = (q, True)" "feed_body q = (p, INCOMPLETE)"
    using assms(1) Some nd by (cases "parse_head ?p e") (auto simp: feed_def Let_def split: if_splits)
  have okp: "parser_ok ?p" "\<not> p_headers_done ?p"
    by (simp_all add: parser_ok_defs init_parser_def empty_request_def)
  with parse_head_ok [OF okp _ q(1)] e
  have qok: "parser_ok q" "p_buffer q = a" "p_headers_done q"
    by simp_all
  then have start: "p_body_start q \<le> length (p_buffer q)"
    by (simp add: parser_ok_defs)
  from chunk_loop_frame [OF this] q(2) assms(2) have nc: "\<not> p_use_chunked q"
    by (auto simp: feed_body_def chunk_frame_def)
  with q(2) qok have "p_buffer p = a" "p_headers_done p"
    by (auto simp: feed_body_def Let_def split: if_splits)
  then have "feed p b = feed_body (p\<lparr>p_buffer := a @ b\<rparr>)"
    by (simp add: feed_def)
  also have "\<dots> = feed_body (q\<lparr>p_buffer := a @ b\<rparr>)"
    using feed_body_again [OF nc q(2) start, of b] qok by simp
  also have "\<dots> = feed init_parser (a @ b)"
    using parse_head_buffer [of e ?p b] e q(1) find_sub_append [OF Some, of b] nd
    by (simp add: feed_def)
  finally show ?thesis .
qed

section \<open>Chunked bodies\<close>

definition chunk_bytes :: "bytes \<times> bytes \<Rightarrow> bytes" where
  "chunk_bytes c = fst c @ crlf @ snd c @ crlf"

definition chunk_ok :: "bytes \<times> bytes \<Rightarrow> bool" where
  "chunk_ok c \<longleftrightarrow> 13 \<notin> set (fst c) \<and> snd c \<noteq> [] \<and> chunk_size_of (fst c) = Some (length (snd c))"

lemma chunk_bytes_pair: "chunk_bytes (h, d) = h @ crlf @ d @ crlf"
  by (simp add: chunk_bytes_def)

lemma find_from_at:
  "13 \<notin> set h \<Longrightarrow> find_from crlf (length pre) (pre @ h @ crlf @ t) = Some (length pre + length h)"
  by (simp add: find_from_def find_sub_pair_append)

lemma chunk_loop_size:
  assumes "p_buffer p = pre @ h @ crlf @ t" and "\<not> p_chunk_done p" and "p_reading_size p" 
    and "13 \<notin> set h" and "chunk_size_of h = Some n" and "n \<noteq> 0"
  shows "chunk_loop p (length pre)
       = chunk_loop (p\<lparr>p_chunk_remaining := n, p_reading_size := False\<rparr>) (length pre + length h + 2)"
proof -
  have "length pre < length (p_buffer p)"
    using assms(1) by simp
  then show ?thesis
    using assms find_from_at [OF assms(4), of pre t]
    by (subst chunk_loop.simps) simp
qed

lemma chunk_loop_data:
  assumes "p_buffer p = pre @ d @ crlf @ t" and "\<not> p_chunk_done p" and "\<not> p_reading_size p" 
    and "p_chunk_remaining p = length d" and "d \<noteq> []"
  shows "chunk_loop p (length pre)
       = chunk_loop (p\<lparr>p_request := (p_request p)\<lparr>req_body := req_body (p_request p) @ d\<rparr>,
                       p_chunk_remaining := 0, p_reading_size := True\<rparr>) (length pre + length d + 2)"
  using assms by (subst chunk_loop.simps) (simp add: Let_def min_def)

lemma chunk_loop_chunks:
  assumes "p_buffer p = pre @ concat (map chunk_bytes cs) @ z @ crlf @ crlf @ rest"
    and "\<not> p_chunk_done p" and "p_reading_size p" 
    and "\<forall>c \<in> set cs. chunk_ok c" and "13 \<notin> set z" and "chunk_size_of z = Some 0"
  shows "snd (chunk_loop p (length pre)) = COMPLETE
       \<and> req_body (p_request (fst (chunk_loop p (length pre))))
         = req_body (p_request p) @ concat (map snd cs)"
  using assms
proof (induction cs arbitrary: p pre)
  case Nil
  then have "p_buffer p = pre @ z @ crlf @ crlf @ rest"
    by simp
  with Nil find_from_at [OF Nil.prems(5), of pre "crlf @ rest"] show ?case
    by (subst (1 2) chunk_loop.simps) simp
next
  case (Cons c cs)
  obtain h d where c: "c = (h, d)"
    by fastforce
  with Cons.prems have hd: "13 \<notin> set h" "d \<noteq> []" "chunk_size_of h = Some (length d)"
    by (auto simp: chunk_ok_def)
  let ?t = "concat (map chunk_bytes cs) @ z @ crlf @ crlf @ rest"
  let ?p1 = "p\<lparr>p_chunk_remaining := length d, p_reading_size := False\<rparr>"
  let ?p2 = "?p1\<lparr>p_request := (p_request p)\<lparr>req_body := req_body (p_request p) @ d\<rparr>,
                       p_chunk_remaining := 0, p_reading_size := True\<rparr>"
  have "chunk_loop p (length pre) = chunk_loop ?p1 (length (pre @ h @ crlf))"
    using Cons.prems hd c chunk_loop_size [of p pre h "d @ crlf @ ?t" "length d"]
    by (simp add: chunk_bytes_pair)
  also have "\<dots> = chunk_loop ?p2 (length (pre @ h @ crlf @ d @ crlf))"
    using Cons.prems hd c chunk_loop_data [of ?p1 "pre @ h @ crlf" d ?t]
    by (simp add: chunk_bytes_pair add.assoc)
  finally show ?case
    using Cons.IH [of ?p2 "pre @ h @ crlf @ d @ crlf"] Cons.prems c
    by (simp add: chunk_bytes_pair add.assoc)
qed

end
