(* ===== verification/Http_Requests.thy ===== *)
theory Http_Requests
  imports Http_Parser
begin

text \<open>
  The parser on whole requests.  The theory prints a request (request line, header lines,
  an empty line, the body), shows where the parser finds its parts, and derives the round
  trip for bodies with a Content-Length and for chunked bodies, the invariants of reachable
  parsers with concrete runs, and the defect of the chunk loop when a request arrives in
  several segments.
\<close>

section \<open>Printed requests\<close>

fun join_lines :: "bytes list \<Rightarrow> bytes" where
  "join_lines [] = []"
| "join_lines [l] = l"
| "join_lines (l # l' # ls) = l @ crlf @ join_lines (l' # ls)"

definition request_line :: "bytes \<Rightarrow> bytes \<Rightarrow> bytes \<Rightarrow> bytes" where
  "request_line m u v = m @ 32 # u @ 32 # v"

definition print_request :: "bytes \<Rightarrow> bytes \<Rightarrow> bytes \<Rightarrow> bytes smap \<Rightarrow> bytes \<Rightarrow> bytes" where
  "print_request m u v hs body =
     concat (map (\<lambda>l. l @ crlf) (request_line m u v # map header_line hs)) @ crlf @ body"

definition line_ok :: "bytes \<Rightarrow> bool" where
  "line_ok l \<longleftrightarrow> l \<noteq> [] \<and> 13 \<notin> set l"

lemma concat_join: "ls \<noteq> [] \<Longrightarrow> concat (map (\<lambda>l. l @ crlf) ls) = join_lines ls @ crlf"
  by (induction ls rule: join_lines.induct) simp_all

lemma find_end_join:
  assumes "ls \<noteq> []" and "\<forall>l \<in> set ls. line_ok l"
  shows "find_sub (crlf @ crlf) (join_lines ls @ crlf @ crlf @ rest) = Some (length (join_lines ls))"
  using find_end_of_lines [of ls rest] concat_join [OF assms(1)] assms by (simp add: line_ok_def)

lemma find_crlf_None: "13 \<notin> set l \<Longrightarrow> find_sub crlf l = None"
  using find_sub_skip [of 13 l "[10]" "[]"] by simp

lemma lines_of_join: "\<forall>l \<in> set ls. line_ok l \<Longrightarrow> lines_of (join_lines ls) = ls"
proof (induction ls rule: join_lines.induct)
  case 1
  then show ?case by (simp add: lines_of.simps)
next
  case (2 l)
  then have "l \<noteq> []" "next_line l = (l, [])"
    by (simp_all add: line_ok_def next_line_def find_crlf_None)
  then show ?case
    by (simp add: lines_of.simps [of l] lines_of.simps [of "[]"])
next
  case (3 l l' ls)
  then have "l \<noteq> []" "next_line (l @ crlf @ join_lines (l' # ls)) = (l, join_lines (l' # ls))"
    by (simp_all add: line_ok_def next_line_def find_sub_pair_append)
  with 3 show ?case
    by (simp add: lines_of.simps [of "l @ 13 # 10 # join_lines (l' # ls)"])
qed

text \<open>A header that the parser stores as it stands.\<close>

definition header_ok :: "bytes \<times> bytes \<Rightarrow> bool" where
  "header_ok kv \<longleftrightarrow> (case kv of (k, v) \<Rightarrow>
     (\<forall>c \<in> set k. c \<noteq> 58 \<and> c \<noteq> 32 \<and> c \<noteq> 9 \<and> c \<noteq> 0 \<and> c \<noteq> 13)
     \<and> (\<forall>c \<in> set v. c \<noteq> 0 \<and> c \<noteq> 13)
     \<and> v \<noteq> [] \<and> \<not> is_ws (hd v) \<and> \<not> is_ws (last v))"

lemma trim_value_blank:
  assumes "v \<noteq> []" "\<not> is_ws (hd v)" "\<not> is_ws (last v)"
  shows "trim_value (32 # v) = v"
proof -
  have a: "(\<forall>c \<in> set (32 # v). is_ws c) = False" and b: "(\<forall>c \<in> set v. is_ws c) = False"
    using assms hd_in_set by fastforce+
  have c: "dropWhile is_ws (32 # v) = v"
    using assms by (cases v) (simp_all add: is_ws_def)
  have d: "dropWhile is_ws (rev v) = rev v"
    using assms by (cases v rule: rev_cases) simp_all
  show ?thesis
    by (simp only: trim_value_def Let_def a b c d if_False rev_rev_ident)
qed

lemma parse_header_line_print:
  assumes "header_ok (k, v)"
  shows "parse_header_line p (header_line (k, v)) =
     (let (q, ok) = track_content_length p (lower k) v
      in if ok then (store_header (track_transfer_encoding q (lower k) v) k v, True) else (q, False))"
proof -
  from assms have "find_sub [58] (k @ 58 # 32 # v) = Some (length k)"
    by (intro find_sub_single_append) (auto simp: header_ok_def)
  moreover from assms have "trim_value (32 # v) = v"
    by (intro trim_value_blank) (auto simp: header_ok_def)
  ultimately show ?thesis
    using assms by (auto simp: parse_header_line_def header_line_def header_ok_def lit_def)
qed

definition plain_header :: "bytes \<times> bytes \<Rightarrow> bool" where
  "plain_header kv \<longleftrightarrow> lower (fst kv) \<noteq> lit ''content-length'' \<and> lower (fst kv) \<noteq> lit ''transfer-encoding''"

lemma parse_plain_lines:
  assumes "\<forall>h \<in> set hs. header_ok h \<and> plain_header h"
    and "distinct (map fst (req_headers (p_request p) @ hs))"
  shows "parse_lines p (map header_line hs)
       = (p\<lparr>p_request := (p_request p)\<lparr>req_headers := req_headers (p_request p) @ hs\<rparr>\<rparr>, True)"
  using assms
proof (induction hs arbitrary: p)
  case Nil
  then show ?case by simp
next
  case (Cons h hs)
  obtain k v where h: "h = (k, v)"
    by fastforce
  with Cons.prems have "parse_header_line p (header_line h) = (store_header p k v, True)"
    using parse_header_line_print [of k v p]
    by (simp add: plain_header_def track_content_length_def track_transfer_encoding_def)
  moreover have "req_headers (p_request (store_header p k v)) = req_headers (p_request p) @ [h]"
    using Cons.prems(2) h by (simp add: store_header_def hput_new)
  ultimately show ?case
    using Cons.IH [of "store_header p k v"] Cons.prems h by (simp add: store_header_def)
qed

lemma parse_lines_append:
  "parse_lines p ls = (q, True) \<Longrightarrow> parse_lines p (ls @ ls') = parse_lines q ls'"
  by (induction ls arbitrary: p) (auto split: prod.splits if_splits)

text \<open>The parts of a request line.\<close>

definition target_ok :: "bytes \<Rightarrow> bool" where
  "target_ok s \<longleftrightarrow> (\<forall>c \<in> set s. c \<noteq> 32 \<and> c \<noteq> 0 \<and> c \<noteq> 13)"

definition version_ok :: "bytes \<Rightarrow> bool" where
  "version_ok v \<longleftrightarrow> v = lit ''HTTP/1.0'' \<or> v = lit ''HTTP/1.1''"

lemma version_ok_chars: "version_ok v \<Longrightarrow> 0 \<notin> set v \<and> 13 \<notin> set v"
  unfolding version_ok_def by (elim disjE) (simp_all add: lit_def)

lemma parse_request_line_print:
  assumes "target_ok m" and "target_ok u" and "version_ok v"
  shows "parse_request_line p (request_line m u v)
       = (p\<lparr>p_request := (p_request p)\<lparr>method_str := m, req_method := method_of m,
                                       uri := u, version := v\<rparr>\<rparr>, True)"
proof -
  have z: "0 \<notin> set (request_line m u v)"
    using assms version_ok_chars by (auto simp: request_line_def target_ok_def)
  have "find_sub [32] (m @ 32 # u @ 32 # v) = Some (length m)"
    using assms by (intro find_sub_single_append) (auto simp: target_ok_def)
  moreover have "find_sub [32] (u @ 32 # v) = Some (length u)"
    using assms by (intro find_sub_single_append) (auto simp: target_ok_def)
  ultimately show ?thesis
    using assms(3) z by (auto simp: parse_request_line_def request_line_def version_ok_def)
qed

lemma request_line_ok:
  "target_ok m \<Longrightarrow> target_ok u \<Longrightarrow> version_ok v \<Longrightarrow> line_ok (request_line m u v)"
  using version_ok_chars [of v] by (auto simp: request_line_def target_ok_def line_ok_def)

lemma header_line_ok: "header_ok h \<Longrightarrow> line_ok (header_line h)"
  by (auto simp: header_ok_def header_line_def line_ok_def lit_def split: prod.splits)

text \<open>The head of a printed request: where it ends, and what the header part makes of it.\<close>

lemma parse_head_print:
  assumes "target_ok m" and "target_ok u" and "version_ok v" and "hs \<noteq> []" and "\<forall>h \<in> set hs. header_ok h"
    and "data = print_request m u v hs body"
  shows "\<exists>e. find_sub (crlf @ crlf) data = Some e \<and> drop (e + 4) data = body \<and> e + 4 \<le> length data
       \<and> parse_head (p\<lparr>p_buffer := data\<rparr>) e =
         (let (q, ok) = parse_lines (p\<lparr>p_buffer := data, p_request := (p_request p)
                \<lparr>method_str := m, req_method := method_of m, uri := u, version := v\<rparr>\<rparr>)
                (map header_line hs)
          in if \<not> ok then (q, False)
             else (parse_uri ((validate_headers q)\<lparr>p_headers_done := True, p_body_start := e + 4\<rparr>), True))"
proof -
  let ?rl = "request_line m u v"
  let ?ls = "map header_line hs"
  let ?e = "length (join_lines (?rl # ?ls))"
  have ok: "\<forall>l \<in> set (?rl # ?ls). line_ok l"
    using assms request_line_ok header_line_ok by simp
  have data: "data = join_lines (?rl # ?ls) @ crlf @ crlf @ body"
    using assms(6) concat_join [of "?rl # ?ls"] by (simp add: print_request_def)
  have e: "find_sub (crlf @ crlf) data = Some ?e"
    unfolding data by (rule find_end_join) (use ok in auto)
  have head: "take ?e data = join_lines (?rl # ?ls)"
    using data by simp
  have join: "join_lines (?rl # ?ls) = ?rl @ crlf @ join_lines ?ls"
    using assms(4) by (cases hs) simp_all
  have first: "find_sub crlf (join_lines (?rl # ?ls)) = Some (length ?rl)"
    unfolding join using ok by (simp add: line_ok_def find_sub_pair_append)
  have lines: "lines_of (join_lines ?ls) = ?ls"
    using ok by (simp add: lines_of_join)
  have "drop (length ?rl + 2) (join_lines (?rl # ?ls)) = join_lines ?ls"
    and "take (length ?rl) (join_lines (?rl # ?ls)) = ?rl"
    unfolding join by simp_all
  then have "parse_head (p\<lparr>p_buffer := data\<rparr>) ?e =
         (let (q, ok) = parse_lines (p\<lparr>p_buffer := data, p_request := (p_request p)
                \<lparr>method_str := m, req_method := method_of m, uri := u, version := v\<rparr>\<rparr>)
                ?ls
          in if \<not> ok then (q, False)
             else (parse_uri ((validate_headers q)\<lparr>p_headers_done := True, p_body_start := ?e + 4\<rparr>), True))"
    using head first lines parse_request_line_print [OF assms(1-3)]
    by (simp add: parse_head_def parse_header_lines_eq)
  then show ?thesis
    using e data by (intro exI [of _ ?e]) simp
qed

lemma parse_uri_split:
  assumes "query_string (p_request p) = []"
  shows "parse_uri p = p\<lparr>p_request := (p_request p)
     \<lparr>path := takeWhile (\<lambda>x. x \<noteq> 63) (uri (p_request p)),
      query_string := tl (dropWhile (\<lambda>x. x \<noteq> 63) (uri (p_request p)))\<rparr>\<rparr>"
proof (cases "find_sub [63] (uri (p_request p))")
  case None
  then have tw: "takeWhile (\<lambda>x. x \<noteq> 63) (uri (p_request p)) = uri (p_request p)"
    and dw: "dropWhile (\<lambda>x. x \<noteq> 63) (uri (p_request p)) = []"
    by (simp_all only: find_sub_None_takeWhile)
  have "(p_request p)\<lparr>path := x, query_string := []\<rparr> = (p_request p)\<lparr>path := x\<rparr>" for x
    using assms by (cases "p_request p") simp
  then show ?thesis
    unfolding tw dw using None by (simp add: parse_uri_def Let_def)
next
  case (Some q)
  with find_sub_takeWhile [OF this] show ?thesis by (simp add: parse_uri_def Let_def)
qed

lemma to_dec_plain: "c \<in> set (to_dec n) \<Longrightarrow> c \<noteq> 0 \<and> c \<noteq> 13 \<and> \<not> is_ws c"
  using to_dec_digits [of c n] by (auto simp: digit_val_def is_ws_def)

lemma header_ok_dec:
  "\<forall>c \<in> set k. c \<noteq> 58 \<and> c \<noteq> 32 \<and> c \<noteq> 9 \<and> c \<noteq> 0 \<and> c \<noteq> 13 \<Longrightarrow> header_ok (k, to_dec n)"
  using to_dec_plain [of _ n] by (simp add: header_ok_def)

lemma parse_lines_content_length:
  assumes "header_ok (k, to_dec n)" and "lower k = lit ''content-length''" and "n < 2 ^ 64"
    and "p_cl_count p = 0" and "k \<notin> fst ` set (req_headers (p_request p))"
  shows "parse_lines p [header_line (k, to_dec n)]
       = (p\<lparr>p_cl_count := 1, p_has_content_length := True, p_content_length := n,
            p_request := (p_request p)\<lparr>req_headers := req_headers (p_request p) @ [(k, to_dec n)]\<rparr>\<rparr>, True)"
proof -
  have "lit ''content-length'' \<noteq> lit ''transfer-encoding''"
    by (simp add: lit_def)
  moreover have "from_chars 10 (to_dec n) = Some n"
    using from_chars_to_dec [OF assms(3), of "[]"] by simp
  ultimately show ?thesis
    using assms parse_header_line_print [OF assms(1), of p]
    by (simp add: track_content_length_def track_transfer_encoding_def store_header_def hput_new)
qed

text \<open>The whole parser on a printed request with a Content-Length.\<close>

lemma feed_printed_request:
  assumes "target_ok m" and "target_ok u" and "version_ok v"
    and "\<forall>h \<in> set hs. header_ok h \<and> plain_header h" and "distinct (map fst hs)"
    and "length body < 2 ^ 64"
    and "hs' = hs @ [(lit ''Content-Length'', to_dec (length body))]"
  shows "snd (feed init_parser (print_request m u v hs' body)) = COMPLETE
       \<and> \<not> p_use_chunked (fst (feed init_parser (print_request m u v hs' body)))
       \<and> p_headers_done (fst (feed init_parser (print_request m u v hs' body)))
       \<and> p_request (fst (feed init_parser (print_request m u v hs' body)))
         = \<lparr>req_method = method_of m, method_str = m, uri = u,
            path = takeWhile (\<lambda>c. c \<noteq> 63) u, query_string = tl (dropWhile (\<lambda>c. c \<noteq> 63) u),
            version = v, req_headers = hs', req_body = body\<rparr>"
proof -
  let ?cl = "(lit ''Content-Length'', to_dec (length body))"
  define data where "data = print_request m u v hs' body"
  define q0 where "q0 = init_parser\<lparr>p_buffer := data, p_request := empty_request
                \<lparr>method_str := m, req_method := method_of m, uri := u, version := v\<rparr>\<rparr>"
  have init: "\<not> p_headers_done init_parser" "p_buffer init_parser = []" "p_request init_parser = empty_request"
    by (simp_all add: init_parser_def)
  have clo: "header_ok ?cl"
    by (rule header_ok_dec) (simp add: lit_def)
  have cll: "lower (lit ''Content-Length'') = lit ''content-length''"
    by (simp add: lit_def lower_def tolower_def)
  have new: "lit ''Content-Length'' \<notin> fst ` set hs"
    using assms(4) cll by (auto simp: plain_header_def)
  have "\<forall>h \<in> set hs'. header_ok h" "hs' \<noteq> []"
    using assms(4,7) clo by auto
  from parse_head_print [OF assms(1-3) this(2,1) data_def, of init_parser]
  obtain e where e: "find_sub (crlf @ crlf) data = Some e" "drop (e + 4) data = body" "e + 4 \<le> length data"
    "parse_head (init_parser\<lparr>p_buffer := data\<rparr>) e =
         (let (q, ok) = parse_lines q0 (map header_line hs')
          in if \<not> ok then (q, False)
             else (parse_uri ((validate_headers q)\<lparr>p_headers_done := True, p_body_start := e + 4\<rparr>), True))"
    by (auto simp: q0_def init)
  define q1 where "q1 = q0\<lparr>p_request := (p_request q0)\<lparr>req_headers := hs\<rparr>\<rparr>"
  have "parse_lines q0 (map header_line hs) = (q1, True)"
    using parse_plain_lines [of hs q0] assms(4,5)
    by (simp add: q1_def q0_def init_parser_def empty_request_def)
  from parse_lines_append [OF this, of "[header_line ?cl]"]
    parse_lines_content_length [OF clo cll assms(6), of q1] new
  have "parse_lines q0 (map header_line hs') =
      (q1\<lparr>p_cl_count := 1, p_has_content_length := True, p_content_length := length body,
            p_request := (p_request q1)\<lparr>req_headers := hs'\<rparr>\<rparr>, True)"
    by (simp add: assms(7) q1_def q0_def init_parser_def)
  with e(4) have "parse_head (init_parser\<lparr>p_buffer := data\<rparr>) e =
      (parse_uri (q1\<lparr>p_cl_count := 1, p_has_content_length := True, p_content_length := length body,
            p_request := (p_request q1)\<lparr>req_headers := hs'\<rparr>, p_headers_done := True,
            p_body_start := e + 4\<rparr>), True)" (is "_ = (?r, True)")
    by (simp add: validate_headers_def q1_def q0_def init_parser_def)
  then have fb: "feed init_parser data = feed_body ?r"
    using e(1) init by (simp add: feed_def)
  show ?thesis
    unfolding data_def [symmetric] fb using e(2,3)
    by (auto simp: parse_uri_split feed_body_def q1_def q0_def init_parser_def empty_request_def)
qed


text \<open>
  C1. Round trip.  A request printed with any method, target, version, header fields and body,
  closed by a Content-Length field, is parsed back completely: method, target split at the
  question mark, version, all header fields in order, and exactly the body.
\<close>

theorem request_roundtrip:
  assumes "target_ok m" and "target_ok u" and "version_ok v"
    and "\<forall>h \<in> set hs. header_ok h \<and> plain_header h" and "distinct (map fst hs)"
    and "length body < 2 ^ 64"
    and "hs' = hs @ [(lit ''Content-Length'', to_dec (length body))]"
  shows "snd (feed init_parser (print_request m u v hs' body)) = COMPLETE
       \<and> p_request (fst (feed init_parser (print_request m u v hs' body)))
         = \<lparr>req_method = method_of m, method_str = m, uri = u,
            path = takeWhile (\<lambda>c. c \<noteq> 63) u, query_string = tl (dropWhile (\<lambda>c. c \<noteq> 63) u),
            version = v, req_headers = hs', req_body = body\<rparr>"
  using feed_printed_request [OF assms] by blast

theorem request_roundtrip_witness:
  "p_request (fst (feed init_parser (print_request (lit ''GET'') (lit ''/a?b'') (lit ''HTTP/1.1'')
       [(lit ''Host'', lit ''x''), (lit ''Content-Length'', to_dec (length (lit ''hi'')))] (lit ''hi''))))
   = \<lparr>req_method = GET, method_str = lit ''GET'', uri = lit ''/a?b'', path = lit ''/a'',
      query_string = lit ''b'', version = lit ''HTTP/1.1'',
      req_headers = [(lit ''Host'', lit ''x''), (lit ''Content-Length'', to_dec (length (lit ''hi'')))],
      req_body = lit ''hi''\<rparr>"
  using request_roundtrip [of "lit ''GET''" "lit ''/a?b''" "lit ''HTTP/1.1''"
      "[(lit ''Host'', lit ''x'')]" "lit ''hi''"]
  by (simp add: target_ok_def version_ok_def header_ok_def plain_header_def is_ws_def
      method_of_def lit_def lower_def tolower_def)

definition demo_request :: bytes where
  "demo_request = print_request (lit ''GET'') (lit ''/'') (lit ''HTTP/1.1'')
     [(lit ''Content-Length'', to_dec (length (lit ''hi'')))] (lit ''hi'')"

lemma feed_demo_request:
  "snd (feed init_parser demo_request) = COMPLETE
   \<and> \<not> p_use_chunked (fst (feed init_parser demo_request))
   \<and> p_headers_done (fst (feed init_parser demo_request))"
  using feed_printed_request [of "lit ''GET''" "lit ''/''" "lit ''HTTP/1.1''" "[]" "lit ''hi''"]
  by (simp add: demo_request_def target_ok_def version_ok_def lit_def)

text \<open>
  C2. Request-smuggling protection, in every state a parser can reach by feeding and resetting
  it, however the input is cut: once the head is parsed, the body is read as chunks exactly when a line of the head is named
  Transfer-Encoding, in any case, and has the word \<open>chunked\<close> in its value; and then a Content-Length plays no part any more.
\<close>

theorem smuggling_protection:
  assumes "parser_reachable p" and "p_headers_done p"
  shows "(p_use_chunked p \<longleftrightarrow> (\<exists>l \<in> set (head_lines (p_buffer p)). te_line l))
       \<and> ((\<exists>l \<in> set (head_lines (p_buffer p)). te_line l) \<longrightarrow> p_content_length p = 0 \<and> \<not> p_has_content_length p)"
  using reachable_parser_ok [OF assms(1)] reachable_te_ok [OF assms(1)] assms(2)
  by (auto simp: parser_ok_def te_ok_def te_seen_def)

text \<open>A head that is accepted is kept in the buffer.\<close>

lemma feed_head_done:
  assumes "find_sub (crlf @ crlf) data = Some e" and "parse_head (init_parser\<lparr>p_buffer := data\<rparr>) e = (q, True)"
  shows "p_headers_done (fst (feed init_parser data)) \<and> p_buffer (fst (feed init_parser data)) = data"
proof -
  have ok: "parser_ok (init_parser\<lparr>p_buffer := data\<rparr>)" "\<not> p_headers_done (init_parser\<lparr>p_buffer := data\<rparr>)"
    by (simp_all add: parser_ok_defs init_parser_def empty_request_def)
  have q: "parser_ok q" "p_buffer q = data" "p_headers_done q"
    using parse_head_ok [OF ok _ assms(2)] find_sub_SomeD [OF assms(1)] by simp_all
  have "p_headers_done (fst (feed_body q)) \<and> p_buffer (fst (feed_body q)) = data"
    using chunk_loop_frame [of "p_body_start q" q] q by (auto simp: feed_body_def parser_ok_defs chunk_frame_def Let_def)
  moreover have "feed init_parser data = feed_body q"
    using assms by (simp add: feed_def init_parser_def)
  ultimately show ?thesis by simp
qed

text \<open>A head with both headers.\<close>

definition both_lengths :: bytes where
  "both_lengths = lit ''POST / HTTP/1.1'' @ crlf @ lit ''Content-Length: 5'' @ crlf @ lit ''transfer-ENCODING:  gzip, Chunked '' @ crlf @ crlf"

lemma both_lengths_head:
  "find_sub (crlf @ crlf) both_lengths = Some 70" "\<exists>q. parse_head (init_parser\<lparr>p_buffer := both_lengths\<rparr>) 70 = (q, True)"
  "lit ''transfer-ENCODING:  gzip, Chunked '' \<in> set (head_lines both_lengths)"
proof -
  let ?te = "lit ''transfer-ENCODING:  gzip, Chunked ''" and ?cl = "lit ''Content-Length: 5''"
  show h: "find_sub (crlf @ crlf) both_lengths = Some 70"
    by code_simp
  have f: "find_sub crlf (take 70 both_lengths) = Some 15" "take 15 (take 70 both_lengths) = lit ''POST / HTTP/1.1''"
    "lines_of (drop (15 + 2) (take 70 both_lengths)) = [?cl, ?te]"
    by code_simp+
  then show "?te \<in> set (head_lines both_lengths)"
    unfolding head_lines_def h by simp
  have cl: "find_sub [58] ?cl = Some 14" "trim_value (drop (14 + 1) ?cl) = [53]" "lower (take 14 ?cl) = lit ''content-length''"
    "0 \<notin> set ?cl" "32 \<notin> set (take 14 ?cl)" "9 \<notin> set (take 14 ?cl)"
    by code_simp+
  have te: "find_sub [58] ?te = Some 17" "lower (take 17 ?te) = lit ''transfer-encoding''"
    "0 \<notin> set ?te" "32 \<notin> set (take 17 ?te)" "9 \<notin> set (take 17 ?te)"
    by code_simp+
  have num: "from_chars 10 [53] = Some 5"
    by (simp add: from_chars_def digit_val_def)
  have "snd (parse_header_line q ?cl)" if "p_cl_count q = 0" for q
    using that unfolding parse_header_line_def cl(1) option.case Let_def cl(2,3) track_content_length_def num by (simp add: cl)
  moreover have "snd (parse_header_line q ?te)" for q
    unfolding parse_header_line_def te(1) option.case Let_def te(2) track_content_length_def by (simp add: te, simp add: lit_def)
  ultimately have lines: "snd (parse_lines q [?cl, ?te])" if "p_cl_count q = 0" for q
    using that by (auto simp: case_prod_unfold)
  have "snd (parse_request_line q (lit ''POST / HTTP/1.1''))" for q
    by (simp add: parse_request_line_def lit_def starts_with_def Let_def)
  moreover have "p_cl_count (fst (parse_request_line (init_parser\<lparr>p_buffer := both_lengths\<rparr>) l)) = 0" for l
    using parse_request_line_cl [of "init_parser\<lparr>p_buffer := both_lengths\<rparr>" l] by (simp add: init_parser_def)
  moreover have b: "p_buffer (init_parser\<lparr>p_buffer := both_lengths\<rparr>) = both_lengths"
    by simp
  ultimately show "\<exists>q. parse_head (init_parser\<lparr>p_buffer := both_lengths\<rparr>) 70 = (q, True)"
    using lines unfolding parse_head_def Let_def b f(1) option.case f(2) parse_header_lines_eq f(3)
    by (simp add: case_prod_unfold)
qed

theorem smuggling_protection_witness:
  "let p = fst (feed init_parser both_lengths) in p_use_chunked p \<and> p_content_length p = 0 \<and> \<not> p_has_content_length p"
proof -
  have r: "parser_reachable (fst (feed init_parser both_lengths))"
    by (intro parser_reachable.intros)
  have "te_line (lit ''transfer-ENCODING:  gzip, Chunked '')"
    unfolding te_line_def contains_def
    by (intro exI [of _ "lit ''transfer-ENCODING''"] exI [of _ "lit ''  gzip, Chunked ''"] conjI exI [of _ "lit ''  gzip, ''"] exI [of _ "lit '' ''"])
      (simp_all add: lit_def lower_def tolower_def)
  then show ?thesis
    using both_lengths_head feed_head_done smuggling_protection [OF r] by (fastforce simp: Let_def)
qed

text \<open>
  When a request without chunked encoding is complete, its body has exactly Content-Length
  bytes, and they are the bytes of the input that follow the head.
\<close>

theorem complete_body_is_content_length:
  assumes "parser_reachable p" and "feed p data = (p', COMPLETE)" and "\<not> p_use_chunked p'"
  shows "length (req_body (p_request p')) = p_content_length p'
       \<and> req_body (p_request p') = take (p_content_length p') (drop (p_body_start p') (p_buffer p'))"
  by (rule feed_complete [OF assms])

theorem complete_body_is_content_length_witness:
  "length (req_body (p_request (fst (feed init_parser demo_request))))
   = p_content_length (fst (feed init_parser demo_request))"
  using complete_body_is_content_length [OF parser_reachable.fresh, of demo_request
      "fst (feed init_parser demo_request)"] feed_demo_request
  by (metis prod.collapse)

theorem content_length_segmentation_witness:
  "feed (fst (feed init_parser (lit ''GET / H''))) (lit ''TTP'')
   = feed init_parser (lit ''GET / H'' @ lit ''TTP'')"
proof -
  have "feed init_parser (lit ''GET / H'') = (init_parser\<lparr>p_buffer := lit ''GET / H''\<rparr>, INCOMPLETE)"
    by (simp add: feed_def init_parser_def lit_def starts_with_def)
  from content_length_segmentation [OF this, of "lit ''TTP''"] this show ?thesis
    by (simp add: init_parser_def)
qed

theorem duplicate_content_length_rejected_witness:
  "snd (feed init_parser
     (join_lines [lit ''GET'', lit ''content-length:1'', lit ''Content-Length:2''] @ crlf @ crlf)) = ERROR"
    (is "snd (feed init_parser (join_lines ?ls @ crlf @ crlf)) = ERROR")
proof (rule duplicate_content_length_rejected)
  have ok: "\<forall>l \<in> set ?ls. line_ok l"
    by (simp add: line_ok_def lit_def)
  show "find_sub (crlf @ crlf) (join_lines ?ls @ crlf @ crlf) = Some (length (join_lines ?ls))"
    using find_end_join [of ?ls "[]"] ok by simp
  show "find_sub crlf (take (length (join_lines ?ls)) (join_lines ?ls @ crlf @ crlf)) = Some 3"
    by (simp add: lit_def starts_with_def)
  have "drop (3 + 2) (take (length (join_lines ?ls)) (join_lines ?ls @ crlf @ crlf)) = join_lines (tl ?ls)"
    by simp
  then have "lines_of (drop (3 + 2) (take (length (join_lines ?ls)) (join_lines ?ls @ crlf @ crlf))) = tl ?ls"
    using lines_of_join [of "tl ?ls"] ok by simp
  moreover have "is_cl_line (lit ''content-length:1'')" "is_cl_line (lit ''Content-Length:2'')"
    by (simp_all add: is_cl_line_def lit_def lower_def tolower_def)
  ultimately show "2 \<le> length (filter is_cl_line
      (lines_of (drop (3 + 2) (take (length (join_lines ?ls)) (join_lines ?ls @ crlf @ crlf)))))"
    by simp
qed

abbreviation (input) te_chunked :: "bytes \<times> bytes" where
  "te_chunked \<equiv> (lit ''Transfer-Encoding'', lit ''chunked'')"

lemma te_chunked_facts:
  "header_ok te_chunked" "lower (lit ''Transfer-Encoding'') = lit ''transfer-encoding''"
  "lit ''transfer-encoding'' \<noteq> lit ''content-length''"
  "find_sub (lit ''chunked'') (lower (lit ''chunked'')) = Some 0"
  by (simp_all add: header_ok_def is_ws_def lit_def lower_def tolower_def starts_with_def)

lemma parse_lines_te:
  assumes "lit ''Transfer-Encoding'' \<notin> fst ` set (req_headers (p_request p))"
  shows "parse_lines p [header_line te_chunked]
       = (p\<lparr>p_has_te_chunked := True,
            p_request := (p_request p)\<lparr>req_headers := req_headers (p_request p) @ [te_chunked]\<rparr>\<rparr>, True)"
  using assms parse_header_line_print [OF te_chunked_facts(1), of p] te_chunked_facts
  by (simp add: track_content_length_def track_transfer_encoding_def store_header_def hput_new)

text \<open>The header lines of a request whose body is chunked, with or without a Content-Length.\<close>

lemma parse_chunked_lines:
  assumes "\<forall>h \<in> set hs. header_ok h \<and> plain_header h" and "distinct (map fst hs)"
    and "cl = [] \<or> cl = [(lit ''Content-Length'', to_dec n)] \<and> n < 2 ^ 64"
    and "req_headers (p_request p) = []" and "p_cl_count p = 0" and "\<not> p_has_te_chunked p" 
    and "p_content_length p = 0" and "\<not> p_has_content_length p"
  shows "\<exists>q. parse_lines p (map header_line (hs @ cl @ [te_chunked])) = (q, True)
       \<and> p_has_te_chunked q \<and> same_body p q"
proof -
  have lo: "lower (lit ''Content-Length'') = lit ''content-length''"
    by (simp add: lit_def lower_def tolower_def)
  let ?p1 = "p\<lparr>p_request := (p_request p)\<lparr>req_headers := hs\<rparr>\<rparr>"
  have new: "lit ''Content-Length'' \<notin> fst ` set hs" "lit ''Transfer-Encoding'' \<notin> fst ` set hs"
    using assms(1) lo te_chunked_facts(2) by (auto simp: plain_header_def)
  have p1: "parse_lines p (map header_line hs) = (?p1, True)"
    using parse_plain_lines [of hs p] assms(1,2,4) by simp
  obtain p2 where p2: "parse_lines p (map header_line (hs @ cl)) = (p2, True)"
    "req_headers (p_request p2) = hs @ cl"
    using assms(3)
  proof (elim disjE conjE)
    assume "cl = []"
    then show ?thesis using p1 that [of ?p1] by simp
  next
    assume cl: "cl = [(lit ''Content-Length'', to_dec n)]" and n: "n < 2 ^ 64"
    have "header_ok (lit ''Content-Length'', to_dec n)"
      by (rule header_ok_dec) (simp add: lit_def)
    from parse_lines_content_length [OF this lo n, of ?p1] new assms(5)
      parse_lines_append [OF p1, of "[header_line (lit ''Content-Length'', to_dec n)]"] cl
    show ?thesis using that by simp
  qed
  have "lit ''Transfer-Encoding'' \<notin> fst ` set (hs @ cl)"
    using new assms(3) by (auto simp: lit_def)
  from parse_lines_te [of p2] this p2 parse_lines_append [OF p2(1), of "[header_line te_chunked]"]
  obtain q where q: "parse_lines p (map header_line (hs @ cl @ [te_chunked])) = (q, True)"
    "p_has_te_chunked q"
    by simp
  then show ?thesis
    using parse_lines_same [of p "map header_line (hs @ cl @ [te_chunked])"] by auto
qed

text \<open>
  A chunked request that arrives in one segment is complete, and its body is the
  concatenation of the chunk data, also when the head holds a Content-Length, which is
  ignored, and whatever follows the last chunk.
\<close>

theorem chunked_request_parsed:
  assumes "target_ok m" and "target_ok u" and "version_ok v"
    and "\<forall>h \<in> set hs. header_ok h \<and> plain_header h" and "distinct (map fst hs)"
    and "cl = [] \<or> cl = [(lit ''Content-Length'', to_dec n)] \<and> n < 2 ^ 64"
    and "\<forall>c \<in> set cs. chunk_ok c" and "13 \<notin> set z" and "chunk_size_of z = Some 0"
    and "data = print_request m u v (hs @ cl @ [te_chunked])
                  (concat (map chunk_bytes cs) @ z @ crlf @ crlf @ rest)"
  shows "snd (feed init_parser data) = COMPLETE
       \<and> req_body (p_request (fst (feed init_parser data))) = concat (map snd cs)"
proof -
  let ?hs = "hs @ cl @ [te_chunked]"
  define q0 where "q0 = init_parser\<lparr>p_buffer := data, p_request := empty_request
                \<lparr>method_str := m, req_method := method_of m, uri := u, version := v\<rparr>\<rparr>"
  have cl: "\<forall>h \<in> set cl. header_ok h"
    using assms(6) header_ok_dec [of "lit ''Content-Length''" n] by (auto simp: lit_def)
  then have "\<forall>h \<in> set ?hs. header_ok h" "?hs \<noteq> []"
    using assms(4) te_chunked_facts(1) by auto
  from parse_head_print [OF assms(1-3) this(2,1) assms(10), of init_parser]
  obtain e where e: "find_sub (crlf @ crlf) data = Some e" "e + 4 \<le> length data"
    "drop (e + 4) data = concat (map chunk_bytes cs) @ z @ crlf @ crlf @ rest"
    "parse_head (init_parser\<lparr>p_buffer := data\<rparr>) e =
         (let (q, ok) = parse_lines q0 (map header_line ?hs)
          in if \<not> ok then (q, False)
             else (parse_uri ((validate_headers q)\<lparr>p_headers_done := True, p_body_start := e + 4\<rparr>), True))"
    by (auto simp: q0_def init_parser_def)
  obtain q where q: "parse_lines q0 (map header_line ?hs) = (q, True)" "p_has_te_chunked q" "same_body q0 q"
    using parse_chunked_lines [OF assms(4-6), of q0]
    by (auto simp: q0_def init_parser_def empty_request_def)
  define r where "r = parse_uri ((validate_headers q)\<lparr>p_headers_done := True, p_body_start := e + 4\<rparr>)"
  have r: "p_use_chunked r" "p_body_start r = e + 4" "p_buffer r = data" "\<not> p_chunk_done r"
    "p_reading_size r" "req_body (p_request r) = []"
    using q(2,3) unfolding r_def parse_uri_def
    by (simp_all add: same_body_def validate_headers_def q0_def init_parser_def empty_request_def
        Let_def split: option.split)
  have f: "feed init_parser data = chunk_loop r (length (take (e + 4) data))"
    using e q(1) r by (simp add: feed_def init_parser_def r_def feed_body_def)
  have b: "p_buffer r = take (e + 4) data @ concat (map chunk_bytes cs) @ z @ crlf @ crlf @ rest"
    using r(3) e(3) append_take_drop_id [of "e + 4" data] by simp
  from chunk_loop_chunks [OF b r(4,5) assms(7-9)] r(6) show ?thesis
    unfolding f by simp
qed

theorem chunked_request_parsed_witness:
  "req_body (p_request (fst (feed init_parser
     (print_request (lit ''POST'') (lit ''/'') (lit ''HTTP/1.1'')
        [(lit ''Content-Length'', to_dec 9), te_chunked]
        (lit ''2'' @ crlf @ lit ''hi'' @ crlf @ lit ''0'' @ crlf @ crlf))))) = lit ''hi''"
proof -
  have "chunk_size_of (lit ''2'') = Some 2" "chunk_size_of (lit ''0'') = Some 0"
    by (simp_all add: chunk_size_of_def from_chars_def digit_val_def lit_def)
  with chunked_request_parsed [of "lit ''POST''" "lit ''/''" "lit ''HTTP/1.1''" "[]"
      "[(lit ''Content-Length'', to_dec 9)]" 9 "[(lit ''2'', lit ''hi'')]" "lit ''0''" _ "[]"]
  show ?thesis
    by (simp add: target_ok_def version_ok_def chunk_ok_def chunk_bytes_def lit_def)
qed

lemma chunk_loop_short:
  assumes "p_buffer p = pre @ h @ crlf @ d" and "\<not> p_chunk_done p" and "p_reading_size p"
    and "13 \<notin> set h" and "chunk_size_of h = Some (length d)" and "d \<noteq> []"
  shows "chunk_loop p (length pre)
       = (p\<lparr>p_request := (p_request p)\<lparr>req_body := req_body (p_request p) @ d\<rparr>,
            p_chunk_remaining := 0, p_reading_size := False\<rparr>, INCOMPLETE)"
proof -
  have "length pre < length (p_buffer p)" "length pre + length h + 2 < length (p_buffer p)"
    using assms(1,6) by auto
  then show ?thesis
    using assms find_from_at [OF assms(4), of pre d]
    by (subst chunk_loop_size [OF assms(1-5)]) (simp_all add: chunk_loop.simps Let_def)
qed

lemma chunk_loop_stale:
  assumes "length pre + 2 < length (p_buffer p)" and "\<not> p_chunk_done p" and "\<not> p_reading_size p"
    and "p_chunk_remaining p = 0"
  shows "chunk_loop p (length pre)
       = chunk_loop (p\<lparr>p_chunk_remaining := 0, p_reading_size := True\<rparr>) (length pre + 2)"
  using assms by (subst chunk_loop.simps) (simp add: Let_def)

lemma chunk_size_of_newline: "chunk_size_of (10 # s) = None"
proof -
  have "digits_prefix 16 (take k (10 # s)) = []" for k
    by (cases k) (simp_all add: digit_val_def)
  moreover have "digits_prefix 16 (10 # s) = []"
    by (simp add: digit_val_def)
  ultimately show ?thesis
    by (simp add: chunk_size_of_def from_chars_def del: find_sub.simps split: option.split)
qed

text \<open>
  Cutting a chunked request between the data of a chunk and the CR LF behind it breaks it:
  the first segment is answered by \<open>INCOMPLETE\<close>, but the offset still points at the size
  line, so the continuation that completes the chunk is refused.  Stated for any chunk of
  up to fifteen bytes without CR.
\<close>

theorem chunked_resume_fails:
  assumes "p_headers_done p" and "p_use_chunked p" and "\<not> p_chunk_done p" and "p_reading_size p"
    and "p_body_start p = length (p_buffer p)"
    and "c \<noteq> 13" and "chunk_size_of [c] = Some (length d)" and "d \<noteq> []" and "13 \<notin> set d"
  shows "snd (feed p (c # crlf @ d)) = INCOMPLETE
       \<and> snd (feed (fst (feed p (c # crlf @ d))) (crlf @ rest)) = ERROR"
proof -
  let ?pre = "p_buffer p"
  let ?b = "?pre @ [c] @ crlf @ d"
  let ?p0 = "p\<lparr>p_buffer := ?b\<rparr>"
  define p1 where "p1 = ?p0\<lparr>p_request := (p_request p)\<lparr>req_body := req_body (p_request p) @ d\<rparr>,
            p_chunk_remaining := 0, p_reading_size := False\<rparr>"
  have "feed p (c # crlf @ d) = chunk_loop ?p0 (length ?pre)"
    using assms by (simp add: feed_def feed_body_def)
  also have "\<dots> = (p1, INCOMPLETE)"
    using chunk_loop_short [of ?p0 ?pre "[c]" d] assms by (simp add: p1_def)
  finally have f1: "feed p (c # crlf @ d) = (p1, INCOMPLETE)" .
  let ?b2 = "(?pre @ [c, 13]) @ (10 # d) @ crlf @ rest"
  let ?p2 = "p1\<lparr>p_buffer := ?b2, p_chunk_remaining := 0, p_reading_size := True\<rparr>"
  have "feed p1 (crlf @ rest) = chunk_loop (p1\<lparr>p_buffer := ?b2\<rparr>) (length ?pre)"
    using assms by (simp add: feed_def feed_body_def p1_def)
  also have "\<dots> = chunk_loop ?p2 (length ?pre + 2)"
    using chunk_loop_stale [of ?pre "p1\<lparr>p_buffer := ?b2\<rparr>"] assms by (simp add: p1_def)
  also have "\<dots> = (?p2\<lparr>p_error := lit ''Invalid chunk size''\<rparr>, ERROR)"
    using find_from_at [of "10 # d" "?pre @ [c, 13]" rest] assms
    by (subst chunk_loop.simps) (simp add: p1_def chunk_size_of_newline)
  finally show ?thesis
    using f1 by simp
qed

theorem chunked_resume_fails_witness:
  "snd (feed (init_parser\<lparr>p_headers_done := True, p_use_chunked := True\<rparr>) (lit ''3'' @ crlf @ lit ''abc'')) = INCOMPLETE
   \<and> snd (feed (fst (feed (init_parser\<lparr>p_headers_done := True, p_use_chunked := True\<rparr>) (lit ''3'' @ crlf @ lit ''abc'')))
           (crlf @ lit ''0'' @ crlf @ crlf)) = ERROR"
proof -
  have "chunk_size_of [51] = Some (length (lit ''abc''))"
    by (simp add: chunk_size_of_def from_chars_def digit_val_def)
  with chunked_resume_fails [of "init_parser\<lparr>p_headers_done := True, p_use_chunked := True\<rparr>" 51 "lit ''abc''"
      "lit ''0'' @ crlf @ crlf"]
  show ?thesis by (simp add: init_parser_def lit_def)
qed

end
