(* ===== verification/Websocket.thy ===== *)
theory Websocket
  imports Http_Message Wire
begin

text \<open>
  The WebSocket component (\<open>include/websocket.hpp\<close>, \<open>src/websocket.cpp\<close>): the upgrade
  handshake, the frame parser, the frame handler with its fragmentation state, the frame
  builder, and the loop \<open>process_input\<close>.  Callbacks and returned bytes are one list of
  events, in the order in which the code makes them.

  SHA-1 and the Base64 block encoder come from OpenSSL: they are parameters of the
  definitions that use them.

  Shown: the parser inverts the encoding of client frames and is an instance of the
  \<open>codec\<close> interface; the connection is an instance of \<open>framed_input\<close>, so its effects do
  not depend on the segmentation of the input; the builder's length fields decode to the
  payload's length; fragmented messages are reassembled; what a closed connection does.
\<close>

section \<open>Data\<close>

datatype ws_opcode = CONTINUATION | TEXT | BINARY | CLOSE | PING | PONG | RESERVED byte

text \<open>The two \<open>static_cast\<close>s between the enum and its underlying type.\<close>

definition opcode_of :: "byte \<Rightarrow> ws_opcode" where
  "opcode_of b =
     (if b = 0 then CONTINUATION else if b = 1 then TEXT else if b = 2 then BINARY
      else if b = 8 then CLOSE else if b = 9 then PING else if b = 10 then PONG
      else RESERVED b)"

fun byte_of_opcode :: "ws_opcode \<Rightarrow> byte" where
  "byte_of_opcode CONTINUATION = 0"
| "byte_of_opcode TEXT = 1"
| "byte_of_opcode BINARY = 2"
| "byte_of_opcode CLOSE = 8"
| "byte_of_opcode PING = 9"
| "byte_of_opcode PONG = 10"
| "byte_of_opcode (RESERVED b) = b"

definition ws_no_status :: u16 where "ws_no_status = 1005"
definition ws_protocol_error :: u16 where "ws_protocol_error = 1002"
definition ws_too_big :: u16 where "ws_too_big = 1009"

definition MAX_FRAME_SIZE :: nat where "MAX_FRAME_SIZE = 16 * 1024 * 1024"
definition MAX_MESSAGE_SIZE :: nat where "MAX_MESSAGE_SIZE = 64 * 1024 * 1024"

record ws_frame =
  f_fin :: bool
  f_opcode :: ws_opcode
  f_masked :: bool
  f_payload_length :: u64
  f_mask_key :: bytes
  f_payload :: bytes

record ws_conn =
  ws_buffer :: bytes
  ws_message :: bytes
  ws_fragment_opcode :: ws_opcode
  ws_in_fragment :: bool
  ws_closed :: bool
  ws_close_sent :: bool

definition ws_init :: ws_conn where
  "ws_init = \<lparr>ws_buffer = [], ws_message = [], ws_fragment_opcode = TEXT,
              ws_in_fragment = False, ws_closed = False, ws_close_sent = False\<rparr>"

definition is_alive :: "ws_conn \<Rightarrow> bool" where
  "is_alive c = (\<not> ws_closed c)"

text \<open>What the connection does to the outside: bytes returned, callbacks called.\<close>

datatype ws_event =
    Output bytes
  | On_Message ws_opcode bytes
  | On_Close u16 bytes
  | On_Ping bytes

section \<open>Handshake\<close>

definition is_upgrade_request :: "http_request \<Rightarrow> bool" where
  "is_upgrade_request req =
     (if req_method req \<noteq> GET then False
      else let upgrade = get_header req (lit ''Upgrade'')
           in if upgrade = [] then False
              else if lower upgrade \<noteq> lit ''websocket'' then False
              else if find_sub (lit ''upgrade'') (lower (get_header req (lit ''Connection''))) = None
                   then False
              else if get_header req (lit ''Sec-WebSocket-Key'') = [] then False
              else get_header req (lit ''Sec-WebSocket-Version'') = lit ''13'')"

definition WS_MAGIC_GUID :: bytes where
  "WS_MAGIC_GUID = lit ''258EAFA5-E914-47DA-95CA-C5AB0DC85B11''"

definition compute_accept_key :: "(bytes \<Rightarrow> bytes) \<Rightarrow> (bytes \<Rightarrow> bytes) \<Rightarrow> bytes \<Rightarrow> bytes" where
  "compute_accept_key SHA1 EVP_EncodeBlock client_key =
     EVP_EncodeBlock (SHA1 (client_key @ WS_MAGIC_GUID))"

definition build_accept_response ::
  "(bytes \<Rightarrow> bytes) \<Rightarrow> (bytes \<Rightarrow> bytes) \<Rightarrow> http_request \<Rightarrow> http_response" where
  "build_accept_response SHA1 EVP_EncodeBlock req =
     empty_response\<lparr>status_code := 101, status_text := lit ''Switching Protocols'',
       resp_headers :=
         hput (lit ''Sec-WebSocket-Accept'')
           (compute_accept_key SHA1 EVP_EncodeBlock (get_header req (lit ''Sec-WebSocket-Key'')))
           (hput (lit ''Connection'') (lit ''Upgrade'')
             (hput (lit ''Upgrade'') (lit ''websocket'') []))\<rparr>"

section \<open>Frames\<close>

definition unmask :: "bytes \<Rightarrow> bytes \<Rightarrow> bytes" where
  "unmask key data = map (\<lambda>i. data ! i XOR key ! (i mod 4)) [0..<length data]"

definition build_frame :: "ws_opcode \<Rightarrow> bytes \<Rightarrow> bool \<Rightarrow> bytes" where
  "build_frame opcode payload fin =
     (let byte0 = (if fin then byte_of_opcode opcode OR 0x80 else byte_of_opcode opcode)
      in byte0 #
         (if length payload \<le> 125 then [of_nat (length payload)]
          else if length payload \<le> 65535 then 126 # nat_bytes 2 (length payload)
          else 127 # nat_bytes 8 (length payload))
         @ payload)"

definition build_close :: "u16 \<Rightarrow> bytes \<Rightarrow> bytes" where
  "build_close code reason = build_frame CLOSE (bytes16 code @ reason) True"

text \<open>
  \<open>parse_frame\<close> looks at the buffer only: no complete frame yet, a violation that closes
  the connection, or a frame and what is left of the buffer.
\<close>

datatype ws_parse = Need_More | Violation | Parsed ws_frame bytes

definition parse_payload :: "bytes \<Rightarrow> nat \<Rightarrow> u64 \<Rightarrow> bool \<Rightarrow> ws_opcode \<Rightarrow> bool \<Rightarrow> ws_parse" where
  "parse_payload buf pos payload_len fin opcode masked =
     (if MAX_FRAME_SIZE < unat payload_len then Violation
      else if \<not> masked then Violation
      else if length buf < pos + 4 then Need_More
      else let mask_key = take 4 (drop pos buf); pos = pos + 4
           in if length buf < pos + unat payload_len then Need_More
              else Parsed \<lparr>f_fin = fin, f_opcode = opcode, f_masked = masked,
                           f_payload_length = payload_len, f_mask_key = mask_key,
                           f_payload = unmask mask_key (take (unat payload_len) (drop pos buf))\<rparr>
                          (drop (pos + unat payload_len) buf))"

definition parse_frame :: "bytes \<Rightarrow> ws_parse" where
  "parse_frame buf =
     (if length buf < 2 then Need_More
      else
        let byte0 = buf ! 0; byte1 = buf ! 1; fin = (byte0 AND 0x80 \<noteq> 0)
        in if drop_bit 4 byte0 AND 0x07 \<noteq> 0 then Violation
           else
             let opcode = opcode_of (byte0 AND 0x0F); masked = (byte1 AND 0x80 \<noteq> 0);
                 len7 = (ucast (byte1 AND 0x7F) :: u64)
             in if len7 = 126 then
                  if length buf < 4 then Need_More
                  else parse_payload buf 4 (push_bit 8 (ucast (buf ! 2)) OR ucast (buf ! 3))
                         fin opcode masked
                else if len7 = 127 then
                  if length buf < 10 then Need_More
                  else let payload_len = be_fold (take 8 (drop 2 buf))
                       in if bit payload_len 63 then Violation
                          else parse_payload buf 10 payload_len fin opcode masked
                else parse_payload buf 2 len7 fin opcode masked)"

section \<open>The connection\<close>

text \<open>A text or binary frame: a whole message, the start of a fragmented one, or an error.\<close>

definition handle_data_frame :: "ws_conn \<Rightarrow> ws_frame \<Rightarrow> ws_conn \<times> ws_event list" where
  "handle_data_frame c f =
     (if ws_in_fragment c then
        (c\<lparr>ws_closed := True\<rparr>,
         [Output (build_close ws_protocol_error (lit ''Expected continuation frame''))])
      else if f_fin f then (c, [On_Message (f_opcode f) (f_payload f)])
      else
        let c = c\<lparr>ws_in_fragment := True, ws_fragment_opcode := f_opcode f,
                  ws_message := f_payload f\<rparr>
        in if MAX_MESSAGE_SIZE < length (ws_message c)
           then (c\<lparr>ws_closed := True\<rparr>, [Output (build_close ws_too_big (lit ''Message too large''))])
           else (c, []))"

definition handle_continuation :: "ws_conn \<Rightarrow> ws_frame \<Rightarrow> ws_conn \<times> ws_event list" where
  "handle_continuation c f =
     (if \<not> ws_in_fragment c then
        (c\<lparr>ws_closed := True\<rparr>,
         [Output (build_close ws_protocol_error (lit ''Unexpected continuation''))])
      else
        let c = c\<lparr>ws_message := ws_message c @ f_payload f\<rparr>
        in if MAX_MESSAGE_SIZE < length (ws_message c)
           then (c\<lparr>ws_closed := True\<rparr>, [Output (build_close ws_too_big (lit ''Message too large''))])
           else if f_fin f
           then (c\<lparr>ws_in_fragment := False, ws_message := []\<rparr>,
                 [On_Message (ws_fragment_opcode c) (ws_message c)])
           else (c, []))"

definition handle_close :: "ws_conn \<Rightarrow> ws_frame \<Rightarrow> ws_conn \<times> ws_event list" where
  "handle_close c f =
     (let p = f_payload f;
          (code, reason) = (if 2 \<le> length p then (be16 (p ! 0) (p ! 1), drop 2 p)
                            else (ws_no_status, []))
      in if ws_close_sent c then (c\<lparr>ws_closed := True\<rparr>, [On_Close code reason])
         else (c\<lparr>ws_close_sent := True, ws_closed := True\<rparr>,
               [On_Close code reason, Output (build_close code reason)]))"

definition handle_ping :: "ws_conn \<Rightarrow> ws_frame \<Rightarrow> ws_conn \<times> ws_event list" where
  "handle_ping c f =
     (if 125 < length (f_payload f) then
        (c\<lparr>ws_closed := True\<rparr>,
         [Output (build_close ws_protocol_error (lit ''Ping payload too large''))])
      else (c, [On_Ping (f_payload f), Output (build_frame PONG (f_payload f) True)]))"

definition handle_frame :: "ws_conn \<Rightarrow> ws_frame \<Rightarrow> ws_conn \<times> ws_event list" where
  "handle_frame c f =
     (case f_opcode f of
        TEXT \<Rightarrow> handle_data_frame c f
      | BINARY \<Rightarrow> handle_data_frame c f
      | CONTINUATION \<Rightarrow> handle_continuation c f
      | CLOSE \<Rightarrow> handle_close c f
      | PING \<Rightarrow> handle_ping c f
      | PONG \<Rightarrow> (c, [])
      | RESERVED b \<Rightarrow>
          (c\<lparr>ws_closed := True\<rparr>, [Output (build_close ws_protocol_error (lit ''Unknown opcode''))]))"

text \<open>One turn of the loop of \<open>process_input\<close>; \<open>None\<close> leaves the loop.\<close>

definition ws_step :: "ws_conn \<Rightarrow> (ws_conn \<times> ws_event list) option" where
  "ws_step c =
     (if ws_closed c then None
      else case parse_frame (ws_buffer c) of
             Need_More \<Rightarrow> None
           | Violation \<Rightarrow> Some (c\<lparr>ws_closed := True\<rparr>, [])
           | Parsed f rest \<Rightarrow> Some (handle_frame (c\<lparr>ws_buffer := rest\<rparr>) f))"

definition ws_weight :: "ws_conn \<Rightarrow> nat" where
  "ws_weight c = length (ws_buffer c) + (if ws_closed c then 0 else 1)"

definition ws_feed :: "ws_conn \<Rightarrow> bytes \<Rightarrow> ws_conn" where
  "ws_feed c data = c\<lparr>ws_buffer := ws_buffer c @ data\<rparr>"

lemma parse_payload_rest:
  "parse_payload buf pos n fin opc m = Parsed f rest \<Longrightarrow>
     length rest + pos + 4 + unat n = length buf"
  by (auto simp: parse_payload_def Let_def split: if_splits)

lemma parse_frame_rest: "parse_frame buf = Parsed f rest \<Longrightarrow> length rest < length buf"
  by (auto simp: parse_frame_def Let_def split: if_splits dest!: parse_payload_rest)

lemma handle_frame_buffer:
  "handle_frame (c\<lparr>ws_buffer := b\<rparr>) f = apfst (\<lambda>c. c\<lparr>ws_buffer := b\<rparr>) (handle_frame c f)"
  by (simp add: handle_frame_def handle_data_frame_def handle_continuation_def handle_close_def
      handle_ping_def Let_def split: ws_opcode.split)

lemma handle_frame_keeps_buffer: "ws_buffer (fst (handle_frame c f)) = ws_buffer c"
  by (simp add: handle_frame_def handle_data_frame_def handle_continuation_def handle_close_def
      handle_ping_def Let_def split: ws_opcode.split)

lemma ws_step_weight: "ws_step c = Some (c', evs) \<Longrightarrow> ws_weight c' < ws_weight c"
proof -
  assume st: "ws_step c = Some (c', evs)"
  then have open_c: "\<not> ws_closed c"
    by (auto simp: ws_step_def split: if_splits)
  show ?thesis
  proof (cases "parse_frame (ws_buffer c)")
    case (Parsed f rest)
    have "ws_buffer c' = rest"
      using st open_c Parsed handle_frame_keeps_buffer [of "c\<lparr>ws_buffer := rest\<rparr>" f]
      by (simp add: ws_step_def)
    with parse_frame_rest [OF Parsed] open_c show ?thesis
      by (simp add: ws_weight_def)
  qed (use st open_c in \<open>auto simp: ws_step_def ws_weight_def\<close>)
qed

function ws_loop :: "ws_conn \<Rightarrow> ws_conn \<times> ws_event list" where
  "ws_loop c =
     (case ws_step c of
        None \<Rightarrow> (c, [])
      | Some (c', evs) \<Rightarrow> apsnd (\<lambda>evs'. evs @ evs') (ws_loop c'))"
  by pat_completeness auto
termination
  by (relation "measure ws_weight") (auto intro: ws_step_weight)

declare ws_loop.simps [simp del]

definition ws_process_input :: "ws_conn \<Rightarrow> bytes \<Rightarrow> ws_conn \<times> ws_event list" where
  "ws_process_input c data = ws_loop (ws_feed c data)"

text \<open>The bytes \<open>process_input\<close> returns.\<close>

fun ws_output :: "ws_event list \<Rightarrow> bytes" where
  "ws_output [] = []"
| "ws_output (Output b # es) = b @ ws_output es"
| "ws_output (_ # es) = ws_output es"

section \<open>Segmentation of the input\<close>

fun parse_behind :: "bytes \<Rightarrow> ws_parse \<Rightarrow> ws_parse" where
  "parse_behind x (Parsed f rest) = Parsed f (rest @ x)"
| "parse_behind x r = r"

lemma parse_payload_behind:
  "parse_payload buf pos n fin opc m \<noteq> Need_More \<Longrightarrow>
     parse_payload (buf @ x) pos n fin opc m = parse_behind x (parse_payload buf pos n fin opc m)"
  by (auto simp: parse_payload_def Let_def split: if_splits)

lemma parse_frame_behind:
  assumes "parse_frame buf \<noteq> Need_More"
  shows "parse_frame (buf @ x) = parse_behind x (parse_frame buf)"
proof -
  from assms have len: "2 \<le> length buf"
    by (simp add: parse_frame_def split: if_splits)
  then have nth: "(buf @ x) ! 0 = buf ! 0" "(buf @ x) ! 1 = buf ! 1"
    by (auto simp: nth_append)
  let ?len7 = "ucast (buf ! 1 AND 127) :: u64"
  consider "?len7 = 126" | "?len7 = 127" | "?len7 \<noteq> 126" "?len7 \<noteq> 127"
    by blast
  then show ?thesis
  proof cases
    case 1
    with assms len show ?thesis
      unfolding parse_frame_def Let_def nth
      by (simp add: nth_append parse_payload_behind split: if_splits)
  next
    case 2
    with assms len show ?thesis
      unfolding parse_frame_def Let_def nth
      by (simp add: parse_payload_behind split: if_splits)
  next
    case 3
    with assms len show ?thesis
      unfolding parse_frame_def Let_def nth
      by (simp add: parse_payload_behind split: if_splits)
  qed
qed

lemma parse_frame_append:
  "parse_frame buf = Violation \<Longrightarrow> parse_frame (buf @ x) = Violation"
  "parse_frame buf = Parsed f rest \<Longrightarrow> parse_frame (buf @ x) = Parsed f (rest @ x)"
  using parse_frame_behind [of buf x] by simp_all

lemma ws_step_feed: "ws_step c = Some (c', evs) \<Longrightarrow> ws_step (ws_feed c x) = Some (ws_feed c' x, evs)"
proof -
  assume st: "ws_step c = Some (c', evs)"
  then have open_c: "\<not> ws_closed c"
    by (auto simp: ws_step_def split: if_splits)
  show ?thesis
  proof (cases "parse_frame (ws_buffer c)")
    case (Parsed f rest)
    with st open_c have h: "handle_frame (c\<lparr>ws_buffer := rest\<rparr>) f = (c', evs)"
      by (simp add: ws_step_def)
    then have "ws_buffer c' = rest"
      using handle_frame_keeps_buffer [of "c\<lparr>ws_buffer := rest\<rparr>" f] by simp
    with h parse_frame_append(2) [OF Parsed, of x] open_c show ?thesis
      using handle_frame_buffer [where c = "c\<lparr>ws_buffer := rest\<rparr>" and b = "rest @ x" and f = f]
      by (simp add: ws_step_def ws_feed_def)
  next
    case Violation
    with st open_c parse_frame_append(1) [OF Violation, of x] show ?thesis
      by (auto simp: ws_step_def ws_feed_def)
  qed (use st open_c in \<open>auto simp: ws_step_def\<close>)
qed

interpretation ws: framed_input ws_step ws_feed ws_weight
proof unfold_locales
  show "ws_feed (ws_feed c a) b = ws_feed c (a @ b)" for c a b
    by (simp add: ws_feed_def)
qed (fact ws_step_feed, fact ws_step_weight)

lemma ws_loop_drives: "drives ws_step c (fst (ws_loop c)) (snd (ws_loop c))"
proof (induction c rule: ws_loop.induct)
  case (1 c)
  show ?case
  proof (cases "ws_step c")
    case None
    then show ?thesis by (simp add: ws_loop.simps [of c] drives.stop)
  next
    case (Some p)
    with 1 show ?thesis
      by (cases p) (auto simp: ws_loop.simps [of c] intro: drives.more)
  qed
qed

lemma ws_loop_iff: "ws_loop c = (d, evs) \<longleftrightarrow> drives ws_step c d evs"
  using ws_loop_drives [of c] drives_deterministic by (metis prod.collapse prod.inject)

text \<open>
  C11. A WebSocket connection does not depend on how its input is cut into segments: feeding
  two segments one after the other makes the same callbacks, returns the same bytes in the
  same order and ends in the same state as feeding them at once, violations and closing
  included.
\<close>

theorem ws_segmentation:
  "ws_process_input c (a @ b) =
     (let (c1, e1) = ws_process_input c a; (c2, e2) = ws_process_input c1 b in (c2, e1 @ e2))"
proof -
  obtain c1 e1 where 1: "ws_loop (ws_feed c a) = (c1, e1)"
    by fastforce
  obtain c2 e2 where 2: "ws_loop (ws_feed c1 b) = (c2, e2)"
    by fastforce
  from ws.segmentation [of c a c1 e1 b c2 e2] 1 2 have "ws_loop (ws_feed c (a @ b)) = (c2, e1 @ e2)"
    by (simp add: ws_loop_iff)
  with 1 2 show ?thesis
    by (simp add: ws_process_input_def)
qed

section \<open>Encoded frames\<close>

lemma unmask_length [simp]: "length (unmask k d) = length d"
  by (simp add: unmask_def)

lemma unmask_involution: "unmask k (unmask k d) = d"
  by (rule nth_equalityI) (simp_all add: unmask_def xor.assoc)

text \<open>The bits of the first two bytes.\<close>

lemma first_byte:
  fixes b :: byte
  assumes "unat b < 16"
  shows "(b OR 128) AND 15 = b" "b AND 15 = b"
    "drop_bit 4 (b OR 128) AND 7 = 0" "drop_bit 4 b AND 7 = 0"
proof -
  have hi: "j < 4" if "bit b j" for j
    using assms bit_small [of b 4 j] that by (simp add: not_le [symmetric]) blast
  show "(b OR 128) AND 15 = b"
    unfolding byte_masks by (rule bit_word_eqI, unfold byte_bits) (auto dest: hi)
  show "b AND 15 = b"
    unfolding byte_masks by (rule bit_word_eqI, unfold byte_bits) (auto dest: hi)
  show "drop_bit 4 (b OR 128) AND 7 = 0"
    unfolding byte_masks by (rule bit_word_eqI, unfold byte_bits) (auto dest: hi)
  show "drop_bit 4 b AND 7 = 0"
    unfolding byte_masks by (rule bit_word_eqI, unfold byte_bits) (auto dest: hi)
qed

text \<open>The length field of \<open>build_frame\<close>.\<close>

definition length_field :: "nat \<Rightarrow> bytes" where
  "length_field n =
     (if n \<le> 125 then [of_nat n] else if n \<le> 65535 then 126 # nat_bytes 2 n else 127 # nat_bytes 8 n)"

lemma build_frame_parts:
  "build_frame opc p fin =
     (if fin then byte_of_opcode opc OR 128 else byte_of_opcode opc) # length_field (length p) @ p"
  by (simp add: build_frame_def length_field_def)

text \<open>
  What a client sends: the frame the builder makes, with the mask bit set, the key behind
  the length field and the payload masked.
\<close>

definition client_frame :: "ws_frame \<Rightarrow> bytes" where
  "client_frame f =
     (let b = build_frame (f_opcode f) (f_payload f) (f_fin f);
          h = length b - length (f_payload f)
      in (b ! 0) # (b ! 1 OR 128) # take (h - 2) (drop 2 b) @ f_mask_key f
         @ unmask (f_mask_key f) (drop h b))"

lemma client_frame_parts:
  "client_frame f =
     (if f_fin f then byte_of_opcode (f_opcode f) OR 128 else byte_of_opcode (f_opcode f))
     # (hd (length_field (length (f_payload f))) OR 128) # tl (length_field (length (f_payload f)))
     @ f_mask_key f @ unmask (f_mask_key f) (f_payload f)"
proof -
  obtain x xs where "length_field (length (f_payload f)) = x # xs"
    by (cases "length_field (length (f_payload f))") (auto simp: length_field_def split: if_splits)
  then show ?thesis
    by (simp add: client_frame_def build_frame_parts)
qed

definition client_frame_ok :: "ws_frame \<Rightarrow> bool" where
  "client_frame_ok f \<longleftrightarrow>
     f_masked f \<and> length (f_mask_key f) = 4 \<and> length (f_payload f) \<le> MAX_FRAME_SIZE
     \<and> f_payload_length f = of_nat (length (f_payload f))
     \<and> unat (byte_of_opcode (f_opcode f)) < 16
     \<and> opcode_of (byte_of_opcode (f_opcode f)) = f_opcode f"

lemma parse_payload_client:
  assumes "length k = 4" and "unat n = length p" and "length p \<le> MAX_FRAME_SIZE"
    and "buf = pre @ k @ unmask k p @ rest"
  shows "parse_payload buf (length pre) n fin opc True =
     Parsed \<lparr>f_fin = fin, f_opcode = opc, f_masked = True, f_payload_length = n, f_mask_key = k,
             f_payload = p\<rparr> rest"
  using assms unmask_involution [of k p] by (simp add: parse_payload_def)

lemma unat_of_nat_u64: "n < 2 ^ 64 \<Longrightarrow> unat (of_nat n :: u64) = n"
  by (simp add: unat_of_nat)

lemma len7_small:
  assumes "n \<le> 125"
  shows "ucast (((of_nat n :: byte) OR 128) AND 127) = (of_nat n :: u64)"
proof -
  have n: "unat (of_nat n :: byte) = n"
    using assms by (simp add: unat_of_nat)
  then have e: "((of_nat n :: byte) OR 128) AND 127 = of_nat n"
    using assms by (intro high_bit) simp
  show ?thesis
    unfolding e using n assms
    by (simp add: word_unat_eq_iff unsigned_ucast_eq take_bit_eq_mod unat_of_nat)
qed

lemma len16:
  assumes "n \<le> 65535"
  shows "push_bit 8 (ucast (nat_bytes 2 n ! 0)) OR ucast (nat_bytes 2 n ! 1) = (of_nat n :: u64)"
proof -
  have "n div 256 < 256"
    using assms by simp
  then have b: "unat (nat_bytes 2 n ! 0) = n div 256" "unat (nat_bytes 2 n ! 1) = n mod 256"
    by (simp_all add: numeral_2_eq_2 unat_of_nat)
  then have "unat (ucast (nat_bytes 2 n ! 0) :: u64) = n div 256"
    using assms by (simp add: unsigned_ucast_eq take_bit_eq_mod)
  then have "unat (push_bit 8 (ucast (nat_bytes 2 n ! 0)) OR ucast (nat_bytes 2 n ! 1) :: u64)
      = (n div 256) * 256 + n mod 256"
    using assms b by (subst unat_push_or) simp_all
  then show ?thesis
    using assms by (simp add: word_unat_eq_iff unat_of_nat)
qed

lemma len64:
  assumes "n < 2 ^ 63"
  shows "be_fold (nat_bytes 8 n) = of_nat n" "\<not> bit (of_nat n :: u64) 63"
proof -
  have "unat (be_fold (nat_bytes 8 n)) = n"
    using assms by (simp add: unat_be_fold be_nat_nat_bytes)
  then show "be_fold (nat_bytes 8 n) = of_nat n"
    using assms by (simp add: word_unat_eq_iff unat_of_nat)
  have "unat (of_nat n :: u64) = n"
    using assms by (simp add: unat_of_nat)
  then show "\<not> bit (of_nat n :: u64) 63"
    using assms by (intro bit_small [of _ 63]) simp_all
qed

lemma parse_frame_client:
  assumes "client_frame_ok f"
  shows "parse_frame (client_frame f @ rest) = Parsed f rest"
proof -
  let ?n = "length (f_payload f)"
  let ?b0 = "if f_fin f then byte_of_opcode (f_opcode f) OR 128 else byte_of_opcode (f_opcode f)"
  let ?b1 = "hd (length_field ?n) OR 128"
  define buf where "buf = client_frame f @ rest"
  have n: "?n \<le> 16777216"
    using assms by (simp add: client_frame_ok_def MAX_FRAME_SIZE_def)
  have b0: "(?b0 AND 128 \<noteq> 0) = f_fin f" "drop_bit 4 ?b0 AND 7 = 0" "opcode_of (?b0 AND 15) = f_opcode f"
    using assms high_bit [of "byte_of_opcode (f_opcode f)"] first_byte [of "byte_of_opcode (f_opcode f)"]
    by (simp_all add: client_frame_ok_def)
  have "unat (hd (length_field ?n)) < 128"
    using n by (simp add: length_field_def unat_of_nat)
  then have b1: "(?b1 AND 128 \<noteq> 0)" "?b1 AND 127 = hd (length_field ?n)"
    using high_bit [of "hd (length_field ?n)"] by simp_all
  have nth: "buf ! 0 = ?b0" "buf ! 1 = ?b1" "2 \<le> length buf"
    by (simp_all add: buf_def client_frame_parts)
  have pp: "parse_payload buf (length (tl (length_field ?n)) + 2) (of_nat ?n) (f_fin f) (f_opcode f) True
      = Parsed f rest"
    using parse_payload_client [of "f_mask_key f" "of_nat ?n" "f_payload f" buf
        "?b0 # ?b1 # tl (length_field ?n)" rest "f_fin f" "f_opcode f"] assms n
    by (simp add: client_frame_ok_def client_frame_parts buf_def unat_of_nat_u64)
  have view: "parse_frame buf =
      (let len7 = (ucast (hd (length_field ?n)) :: u64)
       in if len7 = 126 then
            if length buf < 4 then Need_More
            else parse_payload buf 4 (push_bit 8 (ucast (buf ! 2)) OR ucast (buf ! 3)) (f_fin f) (f_opcode f) True
          else if len7 = 127 then
            if length buf < 10 then Need_More
            else if bit (be_fold (take 8 (drop 2 buf))) 63 then Violation
            else parse_payload buf 10 (be_fold (take 8 (drop 2 buf))) (f_fin f) (f_opcode f) True
          else parse_payload buf 2 len7 (f_fin f) (f_opcode f) True)"
    using nth(3) unfolding parse_frame_def Let_def nth b0 b1(2) using b1(1) by simp
  consider "?n \<le> 125" | "125 < ?n" "?n \<le> 65535" | "65535 < ?n"
    by linarith
  then have "parse_frame buf = Parsed f rest"
  proof cases
    case 1
    then have "(ucast (hd (length_field ?n)) :: u64) = of_nat ?n" "(of_nat ?n :: u64) \<noteq> 126"
      "(of_nat ?n :: u64) \<noteq> 127" "tl (length_field ?n) = []"
      by (simp_all add: length_field_def word_unat_eq_iff unat_of_nat unsigned_ucast_eq take_bit_eq_mod)
    then show ?thesis
      using pp view by (simp add: numeral_2_eq_2)
  next
    case 2
    then have lf: "length_field ?n = 126 # nat_bytes 2 ?n"
      by (simp add: length_field_def)
    then have "buf ! 2 = nat_bytes 2 ?n ! 0" "buf ! 3 = nat_bytes 2 ?n ! 1" "\<not> length buf < 4"
      by (simp_all add: buf_def client_frame_parts nth_append)
    with pp view lf len16 [OF 2(2)] show ?thesis
      by simp
  next
    case 3
    then have lf: "length_field ?n = 127 # nat_bytes 8 ?n"
      by (simp add: length_field_def)
    then have "take 8 (drop 2 buf) = nat_bytes 8 ?n" "\<not> length buf < 10"
      by (simp_all add: buf_def client_frame_parts)
    with pp view lf len64 [of ?n] n show ?thesis
      by simp
  qed
  then show ?thesis
    by (simp add: buf_def)
qed

interpretation ws_client: codec client_frame
  "\<lambda>b. case parse_frame b of Parsed f r \<Rightarrow> Some (f, r) | _ \<Rightarrow> None" client_frame_ok
  by unfold_locales (simp add: parse_frame_client)

text \<open>
  Round trip of frames.  A client frame (the frame \<open>build_frame\<close> makes for the same
  opcode, payload and FIN flag, masked with any key) is parsed back to exactly that frame,
  and what follows it in the buffer is left over, for every payload up to the limit and all
  three widths of the length field.
\<close>

theorem ws_frame_roundtrip:
  assumes "client_frame_ok f"
  shows "parse_frame (client_frame f @ rest) = Parsed f rest"
  by (rule parse_frame_client [OF assms])

theorem ws_frame_roundtrip_witness:
  "parse_frame (client_frame \<lparr>f_fin = True, f_opcode = TEXT, f_masked = True, f_payload_length = 2,
      f_mask_key = [1, 2, 3, 4], f_payload = lit ''hi''\<rparr> @ [0])
   = Parsed \<lparr>f_fin = True, f_opcode = TEXT, f_masked = True, f_payload_length = 2,
      f_mask_key = [1, 2, 3, 4], f_payload = lit ''hi''\<rparr> [0]"
  by (rule ws_frame_roundtrip) (simp add: client_frame_ok_def opcode_of_def MAX_FRAME_SIZE_def)

section \<open>Messages\<close>

lemma ws_loop_frame:
  assumes "\<not> ws_closed c" and "client_frame_ok f" and "ws_buffer c = client_frame f @ rest"
  shows "ws_loop c =
     (let (c', evs) = handle_frame (c\<lparr>ws_buffer := rest\<rparr>) f in apsnd (\<lambda>evs'. evs @ evs') (ws_loop c'))"
  using assms parse_frame_client [OF assms(2), of rest]
  by (subst ws_loop.simps) (simp add: ws_step_def split: prod.split)

lemma ws_loop_empty: "ws_buffer c = [] \<Longrightarrow> ws_loop c = (c, [])"
  by (subst ws_loop.simps) (simp add: ws_step_def parse_frame_def)

definition is_fragment :: "ws_opcode \<Rightarrow> bool \<Rightarrow> ws_frame \<Rightarrow> bool" where
  "is_fragment opc fin f \<longleftrightarrow> client_frame_ok f \<and> f_opcode f = opc \<and> f_fin f = fin"

lemma ws_continuations:
  assumes "\<forall>f \<in> set fs. is_fragment CONTINUATION False f" and "is_fragment CONTINUATION True l"
    and "\<not> ws_closed c" and "ws_in_fragment c"
    and "length (ws_message c) + length (concat (map f_payload fs)) + length (f_payload l) \<le> MAX_MESSAGE_SIZE"
    and "ws_buffer c = concat (map client_frame fs) @ client_frame l"
  shows "ws_loop c = (c\<lparr>ws_buffer := [], ws_in_fragment := False, ws_message := []\<rparr>,
     [On_Message (ws_fragment_opcode c) (ws_message c @ concat (map f_payload fs) @ f_payload l)])"
  using assms
proof (induction fs arbitrary: c)
  case Nil
  then have "ws_loop c = (let (c', evs) = handle_frame (c\<lparr>ws_buffer := []\<rparr>) l
      in apsnd (\<lambda>evs'. evs @ evs') (ws_loop c'))"
    by (intro ws_loop_frame) (auto simp: is_fragment_def)
  with Nil show ?case
    by (simp add: is_fragment_def handle_frame_def handle_continuation_def Let_def ws_loop_empty)
next
  case (Cons f fs)
  let ?rest = "concat (map client_frame fs) @ client_frame l"
  let ?c = "c\<lparr>ws_buffer := ?rest, ws_message := ws_message c @ f_payload f\<rparr>"
  have "ws_loop c = (let (c', evs) = handle_frame (c\<lparr>ws_buffer := ?rest\<rparr>) f
      in apsnd (\<lambda>evs'. evs @ evs') (ws_loop c'))"
    using Cons.prems by (intro ws_loop_frame) (auto simp: is_fragment_def)
  also have "handle_frame (c\<lparr>ws_buffer := ?rest\<rparr>) f = (?c, [])"
    using Cons.prems by (simp add: is_fragment_def handle_frame_def handle_continuation_def Let_def)
  finally have "ws_loop c = ws_loop ?c"
    by (simp add: prod.case_eq_if apsnd_def map_prod_def)
  with Cons.IH [of ?c] Cons.prems show ?case
    by simp
qed

text \<open>
  C12. Reassembly.  A text or binary message sent as a first frame, any number of
  continuation frames and a final one, of at most 64 MB in all, is delivered by one
  callback with the opcode of the first frame and the payloads joined, nothing is sent
  back, and the connection is ready for the next message.
\<close>

theorem ws_reassembly:
  assumes "opc = TEXT \<or> opc = BINARY"
    and "is_fragment opc False f" and "\<forall>g \<in> set fs. is_fragment CONTINUATION False g"
    and "is_fragment CONTINUATION True l"
    and "\<not> ws_closed c" and "\<not> ws_in_fragment c" and "ws_buffer c = []"
    and "length (f_payload f) + length (concat (map f_payload fs)) + length (f_payload l) \<le> MAX_MESSAGE_SIZE"
  shows "ws_process_input c (concat (map client_frame (f # fs @ [l]))) =
     (c\<lparr>ws_fragment_opcode := opc, ws_message := []\<rparr>,
      [On_Message opc (f_payload f @ concat (map f_payload fs) @ f_payload l)])"
proof -
  let ?rest = "concat (map client_frame fs) @ client_frame l"
  let ?c0 = "c\<lparr>ws_buffer := client_frame f @ ?rest\<rparr>"
  let ?c1 = "c\<lparr>ws_buffer := ?rest, ws_in_fragment := True, ws_fragment_opcode := opc,
                ws_message := f_payload f\<rparr>"
  have "ws_loop ?c0 = (let (c', evs) = handle_frame (?c0\<lparr>ws_buffer := ?rest\<rparr>) f
      in apsnd (\<lambda>evs'. evs @ evs') (ws_loop c'))"
    using assms by (intro ws_loop_frame) (auto simp: is_fragment_def)
  also have "handle_frame (?c0\<lparr>ws_buffer := ?rest\<rparr>) f = (?c1, [])"
    using assms by (auto simp: is_fragment_def handle_frame_def handle_data_frame_def Let_def)
  finally have "ws_loop ?c0 = ws_loop ?c1"
    by (simp add: prod.case_eq_if apsnd_def map_prod_def)
  also have "\<dots> = (?c1\<lparr>ws_buffer := [], ws_in_fragment := False, ws_message := []\<rparr>,
      [On_Message opc (f_payload f @ concat (map f_payload fs) @ f_payload l)])"
    using assms ws_continuations [of fs l ?c1] by simp
  also have "?c1\<lparr>ws_buffer := [], ws_in_fragment := False, ws_message := []\<rparr>
      = c\<lparr>ws_fragment_opcode := opc, ws_message := []\<rparr>"
    using assms(6,7) by (cases c) simp
  finally show ?thesis
    using assms(7) by (simp add: ws_process_input_def ws_feed_def)
qed

definition demo_fragment :: "ws_opcode \<Rightarrow> bool \<Rightarrow> ws_frame" where
  "demo_fragment opc fin = \<lparr>f_fin = fin, f_opcode = opc, f_masked = True, f_payload_length = 2,
      f_mask_key = [1, 2, 3, 4], f_payload = lit ''hi''\<rparr>"

lemma demo_fragment_payload: "f_payload (demo_fragment opc fin) = lit ''hi''"
  by (simp add: demo_fragment_def)

lemma demo_fragment_ok: "opc \<in> {TEXT, CONTINUATION} \<Longrightarrow> is_fragment opc fin (demo_fragment opc fin)"
  by (auto simp: is_fragment_def demo_fragment_def client_frame_ok_def opcode_of_def MAX_FRAME_SIZE_def)

theorem ws_reassembly_witness:
  "snd (ws_process_input ws_init (concat (map client_frame
      [demo_fragment TEXT False, demo_fragment CONTINUATION False, demo_fragment CONTINUATION True])))
   = [On_Message TEXT (lit ''hihihi'')]"
proof -
  have "ws_process_input ws_init (concat (map client_frame
      (demo_fragment TEXT False # [demo_fragment CONTINUATION False] @ [demo_fragment CONTINUATION True])))
   = (ws_init\<lparr>ws_fragment_opcode := TEXT, ws_message := []\<rparr>,
      [On_Message TEXT (f_payload (demo_fragment TEXT False)
        @ concat (map f_payload [demo_fragment CONTINUATION False])
        @ f_payload (demo_fragment CONTINUATION True))])"
    by (rule ws_reassembly)
       (simp_all add: demo_fragment_ok ws_init_def demo_fragment_payload MAX_MESSAGE_SIZE_def)
  then show ?thesis
    by (simp add: demo_fragment_payload lit_def)
qed

section \<open>Bounds\<close>

lemma parse_payload_need_more:
  "parse_payload buf pos n fin opc m = Need_More \<Longrightarrow> length buf < pos + 4 + MAX_FRAME_SIZE"
  by (auto simp: parse_payload_def Let_def split: if_splits)

lemma parse_frame_need_more:
  assumes "parse_frame buf = Need_More"
  shows "length buf < 14 + MAX_FRAME_SIZE"
  using assms unfolding parse_frame_def Let_def
  by (auto split: if_splits dest: parse_payload_need_more simp: MAX_FRAME_SIZE_def)

inductive ws_reachable :: "ws_conn \<Rightarrow> bool" where
  fresh: "ws_reachable ws_init"
| input: "ws_reachable c \<Longrightarrow> ws_reachable (fst (ws_process_input c data))"

definition ws_ok :: "ws_conn \<Rightarrow> bool" where
  "ws_ok c \<longleftrightarrow> ws_closed c \<or> (length (ws_message c) \<le> MAX_MESSAGE_SIZE \<and> (ws_in_fragment c \<or> ws_message c = []))"

lemma handle_frame_ok: "ws_ok c \<Longrightarrow> \<not> ws_closed c \<Longrightarrow> ws_ok (fst (handle_frame c f))"
  by (cases "f_opcode f") (auto simp: ws_ok_def handle_frame_def handle_data_frame_def
      handle_continuation_def handle_close_def handle_ping_def Let_def)

lemma ws_step_ok: "ws_ok c \<Longrightarrow> ws_step c = Some (c', evs) \<Longrightarrow> ws_ok c'"
proof -
  assume ok: "ws_ok c" and st: "ws_step c = Some (c', evs)"
  then have open_c: "\<not> ws_closed c"
    by (auto simp: ws_step_def split: if_splits)
  have "ws_ok (c\<lparr>ws_buffer := r\<rparr>)" "\<not> ws_closed (c\<lparr>ws_buffer := r\<rparr>)" for r
    using ok open_c by (auto simp: ws_ok_def)
  with handle_frame_ok have "ws_ok (fst (handle_frame (c\<lparr>ws_buffer := r\<rparr>) f))" for r f
    by blast
  with st open_c show ?thesis
    by (auto simp: ws_step_def ws_ok_def split: ws_parse.splits) (metis fst_conv)+
qed

lemma drives_ws_ok: "drives ws_step c d evs \<Longrightarrow> ws_ok c \<Longrightarrow> ws_ok d"
  by (induction rule: drives.induct) (auto dest: ws_step_ok)

lemma ws_reachable_ok: "ws_reachable c \<Longrightarrow> ws_ok c"
proof (induction rule: ws_reachable.induct)
  case fresh
  then show ?case by (simp add: ws_ok_def ws_init_def)
next
  case (input c data)
  then have "ws_ok (ws_feed c data)"
    by (simp add: ws_ok_def ws_feed_def)
  then show ?case
    using drives_ws_ok [OF ws_loop_drives] by (simp add: ws_process_input_def)
qed

text \<open>
  Memory bound.  After any input a connection that is still alive holds less than
  16 MB and 14 bytes of unparsed input and at most 64 MB of an unfinished message.
\<close>

theorem ws_memory_bound:
  assumes "ws_reachable c" and "d = fst (ws_process_input c data)" and "is_alive d"
  shows "length (ws_buffer d) < 14 + MAX_FRAME_SIZE \<and> length (ws_message d) \<le> MAX_MESSAGE_SIZE"
proof -
  have "ws_ok d"
    using ws_reachable_ok [OF ws_reachable.input [OF assms(1)]] assms(2) by simp
  moreover have "ws_step d = None"
    using drives_stopped [OF ws_loop_drives] assms(2) by (simp add: ws_process_input_def)
  ultimately show ?thesis
    using assms(3) parse_frame_need_more
    by (auto simp: ws_ok_def is_alive_def ws_step_def split: ws_parse.splits)
qed

theorem ws_memory_bound_witness:
  "length (ws_buffer (fst (ws_process_input ws_init [1]))) < 14 + MAX_FRAME_SIZE"
proof -
  have "ws_step (ws_feed ws_init [1]) = None"
    by (simp add: ws_step_def ws_feed_def ws_init_def parse_frame_def)
  then have "fst (ws_process_input ws_init [1]) = ws_feed ws_init [1]"
    by (simp add: ws_process_input_def ws_loop.simps)
  then have "is_alive (fst (ws_process_input ws_init [1]))"
    by (simp add: is_alive_def ws_feed_def ws_init_def)
  from ws_memory_bound [OF ws_reachable.fresh refl this] show ?thesis ..
qed

text \<open>
  Answer to a Close frame.  A first Close frame that carries a status code is answered
  by a Close frame with the very same payload; one without a code is answered by a Close
  frame that carries the code 1005, which is reserved for "no code was sent".
\<close>

theorem ws_close_reply:
  assumes "f_opcode f = CLOSE" and "\<not> ws_close_sent c"
  shows "ws_closed (fst (handle_frame c f))
       \<and> ws_output (snd (handle_frame c f)) =
         build_frame CLOSE (if 2 \<le> length (f_payload f) then f_payload f else bytes16 1005) True"
proof (cases "2 \<le> length (f_payload f)")
  case True
  then obtain a b r where p: "f_payload f = a # b # r"
    by (metis (no_types, lifting) Suc_le_length_iff numeral_2_eq_2)
  have "bytes16 (be16 a b) = [a, b]"
    unfolding bytes16_def be16_def by (auto intro!: bit_word_eqI simp: bit_simps)
  with assms p show ?thesis
    by (simp add: handle_frame_def handle_close_def build_close_def)
next
  case False
  with assms show ?thesis
    by (simp add: handle_frame_def handle_close_def build_close_def ws_no_status_def)
qed

theorem ws_close_reply_witness:
  "ws_output (snd (handle_frame ws_init (demo_fragment CLOSE True))) = build_frame CLOSE (lit ''hi'') True"
  using ws_close_reply [of "demo_fragment CLOSE True" ws_init]
  by (simp add: demo_fragment_def ws_init_def)

end
