(* ===== verification/Grpc.thy ===== *)
theory Grpc
  imports Http_Message Wire
begin

text \<open>
  The gRPC endpoint (\<open>class GrpcHandler\<close>, \<open>src/grpc_handler.cpp\<close>): length-prefixed
  messages, the method table, and the HTTP response with the status in its headers.  The
  registered methods are functions of the message bytes; logging is left out.

  Shown: messages are a codec, a call reaches the registered method with exactly the bytes
  the client encoded, every outcome is an HTTP 200 that carries a status; and the length
  check wraps around at 32 bits.
\<close>

section \<open>Messages\<close>

datatype grpc_status =
  G_OK | G_CANCELLED | G_UNKNOWN | G_INVALID_ARGUMENT | G_DEADLINE_EXCEEDED | G_NOT_FOUND | G_ALREADY_EXISTS
| G_PERMISSION_DENIED | G_RESOURCE_EXHAUSTED | G_FAILED_PRECONDITION | G_ABORTED | G_OUT_OF_RANGE
| G_UNIMPLEMENTED | G_INTERNAL | G_UNAVAILABLE | G_DATA_LOSS | G_UNAUTHENTICATED

fun status_number :: "grpc_status \<Rightarrow> int" where
  "status_number G_OK = 0"
| "status_number G_CANCELLED = 1"
| "status_number G_UNKNOWN = 2"
| "status_number G_INVALID_ARGUMENT = 3"
| "status_number G_DEADLINE_EXCEEDED = 4"
| "status_number G_NOT_FOUND = 5"
| "status_number G_ALREADY_EXISTS = 6"
| "status_number G_PERMISSION_DENIED = 7"
| "status_number G_RESOURCE_EXHAUSTED = 8"
| "status_number G_FAILED_PRECONDITION = 9"
| "status_number G_ABORTED = 10"
| "status_number G_OUT_OF_RANGE = 11"
| "status_number G_UNIMPLEMENTED = 12"
| "status_number G_INTERNAL = 13"
| "status_number G_UNAVAILABLE = 14"
| "status_number G_DATA_LOSS = 15"
| "status_number G_UNAUTHENTICATED = 16"

record grpc_message =
  compressed :: bool
  msg_data :: bytes

text \<open>
  The length check compares with \<open>5 + length\<close> in 32-bit arithmetic; \<open>substr\<close> then cuts at
  the end of the body.
\<close>

definition parse_message :: "bytes \<Rightarrow> grpc_message option" where
  "parse_message body =
     (case body of
        b0 # b1 # b2 # b3 # b4 # rest \<Rightarrow>
          let len = be32 b1 b2 b3 b4
          in if length body < unat (5 + len) then None
             else Some \<lparr>compressed = (b0 \<noteq> 0), msg_data = take (unat len) rest\<rparr>
      | _ \<Rightarrow> None)"

definition encode_message :: "bytes \<Rightarrow> bool \<Rightarrow> bytes" where
  "encode_message data compr =
     (if 2 ^ 32 - 1 < length data then []
      else (if compr then 1 else 0) # bytes32 (of_nat (length data)) @ data)"

section \<open>The handler\<close>

type_synonym grpc_methods = "bytes \<rightharpoonup> (bytes \<Rightarrow> grpc_status \<times> bytes)"

definition register_method :: "bytes \<Rightarrow> (bytes \<Rightarrow> grpc_status \<times> bytes) \<Rightarrow> grpc_methods \<Rightarrow> grpc_methods" where
  "register_method full_method handler methods = methods(full_method \<mapsto> handler)"

definition grpc_init :: grpc_methods where
  "grpc_init = register_method (lit ''/grpc.health.v1.Health/Check'') (\<lambda>_. (G_OK, [0x08, 0x01])) Map.empty"

definition is_grpc_request :: "http_request \<Rightarrow> bool" where
  "is_grpc_request req =
     (let ct = get_header req (lit ''Content-Type'')
      in if ct = [] then False else starts_with (lower ct) (lit ''application/grpc''))"

definition set_grpc_trailers :: "http_response \<Rightarrow> grpc_status \<Rightarrow> bytes \<Rightarrow> http_response" where
  "set_grpc_trailers resp status message =
     (let h = hput (lit ''grpc-status'') (to_string (status_number status)) (resp_headers resp)
      in resp\<lparr>resp_headers := (if message \<noteq> [] then hput (lit ''grpc-message'') message h else h)\<rparr>)"

definition grpc_response :: http_response where
  "grpc_response =
     empty_response\<lparr>status_code := 200, status_text := lit ''OK'',
       resp_headers := [(lit ''content-type'', lit ''application/grpc'')]\<rparr>"

definition make_grpc_error :: "grpc_status \<Rightarrow> bytes \<Rightarrow> http_response" where
  "make_grpc_error status message = set_grpc_trailers grpc_response status message"

definition grpc_handle :: "grpc_methods \<Rightarrow> http_request \<Rightarrow> http_response" where
  "grpc_handle methods req =
     (case methods (path req) of
        None \<Rightarrow> make_grpc_error G_UNIMPLEMENTED (lit ''Method not found: '' @ path req)
      | Some handler \<Rightarrow>
          case parse_message (req_body req) of
            None \<Rightarrow> make_grpc_error G_INTERNAL (lit ''Failed to parse gRPC message'')
          | Some msg \<Rightarrow>
              if compressed msg then make_grpc_error G_UNIMPLEMENTED (lit ''Compressed messages not supported'')
              else let (status, response_data) = handler (msg_data msg);
                       resp = (if status = G_OK
                               then grpc_response\<lparr>resp_body := encode_message response_data False\<rparr>
                               else grpc_response)
                   in set_grpc_trailers resp status [])"

section \<open>Messages are a codec\<close>

lemma unat_add_5: "unat len < 2 ^ 32 - 5 \<Longrightarrow> unat (5 + len :: u32) = 5 + unat len"
  by (simp add: unat_word_ariths)

lemma parse_encode:
  assumes "length data < 2 ^ 32 - 5"
  shows "parse_message (encode_message data compr @ rest) = Some \<lparr>compressed = compr, msg_data = data\<rparr>"
proof -
  have len: "unat (of_nat (length data) :: u32) = length data"
    using assms by (simp add: unat_of_nat)
  with assms unat_add_5 [of "of_nat (length data)"]
  have "unat (5 + of_nat (length data) :: u32) = 5 + length data"
    by simp
  with assms len be32_bytes32 [of "of_nat (length data)"] show ?thesis
    by (simp add: parse_message_def encode_message_def bytes32_def)
qed

text \<open>
  The parser also says where the message ends; with that it is a codec for sequences of
  messages.
\<close>

definition split_message :: "bytes \<Rightarrow> (grpc_message \<times> bytes) option" where
  "split_message body =
     map_option (\<lambda>m. (m, drop (5 + length (msg_data m)) body)) (parse_message body)"

interpretation grpc: codec "\<lambda>m. encode_message (msg_data m) (compressed m)" split_message
    "\<lambda>m. length (msg_data m) < 2 ^ 32 - 5"
proof unfold_locales
  fix m :: grpc_message and rest
  assume "length (msg_data m) < 2 ^ 32 - 5"
  then show "split_message (encode_message (msg_data m) (compressed m) @ rest) = Some (m, rest)"
    using parse_encode [of "msg_data m" "compressed m" rest]
    by (simp add: split_message_def) (simp add: encode_message_def)
qed

lemma grpc_status_header:
  "map_of (resp_headers (set_grpc_trailers r s m)) (lit ''grpc-status'') = Some (to_string (status_number s))"
  by (simp add: set_grpc_trailers_def Let_def lit_def)

text \<open>
  A unary gRPC call: a registered method is called with exactly the bytes the client
  encoded, whatever follows the message in the body; on status OK the response body is a
  message that parses back to the method's answer, and its status is in the
  \<open>grpc-status\<close> header of an HTTP 200.
\<close>

theorem grpc_call:
  assumes "methods (path req) = Some handler" and "req_body req = encode_message data False @ rest"
    and "length data < 2 ^ 32 - 5" and "handler data = (status, answer)" and "length answer < 2 ^ 32 - 5"
  shows "status_code (grpc_handle methods req) = 200
       \<and> map_of (resp_headers (grpc_handle methods req)) (lit ''grpc-status'') = Some (to_string (status_number status))
       \<and> (if status = G_OK
          then parse_message (resp_body (grpc_handle methods req)) = Some \<lparr>compressed = False, msg_data = answer\<rparr>
          else resp_body (grpc_handle methods req) = [])"
proof -
  let ?resp = "if status = G_OK then grpc_response\<lparr>resp_body := encode_message answer False\<rparr> else grpc_response"
  have "grpc_handle methods req = set_grpc_trailers ?resp status []"
    using assms(1,2,4) parse_encode [OF assms(3), of False rest] by (simp add: grpc_handle_def)
  moreover have "status_code (set_grpc_trailers ?resp status []) = 200"
      "resp_body (set_grpc_trailers ?resp status []) = (if status = G_OK then encode_message answer False else [])"
    by (simp_all add: set_grpc_trailers_def grpc_response_def empty_response_def)
  moreover have "parse_message (encode_message answer False) = Some \<lparr>compressed = False, msg_data = answer\<rparr>"
    using parse_encode [OF assms(5), of False "[]"] by simp
  ultimately show ?thesis
    using grpc_status_header [of ?resp status "[]"] by metis
qed

theorem grpc_call_witness:
  "parse_message (resp_body (grpc_handle grpc_init
     (empty_request\<lparr>path := lit ''/grpc.health.v1.Health/Check'', req_body := encode_message [] False\<rparr>)))
   = Some \<lparr>compressed = False, msg_data = [0x08, 0x01]\<rparr>"
  using grpc_call [of grpc_init "empty_request\<lparr>path := lit ''/grpc.health.v1.Health/Check'',
      req_body := encode_message [] False\<rparr>" "\<lambda>_. (G_OK, [0x08, 0x01])" "[]" "[]" G_OK "[0x08, 0x01]"]
  by (simp add: grpc_init_def register_method_def)

text \<open>
  The length check wraps: a message that announces between 2^32 - 5 and 2^32 - 1 bytes
  passes it with any body, and whatever the body holds is taken for the whole message.
\<close>

theorem grpc_length_check_wraps:
  assumes "2 ^ 32 - 5 \<le> unat (be32 b1 b2 b3 b4)" and "length rest < 2 ^ 32 - 5"
  shows "parse_message (b0 # b1 # b2 # b3 # b4 # rest) = Some \<lparr>compressed = (b0 \<noteq> 0), msg_data = rest\<rparr>"
proof -
  have "unat (be32 b1 b2 b3 b4) < 2 ^ 32"
    using unsigned_less [where ?'a = nat, of "be32 b1 b2 b3 b4"] by simp
  then have "unat (5 + be32 b1 b2 b3 b4) < 5"
    using assms(1) by (simp add: unat_word_ariths mod_if) arith
  with assms show ?thesis
    by (simp add: parse_message_def)
qed

theorem grpc_length_check_wraps_witness:
  "parse_message [0, 0xFF, 0xFF, 0xFF, 0xFF, 1, 2, 3, 4] = Some \<lparr>compressed = False, msg_data = [1, 2, 3, 4]\<rparr>"
  using grpc_length_check_wraps [of "0xFF" "0xFF" "0xFF" "0xFF" "[1, 2, 3, 4]" 0]
  by (simp add: be32_def)

end
