(* ===== verification/Unicode.thy ===== *)
theory Unicode
  imports Wire
begin

text \<open>
  UTF-8 handling (\<open>class Unicode\<close>, \<open>src/unicode.cpp\<close>), the first line of the firewall: the
  decoder of one code point, validation, normalisation, and the detectors of encoding tricks.
  A pointer with a remaining length is the rest of the byte list; the remaining length is
  cast to a 32-bit \<open>int\<close> as in the code, so the theorems speak of inputs below 2 GB.

  Shown: the decoder inverts the re-encoding that normalisation uses (an interpretation of
  \<open>codec\<close>), the validator accepts exactly the concatenations of minimal encodings of scalar
  values, normalisation yields a clean string and is idempotent, and what the detectors let
  through; and two defects, code points beyond U+10FFFF and false alarms of the Shift-JIS check.
\<close>

unbundle bit_operations_syntax

section \<open>Model\<close>

text \<open>The loop over the continuation bytes.\<close>

fun continuation :: "u32 \<Rightarrow> bytes \<Rightarrow> u32 option" where
  "continuation cp [] = Some cp"
| "continuation cp (cont # cs) =
     (if cont AND 0xC0 \<noteq> 0x80 then None else continuation (push_bit 6 cp OR ucast (cont AND 0x3F)) cs)"

text \<open>The number of bytes a leading byte announces, and its part of the code point.\<close>

definition lead_byte :: "byte \<Rightarrow> (nat \<times> byte) option" where
  "lead_byte b =
     (if b AND 0xE0 = 0xC0 then Some (2, b AND 0x1F)
      else if b AND 0xF0 = 0xE0 then Some (3, b AND 0x0F)
      else if b AND 0xF8 = 0xF0 then Some (4, b AND 0x07) else None)"

text \<open>\<open>decode_codepoint\<close>: the code point and the number of bytes, or nothing (the code's 0).\<close>

definition decode_codepoint :: "bytes \<Rightarrow> (u32 \<times> nat) option" where
  "decode_codepoint data =
     (case data of
        [] \<Rightarrow> None
      | b # _ \<Rightarrow>
          if b < 0x80 then Some (ucast b, 1)
          else case lead_byte b of
                 None \<Rightarrow> None
               | Some (bytes_expected, lead) \<Rightarrow>
                   if sint (word_of_nat (length data) :: 32 word) < int bytes_expected then None
                   else map_option (\<lambda>cp. (cp, bytes_expected))
                          (continuation (ucast lead) (take (bytes_expected - 1) (tl data))))"

definition is_overlong :: "u32 \<Rightarrow> nat \<Rightarrow> bool" where
  "is_overlong codepoint bytes_used =
     (if bytes_used = 2 then codepoint < 0x80
      else if bytes_used = 3 then codepoint < 0x800
      else if bytes_used = 4 then codepoint < 0x10000 else False)"

definition is_dangerous_codepoint :: "u32 \<Rightarrow> bool" where
  "is_dangerous_codepoint codepoint =
     (codepoint = 0
      \<or> (0xD800 \<le> codepoint \<and> codepoint \<le> 0xDFFF)
      \<or> (0xFDD0 \<le> codepoint \<and> codepoint \<le> 0xFDEF)
      \<or> codepoint AND 0xFFFE = 0xFFFE
      \<or> codepoint = 0xFEFF
      \<or> codepoint \<in> {0x202A, 0x202B, 0x202C, 0x202D, 0x202E, 0x2066, 0x2067, 0x2068, 0x2069}
      \<or> codepoint \<in> {0x200B, 0x200C, 0x200D, 0xFEFF})"

text \<open>A successful decoding uses at least one byte, so the loops below end.\<close>

lemma decode_progress: "decode_codepoint data = Some (cp, n) \<Longrightarrow> 0 < n \<and> data \<noteq> []"
  by (auto simp: decode_codepoint_def lead_byte_def split: list.splits if_splits)

function is_valid_utf8 :: "bytes \<Rightarrow> bool" where
  "is_valid_utf8 data =
     (if data = [] then True
      else case decode_codepoint data of
             None \<Rightarrow> False
           | Some (cp, n) \<Rightarrow>
               if is_overlong cp n then False
               else if 0xD800 \<le> cp \<and> cp \<le> 0xDFFF then False
               else if 0x10FFFF < cp then False
               else is_valid_utf8 (drop n data))"
  by pat_completeness auto
termination
  by (relation "measure length") (auto dest: decode_progress)

text \<open>The shortest encoding, as \<open>normalize_utf8\<close> writes it.\<close>

definition encode_min :: "u32 \<Rightarrow> bytes" where
  "encode_min cp =
     (if cp < 0x80 then [ucast cp]
      else if cp < 0x800 then [ucast (0xC0 OR drop_bit 6 cp), ucast (0x80 OR (cp AND 0x3F))]
      else if cp < 0x10000 then
        [ucast (0xE0 OR drop_bit 12 cp), ucast (0x80 OR (drop_bit 6 cp AND 0x3F)), ucast (0x80 OR (cp AND 0x3F))]
      else
        [ucast (0xF0 OR drop_bit 18 cp), ucast (0x80 OR (drop_bit 12 cp AND 0x3F)),
         ucast (0x80 OR (drop_bit 6 cp AND 0x3F)), ucast (0x80 OR (cp AND 0x3F))])"

function normalize_utf8 :: "bytes \<Rightarrow> bytes" where
  "normalize_utf8 input =
     (if input = [] then []
      else case decode_codepoint input of
             None \<Rightarrow> normalize_utf8 (drop 1 input)
           | Some (cp, n) \<Rightarrow>
               (if is_dangerous_codepoint cp then []
                else if is_overlong cp n then encode_min cp
                else take n input) @ normalize_utf8 (drop n input))"
  by pat_completeness auto
termination
  by (relation "measure length") (auto dest: decode_progress)

text \<open>Fullwidth forms of the ASCII characters that matter to a filter.\<close>

definition fullwidth_meta :: "u32 \<Rightarrow> bool" where
  "fullwidth_meta cp =
     (0xFF01 \<le> cp \<and> cp \<le> 0xFF5E
      \<and> cp - 0xFF01 + 0x21 \<in> {47, 92, 46, 60, 62, 39, 34, 38})"

function detect_multibyte_bypass :: "bytes \<Rightarrow> bool" where
  "detect_multibyte_bypass data =
     (if data = [] then False
      else case decode_codepoint data of
             None \<Rightarrow> True
           | Some (cp, n) \<Rightarrow>
               if is_overlong cp n then True
               else if is_dangerous_codepoint cp then True
               else if fullwidth_meta cp then True
               else detect_multibyte_bypass (drop n data))"
  by pat_completeness auto
termination
  by (relation "measure length") (auto dest: decode_progress)

function has_overlong_encoding :: "bytes \<Rightarrow> bool" where
  "has_overlong_encoding data =
     (if data = [] then False
      else case decode_codepoint data of
             None \<Rightarrow> has_overlong_encoding (drop 1 data)
           | Some (cp, n) \<Rightarrow> if is_overlong cp n then True else has_overlong_encoding (drop n data))"
  by pat_completeness auto
termination
  by (relation "measure length") (auto dest: decode_progress)

declare is_valid_utf8.simps [simp del] normalize_utf8.simps [simp del]
  detect_multibyte_bypass.simps [simp del] has_overlong_encoding.simps [simp del]

definition sjis_lead :: "byte \<Rightarrow> bool" where
  "sjis_lead b = ((0x81 \<le> b \<and> b \<le> 0x9F) \<or> (0xE0 \<le> b \<and> b \<le> 0xEF))"

definition sjis_trail :: "byte \<Rightarrow> bool" where
  "sjis_trail b = (b \<in> {47, 92, 46, 60, 62, 39, 34, 38, 124, 59, 96})"

fun detect_shiftjis_bypass :: "bytes \<Rightarrow> bool" where
  "detect_shiftjis_bypass (b # trail # rest) =
     (if sjis_lead b \<and> sjis_trail trail then True else detect_shiftjis_bypass (trail # rest))"
| "detect_shiftjis_bypass _ = False"

text \<open>
  \<open>strtol\<close> in base 16 on two characters, when it uses both: two digits, or one digit behind a
  blank or a sign.
\<close>

definition strtol2 :: "byte \<Rightarrow> byte \<Rightarrow> int option" where
  "strtol2 h1 h2 =
     (case (digit_val 16 h1, digit_val 16 h2) of
        (Some v1, Some v2) \<Rightarrow> Some (int (16 * v1 + v2))
      | (None, Some v2) \<Rightarrow>
          if h1 \<in> {32, 9, 10, 11, 12, 13} then Some (int v2)
          else if h1 = 43 then Some (int v2)
          else if h1 = 45 then Some (- int v2) else None
      | _ \<Rightarrow> None)"

fun decode_percent_utf8 :: "bytes \<Rightarrow> bytes" where
  "decode_percent_utf8 (c # h1 # h2 # rest) =
     (case (if c = 37 then strtol2 h1 h2 else None) of
        None \<Rightarrow> c # decode_percent_utf8 (h1 # h2 # rest)
      | Some val \<Rightarrow> word_of_int val # decode_percent_utf8 rest)"
| "decode_percent_utf8 input = input"

section \<open>Bytes and code points as numbers\<close>

lemma unat_take_bit_word: "unat (take_bit k (w :: 'a::len word)) = unat w mod 2 ^ k"
  by (simp only: unsigned_take_bit_eq) (simp add: take_bit_eq_mod)

lemma unat_high_bits: "unat (w AND NOT (mask k) :: 'a::len word) = unat w div 2 ^ k * 2 ^ k"
proof -
  have e: "w AND NOT (mask k) = push_bit k (drop_bit k w)"
    by (rule bit_word_eqI) (auto simp: bit_simps)
  have "unat w div 2 ^ k * 2 ^ k \<le> unat w"
    by simp
  then have "unat w div 2 ^ k * 2 ^ k < 2 ^ LENGTH('a)"
    using unsigned_less [where ?'a = nat and w = w] by linarith
  then show ?thesis
    unfolding e unsigned_push_bit_eq unsigned_drop_bit_eq
    by (simp add: push_bit_eq_mult drop_bit_eq_div take_bit_eq_mod)
qed

lemma high_bits_iff:
  fixes b :: byte
  assumes "w = NOT (mask k)" and "unat v = m * 2 ^ k"
  shows "b AND w = v \<longleftrightarrow> unat b div 2 ^ k = m"
  unfolding assms(1) word_unat_eq_iff unat_high_bits assms(2) by simp

lemma lead_bytes:
  fixes b :: byte
  shows "b < 0x80 \<longleftrightarrow> unat b < 128"
  and "b AND 0xE0 = 0xC0 \<longleftrightarrow> unat b div 32 = 6"
  and "b AND 0xF0 = 0xE0 \<longleftrightarrow> unat b div 16 = 14"
  and "b AND 0xF8 = 0xF0 \<longleftrightarrow> unat b div 8 = 30"
  and "b AND 0xC0 = 0x80 \<longleftrightarrow> unat b div 64 = 2"
  using high_bits_iff [of "0xE0" 5 "0xC0" 6 b] high_bits_iff [of "0xF0" 4 "0xE0" 14 b]
    high_bits_iff [of "0xF8" 3 "0xF0" 30 b] high_bits_iff [of "0xC0" 6 "0x80" 2 b]
  by (simp_all add: word_less_nat_alt mask_eq_exp_minus_1)

lemma low_bits:
  fixes b :: byte
  shows "unat (b AND 0x1F) = unat b mod 32" and "unat (b AND 0x0F) = unat b mod 16"
  and "unat (b AND 0x07) = unat b mod 8" and "unat (b AND 0x3F) = unat b mod 64"
  using unat_take_bit_word [of 5 b] unat_take_bit_word [of 4 b] unat_take_bit_word [of 3 b] unat_take_bit_word [of 6 b]
  by (simp_all add: take_bit_eq_mask mask_eq_exp_minus_1)

lemma unat_ucast_byte [simp]: "unat (ucast (b :: byte) :: u32) = unat b"
  using unat_byte_less [of b] by (simp add: unsigned_ucast_eq take_bit_eq_mod)

lemma unat_append_six:
  fixes w :: u32
  assumes "unat w < 2 ^ 26"
  shows "unat (push_bit 6 w OR ucast (b AND 0x3F :: byte)) = unat w * 64 + unat b mod 64"
proof -
  have m: "(0x3F :: byte) = mask 6"
    by (simp add: mask_eq_exp_minus_1)
  have "push_bit 6 w AND ucast (b AND 0x3F) = 0"
    unfolding m by (rule bit_word_eqI) (auto simp: bit_simps)
  then have e: "push_bit 6 w OR ucast (b AND 0x3F) = push_bit 6 w + ucast (b AND 0x3F)"
    by (simp add: disjunctive_add_eq_or)
  have 1: "unat (push_bit 6 w) = unat w * 64"
    using assms unfolding unsigned_push_bit_eq by (simp add: push_bit_eq_mult take_bit_eq_mod)
  have "unat b mod 64 < 64"
    by simp
  with assms have "unat w * 64 + unat b mod 64 < 2 ^ 32"
    by simp
  then show ?thesis
    unfolding e by (simp add: unat_word_ariths 1 low_bits)
qed

section \<open>The decoder on numbers\<close>

text \<open>The encoding of a code point as numbers below 256.\<close>

definition enc_nat :: "nat \<Rightarrow> nat list" where
  "enc_nat u =
     (if u < 128 then [u]
      else if u < 2048 then [192 + u div 64, 128 + u mod 64]
      else if u < 65536 then [224 + u div 4096, 128 + u div 64 mod 64, 128 + u mod 64]
      else [240 + u div 262144, 128 + u div 4096 mod 64, 128 + u div 64 mod 64, 128 + u mod 64])"

lemma unat_or_small:
  fixes c x :: u32
  assumes "unat x < 2 ^ k" and "c = push_bit k v"
  shows "unat (c OR x) = unat c + unat x"
proof -
  have x: "take_bit k x = x"
    using assms(1) by (simp add: word_unat_eq_iff unat_take_bit_word)
  have "c AND take_bit k x = 0"
    unfolding assms(2) by (rule bit_word_eqI) (auto simp: bit_simps)
  then have "c AND x = 0"
    unfolding x .
  then have "unat c AND unat x = 0"
    by (metis unsigned_0 unsigned_and_eq)
  then show ?thesis
    by (simp add: unsigned_or_eq disjunctive_add_eq_or)
qed

lemma unat_ucast_u32_byte: "unat (ucast (w :: u32) :: byte) = unat w mod 256"
  by (simp add: unsigned_ucast_eq take_bit_eq_mod)

lemma tagged_byte:
  fixes x :: u32
  assumes "unat x < 2 ^ k" and "c = push_bit k v" and "unat c + 2 ^ k \<le> 256"
  shows "unat (ucast (c OR x) :: byte) = unat c + unat x"
  using assms(1,3) unat_or_small [OF assms(1,2)] by (simp add: unat_ucast_u32_byte)

lemma unat_drop_bit: "unat (drop_bit k (w :: 'a::len word)) = unat w div 2 ^ k"
  unfolding unat_drop_bit_eq by (rule drop_bit_eq_div)

lemma unat_and_63: "unat (w AND 0x3F :: u32) = unat w mod 64"
  using unat_take_bit_word [of 6 w] by (simp add: take_bit_eq_mask mask_eq_exp_minus_1)

lemma cont_byte: "unat (ucast (0x80 OR (w AND 0x3F) :: u32) :: byte) = 128 + unat w mod 64"
  using tagged_byte [of "w AND 0x3F" 6 "0x80" 2] by (simp add: unat_and_63)

lemma encode_min_nat:
  assumes "unat cp < 2 ^ 21"
  shows "map unat (encode_min cp) = enc_nat (unat cp)"
proof -
  have *: "unat (ucast (0xC0 OR drop_bit 6 cp) :: byte) = 192 + unat cp div 64" if "unat cp < 2048"
    using tagged_byte [of "drop_bit 6 cp" 5 "0xC0" 6] that by (simp add: unat_drop_bit)
  have **: "unat (ucast (0xE0 OR drop_bit 12 cp) :: byte) = 224 + unat cp div 4096" if "unat cp < 65536"
    using tagged_byte [of "drop_bit 12 cp" 4 "0xE0" 14] that by (simp add: unat_drop_bit)
  have ***: "unat (ucast (0xF0 OR drop_bit 18 cp) :: byte) = 240 + unat cp div 262144"
    using tagged_byte [of "drop_bit 18 cp" 3 "0xF0" 30] assms by (simp add: unat_drop_bit)
  have "unat (ucast cp :: byte) = unat cp" if "unat cp < 128"
    using that by (simp add: unat_ucast_u32_byte)
  with * ** *** show ?thesis
    by (simp add: encode_min_def enc_nat_def word_less_nat_alt cont_byte unat_drop_bit)
qed

lemma cast_length: "n < 2 ^ 31 \<Longrightarrow> sint (word_of_nat n :: 32 word) = int n"
  by (simp add: signed_of_nat signed_take_bit_int_eq_self)

text \<open>The decoder on the numbers.\<close>

fun cont_nat :: "nat \<Rightarrow> nat list \<Rightarrow> nat option" where
  "cont_nat u [] = Some u"
| "cont_nat u (c # cs) = (if c div 64 = 2 then cont_nat (u * 64 + c mod 64) cs else None)"

definition lead_nat :: "nat \<Rightarrow> (nat \<times> nat) option" where
  "lead_nat b =
     (if b div 32 = 6 then Some (2, b mod 32) else if b div 16 = 14 then Some (3, b mod 16)
      else if b div 8 = 30 then Some (4, b mod 8) else None)"

definition dec_nat :: "nat list \<Rightarrow> (nat \<times> nat) option" where
  "dec_nat bs =
     (case bs of
        [] \<Rightarrow> None
      | b # r \<Rightarrow>
          if b < 128 then Some (b, 1)
          else case lead_nat b of
                 None \<Rightarrow> None
               | Some (n, l) \<Rightarrow> if length bs < n then None else map_option (\<lambda>u. (u, n)) (cont_nat l (take (n - 1) r)))"

lemma continuation_nat:
  "(unat cp + 1) * 64 ^ length cs \<le> 2 ^ 32 \<Longrightarrow> map_option unat (continuation cp cs) = cont_nat (unat cp) (map unat cs)"
proof (induction cs arbitrary: cp)
  case (Cons c cs)
  have "(unat cp + 1) * 64 \<le> (unat cp + 1) * 64 ^ length (c # cs)"
    by (rule mult_le_mono2) simp
  then have "(unat cp + 1) * 64 \<le> 2 ^ 32"
    using Cons.prems by (rule le_trans)
  then have u: "unat (push_bit 6 cp OR ucast (c AND 0x3F)) = unat cp * 64 + unat c mod 64"
    by (intro unat_append_six) simp
  have "unat cp * 64 + unat c mod 64 + 1 \<le> (unat cp + 1) * 64"
    using mod_less_divisor [of 64 "unat c"] by simp
  then have "(unat cp * 64 + unat c mod 64 + 1) * 64 ^ length cs \<le> (unat cp + 1) * 64 * 64 ^ length cs"
    by (rule mult_le_mono1)
  also have "\<dots> \<le> 2 ^ 32"
    using Cons.prems by (simp only: list.size(4) add_0_right add_Suc_right power_Suc mult.assoc)
  finally show ?case
    using Cons.IH [of "push_bit 6 cp OR ucast (c AND 0x3F)"] u by (simp add: lead_bytes)
qed simp

lemma decode_codepoint_nat:
  assumes "length data < 2 ^ 31"
  shows "map_option (map_prod unat id) (decode_codepoint data) = dec_nat (map unat data)"
proof (cases data)
  case (Cons b r)
  have len: "sint (word_of_nat (length data) :: 32 word) = int (length data)"
    by (rule cast_length) (rule assms)
  have step: "map_option (map_prod unat id) (map_option (\<lambda>cp. (cp, n)) (continuation (ucast l) (take k r)))
      = map_option (\<lambda>u. (u, n)) (cont_nat (unat l) (take k (map unat r)))"
    if "unat l < 32" "k \<le> 3" for l :: byte and n k
  proof -
    have "(unat l + 1) * 64 ^ length (take k r) \<le> 32 * 64 ^ 3"
      using that by (intro mult_le_mono power_increasing) auto
    then have "map_option unat (continuation (ucast l) (take k r)) = cont_nat (unat l) (map unat (take k r))"
      using continuation_nat [of "ucast l" "take k r"] by simp
    then show ?thesis
      by (cases "continuation (ucast l) (take k r)") (auto simp: take_map dest: sym)
  qed
  have lead: "lead_nat (unat b) = map_option (map_prod id unat) (lead_byte b)"
    by (simp add: lead_nat_def lead_byte_def lead_bytes low_bits)
  show ?thesis
  proof (cases "lead_byte b")
    case None
    with lead Cons show ?thesis
      by (simp add: decode_codepoint_def dec_nat_def lead_bytes)
  next
    case (Some p)
    obtain n l where p: "p = (n, l)"
      by (cases p)
    then have "unat l < 32" "n - 1 \<le> 3"
      using Some by (auto simp: lead_byte_def low_bits split: if_splits)
    with step [of l "n - 1" n] lead Some p Cons len show ?thesis
      by (simp add: decode_codepoint_def dec_nat_def lead_bytes(1))
  qed
qed (simp add: decode_codepoint_def dec_nat_def)

lemma div_split: "b div k = q \<Longrightarrow> b = q * k + b mod (k :: nat)"
  by (metis div_mult_mod_eq)

lemma tag_bits: "v < k \<Longrightarrow> (a * k + v) div k = a \<and> (a * k + v) mod k = (v :: nat)"
  by simp

lemma six_bits: "z < 64 \<Longrightarrow> (a * 64 + z) mod 64 = z" "z < 64 \<Longrightarrow> (a * 64 + z) div 64 = (a :: nat)"
  by simp_all

text \<open>Minimal encodings are decoded, and what is decoded and not overlong is a minimal encoding.\<close>

lemma dec_enc_nat:
  assumes "u < 2 ^ 21"
  shows "dec_nat (enc_nat u @ r) = Some (u, length (enc_nat u))"
proof -
  have v: "(192 + v) div 32 = 6 \<and> (192 + v) mod 32 = v" if "v < 32" for v :: nat
    using tag_bits [OF that, of 6] by simp
  have w: "(224 + v) div 32 = 7 \<and> (224 + v) div 16 = 14 \<and> (224 + v) mod 16 = v" if "v < 16" for v :: nat
    using tag_bits [OF that, of 14] div_mult2_eq [of "224 + v" 16 2] by simp
  have x: "(240 + v) div 32 = 7 \<and> (240 + v) div 16 = 15 \<and> (240 + v) div 8 = 30 \<and> (240 + v) mod 8 = v"
    if "v < 8" for v :: nat
    using tag_bits [OF that, of 30] div_mult2_eq [of "240 + v" 8 2] div_mult2_eq [of "240 + v" 8 4] by simp
  have c: "(128 + a mod 64) div 64 = 2" "(128 + a mod 64) mod 64 = a mod 64" for a :: nat
    using six_bits [of "a mod 64" 2] by simp_all
  consider "u < 128" | "128 \<le> u" "u < 2048" | "2048 \<le> u" "u < 65536" | "65536 \<le> u"
    by linarith
  then show ?thesis
  proof cases
    case 2
    with v [of "u div 64"] show ?thesis
      by (simp add: dec_nat_def enc_nat_def lead_nat_def c)
  next
    case 3
    have h: "lead_nat (224 + u div 4096) = Some (3, u div 4096)"
      using 3 w [of "u div 4096"] by (simp add: lead_nat_def)
    have "u div 4096 = u div 64 div 64"
      by (simp flip: div_mult2_eq)
    then have "(u div 4096 * 64 + u div 64 mod 64) * 64 + u mod 64 = u"
      by (simp only: div_mult_mod_eq)
    with 3 show ?thesis
      by (simp add: dec_nat_def enc_nat_def h c numeral_2_eq_2)
  next
    case 4
    have "u div 262144 < 8"
      using assms by simp
    then have h: "lead_nat (240 + u div 262144) = Some (4, u div 262144)"
      using x [of "u div 262144"] by (simp add: lead_nat_def)
    have "u div 4096 = u div 64 div 64" "u div 262144 = u div 4096 div 64"
      by (simp_all flip: div_mult2_eq)
    then have "((u div 262144 * 64 + u div 4096 mod 64) * 64 + u div 64 mod 64) * 64 + u mod 64 = u"
      by (simp only: div_mult_mod_eq)
    with 4 show ?thesis
      by (simp add: dec_nat_def enc_nat_def h c)
  qed (simp add: dec_nat_def enc_nat_def)
qed

lemma cont_bytes:
  assumes "cont_nat l cs = Some u"
  shows "\<exists>ys. cs = map (\<lambda>y. 128 + y) ys \<and> (\<forall>y \<in> set ys. y < 64) \<and> u = foldl (\<lambda>a y. a * 64 + y) l ys"
  using assms
proof (induction cs arbitrary: l)
  case (Cons c cs)
  then have c: "c = 128 + c mod 64"
    using div_split [of c 64 2] by (simp split: if_splits)
  obtain ys where "cs = map (\<lambda>y. 128 + y) ys" "\<forall>y \<in> set ys. y < 64" "u = foldl (\<lambda>a y. a * 64 + y) (l * 64 + c mod 64) ys"
    using Cons by (auto split: if_splits)
  with c show ?case
    by (intro exI [of _ "c mod 64 # ys"]) simp
qed simp

lemma dec_natD:
  assumes "dec_nat bs = Some (u, n)"
  shows "(\<exists>r. bs = u # r \<and> u < 128 \<and> n = 1)
       \<or> (\<exists>x y r. bs = (192 + x) # (128 + y) # r \<and> x < 32 \<and> y < 64 \<and> u = x * 64 + y \<and> n = 2)
       \<or> (\<exists>x y z r. bs = (224 + x) # (128 + y) # (128 + z) # r \<and> x < 16 \<and> y < 64 \<and> z < 64
              \<and> u = (x * 64 + y) * 64 + z \<and> n = 3)
       \<or> (\<exists>x y z w r. bs = (240 + x) # (128 + y) # (128 + z) # (128 + w) # r \<and> x < 8 \<and> y < 64 \<and> z < 64 \<and> w < 64
              \<and> u = ((x * 64 + y) * 64 + z) * 64 + w \<and> n = 4)"
proof -
  obtain b r where bs: "bs = b # r"
    using assms by (auto simp: dec_nat_def split: list.splits)
  show ?thesis
  proof (cases "b < 128")
    case True
    with assms bs show ?thesis
      by (simp add: dec_nat_def)
  next
    case False
    then obtain l where lead: "lead_nat b = Some (n, l)" and len: "n \<le> length bs"
        and cont: "cont_nat l (take (n - 1) r) = Some u"
      using assms bs by (auto simp: dec_nat_def split: option.splits if_splits)
    obtain ys where ys: "take (n - 1) r = map (\<lambda>y. 128 + y) ys" "\<forall>y \<in> set ys. y < 64"
        "u = foldl (\<lambda>a y. a * 64 + y) l ys"
      using cont_bytes [OF cont] by blast
    then have "length (take (n - 1) r) = length ys"
      by simp
    then have k: "length ys = n - 1"
      using len bs by simp
    have r: "r = map (\<lambda>y. 128 + y) ys @ drop (n - 1) r"
      using ys(1) append_take_drop_id [of "n - 1" r] by simp
    consider "n = 2" "b = 192 + l" "l < 32" | "n = 3" "b = 224 + l" "l < 16" | "n = 4" "b = 240 + l" "l < 8"
    proof -
      have "b div 32 = 6 \<and> n = 2 \<and> l = b mod 32 \<or> b div 16 = 14 \<and> n = 3 \<and> l = b mod 16 \<or> b div 8 = 30 \<and> n = 4 \<and> l = b mod 8"
        using lead by (auto simp: lead_nat_def split: if_splits)
      moreover have "b mod 32 < 32" "b mod 16 < 16" "b mod 8 < 8"
        by simp_all
      ultimately show ?thesis
        using that div_split [of b 32 6] div_split [of b 16 14] div_split [of b 8 30] by (elim disjE conjE) simp_all
    qed
    then show ?thesis
    proof cases
      case 1
      with k obtain y where "ys = [y]"
        by (auto simp: length_Suc_conv numeral_eq_Suc)
      with 1 ys r bs show ?thesis
        by auto
    next
      case 2
      with k obtain y z where "ys = [y, z]"
        by (auto simp: length_Suc_conv numeral_eq_Suc)
      with 2 ys r bs show ?thesis
        by auto
    next
      case 3
      with k obtain y z w where "ys = [y, z, w]"
        by (auto simp: length_Suc_conv numeral_eq_Suc)
      with 3 ys r bs show ?thesis
        by auto
    qed
  qed
qed

lemma enc_dec_nat:
  assumes "dec_nat bs = Some (u, n)"
    and "\<not> (n = 2 \<and> u < 128 \<or> n = 3 \<and> u < 2048 \<or> n = 4 \<and> u < 65536)"
  shows "take n bs = enc_nat u"
  using dec_natD [OF assms(1)]
proof (elim disjE exE conjE)
  fix x y r assume *: "bs = (192 + x) # (128 + y) # r" "x < 32" "y < 64" "u = x * 64 + y" "n = 2"
  then have "u div 64 = x" "u mod 64 = y"
    by (simp_all only: six_bits)
  with * assms(2) show ?thesis
    by (simp add: enc_nat_def)
next
  fix x y z r assume *: "bs = (224 + x) # (128 + y) # (128 + z) # r" "x < 16" "y < 64" "z < 64"
    "u = (x * 64 + y) * 64 + z" "n = 3"
  then have "u mod 64 = z" "u div 64 = x * 64 + y"
    by (simp_all only: six_bits)
  moreover from this * have "u div 64 mod 64 = y" "u div 4096 = x"
    using div_mult2_eq [of u 64 64] six_bits [of y x] by simp_all
  ultimately show ?thesis
    using * assms(2) by (simp add: enc_nat_def)
next
  fix x y z w r assume *: "bs = (240 + x) # (128 + y) # (128 + z) # (128 + w) # r" "x < 8" "y < 64" "z < 64" "w < 64"
    "u = ((x * 64 + y) * 64 + z) * 64 + w" "n = 4"
  then have "u mod 64 = w" "u div 64 = (x * 64 + y) * 64 + z"
    by (simp_all only: six_bits)
  moreover from this * have "u div 64 mod 64 = z" "u div 4096 = x * 64 + y"
    using div_mult2_eq [of u 64 64] six_bits [of z "x * 64 + y"] by simp_all
  moreover from this * have "u div 4096 mod 64 = y" "u div 262144 = x"
    using div_mult2_eq [of u 4096 64] six_bits [of y x] by simp_all
  ultimately show ?thesis
    using * assms(2) by (simp add: enc_nat_def)
qed (simp add: enc_nat_def)

lemma dec_nat_bounds:
  assumes "dec_nat bs = Some (u, n)"
  shows "u < 2 ^ 21" and "n \<le> length bs"
  using dec_natD [OF assms] by auto

section \<open>Decoding and encoding one code point\<close>

lemma decode_SomeI:
  assumes "length data < 2 ^ 31" and "dec_nat (map unat data) = Some (unat cp, n)"
  shows "decode_codepoint data = Some (cp, n)"
  using decode_codepoint_nat [OF assms(1)] assms(2)
  by (cases "decode_codepoint data") (auto simp: word_unat_eq_iff)

lemma decode_SomeD:
  assumes "length data < 2 ^ 31" and "decode_codepoint data = Some (cp, n)"
  shows "dec_nat (map unat data) = Some (unat cp, n)"
  using decode_codepoint_nat [OF assms(1)] assms(2) by simp

lemma map_unat_inj: "map unat xs = map unat ys \<longleftrightarrow> xs = (ys :: bytes)"
  by (rule inj_map_eq_map) (simp add: inj_on_def word_unat_eq_iff)

lemma length_encode_min: "unat cp < 2 ^ 21 \<Longrightarrow> length (encode_min cp) = length (enc_nat (unat cp))"
  using encode_min_nat by (metis length_map)

lemma encode_min_bounds: "0 < length (encode_min cp)" "length (encode_min cp) \<le> 4"
  by (simp_all add: encode_min_def)

lemma decode_encode:
  assumes "unat cp < 2 ^ 21" and "length (encode_min cp @ r) < 2 ^ 31"
  shows "decode_codepoint (encode_min cp @ r) = Some (cp, length (encode_min cp))"
  using dec_enc_nat [OF assms(1), of "map unat r"] assms
  by (intro decode_SomeI) (simp_all add: encode_min_nat length_encode_min)

lemma encode_not_overlong: "\<not> is_overlong cp (length (encode_min cp))"
  by (simp add: encode_min_def is_overlong_def)

lemma decode_bounds:
  assumes "length data < 2 ^ 31" and "decode_codepoint data = Some (cp, n)"
  shows "unat cp < 2 ^ 21" and "n \<le> length data"
  using dec_nat_bounds [OF decode_SomeD [OF assms]] by simp_all

lemma decode_minimal:
  assumes "length data < 2 ^ 31" and "decode_codepoint data = Some (cp, n)" and "\<not> is_overlong cp n"
  shows "take n data = encode_min cp"
proof -
  have "take n (map unat data) = enc_nat (unat cp)"
    using assms(3) by (intro enc_dec_nat [OF decode_SomeD [OF assms(1,2)]]) (auto simp: is_overlong_def word_less_nat_alt)
  then show ?thesis
    using encode_min_nat [OF decode_bounds(1) [OF assms(1,2)]] by (simp flip: map_unat_inj add: take_map)
qed

interpretation utf8: codec encode_min "\<lambda>bs. map_option (\<lambda>(cp, n). (cp, drop n bs)) (decode_codepoint (take 4 bs))"
    "\<lambda>cp. unat cp < 2 ^ 21"
proof unfold_locales
  fix cp rest assume cp: "unat (cp :: u32) < 2 ^ 21"
  have "take 4 (encode_min cp @ rest) = encode_min cp @ take (4 - length (encode_min cp)) rest"
    using encode_min_bounds by simp
  then show "map_option (\<lambda>(c, n). (c, drop n (encode_min cp @ rest))) (decode_codepoint (take 4 (encode_min cp @ rest)))
      = Some (cp, rest)"
    using decode_encode [OF cp, of "take (4 - length (encode_min cp)) rest"] encode_min_bounds(2) [of cp]
    by simp
qed

section \<open>Scanning a string\<close>

text \<open>
  A scan that accepts a string if every code point in turn decodes, is not overlong and
  passes a test: it accepts exactly the concatenations of minimal encodings.
\<close>

locale utf8_scan =
  fixes accepts :: "bytes \<Rightarrow> bool" and test :: "u32 \<Rightarrow> bool"
  assumes accepts_iff: "accepts data \<longleftrightarrow> data = [] \<or>
      (\<exists>cp n. decode_codepoint data = Some (cp, n) \<and> \<not> is_overlong cp n \<and> test cp \<and> accepts (drop n data))"
begin

lemma accepts_encoded:
  "\<forall>cp \<in> set cps. unat cp < 2 ^ 21 \<and> test cp \<Longrightarrow> length (concat (map encode_min cps)) < 2 ^ 31 \<Longrightarrow>
     accepts (concat (map encode_min cps))"
proof (induction cps)
  case Nil
  then show ?case
    using accepts_iff [of "[]"] by simp
next
  case (Cons cp cps)
  then have "decode_codepoint (encode_min cp @ concat (map encode_min cps)) = Some (cp, length (encode_min cp))"
    by (intro decode_encode) simp_all
  with Cons encode_not_overlong show ?case
    by (subst accepts_iff) simp
qed

lemma accepted:
  "accepts data \<Longrightarrow> length data < 2 ^ 31 \<Longrightarrow>
     \<exists>cps. (\<forall>cp \<in> set cps. unat cp < 2 ^ 21 \<and> test cp) \<and> data = concat (map encode_min cps)"
proof (induction "length data" arbitrary: data rule: less_induct)
  case less
  show ?case
  proof (cases "data = []")
    case False
    then obtain cp n where dec: "decode_codepoint data = Some (cp, n)" "\<not> is_overlong cp n" "test cp" "accepts (drop n data)"
      using less.prems(1) accepts_iff [of data] by blast
    have "length (drop n data) < length data"
      using decode_progress [OF dec(1)] by simp
    then obtain cps where "\<forall>cp \<in> set cps. unat cp < 2 ^ 21 \<and> test cp" "drop n data = concat (map encode_min cps)"
      using less.hyps [of "drop n data"] dec(4) less.prems(2) by auto
    then show ?thesis
      using decode_minimal [OF less.prems(2) dec(1,2)] decode_bounds(1) [OF less.prems(2) dec(1)] dec(3)
        append_take_drop_id [of n data]
      by (intro exI [of _ "cp # cps"]) simp
  qed (intro exI [of _ "[]"], simp)
qed

lemma scan_iff:
  assumes "length data < 2 ^ 31"
  shows "accepts data \<longleftrightarrow> (\<exists>cps. (\<forall>cp \<in> set cps. unat cp < 2 ^ 21 \<and> test cp) \<and> data = concat (map encode_min cps))"
  using accepted [OF _ assms] accepts_encoded assms by blast

end

definition scalar_value :: "u32 \<Rightarrow> bool" where
  "scalar_value cp = (cp \<le> 0x10FFFF \<and> \<not> (0xD800 \<le> cp \<and> cp \<le> 0xDFFF))"

interpretation valid: utf8_scan is_valid_utf8 scalar_value
  by unfold_locales (subst is_valid_utf8.simps, auto simp: scalar_value_def not_less split: option.splits)

interpretation clean: utf8_scan "\<lambda>data. \<not> detect_multibyte_bypass data"
    "\<lambda>cp. \<not> is_dangerous_codepoint cp \<and> \<not> fullwidth_meta cp"
  by unfold_locales (subst detect_multibyte_bypass.simps, auto split: option.splits)

section \<open>Normalisation\<close>

definition harmless :: "u32 \<Rightarrow> bool" where
  "harmless cp = (unat cp < 2 ^ 21 \<and> \<not> is_dangerous_codepoint cp)"

lemma overlong_shorter:
  "is_overlong cp n \<Longrightarrow> length (encode_min cp) \<le> n"
  by (auto simp: is_overlong_def encode_min_def word_less_nat_alt split: if_splits)

lemma normalize_form:
  assumes "length input < 2 ^ 31"
  shows "\<exists>cps. (\<forall>cp \<in> set cps. harmless cp) \<and> normalize_utf8 input = concat (map encode_min cps)
           \<and> length (normalize_utf8 input) \<le> length input"
  using assms
proof (induction "length input" arbitrary: input rule: less_induct)
  case less
  show ?case
  proof (cases "decode_codepoint input")
    case None
    show ?thesis
    proof (cases "input = []")
      case True
      then show ?thesis
        by (intro exI [of _ "[]"]) (simp add: normalize_utf8.simps)
    next
      case False
      then have "normalize_utf8 input = normalize_utf8 (drop 1 input)" "length (drop 1 input) < length input"
        using None by (simp_all add: normalize_utf8.simps [of input])
      then show ?thesis
        using less.hyps [of "drop 1 input"] less.prems by fastforce
    qed
  next
    case (Some p)
    obtain cp n where dec: "decode_codepoint input = Some (cp, n)"
      using Some by (cases p) simp
    note b = decode_bounds [OF less.prems dec]
    have "0 < n" "input \<noteq> []"
      using decode_progress [OF dec] by simp_all
    then have "length (drop n input) < length input"
      by simp
    then obtain cps where IH: "\<forall>cp \<in> set cps. harmless cp" "normalize_utf8 (drop n input) = concat (map encode_min cps)"
        "length (normalize_utf8 (drop n input)) \<le> length input - n"
      using less.hyps [of "drop n input"] less.prems by auto
    have eq: "normalize_utf8 input = (if is_dangerous_codepoint cp then [] else encode_min cp) @ normalize_utf8 (drop n input)"
      using dec \<open>input \<noteq> []\<close> decode_minimal [OF less.prems dec] by (simp add: normalize_utf8.simps [of input])
    have "length (encode_min cp) \<le> n"
      using overlong_shorter [of cp n] decode_minimal [OF less.prems dec] b(2) by (metis length_take min.absorb2 order_refl)
    then show ?thesis
      using IH eq b by (intro exI [of _ "if is_dangerous_codepoint cp then cps else cp # cps"]) (simp add: harmless_def, linarith)
  qed
qed

lemma encoded_unchanged:
  "\<forall>cp \<in> set cps. harmless cp \<Longrightarrow> length (concat (map encode_min cps)) < 2 ^ 31 \<Longrightarrow>
     normalize_utf8 (concat (map encode_min cps)) = concat (map encode_min cps)
     \<and> \<not> has_overlong_encoding (concat (map encode_min cps))"
proof (induction cps)
  case Nil
  then show ?case
    by (simp add: normalize_utf8.simps has_overlong_encoding.simps)
next
  case (Cons cp cps)
  let ?d = "encode_min cp @ concat (map encode_min cps)"
  have "decode_codepoint ?d = Some (cp, length (encode_min cp))"
    using Cons.prems by (intro decode_encode) (simp_all add: harmless_def)
  then show ?case
    using Cons encode_not_overlong [of cp] encode_min_bounds(1) [of cp]
    by (simp add: normalize_utf8.simps [of ?d] has_overlong_encoding.simps [of ?d] harmless_def)
qed

lemma clean_no_overlong:
  assumes "length data < 2 ^ 31" and "\<not> detect_multibyte_bypass data"
  shows "\<not> has_overlong_encoding data" and "normalize_utf8 data = data"
  using clean.accepted [OF assms(2,1)] encoded_unchanged assms(1) by (auto simp: harmless_def)

section \<open>Properties\<close>

text \<open>
  C21. The validator is exact: it accepts a string (below 2 GB) if and only if the string is the
  concatenation of the shortest encodings of Unicode scalar values, and then the scalar
  values are determined by the string.
\<close>

theorem is_valid_utf8_iff:
  assumes "length data < 2 ^ 31"
  shows "is_valid_utf8 data \<longleftrightarrow>
           (\<exists>!cps. (\<forall>cp \<in> set cps. cp \<le> 0x10FFFF \<and> \<not> (0xD800 \<le> cp \<and> cp \<le> 0xDFFF))
                 \<and> data = concat (map encode_min cps))"
proof -
  have small: "unat cp < 2 ^ 21" if "cp \<le> 0x10FFFF" for cp :: u32
    using that by (simp add: word_le_nat_alt)
  have unique: "xs = ys"
    if "\<forall>cp \<in> set xs. scalar_value cp" "\<forall>cp \<in> set ys. scalar_value cp"
      "concat (map encode_min xs) = concat (map encode_min ys)" for xs ys
    using that
  proof (induction xs arbitrary: ys)
    case Nil
    then show ?case
      using encode_min_bounds(1) by (cases ys) auto
  next
    case (Cons x xs)
    then obtain y zs where ys: "ys = y # zs"
      using encode_min_bounds(1) [of x] by (cases ys) auto
    have "unat x < 2 ^ 21" "unat y < 2 ^ 21"
      using Cons.prems(1,2) small [of x] small [of y] by (simp_all add: ys scalar_value_def)
    then have "x = y \<and> concat (map encode_min xs) = concat (map encode_min zs)"
      using Cons.prems(3) by (intro utf8.enc_prefix_free) (simp_all add: ys)
    moreover from this have "xs = zs"
      using Cons.prems(1,2) ys by (intro Cons.IH) simp_all
    ultimately show ?case
      by (simp add: ys)
  qed
  have "is_valid_utf8 data \<longleftrightarrow> (\<exists>cps. (\<forall>cp \<in> set cps. scalar_value cp) \<and> data = concat (map encode_min cps))"
    using valid.scan_iff [OF assms] small by (auto simp: scalar_value_def)
  also have "\<dots> \<longleftrightarrow> (\<exists>!cps. (\<forall>cp \<in> set cps. scalar_value cp) \<and> data = concat (map encode_min cps))"
    using unique by auto
  finally show ?thesis
    by (simp add: scalar_value_def)
qed

theorem is_valid_utf8_iff_witness:
  "\<exists>!cps. (\<forall>cp \<in> set cps. cp \<le> 0x10FFFF \<and> \<not> (0xD800 \<le> cp \<and> cp \<le> 0xDFFF))
        \<and> [0xE2, 0x82, 0xAC, 0x41] = concat (map encode_min cps)"
proof -
  have "is_valid_utf8 [0xE2, 0x82, 0xAC, 0x41]"
    by code_simp
  then show ?thesis
    using is_valid_utf8_iff [of "[0xE2, 0x82, 0xAC, 0x41]"] by simp
qed

text \<open>
  Normalisation is a closure: its result has no overlong encoding and no dangerous code
  point, is a fixed point, is never longer than the input, and a string the bypass detector
  accepts is left as it is.
\<close>

theorem normalize_utf8_closure:
  assumes "length input < 2 ^ 31"
  shows "normalize_utf8 (normalize_utf8 input) = normalize_utf8 input
       \<and> \<not> has_overlong_encoding (normalize_utf8 input)
       \<and> length (normalize_utf8 input) \<le> length input
       \<and> (\<exists>cps. normalize_utf8 input = concat (map encode_min cps) \<and> (\<forall>cp \<in> set cps. \<not> is_dangerous_codepoint cp))
       \<and> (\<not> detect_multibyte_bypass input \<longrightarrow> normalize_utf8 input = input)"
proof -
  obtain cps where cps: "\<forall>cp \<in> set cps. harmless cp" "normalize_utf8 input = concat (map encode_min cps)"
      "length (normalize_utf8 input) \<le> length input"
    using normalize_form [OF assms] by blast
  then have "normalize_utf8 (normalize_utf8 input) = normalize_utf8 input \<and> \<not> has_overlong_encoding (normalize_utf8 input)"
    using encoded_unchanged [OF cps(1)] assms by simp
  then show ?thesis
    using cps clean_no_overlong(2) [OF assms] by (auto simp: harmless_def)
qed

theorem normalize_utf8_closure_witness:
  "normalize_utf8 (normalize_utf8 [0xC1, 0x81, 0xFF, 0x00, 0x42]) = normalize_utf8 [0xC1, 0x81, 0xFF, 0x00, 0x42]"
  using normalize_utf8_closure [of "[0xC1, 0x81, 0xFF, 0x00, 0x42]"] by simp

text \<open>
  The bypass detector does not reject code points beyond U+10FFFF, which no UTF-8 text has:
  the four bytes F7 BF BF BD pass it and survive normalisation, though the validator
  rejects them.
\<close>

theorem beyond_unicode_passes:
  "\<not> detect_multibyte_bypass [0xF7, 0xBF, 0xBF, 0xBD] \<and> normalize_utf8 [0xF7, 0xBF, 0xBF, 0xBD] = [0xF7, 0xBF, 0xBF, 0xBD]
   \<and> \<not> is_valid_utf8 [0xF7, 0xBF, 0xBF, 0xBD]"
  by code_simp

text \<open>
  The Shift-JIS detector raises the alarm on ordinary text: C3 89 (a capital E with an acute
  accent) followed by a slash is valid UTF-8 and passes the bypass detector.
\<close>

theorem shiftjis_false_alarm:
  "detect_shiftjis_bypass [0xC3, 0x89, 0x2F] \<and> is_valid_utf8 [0xC3, 0x89, 0x2F] \<and> \<not> detect_multibyte_bypass [0xC3, 0x89, 0x2F]"
  by code_simp

text \<open>
  Percent decoding goes through \<open>strtol\<close>, which takes a sign or a blank for part of a number:
  a plus sign and a digit count as an escape.
\<close>

theorem percent_decoding_takes_signs:
  "decode_percent_utf8 (lit ''%+5'') = [5] \<and> decode_percent_utf8 (lit ''%-1'') = [255] \<and> decode_percent_utf8 (lit ''%41'') = lit ''A''"
  by code_simp

end
