(* ===== verification/Waf.thy ===== *)
theory Waf
  imports Http_Message Unicode
begin

text \<open>
  The web application firewall (\<open>src/waf.cpp\<close>): the payload normaliser and the scoring of
  requests.  The regular expressions are matched by RE2, which is not part of the program:
  each compiled pattern is a predicate on byte strings, and the patterns are an argument of
  the inspection.  Logging is left out.

  Shown: what an accepted request is known not to contain, that the verdict, the score, the
  status and the reason always agree, that repeated percent-encoding up to ten layers does not
  hide a payload, that only the first bytes of a body matter; and two defects, NUL bytes that
  reappear after they were stripped and the rejection of every body with a line break.
\<close>

section \<open>The normaliser\<close>

text \<open>One pass of the decoder, and whether it changed anything.\<close>

fun url_decode_pass :: "bytes \<Rightarrow> bytes \<times> bool" where
  "url_decode_pass (c # h1 # h2 # rest) =
     (case (if c = 37 then (digit_val 16 h1, digit_val 16 h2) else (None, None)) of
        (Some v1, Some v2) \<Rightarrow> (word_of_nat (16 * v1 + v2) # fst (url_decode_pass rest), True)
      | _ \<Rightarrow> map_prod (Cons c) id (url_decode_pass (h1 # h2 # rest)))"
| "url_decode_pass input = (input, False)"

fun recursive_url_decode :: "nat \<Rightarrow> bytes \<Rightarrow> bytes" where
  "recursive_url_decode 0 current = current"
| "recursive_url_decode (Suc i) current =
     (let (decoded, changed) = url_decode_pass current
      in if changed then recursive_url_decode i decoded else current)"

definition strip_null_bytes :: "bytes \<Rightarrow> bytes" where
  "strip_null_bytes input = filter (\<lambda>c. c \<noteq> 0) input"

text \<open>The character an entity at the front stands for, and the length of the entity.\<close>

definition named_entity :: "bytes \<Rightarrow> (byte \<times> nat) option" where
  "named_entity remaining =
     (if starts_with remaining (lit ''&lt;'') then Some (60, 4)
      else if starts_with remaining (lit ''&gt;'') then Some (62, 4)
      else if starts_with remaining (lit ''&amp;'') then Some (38, 5)
      else if starts_with remaining (lit ''&quot;'') then Some (34, 6)
      else if starts_with remaining (lit ''&apos;'') then Some (39, 6) else None)"

definition numeric_entity :: "nat \<Rightarrow> nat \<Rightarrow> bytes \<Rightarrow> (byte \<times> nat) option" where
  "numeric_entity base start remaining =
     (case find_from [59] start remaining of
        None \<Rightarrow> None
      | Some e \<Rightarrow>
          let ds = map (digit_val base) (take (e - start) (drop start remaining));
              val = foldl (\<lambda>v d. v * base + the d) 0 ds
          in if e \<le> 10 \<and> None \<notin> set ds \<and> val < 128 then Some (word_of_nat val, e + 1) else None)"

definition entity_at :: "bytes \<Rightarrow> (byte \<times> nat) option" where
  "entity_at remaining =
     (case named_entity remaining of
        Some r \<Rightarrow> Some r
      | None \<Rightarrow>
          case (if starts_with remaining (lit ''&#x'') \<or> starts_with remaining (lit ''&#X'')
                then numeric_entity 16 3 remaining else None) of
            Some r \<Rightarrow> Some r
          | None \<Rightarrow> if starts_with remaining (lit ''&#'') then numeric_entity 10 2 remaining else None)"

lemma entity_progress: "entity_at s = Some (c, n) \<Longrightarrow> 0 < n"
  by (auto simp: entity_at_def named_entity_def numeric_entity_def Let_def split: option.splits if_splits)

function decode_html_entities :: "bytes \<Rightarrow> bytes" where
  "decode_html_entities input =
     (case input of
        [] \<Rightarrow> []
      | c # r \<Rightarrow>
          case (if c = 38 \<and> r \<noteq> [] then entity_at input else None) of
            None \<Rightarrow> c # decode_html_entities r
          | Some (ch, n) \<Rightarrow> ch # decode_html_entities (drop n input))"
  by pat_completeness auto
termination
  by (relation "measure length") (auto dest: entity_progress split: if_splits)

declare decode_html_entities.simps [simp del]

function strip_html_comments :: "bytes \<Rightarrow> bytes" where
  "strip_html_comments input =
     (case input of
        [] \<Rightarrow> []
      | c # r \<Rightarrow>
          case (if starts_with input (lit ''<!--'') then find_from (lit ''-->'') 4 input else None) of
            None \<Rightarrow> c # strip_html_comments r
          | Some e \<Rightarrow> strip_html_comments (drop (e + 3) input))"
  by pat_completeness auto
termination
  by (relation "measure length") (auto split: if_splits)

declare strip_html_comments.simps [simp del]

definition is_space :: "byte \<Rightarrow> bool" where
  "is_space c = (c = 32 \<or> c = 9 \<or> c = 10 \<or> c = 13)"

fun collapse_loop :: "bool \<Rightarrow> bool \<Rightarrow> bytes \<Rightarrow> bytes" where
  "collapse_loop in_tag last_was_space [] = []"
| "collapse_loop in_tag last_was_space (c # cs) =
     (let in_tag = (if c = 60 then True else if c = 62 then False else in_tag)
      in if in_tag \<and> is_space c
         then (if last_was_space then [] else [32]) @ collapse_loop in_tag True cs
         else c # collapse_loop in_tag False cs)"

definition collapse_whitespace :: "bytes \<Rightarrow> bytes" where
  "collapse_whitespace input = collapse_loop False False input"

definition normalize_payload :: "bytes \<Rightarrow> bytes" where
  "normalize_payload input =
     (let step1 = recursive_url_decode 10 input;
          step2 = strip_null_bytes step1;
          step3 = decode_html_entities step2;
          step4 = strip_html_comments step3;
          step5 = collapse_whitespace step4
      in lower step5)"

section \<open>Scoring\<close>

text \<open>The compiled patterns, as the predicates RE2 decides.\<close>

record waf_rules =
  re_xss_event_handlers :: "bytes \<Rightarrow> bool"
  re_xss_script_uri :: "bytes \<Rightarrow> bool"
  re_xss_tags :: "bytes \<Rightarrow> bool"
  re_sqli_union :: "bytes \<Rightarrow> bool"
  re_sqli_boolean :: "bytes \<Rightarrow> bool"
  re_sqli_stacked :: "bytes \<Rightarrow> bool"
  re_sqli_sysinfo :: "bytes \<Rightarrow> bool"
  re_rce_functions :: "bytes \<Rightarrow> bool"
  re_rce_commands :: "bytes \<Rightarrow> bool"
  re_path_traversal :: "bytes \<Rightarrow> bool"
  re_protocol_attack :: "bytes \<Rightarrow> bool"
  re_blocked_ua :: "bytes \<Rightarrow> bool"

record verdict =
  blocked :: bool
  reason :: string
  verdict_status :: int
  score :: int
  tags :: "string list"

definition verdict_init :: verdict where
  "verdict_init = \<lparr>blocked = False, reason = '''', verdict_status = 403, score = 0, tags = []\<rparr>"

definition BLOCK_THRESHOLD :: int where "BLOCK_THRESHOLD = 5"

definition DEFAULT_BODY_INSPECTION_LIMIT :: nat where "DEFAULT_BODY_INSPECTION_LIMIT = 131072"

text \<open>
  One rule of a check: if it matches, its points are added, its tag is appended and its
  reason is set; some rules only set a reason if there is none.
\<close>

definition rule :: "bool \<Rightarrow> bool \<Rightarrow> int \<Rightarrow> string \<Rightarrow> string \<Rightarrow> int \<times> verdict \<Rightarrow> int \<times> verdict" where
  "rule matches keep_reason points why tag sv =
     (let (s, v) = sv
      in if matches
         then (s + points, v\<lparr>reason := (if keep_reason \<and> reason v \<noteq> [] then reason v else why), tags := tags v @ [tag]\<rparr>)
         else (s, v))"

definition check_user_agent :: "waf_rules \<Rightarrow> bytes \<Rightarrow> verdict \<Rightarrow> int \<times> verdict" where
  "check_user_agent rs ua v =
     (if ua = [] then (0, v)
      else rule (re_blocked_ua rs ua) False BLOCK_THRESHOLD ''Blocked User-Agent detected'' ''blocked-ua'' (0, v))"

definition check_xss :: "waf_rules \<Rightarrow> bytes \<Rightarrow> verdict \<Rightarrow> int \<times> verdict" where
  "check_xss rs data v =
     (let sv = rule (re_xss_event_handlers rs data) False 5 ''XSS: HTML event handler detected'' ''xss-event-handler'' (0, v);
          sv = rule (re_xss_script_uri rs data) False 5 ''XSS: Dangerous URI scheme detected'' ''xss-script-uri'' sv
      in rule (re_xss_tags rs data) True 5 ''XSS: Dangerous HTML tag detected'' ''xss-dangerous-tag'' sv)"

definition check_sqli :: "waf_rules \<Rightarrow> bytes \<Rightarrow> verdict \<Rightarrow> int \<times> verdict" where
  "check_sqli rs data v =
     (let sv = rule (re_sqli_union rs data) False 5 ''SQLi: UNION/DDL injection detected'' ''sqli-union'' (0, v);
          sv = rule (re_sqli_boolean rs data) True 3 ''SQLi: Boolean injection detected'' ''sqli-boolean'' sv;
          sv = rule (re_sqli_stacked rs data) True 4 ''SQLi: Stacked query detected'' ''sqli-stacked'' sv
      in rule (re_sqli_sysinfo rs data) True 5 ''SQLi: System table access detected'' ''sqli-sysinfo'' sv)"

definition check_rce :: "waf_rules \<Rightarrow> bytes \<Rightarrow> verdict \<Rightarrow> int \<times> verdict" where
  "check_rce rs data v =
     (let sv = rule (re_rce_functions rs data) False 5 ''RCE: Dangerous function call detected'' ''rce-function'' (0, v)
      in rule (re_rce_commands rs data) True 5 ''RCE: OS command/file access detected'' ''rce-command'' sv)"

definition check_path_traversal :: "waf_rules \<Rightarrow> bytes \<Rightarrow> verdict \<Rightarrow> int \<times> verdict" where
  "check_path_traversal rs data v =
     rule (re_path_traversal rs data) False 5 ''Path traversal detected'' ''path-traversal'' (0, v)"

definition check_protocol_attack :: "waf_rules \<Rightarrow> bytes \<Rightarrow> verdict \<Rightarrow> int \<times> verdict" where
  "check_protocol_attack rs data v =
     rule (re_protocol_attack rs data) False 5 ''Protocol attack (CRLF injection) detected'' ''crlf-injection'' (0, v)"

definition scan_payload :: "waf_rules \<Rightarrow> bytes \<Rightarrow> verdict \<Rightarrow> int \<times> verdict" where
  "scan_payload rs data v =
     (let (s1, v) = check_xss rs data v;
          (s2, v) = check_sqli rs data v;
          (s3, v) = check_rce rs data v;
          (s4, v) = check_path_traversal rs data v;
          (s5, v) = check_protocol_attack rs data v
      in (s1 + s2 + s3 + s4 + s5, v))"

text \<open>One header, and the loop that stops at the threshold.\<close>

definition check_header :: "bytes \<Rightarrow> int \<times> verdict \<Rightarrow> int \<times> verdict" where
  "check_header val sv =
     (let sv = rule (8192 < length val) False 3 ''Oversized header value'' ''oversized-header'' sv;
          sv = rule (find_sub [13, 10] val \<noteq> None) False 5 ''CRLF injection in header'' ''crlf-header'' sv;
          sv = rule (find_sub [0] val \<noteq> None) False 5 ''Null byte in header'' ''null-header'' sv
      in rule (detect_multibyte_bypass val) False 5 ''Multi-byte encoding bypass in header'' ''header-unicode-bypass'' sv)"

fun check_header_loop :: "bytes smap \<Rightarrow> int \<times> verdict \<Rightarrow> int \<times> verdict" where
  "check_header_loop [] sv = sv"
| "check_header_loop ((name, val) # hs) sv =
     (let sv = check_header val sv in if BLOCK_THRESHOLD \<le> fst sv then sv else check_header_loop hs sv)"

definition check_headers :: "http_request \<Rightarrow> verdict \<Rightarrow> int \<times> verdict" where
  "check_headers req v = check_header_loop (req_headers req) (0, v)"

text \<open>A verdict that ends the inspection at once.\<close>

definition block_at_once :: "string \<Rightarrow> string \<Rightarrow> verdict \<Rightarrow> verdict" where
  "block_at_once why tag v =
     v\<lparr>blocked := True, reason := why, verdict_status := 403, score := BLOCK_THRESHOLD, tags := tags v @ [tag]\<rparr>"

text \<open>
  Adding the score of a check; at the threshold the inspection ends, otherwise it goes on
  with the rest.
\<close>

definition scored :: "(verdict \<Rightarrow> int \<times> verdict) \<Rightarrow> (verdict \<Rightarrow> verdict) \<Rightarrow> verdict \<Rightarrow> verdict" where
  "scored check rest v =
     (let (s, v') = check v;
          v' = v'\<lparr>score := score v + s\<rparr>
      in if BLOCK_THRESHOLD \<le> score v' then v'\<lparr>blocked := True, verdict_status := 403\<rparr> else rest v')"

definition inspect_body :: "waf_rules \<Rightarrow> bytes \<Rightarrow> nat \<Rightarrow> verdict \<Rightarrow> verdict" where
  "inspect_body rs body limit v =
     (if body = [] then v
      else let body_to_scan = take (min (length body) limit) body
           in if detect_multibyte_bypass body_to_scan
              then block_at_once ''Multi-byte encoding bypass in request body'' ''body-unicode-bypass'' v
              else scored (scan_payload rs (normalize_payload body_to_scan)) (\<lambda>v. v) v)"

definition inspect :: "waf_rules \<Rightarrow> http_request \<Rightarrow> nat \<Rightarrow> verdict" where
  "inspect rs req body_inspection_limit =
     (let v = verdict_init;
          limit = (if body_inspection_limit = 0 then DEFAULT_BODY_INSPECTION_LIMIT else body_inspection_limit);
          decoded_uri = decode_percent_utf8 (uri req)
      in if detect_multibyte_bypass decoded_uri
         then block_at_once ''Multi-byte encoding bypass detected'' ''unicode-bypass'' v
         else if has_overlong_encoding decoded_uri
         then block_at_once ''Overlong UTF-8 encoding detected (attack vector)'' ''overlong-utf8'' v
         else if detect_shiftjis_bypass decoded_uri
         then block_at_once ''Shift-JIS encoding bypass detected'' ''shiftjis-bypass'' v
         else scored (check_user_agent rs (get_header req (lit ''User-Agent'')))
               (scored (check_headers req)
                 (scored (scan_payload rs (normalize_payload (path req)))
                   (\<lambda>v. if query_string req = [] then inspect_body rs (req_body req) limit v
                        else scored (scan_payload rs (normalize_payload (query_string req)))
                               (inspect_body rs (req_body req) limit) v))) v)"

section \<open>The contract of a check\<close>

text \<open>
  Every check of the firewall gives a number of points that is not negative, touches only the
  reason and the tags, and explains the points it gives.
\<close>

definition explained :: "verdict \<Rightarrow> bool" where
  "explained v = (reason v \<noteq> [] \<and> tags v \<noteq> [])"

definition consistent :: "verdict \<Rightarrow> bool" where
  "consistent v = ((blocked v \<longleftrightarrow> BLOCK_THRESHOLD \<le> score v) \<and> verdict_status v = 403 \<and> 0 \<le> score v
                   \<and> (0 < score v \<longrightarrow> explained v))"

locale waf_check =
  fixes check :: "verdict \<Rightarrow> int \<times> verdict"
  assumes points: "0 \<le> fst (check v)"
    and frame: "blocked (snd (check v)) = blocked v" "score (snd (check v)) = score v"
      "verdict_status (snd (check v)) = verdict_status v"
    and explains: "explained v \<or> 0 < fst (check v) \<Longrightarrow> explained (snd (check v))"
begin

lemma scored_unfold:
  "scored check rest v =
     (let v' = (snd (check v))\<lparr>score := score v + fst (check v)\<rparr>
      in if BLOCK_THRESHOLD \<le> score v + fst (check v) then v'\<lparr>blocked := True, verdict_status := 403\<rparr> else rest v')"
  by (simp add: scored_def split: prod.split)

lemma scored_consistent:
  assumes "consistent v" and "\<not> blocked v"
    and "\<And>v'. consistent v' \<Longrightarrow> \<not> blocked v' \<Longrightarrow> consistent (rest v')"
  shows "consistent (scored check rest v)"
proof -
  let ?v' = "(snd (check v))\<lparr>score := score v + fst (check v)\<rparr>"
  have "0 < score v \<Longrightarrow> explained v"
    using assms(1) by (simp add: consistent_def)
  moreover have "0 \<le> score v"
    using assms(1) by (simp add: consistent_def)
  ultimately have e: "0 < score v + fst (check v) \<Longrightarrow> explained (snd (check v))"
    using explains [of v] points [of v] by linarith
  then have e': "0 < score v + fst (check v) \<Longrightarrow> explained ?v'"
      "0 < score v + fst (check v) \<Longrightarrow> explained (?v'\<lparr>blocked := True, verdict_status := 403\<rparr>)"
    by (simp_all add: explained_def)
  show ?thesis
  proof (cases "BLOCK_THRESHOLD \<le> score v + fst (check v)")
    case True
    with e' show ?thesis
      by (simp add: scored_unfold consistent_def BLOCK_THRESHOLD_def)
  next
    case False
    then have "consistent ?v'" "\<not> blocked ?v'"
      using assms(1,2) frame [of v] points [of v] e' by (auto simp: consistent_def)
    with False show ?thesis
      by (simp add: scored_unfold assms(3))
  qed
qed

lemma scored_passed:
  assumes "\<not> blocked (scored check rest v)" and "0 \<le> score v"
  shows "fst (check v) < BLOCK_THRESHOLD"
    and "\<exists>v'. 0 \<le> score v' \<and> \<not> blocked (rest v')"
proof -
  have "\<not> BLOCK_THRESHOLD \<le> score v + fst (check v)"
    using assms(1) by (auto simp: scored_unfold)
  with assms show "fst (check v) < BLOCK_THRESHOLD" "\<exists>v'. 0 \<le> score v' \<and> \<not> blocked (rest v')"
    using points [of v]
    by (auto simp: scored_unfold intro!: exI [of _ "(snd (check v))\<lparr>score := score v + fst (check v)\<rparr>"])
qed

end

text \<open>A rule keeps the contract, and so do the checks that are built from rules.\<close>

definition check_step :: "int \<times> verdict \<Rightarrow> int \<times> verdict \<Rightarrow> bool" where
  "check_step sv sv' =
     (fst sv \<le> fst sv' \<and> blocked (snd sv') = blocked (snd sv) \<and> score (snd sv') = score (snd sv)
      \<and> verdict_status (snd sv') = verdict_status (snd sv)
      \<and> (explained (snd sv) \<or> fst sv < fst sv' \<longrightarrow> explained (snd sv')))"

lemma check_step_refl: "check_step sv sv"
  by (simp add: check_step_def)

lemma check_step_trans: "check_step a b \<Longrightarrow> check_step b c \<Longrightarrow> check_step a c"
  by (auto simp: check_step_def)

lemma fst_rule [simp]: "fst (rule m k p w t sv) = fst sv + (if m then p else 0)"
  by (simp add: rule_def split: prod.split)

lemma check_step_rule: "check_step a sv \<Longrightarrow> 0 \<le> p \<Longrightarrow> w \<noteq> [] \<Longrightarrow> check_step a (rule m k p w t sv)"
  by (erule check_step_trans) (auto simp: check_step_def rule_def explained_def split: prod.split)

lemma waf_checkI: "(\<And>v. check_step (0, v) (check v)) \<Longrightarrow> waf_check check"
  by unfold_locales (auto simp: check_step_def)

lemmas check_steps = check_step_rule check_step_refl

lemma check_step_checks:
  "check_step (0, v) (check_user_agent rs ua v)" "check_step (0, v) (check_xss rs data v)"
  "check_step (0, v) (check_sqli rs data v)" "check_step (0, v) (check_rce rs data v)"
  "check_step (0, v) (check_path_traversal rs data v)" "check_step (0, v) (check_protocol_attack rs data v)"
  by (simp_all add: check_user_agent_def check_xss_def check_sqli_def check_rce_def check_path_traversal_def
      check_protocol_attack_def BLOCK_THRESHOLD_def check_steps)

lemma check_step_then:
  "g = (s2, v2) \<Longrightarrow> check_step (0, v1) g \<Longrightarrow> check_step (0, v) (s, v1) \<Longrightarrow> check_step (0, v) (s + s2, v2)"
  by (auto simp: check_step_def)

lemma check_step_scan: "check_step (0, v) (scan_payload rs data v)"
proof -
  obtain s1 v1 where 1: "check_xss rs data v = (s1, v1)" by fastforce
  obtain s2 v2 where 2: "check_sqli rs data v1 = (s2, v2)" by fastforce
  obtain s3 v3 where 3: "check_rce rs data v2 = (s3, v3)" by fastforce
  obtain s4 v4 where 4: "check_path_traversal rs data v3 = (s4, v4)" by fastforce
  obtain s5 v5 where 5: "check_protocol_attack rs data v4 = (s5, v5)" by fastforce
  have "check_step (0, v) (s1, v1)"
    using check_step_checks(2) [of v rs data] 1 by simp
  then have "check_step (0, v) (s1 + s2 + s3 + s4 + s5, v5)"
    by (intro check_step_then [OF 5 check_step_checks(6)] check_step_then [OF 4 check_step_checks(5)]
        check_step_then [OF 3 check_step_checks(4)] check_step_then [OF 2 check_step_checks(3)])
  then show ?thesis
    by (simp add: scan_payload_def 1 2 3 4 5)
qed

lemma check_step_headers: "check_step a sv \<Longrightarrow> check_step a (check_header_loop hs sv)"
proof (induction hs arbitrary: sv)
  case (Cons h hs)
  have "check_step a (check_header (snd h) sv)"
    using Cons.prems by (simp add: check_header_def check_steps)
  with Cons show ?case
    by (cases h) (simp add: Let_def)
qed simp

interpretation user_agent: waf_check "check_user_agent rs ua"
  by (rule waf_checkI) (rule check_step_checks)

interpretation header_check: waf_check "check_headers req"
  by (rule waf_checkI) (simp add: check_headers_def check_step_headers check_step_refl)

interpretation payload: waf_check "scan_payload rs data"
  by (rule waf_checkI) (rule check_step_scan)

section \<open>What an accepted request does not contain\<close>

text \<open>The rules that are worth the threshold alone.\<close>

definition severe :: "waf_rules \<Rightarrow> bytes \<Rightarrow> bool" where
  "severe rs data =
     (re_xss_event_handlers rs data \<or> re_xss_script_uri rs data \<or> re_xss_tags rs data \<or> re_sqli_union rs data
      \<or> (re_sqli_boolean rs data \<and> re_sqli_stacked rs data) \<or> re_sqli_sysinfo rs data \<or> re_rce_functions rs data
      \<or> re_rce_commands rs data \<or> re_path_traversal rs data \<or> re_protocol_attack rs data)"

lemma scan_severe: "fst (scan_payload rs data v) < BLOCK_THRESHOLD \<longleftrightarrow> \<not> severe rs data"
  by (simp add: scan_payload_def check_xss_def check_sqli_def check_rce_def check_path_traversal_def
      check_protocol_attack_def severe_def BLOCK_THRESHOLD_def case_prod_unfold Let_def)

definition bad_header :: "bytes \<Rightarrow> bool" where
  "bad_header val = (find_sub [13, 10] val \<noteq> None \<or> find_sub [0] val \<noteq> None \<or> detect_multibyte_bypass val)"

lemma header_loop_passed:
  "fst (check_header_loop hs sv) < BLOCK_THRESHOLD \<Longrightarrow> 0 \<le> fst sv \<Longrightarrow>
     (\<forall>h \<in> set hs. \<not> bad_header (snd h)) \<and> fst sv + 3 * int (length (filter (\<lambda>h. 8192 < length (snd h)) hs)) < BLOCK_THRESHOLD"
proof (induction hs arbitrary: sv)
  case (Cons h hs)
  let ?sv = "check_header (snd h) sv"
  have fst: "fst ?sv = fst sv + (if 8192 < length (snd h) then 3 else 0) + (if find_sub [13, 10] (snd h) \<noteq> None then 5 else 0)
      + (if find_sub [0] (snd h) \<noteq> None then 5 else 0) + (if detect_multibyte_bypass (snd h) then 5 else 0)"
    by (simp add: check_header_def)
  have go: "check_header_loop (h # hs) sv = (if BLOCK_THRESHOLD \<le> fst ?sv then ?sv else check_header_loop hs ?sv)"
    by (cases h) (simp add: Let_def)
  then have less: "fst ?sv < BLOCK_THRESHOLD"
    using Cons.prems(1) by (auto split: if_splits)
  then have ok: "\<not> bad_header (snd h)"
    using fst Cons.prems(2) by (auto simp: bad_header_def BLOCK_THRESHOLD_def split: if_splits)
  then have "fst ?sv = fst sv + (if 8192 < length (snd h) then 3 else 0)"
    using fst by (simp add: bad_header_def)
  then show ?case
    using Cons.IH [of ?sv] go less ok Cons.prems by (auto split: if_splits)
qed simp

lemma inspect_body_passed:
  assumes "\<not> blocked (inspect_body rs body limit v)" and "0 \<le> score v" and "body \<noteq> []"
  shows "\<not> detect_multibyte_bypass (take limit body) \<and> \<not> severe rs (normalize_payload (take limit body))"
  using assms payload.scored_passed(1) [of rs "normalize_payload (take limit body)" "\<lambda>v. v" v]
  by (auto simp: inspect_body_def Let_def min_def block_at_once_def scan_severe split: if_splits)

section \<open>Normalisation of payloads\<close>

text \<open>Text without escapes, entities and tags only changes case.\<close>

lemma url_decode_plain: "37 \<notin> set s \<Longrightarrow> url_decode_pass s = (s, False)"
  by (induction s rule: url_decode_pass.induct) auto

lemma entities_plain: "38 \<notin> set s \<Longrightarrow> decode_html_entities s = s"
  by (induction s) (simp_all add: decode_html_entities.simps)

lemma comments_plain: "60 \<notin> set s \<Longrightarrow> strip_html_comments s = s"
  by (induction s) (simp_all add: strip_html_comments.simps starts_with_def lit_def)

lemma collapse_plain: "60 \<notin> set s \<Longrightarrow> collapse_loop False b s = s"
  by (induction s arbitrary: b) (auto simp: Let_def)

lemma normalize_payload_plain:
  assumes "set s \<inter> {0, 37, 38, 60} = {}"
  shows "normalize_payload s = lower s"
proof -
  have "recursive_url_decode 10 s = s"
    using assms url_decode_plain [of s] by (simp add: numeral_eq_Suc)
  moreover have "strip_null_bytes s = s"
    using assms by (auto simp: strip_null_bytes_def filter_id_conv)
  ultimately show ?thesis
    using assms by (simp add: normalize_payload_def entities_plain comments_plain collapse_whitespace_def collapse_plain)
qed

section \<open>Properties of the firewall\<close>

lemma inspect_passes:
  assumes "\<not> blocked (inspect rs req limit0)"
    and "limit = (if limit0 = 0 then DEFAULT_BODY_INSPECTION_LIMIT else limit0)"
  shows "\<not> detect_multibyte_bypass (decode_percent_utf8 (uri req))
       \<and> \<not> detect_shiftjis_bypass (decode_percent_utf8 (uri req))
       \<and> (get_header req (lit ''User-Agent'') \<noteq> [] \<longrightarrow> \<not> re_blocked_ua rs (get_header req (lit ''User-Agent'')))
       \<and> (\<forall>(name, val) \<in> set (req_headers req). \<not> bad_header val)
       \<and> length (filter (\<lambda>(name, val). 8192 < length val) (req_headers req)) \<le> 1
       \<and> \<not> severe rs (normalize_payload (path req))
       \<and> (query_string req \<noteq> [] \<longrightarrow> \<not> severe rs (normalize_payload (query_string req)))
       \<and> (req_body req \<noteq> [] \<longrightarrow> \<not> detect_multibyte_bypass (take limit (req_body req))
            \<and> \<not> severe rs (normalize_payload (take limit (req_body req))))"
proof -
  let ?uri = "decode_percent_utf8 (uri req)" and ?ua = "get_header req (lit ''User-Agent'')"
  let ?body = "inspect_body rs (req_body req) limit"
  let ?query = "\<lambda>v. if query_string req = [] then ?body v else scored (scan_payload rs (normalize_payload (query_string req))) ?body v"
  have uri: "\<not> detect_multibyte_bypass ?uri" "\<not> detect_shiftjis_bypass ?uri"
    and 0: "\<not> blocked (scored (check_user_agent rs ?ua) (scored (check_headers req)
        (scored (scan_payload rs (normalize_payload (path req))) ?query)) verdict_init)"
    using assms by (auto simp: inspect_def Let_def block_at_once_def split: if_splits)
  have init: "0 \<le> score verdict_init"
    by (simp add: verdict_init_def)
  have ua: "?ua \<noteq> [] \<longrightarrow> \<not> re_blocked_ua rs ?ua"
    using user_agent.scored_passed(1) [OF 0 init] by (auto simp: check_user_agent_def split: if_splits)
  obtain v1 where v1: "0 \<le> score v1"
      "\<not> blocked (scored (check_headers req) (scored (scan_payload rs (normalize_payload (path req))) ?query) v1)"
    using user_agent.scored_passed(2) [OF 0 init] by blast
  note hd = header_loop_passed [of "req_headers req" "(0, v1)"] header_check.scored_passed(1) [OF v1(2,1)]
  obtain v2 where v2: "0 \<le> score v2" "\<not> blocked (scored (scan_payload rs (normalize_payload (path req))) ?query v2)"
    using header_check.scored_passed(2) [OF v1(2,1)] by blast
  obtain v3 where v3: "0 \<le> score v3" "\<not> blocked (?query v3)"
    using payload.scored_passed(2) [OF v2(2,1)] by blast
  obtain v4 where v4: "0 \<le> score v4" "\<not> blocked (?body v4)"
    and query: "query_string req \<noteq> [] \<longrightarrow> \<not> severe rs (normalize_payload (query_string req))"
    using v3 payload.scored_passed [of rs "normalize_payload (query_string req)" ?body v3]
    by (cases "query_string req = []") (auto simp: scan_severe)
  have "\<not> severe rs (normalize_payload (path req))"
    using payload.scored_passed(1) [OF v2(2,1)] by (simp add: scan_severe)
  with uri ua hd query inspect_body_passed [OF v4(2,1)] show ?thesis
    by (auto simp: check_headers_def BLOCK_THRESHOLD_def case_prod_unfold)
qed

text \<open>
  C7. What the firewall lets through: the decoded URI shows no encoding trick, the user agent
  is not that of an attack tool, no header has a line break, a NUL byte or an encoding trick
  and at most one is oversized, and none of the severe patterns occurs in the
  normalised path, query or inspected part of the body.
\<close>

theorem inspect_accepted:
  assumes "\<not> blocked (inspect rs req limit0)"
    and "limit = (if limit0 = 0 then DEFAULT_BODY_INSPECTION_LIMIT else limit0)"
  shows "\<not> detect_multibyte_bypass (decode_percent_utf8 (uri req))
       \<and> \<not> detect_shiftjis_bypass (decode_percent_utf8 (uri req))
       \<and> (get_header req (lit ''User-Agent'') \<noteq> [] \<longrightarrow> \<not> re_blocked_ua rs (get_header req (lit ''User-Agent'')))
       \<and> (\<forall>(name, val) \<in> set (req_headers req). \<not> bad_header val)
       \<and> length (filter (\<lambda>(name, val). 8192 < length val) (req_headers req)) \<le> 1
       \<and> \<not> severe rs (normalize_payload (path req))
       \<and> (query_string req \<noteq> [] \<longrightarrow> \<not> severe rs (normalize_payload (query_string req)))
       \<and> (req_body req \<noteq> [] \<longrightarrow> \<not> detect_multibyte_bypass (take limit (req_body req))
            \<and> \<not> severe rs (normalize_payload (take limit (req_body req))))"
  by (rule inspect_passes [OF assms])

definition no_rules :: waf_rules where
  "no_rules = \<lparr>re_xss_event_handlers = (\<lambda>d. False), re_xss_script_uri = (\<lambda>d. False),
     re_xss_tags = (\<lambda>d. find_sub (lit ''<script'') d \<noteq> None), re_sqli_union = (\<lambda>d. False), re_sqli_boolean = (\<lambda>d. False),
     re_sqli_stacked = (\<lambda>d. False), re_sqli_sysinfo = (\<lambda>d. False), re_rce_functions = (\<lambda>d. False),
     re_rce_commands = (\<lambda>d. False), re_path_traversal = (\<lambda>d. find_sub (lit ''../'') d \<noteq> None),
     re_protocol_attack = (\<lambda>d. 10 \<in> set d), re_blocked_ua = (\<lambda>d. False)\<rparr>"

definition plain_request :: http_request where
  "plain_request = empty_request\<lparr>req_method := GET, uri := lit ''/a'', path := lit ''/a'', req_body := lit ''x=1''\<rparr>"

lemma plain_request_accepted: "\<not> blocked (inspect no_rules plain_request 0)"
proof -
  have uri: "\<not> detect_multibyte_bypass (decode_percent_utf8 (lit ''/a''))" "\<not> has_overlong_encoding (decode_percent_utf8 (lit ''/a''))"
    "\<not> detect_shiftjis_bypass (decode_percent_utf8 (lit ''/a''))" "\<not> detect_multibyte_bypass (lit ''x=1'')"
    by code_simp+
  have norm: "normalize_payload (lit ''/a'') = lit ''/a''" "normalize_payload (lit ''x=1'') = lit ''x=1''"
    by code_simp+
  have quiet: "find_sub (lit ''<script'') (lit ''/a'') = None" "find_sub (lit ''../'') (lit ''/a'') = None" "10 \<notin> set (lit ''/a'')"
    "find_sub (lit ''<script'') (lit ''x=1'') = None" "find_sub (lit ''../'') (lit ''x=1'') = None" "10 \<notin> set (lit ''x=1'')"
    by code_simp+
  have get: "get_header plain_request (lit ''User-Agent'') = []" "check_headers plain_request v = (0, v)" for v
    by (simp_all add: plain_request_def empty_request_def get_header_def check_headers_def)
  have scan: "scan_payload no_rules (lit ''/a'') v = (0, v)" "scan_payload no_rules (lit ''x=1'') v = (0, v)" for v
    by (simp_all add: scan_payload_def check_xss_def check_sqli_def check_rce_def check_path_traversal_def
        check_protocol_attack_def rule_def no_rules_def quiet)
  have fields: "uri plain_request = lit ''/a''" "path plain_request = lit ''/a''" "query_string plain_request = []"
      "req_body plain_request = lit ''x=1''" "length (lit ''x=1'') = 3"
    by (simp_all add: plain_request_def empty_request_def)
  then have "lit ''x=1'' \<noteq> []"
    by (metis list.size(3) zero_neq_numeral)
  then show ?thesis
    by (simp add: inspect_def inspect_body_def get fields uri norm scan scored_def check_user_agent_def
        BLOCK_THRESHOLD_def verdict_init_def DEFAULT_BODY_INSPECTION_LIMIT_def)
qed

theorem inspect_accepted_witness: "\<not> severe no_rules (normalize_payload (path plain_request))"
  using inspect_accepted [OF plain_request_accepted refl] by blast

text \<open>
  The parts of a verdict always agree: a request is blocked exactly when its score reaches
  the threshold, the status is 403, and a request with points has a reason and a tag.
\<close>

theorem verdict_consistent:
  "(blocked (inspect rs req limit) \<longleftrightarrow> BLOCK_THRESHOLD \<le> score (inspect rs req limit))
   \<and> verdict_status (inspect rs req limit) = 403 \<and> 0 \<le> score (inspect rs req limit)
   \<and> (0 < score (inspect rs req limit) \<longrightarrow> reason (inspect rs req limit) \<noteq> [] \<and> tags (inspect rs req limit) \<noteq> [])"
proof -
  have block: "consistent (block_at_once why tag v)" if "why \<noteq> []" for why tag v
    using that by (simp add: block_at_once_def consistent_def BLOCK_THRESHOLD_def explained_def)
  have body: "consistent (inspect_body rs (req_body req) l v)" if "consistent v" "\<not> blocked v" for l v
    using that payload.scored_consistent [of v "\<lambda>v. v"] by (simp add: inspect_body_def Let_def block)
  have "consistent verdict_init" "\<not> blocked verdict_init"
    by (simp_all add: consistent_def verdict_init_def BLOCK_THRESHOLD_def)
  then have "consistent (inspect rs req limit)"
    unfolding inspect_def Let_def
    by (auto simp: block body intro!: user_agent.scored_consistent header_check.scored_consistent payload.scored_consistent)
  then show ?thesis
    by (simp add: consistent_def explained_def)
qed

theorem verdict_consistent_witness:
  "blocked (inspect no_rules plain_request 0) \<longleftrightarrow> BLOCK_THRESHOLD \<le> score (inspect no_rules plain_request 0)"
  using verdict_consistent by blast

text \<open>
  Only the first bytes of a body are inspected: whatever follows the limit (128 KB by
  default) has no influence on the verdict.
\<close>

theorem body_tail_ignored:
  assumes "limit = (if limit0 = 0 then DEFAULT_BODY_INSPECTION_LIMIT else limit0)" and "limit \<le> length body"
  shows "inspect rs (req\<lparr>req_body := body @ tail\<rparr>) limit0 = inspect rs (req\<lparr>req_body := body\<rparr>) limit0"
proof -
  have "0 < limit"
    using assms(1) by (simp add: DEFAULT_BODY_INSPECTION_LIMIT_def)
  then have "body \<noteq> []"
    using assms(2) by auto
  then have body: "inspect_body rs (body @ tail) limit = inspect_body rs body limit"
    using assms(2) by (intro ext) (simp add: inspect_body_def min_def)
  have hdr: "get_header (req\<lparr>req_body := b\<rparr>) n = get_header req n" "check_headers (req\<lparr>req_body := b\<rparr>) = check_headers req" for b n
    by (simp_all add: get_header_def check_headers_def fun_eq_iff)
  show ?thesis
    by (simp add: inspect_def Let_def hdr body cong del: if_weak_cong flip: assms(1))
qed

theorem body_tail_ignored_witness:
  "inspect no_rules (plain_request\<lparr>req_body := lit ''aa'' @ lit ''<script>''\<rparr>) 2 = inspect no_rules (plain_request\<lparr>req_body := lit ''aa''\<rparr>) 2"
  by (rule body_tail_ignored [OF refl]) simp

definition percent_encode :: "bytes \<Rightarrow> bytes" where
  "percent_encode s = concat (map (\<lambda>b. [37, hex_char (unat b div 16), hex_char (unat b mod 16)]) s)"

lemma url_decode_encode: "url_decode_pass (percent_encode s) = (s, s \<noteq> [])"
proof (induction s)
  case (Cons b s)
  have "unat b div 16 < 16" "unat b mod 16 < 16"
    using unat_byte_less [of b] by (simp_all add: div_less_iff_less_mult)
  then show ?case
    using Cons by (simp add: percent_encode_def digit_val_hex_char)
qed (simp add: percent_encode_def)

text \<open>
  Layers of percent-encoding do not hide a payload: text without percent signs that was
  encoded completely up to ten times is restored by the decoder.
\<close>

theorem layers_decoded:
  assumes "37 \<notin> set s" and "k \<le> n"
  shows "recursive_url_decode n ((percent_encode ^^ k) s) = s"
  using assms(2)
proof (induction k arbitrary: n)
  case 0
  then show ?case
    using url_decode_plain [OF assms(1)] by (cases n) simp_all
next
  case (Suc k)
  then obtain m where n: "n = Suc m"
    by (cases n) auto
  let ?t = "(percent_encode ^^ k) s"
  have nil: "percent_encode [] = []" "recursive_url_decode m [] = []"
    by (cases m; simp add: percent_encode_def)+
  have IH: "recursive_url_decode m ?t = s"
    using Suc.IH [of m] Suc.prems n by simp
  then have "recursive_url_decode n (percent_encode ?t) = s"
    using url_decode_encode [of ?t] nil by (cases "?t = []") (auto simp: n)
  then show ?case
    by simp
qed

theorem layers_decoded_witness:
  "recursive_url_decode 10 ((percent_encode ^^ 3) (lit ''<script>'')) = lit ''<script>''"
  by (rule layers_decoded) (simp_all add: lit_def)

text \<open>
  NUL bytes are stripped before entities are decoded, so an entity brings one back: the tag
  of a script interrupted by the entity of NUL is normalised to a string with a NUL in it.
\<close>

theorem nul_reappears: "normalize_payload (lit ''<scr&#0;ipt>'') = lit ''<scr'' @ [0] @ lit ''ipt>''"
  by code_simp

text \<open>
  Any body with a line break outside tags is rejected as an attack on the protocol: the
  pattern of that rule matches a line feed, bodies are scanned with it, and its points reach
  the threshold.
\<close>

theorem multiline_body_blocked:
  assumes "\<And>d. 10 \<in> set d \<Longrightarrow> re_protocol_attack rs d"
    and "10 \<in> set (take limit (req_body req))" and "set (req_body req) \<inter> {0, 37, 38, 60} = {}" and "0 < limit"
  shows "blocked (inspect rs req limit)"
proof (rule ccontr)
  assume "\<not> blocked (inspect rs req limit)"
  moreover have "req_body req \<noteq> []"
    using assms(2) by auto
  ultimately have "\<not> severe rs (normalize_payload (take limit (req_body req)))"
    using inspect_passes [OF _ refl, of rs req limit] assms(4) by simp
  moreover have "set (take limit (req_body req)) \<inter> {0, 37, 38, 60} = {}"
    using assms(3) set_take_subset [of limit "req_body req"] by blast
  then have "normalize_payload (take limit (req_body req)) = lower (take limit (req_body req))"
    by (rule normalize_payload_plain)
  moreover have "10 \<in> set (lower (take limit (req_body req)))"
    using assms(2) by (force simp: lower_def tolower_def image_iff)
  ultimately show False
    using assms(1) by (simp add: severe_def)
qed

theorem multiline_body_blocked_witness:
  "blocked (inspect no_rules (plain_request\<lparr>req_body := [97, 10, 98]\<rparr>) 100)"
  by (rule multiline_body_blocked) (simp_all add: no_rules_def)

end
