(* ===== verification/Runtime.thy ===== *)
theory Runtime
  imports Http_Message
begin

text \<open>
  What the components that talk to the outside share: exceptions as values (nothing in the
  program catches one, apart from the number readers of the token validator and of the
  compression negotiation), \<open>std::stoi\<close> and \<open>std::stoll\<close>, and the loops over \<open>write\<close>, \<open>send\<close> and
  \<open>SSL_write\<close> and over \<open>read\<close>, with the answers of the operating system as an argument.
\<close>

datatype cpp_exception = Out_of_range | Invalid_argument

lemma lit_eq_iff: "lit s = lit t \<longleftrightarrow> s = t"
proof -
  have "inj (of_char :: char \<Rightarrow> byte)"
  proof (rule injI)
    fix c d :: char
    assume "(of_char c :: byte) = of_char d"
    then have "(of_nat (of_char c) :: byte) = of_nat (of_char d)"
      by (simp only: of_nat_of_char)
    then have "(of_char c :: nat) mod 256 = of_char d mod 256"
      by (simp add: word_of_nat_eq_iff take_bit_eq_mod)
    then show "c = d" by simp
  qed
  then show ?thesis
    by (simp add: lit_def inj_map_eq_map)
qed

section \<open>Numbers in text\<close>

text \<open>
  Blanks, an optional sign and at least one decimal digit; what follows the digits is ignored.
  A value has to lie in \<open>[-bound, bound)\<close>.
\<close>

definition sto_int :: "int \<Rightarrow> bytes \<Rightarrow> cpp_exception + int" where
  "sto_int bound s =
     (let r = dropWhile (\<lambda>c. c \<in> {32, 9, 10, 11, 12, 13}) s;
          negative = (r \<noteq> [] \<and> hd r = 45);
          ds = digits_prefix 10 (if r \<noteq> [] \<and> (hd r = 45 \<or> hd r = 43) then tl r else r);
          m = int (foldl (\<lambda>acc d. acc * 10 + d) 0 ds);
          v = (if negative then - m else m)
      in if ds = [] then Inl Invalid_argument
         else if v < - bound \<or> bound \<le> v then Inl Out_of_range
         else Inr v)"

definition stoi :: "bytes \<Rightarrow> cpp_exception + int" where
  "stoi s = sto_int (2 ^ 31) s"

definition stoll :: "bytes \<Rightarrow> cpp_exception + int" where
  "stoll s = sto_int (2 ^ 63) s"

definition digit_byte :: "byte \<Rightarrow> bool" where
  "digit_byte c \<longleftrightarrow> 48 \<le> c \<and> c \<le> 57"

lemma to_dec_digit_byte: "c \<in> set (to_dec n) \<Longrightarrow> digit_byte c"
  using to_dec_digits [of c n]
  by (auto simp: digit_val_def digit_byte_def word_le_nat_alt Let_def split: if_splits)

lemma to_string_chars: "c \<in> set (to_string i) \<Longrightarrow> c = 45 \<or> digit_byte c"
  by (auto simp: to_string_def to_dec_digit_byte split: if_splits)

lemma to_string_hd: "\<exists>c cs. to_string i = c # cs \<and> (c = 45 \<or> digit_byte c)"
  by (metis to_string_chars list.exhaust list.set_intros(1) list.distinct(1) to_dec_not_Nil to_string_def)

lemma digits_prefix_to_dec:
  "digits_prefix 10 (to_dec n) = map (\<lambda>c. the (digit_val 10 c)) (to_dec n)"
  using digits_prefix_append [of "to_dec n" 10 "[]"] to_dec_digits [of _ n] by auto

lemma sto_int_to_string:
  assumes "- bound \<le> i" and "i < bound"
  shows "sto_int bound (to_string i) = Inr i"
proof -
  obtain c cs where c: "to_string i = c # cs" "c = 45 \<or> digit_byte c"
    using to_string_hd by blast
  then have blank: "c \<notin> {32, 9, 10, 11, 12, 13}" and plus: "c \<noteq> 43"
    by (auto simp: digit_byte_def)
  have dec: "hd (to_dec n) \<noteq> 45" for n
    using to_dec_digit_byte [of "hd (to_dec n)" n] by (auto simp: digit_byte_def)
  show ?thesis
  proof (cases "i < 0")
    case True
    then have "c = 45" "cs = to_dec (nat (- i))"
      using c(1) by (simp_all add: to_string_def)
    with True assms c(1) show ?thesis
      by (simp add: sto_int_def digits_prefix_to_dec to_dec_value)
  next
    case False
    then have s: "to_string i = to_dec (nat i)"
      by (simp add: to_string_def)
    with c(1) dec [of "nat i"] have "c \<noteq> 45" by (metis list.sel(1))
    have "digits_prefix 10 (c # cs) = map (\<lambda>c. the (digit_val 10 c)) (to_dec (nat i))"
      using digits_prefix_to_dec [of "nat i"] by (simp only: s [symmetric] c(1))
    with \<open>c \<noteq> 45\<close> False assms c(1) blank plus show ?thesis
      by (simp add: sto_int_def to_dec_value del: digits_prefix.simps)
  qed
qed

lemma sto_int_range: "sto_int bound s = Inr v \<Longrightarrow> - bound \<le> v \<and> v < bound"
  by (auto simp: sto_int_def Let_def split: if_splits)

section \<open>Writing\<close>

text \<open>
  \<open>ws\<close> are the numbers the calls will return.  The loop hands out what the peer got, whether all
  of it was written, and the numbers that are left.
\<close>

type_synonym results = "nat \<Rightarrow> int"

definition later :: "results \<Rightarrow> results" where
  "later ws = (\<lambda>i. ws (Suc i))"

function write_all :: "results \<Rightarrow> bytes \<Rightarrow> bytes \<times> bool \<times> results" where
  "write_all ws data =
     (if data = [] then ([], True, ws)
      else if ws 0 \<le> 0 then ([], False, later ws)
      else (let (out, ok, ws') = write_all (later ws) (drop (nat (ws 0)) data)
            in (take (nat (ws 0)) data @ out, ok, ws')))"
  by pat_completeness auto
termination
  by (relation "measure (\<lambda>(ws, data). length data)") auto

declare write_all.simps [simp del]

lemma write_all_Nil [simp]: "write_all ws [] = ([], True, ws)"
  by (simp add: write_all.simps)

lemma write_all_prefix:
  "fst (write_all ws data) @ (if fst (snd (write_all ws data)) then [] else drop (length (fst (write_all ws data))) data) = data"
proof (induction ws data rule: write_all.induct)
  case (1 ws data)
  consider "data = []" | "data \<noteq> []" "ws 0 \<le> 0" | "data \<noteq> []" "0 < ws 0"
    by linarith
  then show ?case
  proof cases
    case 3
    obtain out ok ws' where w: "write_all (later ws) (drop (nat (ws 0)) data) = (out, ok, ws')"
      by (metis prod_cases3)
    then have "out @ (if ok then [] else drop (length out) (drop (nat (ws 0)) data)) = drop (nat (ws 0)) data"
      using "1.IH" [OF 3(1)] 3(2) by (simp only: not_le fst_conv snd_conv)
    then have ih: "take (nat (ws 0)) data @ out @ (if ok then [] else drop (length out) (drop (nat (ws 0)) data)) = data"
      by (metis append_take_drop_id)
    have e: "write_all ws data = (take (nat (ws 0)) data @ out, ok, ws')"
      using 3 w by (subst write_all.simps) simp
    show ?thesis
    proof (cases "nat (ws 0) \<le> length data")
      case True
      then show ?thesis
        using ih by (cases ok) (simp_all add: e min_absorb2 add.commute)
    next
      case False
      with w have "out = []" "ok" by simp_all
      with ih show ?thesis by (simp add: e)
    qed
  qed (simp_all add: write_all.simps [of ws data])
qed

lemma write_all_ok:
  assumes "\<And>i. 0 < ws i"
  shows "fst (write_all ws data) = data \<and> fst (snd (write_all ws data))"
  using assms
proof (induction ws data rule: write_all.induct)
  case (1 ws data)
  show ?case
  proof (cases "data = []")
    case False
    have pos: "\<not> ws 0 \<le> 0" "0 < later ws i" for i
      using "1.prems" by (simp_all add: later_def not_le)
    with "1.IH" [OF False pos(1) pos(2)] False show ?thesis
      by (subst (1 2) write_all.simps) (simp add: case_prod_unfold Let_def)
  qed simp
qed

section \<open>Reading\<close>

text \<open>
  What is still to arrive on a descriptor, in the pieces in which it arrives: a call of \<open>read\<close> takes
  from the first piece; an empty piece, or no piece, is the end of the stream or an error.
\<close>

fun read_some :: "nat \<Rightarrow> bytes list \<Rightarrow> bytes \<times> bytes list" where
  "read_some m [] = ([], [])"
| "read_some m (s # segs) = (if length s \<le> m then (s, segs) else (take m s, drop m s # segs))"

definition pending_bytes :: "bytes list \<Rightarrow> nat" where
  "pending_bytes segs = length (concat segs)"

lemma read_some_concat: "fst (read_some m segs) @ concat (snd (read_some m segs)) = concat segs"
  by (cases segs) simp_all

lemma read_some_le: "length (fst (read_some m segs)) \<le> m"
  by (cases segs) auto

lemma read_some_pending:
  "pending_bytes (snd (read_some m segs)) + length (fst (read_some m segs)) = pending_bytes segs"
  using arg_cong [OF read_some_concat, of length] by (simp add: pending_bytes_def add.commute)

text \<open>The loop that reads exactly \<open>n\<close> bytes, or fails.\<close>

function read_exact :: "nat \<Rightarrow> bytes list \<Rightarrow> (bytes \<times> bytes list) option" where
  "read_exact n segs =
     (if n = 0 then Some ([], segs)
      else let (got, rest) = read_some n segs
           in if got = [] then None
              else map_option (\<lambda>(more, r). (got @ more, r)) (read_exact (n - length got) rest))"
  by pat_completeness auto
termination
  by (relation "measure fst") auto

declare read_exact.simps [simp del]

lemma read_exact_complete:
  assumes "n \<le> pending_bytes segs" and "[] \<notin> set segs"
  shows "\<exists>rest. read_exact n segs = Some (take n (concat segs), rest) \<and> concat rest = drop n (concat segs)
    \<and> [] \<notin> set rest"
  using assms
proof (induction n segs rule: read_exact.induct)
  case (1 n segs)
  show ?case
  proof (cases "n = 0")
    case True
    with 1 show ?thesis by (simp add: read_exact.simps)
  next
    case False
    obtain got rest where g: "read_some n segs = (got, rest)"
      by (cases "read_some n segs")
    from False "1.prems" obtain s ss where s: "segs = s # ss" "s \<noteq> []"
      by (cases segs) (auto simp: pending_bytes_def)
    have nonempty: "got \<noteq> []" "[] \<notin> set rest"
      using g s False "1.prems"(2) by (auto split: if_splits)
    have c: "concat segs = got @ concat rest" and l: "length got \<le> n"
      using read_some_concat [of n segs] read_some_le [of n segs] g by simp_all
    have "n - length got \<le> pending_bytes rest"
      using read_some_pending [of n segs] g "1.prems"(1) by simp
    then obtain r where r: "read_exact (n - length got) rest = Some (take (n - length got) (concat rest), r)"
      "concat r = drop (n - length got) (concat rest)" "[] \<notin> set r"
      using "1.IH" [OF False g [symmetric] refl nonempty(1) _ nonempty(2)] by blast
    show ?thesis
      by (subst read_exact.simps) (use False g nonempty r c l in \<open>simp add: take_append drop_append\<close>)
  qed
qed

end
