(* ===== verification/File_Handler.thy ===== *)
theory File_Handler
  imports Runtime Unicode
begin

text \<open>
  Static files (\<open>src/src/file_handler.cpp\<close>, \<open>src/include/file_handler.hpp\<close>): from the path of a
  request to a file under the document root, and the two ways of answering, with the content
  in the response or as a descriptor for \<open>sendfile\<close>.

  The file system is a parameter (\<open>filesystem\<close>): how it resolves a path, what kind of thing is
  there, and its content; an error code that is set is \<open>None\<close>.  Paths are byte strings and
  are joined as \<open>std::filesystem::path\<close> joins them.  \<open>decoded.substr(1)\<close> throws on an empty
  path; nothing in the program catches an exception, so it is a result of its own (\<open>Inl\<close>).
\<close>

section \<open>Paths\<close>

text \<open>\<open>operator/\<close>: an absolute right side replaces the left one.\<close>

definition path_join :: "bytes \<Rightarrow> bytes \<Rightarrow> bytes" where
  "path_join p q =
     (if q \<noteq> [] \<and> hd q = 47 then q
      else if p = [] \<or> last p = 47 then p @ q
      else p @ 47 # q)"

definition path_filename :: "bytes \<Rightarrow> bytes" where
  "path_filename p = rev (takeWhile (\<lambda>c. c \<noteq> 47) (rev p))"

text \<open>\<open>extension()\<close>: from the last dot of the file name, unless that is its first character.\<close>

definition path_extension :: "bytes \<Rightarrow> bytes" where
  "path_extension p =
     (let name = path_filename p;
          tail = rev (takeWhile (\<lambda>c. c \<noteq> 46) (rev name))
      in if name = lit ''..'' \<or> length name \<le> Suc (length tail) then [] else 46 # tail)"

record filesystem =
  fs_canonical :: "bytes \<Rightarrow> bytes option"
  fs_weakly_canonical :: "bytes \<Rightarrow> bytes option"
  fs_is_directory :: "bytes \<Rightarrow> bool"
  fs_exists :: "bytes \<Rightarrow> bool"
  fs_is_regular_file :: "bytes \<Rightarrow> bool"
  fs_read :: "bytes \<Rightarrow> bytes option"
  fs_open :: "bytes \<Rightarrow> int"
  fs_fstat_size :: "int \<Rightarrow> nat option"
  fs_fd_content :: "int \<Rightarrow> bytes"

section \<open>The handler\<close>

record file_handler =
  doc_root :: bytes
  index_file :: bytes

definition mime_types :: "(string \<times> string) list" where
  "mime_types =
     [(''.html'', ''text/html; charset=utf-8''),
      (''.htm'', ''text/html; charset=utf-8''),
      (''.css'', ''text/css; charset=utf-8''),
      (''.js'', ''application/javascript; charset=utf-8''),
      (''.mjs'', ''application/javascript; charset=utf-8''),
      (''.json'', ''application/json; charset=utf-8''),
      (''.xml'', ''application/xml; charset=utf-8''),
      (''.txt'', ''text/plain; charset=utf-8''),
      (''.csv'', ''text/csv; charset=utf-8''),
      (''.svg'', ''image/svg+xml''),
      (''.png'', ''image/png''),
      (''.jpg'', ''image/jpeg''),
      (''.jpeg'', ''image/jpeg''),
      (''.gif'', ''image/gif''),
      (''.ico'', ''image/x-icon''),
      (''.webp'', ''image/webp''),
      (''.avif'', ''image/avif''),
      (''.woff'', ''font/woff''),
      (''.woff2'', ''font/woff2''),
      (''.ttf'', ''font/ttf''),
      (''.otf'', ''font/otf''),
      (''.eot'', ''application/vnd.ms-fontobject''),
      (''.pdf'', ''application/pdf''),
      (''.zip'', ''application/zip''),
      (''.gz'', ''application/gzip''),
      (''.mp4'', ''video/mp4''),
      (''.webm'', ''video/webm''),
      (''.mp3'', ''audio/mpeg''),
      (''.ogg'', ''audio/ogg''),
      (''.wasm'', ''application/wasm'')]"

definition mime_type :: "bytes \<Rightarrow> bytes" where
  "mime_type extension =
     (case map_of (map (\<lambda>(e, t). (lit e, lit t)) mime_types) (lower extension) of
        Some t \<Rightarrow> t
      | None \<Rightarrow> lit ''application/octet-stream'')"

text \<open>The decoding loop is the one of the Unicode checks (\<open>decode_percent_utf8\<close>).\<close>

definition canonical_or_weakly :: "filesystem \<Rightarrow> bytes \<Rightarrow> bytes option" where
  "canonical_or_weakly fs p =
     (case fs_canonical fs p of Some c \<Rightarrow> Some c | None \<Rightarrow> fs_weakly_canonical fs p)"

definition resolve_path :: "filesystem \<Rightarrow> file_handler \<Rightarrow> bytes \<Rightarrow> cpp_exception + bytes option" where
  "resolve_path fs h uri_path =
     (let decoded = decode_percent_utf8 uri_path
      in if 0 \<in> set decoded then Inr None
         else if find_sub (lit ''..'') decoded \<noteq> None then Inr None
         else if decoded = [] then Inl Out_of_range
         else case canonical_or_weakly fs (path_join (doc_root h) (drop 1 decoded)) of
                None \<Rightarrow> Inr None
              | Some path_str \<Rightarrow>
                  (case canonical_or_weakly fs (doc_root h) of
                     None \<Rightarrow> Inr None
                   | Some root_str \<Rightarrow>
                       if path_str \<noteq> root_str \<and> take (length root_str + 1) path_str \<noteq> root_str @ [47]
                       then Inr None else Inr (Some path_str)))"

text \<open>The path that is looked at: the index file of a directory.\<close>

definition target_file :: "filesystem \<Rightarrow> file_handler \<Rightarrow> bytes \<Rightarrow> bytes" where
  "target_file fs h p = (if fs_is_directory fs p then path_join p (index_file h) else p)"

definition is_file :: "filesystem \<Rightarrow> bytes \<Rightarrow> bool" where
  "is_file fs p \<longleftrightarrow> fs_exists fs p \<and> fs_is_regular_file fs p"

definition file_response :: "http_method \<Rightarrow> bytes \<Rightarrow> bytes \<Rightarrow> http_response" where
  "file_response m file_path content =
     empty_response\<lparr>status_code := 200, status_text := lit ''OK'',
       resp_headers :=
         hput (lit ''Connection'') (lit ''close'')
          (hput (lit ''Cache-Control'') (lit ''public, max-age=3600'')
          (hput (lit ''X-Frame-Options'') (lit ''SAMEORIGIN'')
          (hput (lit ''X-Content-Type-Options'') (lit ''nosniff'')
          (hput (lit ''Content-Length'') (to_dec (length content))
          (hput (lit ''Content-Type'') (mime_type (path_extension file_path)) []))))),
       resp_body := (if m = HEAD then [] else content)\<rparr>"

definition serve :: "filesystem \<Rightarrow> file_handler \<Rightarrow> http_request \<Rightarrow> cpp_exception + http_response" where
  "serve fs h req =
     (if req_method req \<noteq> GET \<and> req_method req \<noteq> HEAD
      then Inr (make_error 405 (lit ''Method not allowed for static files''))
      else case resolve_path fs h (path req) of
        Inl e \<Rightarrow> Inl e
      | Inr None \<Rightarrow> Inr (make_error 403 (lit ''Access denied''))
      | Inr (Some resolved) \<Rightarrow>
          (let file_path = target_file fs h resolved
           in if \<not> is_file fs file_path then Inr (make_error 404 (lit ''File not found''))
              else case fs_read fs file_path of
                None \<Rightarrow> Inr (make_error 500 (lit ''Failed to read file''))
              | Some content \<Rightarrow> Inr (file_response (req_method req) file_path content)))"

record sendfile_info =
  sf_fd :: int
  file_size :: nat
  mime :: bytes
  sf_headers :: bytes

definition resolve_for_sendfile :: "filesystem \<Rightarrow> file_handler \<Rightarrow> http_request \<Rightarrow> cpp_exception + sendfile_info option" where
  "resolve_for_sendfile fs h req =
     (if req_method req \<noteq> GET then Inr None
      else case resolve_path fs h (path req) of
        Inl e \<Rightarrow> Inl e
      | Inr None \<Rightarrow> Inr None
      | Inr (Some resolved) \<Rightarrow>
          (let file_path = target_file fs h resolved
           in if \<not> is_file fs file_path then Inr None
              else let fd = fs_open fs file_path
                   in if fd < 0 then Inr None
                      else case fs_fstat_size fs fd of
                        None \<Rightarrow> Inr None
                      | Some st_size \<Rightarrow>
                          (let mt = mime_type (path_extension file_path)
                           in Inr (Some \<lparr>sf_fd = fd, file_size = st_size, mime = mt,
                                sf_headers = lit ''HTTP/1.1 200 OK'' @ crlf
                                  @ lit ''Content-Type: '' @ mt @ crlf
                                  @ lit ''Content-Length: '' @ to_dec st_size @ crlf
                                  @ lit ''Cache-Control: public, max-age=3600'' @ crlf
                                  @ lit ''X-Sendfile: true'' @ crlf
                                  @ lit ''Connection: close'' @ crlf\<rparr>))))"

section \<open>Files stay under the root\<close>

definition inside :: "bytes \<Rightarrow> bytes \<Rightarrow> bool" where
  "inside root p \<longleftrightarrow> p = root \<or> (\<exists>rel. p = root @ 47 # rel)"

lemma take_slash_iff: "take (length root + 1) p = root @ [47] \<longleftrightarrow> (\<exists>rel. p = root @ 47 # rel)"
proof
  assume "take (length root + 1) p = root @ [47]"
  then have "p = root @ 47 # drop (length root + 1) p"
    using append_take_drop_id [of "length root + 1" p] by simp
  then show "\<exists>rel. p = root @ 47 # rel" by blast
qed auto

lemma resolve_path_inside:
  "resolve_path fs h u = Inr (Some p) \<longleftrightarrow>
     (\<exists>root. decode_percent_utf8 u \<noteq> [] \<and> 0 \<notin> set (decode_percent_utf8 u)
        \<and> find_sub (lit ''..'') (decode_percent_utf8 u) = None
        \<and> canonical_or_weakly fs (path_join (doc_root h) (drop 1 (decode_percent_utf8 u))) = Some p
        \<and> canonical_or_weakly fs (doc_root h) = Some root \<and> inside root p)"
  by (auto simp: resolve_path_def Let_def inside_def take_slash_iff [symmetric] split: option.splits if_splits)

lemma serve_GET_cases:
  assumes "req_method req \<in> {GET, HEAD}"
  shows "serve fs h req =
    (case resolve_path fs h (path req) of
       Inl e \<Rightarrow> Inl e
     | Inr None \<Rightarrow> Inr (make_error 403 (lit ''Access denied''))
     | Inr (Some p) \<Rightarrow>
         if \<not> is_file fs (target_file fs h p) then Inr (make_error 404 (lit ''File not found''))
         else case fs_read fs (target_file fs h p) of
           None \<Rightarrow> Inr (make_error 500 (lit ''Failed to read file''))
         | Some content \<Rightarrow> Inr (file_response (req_method req) (target_file fs h p) content))"
  using assms unfolding serve_def Let_def by auto

lemma make_error_status [simp]: "status_code (make_error c m) = c"
  by (simp add: make_error_def Let_def)

text \<open>
  C9. A response with status 200 is given exactly under these conditions: the method is GET or HEAD, the decoded
  path has neither a null byte nor two dots in a row, the resolved path is the resolved
  root or lies under it, and it, or the index file joined to it if it is a directory, is a regular
  file that can be read; and the response has the content of that file as its body (for HEAD an empty one), the length of
  the content and the type of the extension.
\<close>

theorem serve_confined:
  "serve fs h req = Inr resp \<and> status_code resp = 200 \<longleftrightarrow>
     req_method req \<in> {GET, HEAD}
     \<and> (\<exists>root p content. decode_percent_utf8 (path req) \<noteq> [] \<and> 0 \<notin> set (decode_percent_utf8 (path req))
        \<and> find_sub (lit ''..'') (decode_percent_utf8 (path req)) = None
        \<and> canonical_or_weakly fs (path_join (doc_root h) (drop 1 (decode_percent_utf8 (path req)))) = Some p
        \<and> canonical_or_weakly fs (doc_root h) = Some root \<and> inside root p
        \<and> is_file fs (target_file fs h p) \<and> fs_read fs (target_file fs h p) = Some content
        \<and> resp = file_response (req_method req) (target_file fs h p) content
        \<and> resp_body resp = (if req_method req = HEAD then [] else content)
        \<and> map_of (resp_headers resp) (lit ''Content-Length'') = Some (to_dec (length content))
        \<and> map_of (resp_headers resp) (lit ''Content-Type'') = Some (mime_type (path_extension (target_file fs h p))))"
    (is "?l \<longleftrightarrow> _ \<and> ?r")
proof (cases "req_method req \<in> {GET, HEAD}")
  case True
  have ok: "status_code (file_response m f c) = 200" "resp_body (file_response m f c) = (if m = HEAD then [] else c)"
    "map_of (resp_headers (file_response m f c)) (lit ''Content-Length'') = Some (to_dec (length c))"
    "map_of (resp_headers (file_response m f c)) (lit ''Content-Type'') = Some (mime_type (path_extension f))" for m f c
    by (simp_all add: file_response_def lit_eq_iff)
  have "?l \<longleftrightarrow> (\<exists>p content. resolve_path fs h (path req) = Inr (Some p)
      \<and> is_file fs (target_file fs h p) \<and> fs_read fs (target_file fs h p) = Some content
      \<and> resp = file_response (req_method req) (target_file fs h p) content)"
    unfolding serve_GET_cases [OF True] using ok(1) by (auto split: sum.splits option.splits if_splits)
  also have "\<dots> \<longleftrightarrow> ?r"
    unfolding resolve_path_inside by (auto simp: ok)
  finally show ?thesis
    using True by simp
next
  case False
  then show ?thesis by (auto simp: serve_def)
qed

text \<open>
  The two ways of answering agree: where a file is sent by \<open>sendfile\<close>, a plain response to the same
  request has status 200, the same type and, if the file is read as long as it is, the same length.
\<close>

theorem sendfile_agrees:
  assumes "resolve_for_sendfile fs h req = Inr (Some info)"
    and "\<And>p content. fs_read fs p = Some content \<Longrightarrow> fs_fstat_size fs (fs_open fs p) = Some (length content)"
    and "\<And>p. is_file fs p \<Longrightarrow> fs_read fs p \<noteq> None"
  shows "\<exists>resp. serve fs h req = Inr resp \<and> status_code resp = 200
    \<and> map_of (resp_headers resp) (lit ''Content-Type'') = Some (mime info)
    \<and> map_of (resp_headers resp) (lit ''Content-Length'') = Some (to_dec (file_size info))
    \<and> length (resp_body resp) = file_size info"
proof -
  from assms(1) obtain p st_size where g: "req_method req = GET"
    and p: "resolve_path fs h (path req) = Inr (Some p)" "is_file fs (target_file fs h p)"
    "fs_fstat_size fs (fs_open fs (target_file fs h p)) = Some st_size"
    and info: "mime info = mime_type (path_extension (target_file fs h p))" "file_size info = st_size"
    by (auto simp: resolve_for_sendfile_def Let_def split: if_splits sum.splits option.splits)
  obtain content where c: "fs_read fs (target_file fs h p) = Some content"
    using assms(3) [OF p(2)] by auto
  with assms(2) [OF c] p(3) have "length content = st_size" by simp
  moreover have "serve fs h req = Inr (file_response GET (target_file fs h p) content)"
    using serve_GET_cases [of req fs h] g p c by simp
  ultimately show ?thesis
    by (simp add: file_response_def info lit_eq_iff)
qed

text \<open>
  A request whose path is empty, such as \<open>GET ?x HTTP/1.1\<close>, makes the handler throw, and no caller
  catches it.
\<close>

theorem empty_path_throws:
  assumes "path req = []" and "req_method req \<in> {GET, HEAD}"
  shows "serve fs h req = Inl Out_of_range"
  using assms by (simp add: serve_GET_cases resolve_path_def lit_def)

text \<open>With the root directory as document root every other file is refused.\<close>

theorem root_directory_serves_nothing:
  assumes "canonical_or_weakly fs (doc_root h) = Some [47]" and "resolve_path fs h u = Inr (Some p)"
    and "p \<noteq> [47]"
  shows "\<exists>rel. p = 47 # 47 # rel"
  using assms by (auto simp: resolve_path_inside inside_def)

section \<open>A small file system\<close>

definition sample_fs :: filesystem where
  "sample_fs =
     \<lparr>fs_canonical = (\<lambda>p. Some p), fs_weakly_canonical = (\<lambda>p. Some p),
      fs_is_directory = (\<lambda>p. p = lit ''/www/''), fs_exists = (\<lambda>p. p = lit ''/www/a.css''),
      fs_is_regular_file = (\<lambda>p. p = lit ''/www/a.css''),
      fs_read = (\<lambda>p. if p = lit ''/www/a.css'' then Some (lit ''b{}'') else None),
      fs_open = (\<lambda>p. if p = lit ''/www/a.css'' then 7 else - 1),
      fs_fstat_size = (\<lambda>fd. if fd = 7 then Some 3 else None), fs_fd_content = (\<lambda>fd. lit ''b{}'')\<rparr>"

definition sample_handler :: file_handler where
  "sample_handler = \<lparr>doc_root = lit ''/www'', index_file = lit ''index.html''\<rparr>"

definition file_request :: "bytes \<Rightarrow> http_request" where
  "file_request p = empty_request\<lparr>req_method := GET, path := p\<rparr>"

theorem serve_confined_witness:
  "\<exists>resp. serve sample_fs sample_handler (file_request (lit ''/%61.css'')) = Inr resp \<and> status_code resp = 200
     \<and> resp_body resp = lit ''b{}''"
proof -
  let ?req = "file_request (lit ''/%61.css'')"
  have "case serve sample_fs sample_handler ?req of Inr resp \<Rightarrow> status_code resp = 200 | Inl e \<Rightarrow> False"
    by code_simp
  then obtain resp where r: "serve sample_fs sample_handler ?req = Inr resp" "status_code resp = 200"
    by (auto split: sum.splits)
  have "content = lit ''b{}''" if "fs_read sample_fs p = Some content" for p content
    using that by (simp add: sample_fs_def split: if_splits)
  moreover have "req_method ?req = GET"
    by (simp add: file_request_def)
  ultimately have "resp_body resp = lit ''b{}''"
    using iffD1 [OF serve_confined [of sample_fs sample_handler ?req resp]] r by auto
  with r show ?thesis by blast
qed

theorem sendfile_agrees_witness:
  "\<exists>resp. serve sample_fs sample_handler (file_request (lit ''/%61.css'')) = Inr resp
     \<and> map_of (resp_headers resp) (lit ''Content-Type'') = Some (lit ''text/css; charset=utf-8'')"
proof -
  have "case resolve_for_sendfile sample_fs sample_handler (file_request (lit ''/%61.css'')) of
      Inr (Some info) \<Rightarrow> mime info = lit ''text/css; charset=utf-8'' | _ \<Rightarrow> False"
    by code_simp
  then obtain info where i: "resolve_for_sendfile sample_fs sample_handler (file_request (lit ''/%61.css'')) = Inr (Some info)"
    "mime info = lit ''text/css; charset=utf-8''"
    by (auto split: sum.splits option.splits)
  have sizes: "\<And>p content. fs_read sample_fs p = Some content \<Longrightarrow> fs_fstat_size sample_fs (fs_open sample_fs p) = Some (length content)"
    and readable: "\<And>p. is_file sample_fs p \<Longrightarrow> fs_read sample_fs p \<noteq> None"
    by (auto simp: sample_fs_def is_file_def split: if_splits)
  from sendfile_agrees [OF i(1) sizes readable] i(2) show ?thesis by auto
qed

theorem empty_path_throws_witness:
  "serve sample_fs sample_handler (file_request []) = Inl Out_of_range"
  using empty_path_throws [of "file_request []" sample_fs sample_handler]
  by (simp add: file_request_def)

end
