(* ===== verification/Fastcgi.thy ===== *)
theory Fastcgi
  imports Wire Runtime
begin

text \<open>
  The FastCGI client (\<open>src/src/fastcgi_client.cpp\<close>): the records of a request, the reading of the
  records of the answer and the parsing of the CGI headers in it.  Connecting, writing and
  reading are the arguments of \<open>send_request\<close>: whether the socket connects, what the calls
  of \<open>write\<close> return, and the pieces in which the answer arrives.

  What is shown: the packet is a sequence of records within the size limit that carries exactly the
  parameters and the body, the parameters are decoded by the rules of the protocol, and an answer
  is read back whatever its content.
\<close>

section \<open>Records\<close>

definition FCGI_BEGIN_REQUEST :: byte where "FCGI_BEGIN_REQUEST = 1"
definition FCGI_END_REQUEST :: byte where "FCGI_END_REQUEST = 3"
definition FCGI_PARAMS :: byte where "FCGI_PARAMS = 4"
definition FCGI_STDIN :: byte where "FCGI_STDIN = 5"
definition FCGI_STDOUT :: byte where "FCGI_STDOUT = 6"
definition FCGI_STDERR :: byte where "FCGI_STDERR = 7"
definition FCGI_RESPONDER :: u16 where "FCGI_RESPONDER = 1"
definition FCGI_KEEP_CONN :: byte where "FCGI_KEEP_CONN = 0"

lemmas fcgi_types = FCGI_BEGIN_REQUEST_def FCGI_END_REQUEST_def FCGI_PARAMS_def FCGI_STDIN_def
  FCGI_STDOUT_def FCGI_STDERR_def

definition build_header :: "byte \<Rightarrow> u16 \<Rightarrow> u16 \<Rightarrow> bytes" where
  "build_header ty request_id content_length =
     [1, ty] @ bytes16 request_id @ bytes16 content_length @ [0, 0]"

definition build_begin_request :: "u16 \<Rightarrow> bytes" where
  "build_begin_request request_id =
     build_header FCGI_BEGIN_REQUEST request_id 8
     @ bytes16 FCGI_RESPONDER @ [FCGI_KEEP_CONN] @ replicate 5 0"

definition encode_length :: "nat \<Rightarrow> bytes" where
  "encode_length len =
     (if len < 128 then [of_nat len] else bytes32 (of_nat len OR 0x80000000))"

definition encode_name_value :: "bytes \<times> bytes \<Rightarrow> bytes" where
  "encode_name_value nv =
     encode_length (length (fst nv)) @ encode_length (length (snd nv)) @ fst nv @ snd nv"

definition encode_params :: "bytes smap \<Rightarrow> bytes" where
  "encode_params params = concat (map encode_name_value params)"

text \<open>The loop that cuts a stream into records.\<close>

function stream_records :: "byte \<Rightarrow> u16 \<Rightarrow> bytes \<Rightarrow> bytes" where
  "stream_records ty request_id data =
     (if data = [] then []
      else let chunk = min (length data) 65535
           in build_header ty request_id (of_nat chunk) @ take chunk data
              @ stream_records ty request_id (drop chunk data))"
  by pat_completeness auto
termination
  by (relation "measure (\<lambda>(ty, i, data). length data)") auto

declare stream_records.simps [simp del]

section \<open>The request\<close>

definition toupper :: "byte \<Rightarrow> byte" where
  "toupper c = (if 97 \<le> c \<and> c \<le> 122 then c - 32 else c)"

definition env_name :: "bytes \<Rightarrow> bytes" where
  "env_name name = lit ''HTTP_'' @ map (\<lambda>c. if c = 45 then 95 else toupper c) name"

definition base_params :: "http_request \<Rightarrow> bytes \<Rightarrow> bytes \<Rightarrow> bytes smap" where
  "base_params req script_filename document_root =
     [(lit ''REQUEST_METHOD'', method_str req),
      (lit ''REQUEST_URI'', uri req),
      (lit ''SCRIPT_NAME'', path req),
      (lit ''SCRIPT_FILENAME'', script_filename),
      (lit ''QUERY_STRING'', query_string req),
      (lit ''DOCUMENT_ROOT'', document_root),
      (lit ''SERVER_SOFTWARE'', lit ''JustServer/1.0''),
      (lit ''SERVER_PROTOCOL'', version req),
      (lit ''GATEWAY_INTERFACE'', lit ''CGI/1.1''),
      (lit ''CONTENT_LENGTH'', to_dec (length (req_body req)))]"

definition request_params :: "http_request \<Rightarrow> bytes \<Rightarrow> bytes \<Rightarrow> bytes smap" where
  "request_params req script_filename document_root =
     (let params = foldl (\<lambda>ps (name, val). hput (env_name name) val ps)
                     (base_params req script_filename document_root) (req_headers req);
          ct = get_header req (lit ''Content-Type'')
      in if ct \<noteq> [] then hput (lit ''CONTENT_TYPE'') ct params else params)"

definition build_packet :: "http_request \<Rightarrow> bytes \<Rightarrow> bytes \<Rightarrow> bytes" where
  "build_packet req script_filename document_root =
     build_begin_request 1
     @ stream_records FCGI_PARAMS 1 (encode_params (request_params req script_filename document_root))
     @ build_header FCGI_PARAMS 1 0
     @ stream_records FCGI_STDIN 1 (req_body req)
     @ build_header FCGI_STDIN 1 0"

section \<open>The answer\<close>

definition MAX_FCGI_RESPONSE :: nat where "MAX_FCGI_RESPONSE = 64 * 1024 * 1024"

text \<open>Padding that does not arrive completely is no error.\<close>

function skip_padding :: "nat \<Rightarrow> bytes list \<Rightarrow> bytes list" where
  "skip_padding n segs =
     (if n = 0 then segs
      else let (got, rest) = read_some (min n 256) segs
           in if got = [] then rest else skip_padding (n - length got) rest)"
  by pat_completeness auto
termination
  by (relation "measure fst") auto

declare skip_padding.simps [simp del]

lemma read_exact_pending: "read_exact n segs = Some (b, rest) \<Longrightarrow> pending_bytes rest \<le> pending_bytes segs"
proof (induction n segs arbitrary: b rest rule: read_exact.induct)
  case (1 n segs)
  show ?case
  proof (cases "n = 0")
    case True
    with "1.prems" show ?thesis by (simp add: read_exact.simps)
  next
    case False
    obtain got r where g: "read_some n segs = (got, r)"
      by (cases "read_some n segs")
    with "1.prems" False obtain more where "got \<noteq> []" "read_exact (n - length got) r = Some (more, rest)"
      by (auto simp: read_exact.simps [of n segs] split: if_splits)
    with "1.IH" [OF False g [symmetric] refl] have "pending_bytes rest \<le> pending_bytes r"
      by blast
    with read_some_pending [of n segs] g show ?thesis by simp
  qed
qed

lemma skip_padding_pending: "pending_bytes (skip_padding n segs) \<le> pending_bytes segs"
proof (induction n segs rule: skip_padding.induct)
  case (1 n segs)
  obtain got r where g: "read_some (min n 256) segs = (got, r)"
    by (cases "read_some (min n 256) segs")
  have le: "pending_bytes r \<le> pending_bytes segs"
    using read_some_pending [of "min n 256" segs] g by simp
  consider "n = 0" | "n \<noteq> 0" "got = []" | "n \<noteq> 0" "got \<noteq> []"
    by blast
  then show ?case
  proof cases
    case 3
    with "1.IH" [OF 3(1) g [symmetric] refl] g have "pending_bytes (skip_padding n segs) \<le> pending_bytes r"
      by (simp add: skip_padding.simps [of n segs])
    with le show ?thesis by simp
  qed (simp_all add: skip_padding.simps g le)
qed

text \<open>
  One turn of \<open>read_response\<close>: the end of the stream, a record that is refused, or its type and
  content.  A header has to arrive in one piece.
\<close>

datatype record_result = No_more | Bad_record | Record byte bytes "bytes list"

definition read_record :: "nat \<Rightarrow> bytes list \<Rightarrow> record_result" where
  "read_record stdout_size segs =
     (let (hdr, segs1) = read_some 8 segs
      in if hdr = [] then No_more
         else if length hdr \<noteq> 8 then Bad_record
         else let content_length = unat (be16 (hdr ! 4) (hdr ! 5)); padding_length = unat (hdr ! 6)
              in if MAX_FCGI_RESPONSE < stdout_size + content_length then Bad_record
                 else case read_exact content_length segs1 of
                        None \<Rightarrow> Bad_record
                      | Some (content, segs2) \<Rightarrow> Record (hdr ! 1) content (skip_padding padding_length segs2))"

lemma read_record_pending:
  assumes "read_record k segs = Record ty content rest"
  shows "pending_bytes rest < pending_bytes segs"
proof -
  obtain hdr segs1 where h: "read_some 8 segs = (hdr, segs1)"
    by (cases "read_some 8 segs")
  with assms obtain n segs2 p where r: "hdr \<noteq> []" "read_exact n segs1 = Some (content, segs2)"
    "rest = skip_padding p segs2"
    by (auto simp: read_record_def Let_def split: if_splits option.splits)
  have "pending_bytes rest \<le> pending_bytes segs1"
    using skip_padding_pending [of p segs2] read_exact_pending [OF r(2)] r(3) by simp
  moreover have "pending_bytes segs1 + length hdr = pending_bytes segs"
    using read_some_pending [of 8 segs] h by simp
  moreover have "0 < length hdr"
    using r(1) by simp
  ultimately show ?thesis by linarith
qed

function read_records :: "bytes \<Rightarrow> bytes \<Rightarrow> bytes list \<Rightarrow> bytes option" where
  "read_records stdout_data stderr_data segs =
     (case read_record (length stdout_data) segs of
        No_more \<Rightarrow> if stdout_data = [] then None else Some stdout_data
      | Bad_record \<Rightarrow> None
      | Record ty content rest \<Rightarrow>
          if ty = FCGI_STDOUT then read_records (stdout_data @ content) stderr_data rest
          else if ty = FCGI_STDERR then read_records stdout_data (stderr_data @ content) rest
          else if ty = FCGI_END_REQUEST then Some stdout_data
          else read_records stdout_data stderr_data rest)"
  by pat_completeness auto
termination
  by (relation "measure (\<lambda>(out, err, segs). pending_bytes segs)") (auto dest: read_record_pending)

declare read_records.simps [simp del]

definition read_response :: "bytes list \<Rightarrow> bytes option" where
  "read_response segs = read_records [] [] segs"

text \<open>
  The headers of a CGI answer.  \<open>Status\<close> sets the status if a blank follows the number, and \<open>stoi\<close>
  throws on what is no number.
\<close>

definition cgi_value :: "bytes \<Rightarrow> bytes" where
  "cgi_value val =
     (let rest = dropWhile (\<lambda>c. c = 32 \<or> c = 9) val in if rest = [] then val else rest)"

definition cgi_header :: "bytes \<Rightarrow> http_response \<Rightarrow> cpp_exception + http_response" where
  "cgi_header line resp =
     (case find_sub [58] line of
        None \<Rightarrow> Inr resp
      | Some colon \<Rightarrow>
          (let name = take colon line; val = cgi_value (drop (colon + 1) line)
           in if name = lit ''Status'' then
                (case find_sub [32] val of
                   None \<Rightarrow> Inr resp
                 | Some sp \<Rightarrow>
                     (case stoi (take sp val) of
                        Inl e \<Rightarrow> Inl e
                      | Inr code \<Rightarrow> Inr (resp\<lparr>status_code := code, status_text := drop (sp + 1) val\<rparr>)))
              else Inr (resp\<lparr>resp_headers := hput name val (resp_headers resp)\<rparr>)))"

definition cut_line :: "bytes \<Rightarrow> bytes \<times> bytes" where
  "cut_line s =
     (case find_sub crlf s of
        None \<Rightarrow> (s, [])
      | Some e \<Rightarrow> (take e s, drop (e + 2) s))"

lemma cut_line_shorter: "s \<noteq> [] \<Longrightarrow> length (snd (cut_line s)) < length s"
  by (auto simp: cut_line_def split: option.splits dest!: find_sub_SomeD)

function cgi_headers :: "bytes \<Rightarrow> http_response \<Rightarrow> cpp_exception + http_response" where
  "cgi_headers header_section resp =
     (if header_section = [] then Inr resp
      else let (line, rest) = cut_line header_section
           in case cgi_header line resp of
                Inl e \<Rightarrow> Inl e
              | Inr resp' \<Rightarrow> cgi_headers rest resp')"
  by pat_completeness auto
termination
  by (relation "measure (\<lambda>(s, r). length s)") (auto dest: cut_line_shorter simp: prod_eq_iff)

declare cgi_headers.simps [simp del]

definition parse_fcgi_response :: "bytes \<Rightarrow> cpp_exception + http_response" where
  "parse_fcgi_response raw =
     (let resp = empty_response\<lparr>status_code := 200, status_text := lit ''OK''\<rparr>
      in case find_sub [13, 10, 13, 10] raw of
           None \<Rightarrow>
             Inr (resp\<lparr>resp_body := raw,
                       resp_headers := hput (lit ''Content-Type'') (lit ''text/html; charset=utf-8'') (resp_headers resp)\<rparr>)
         | Some header_end \<Rightarrow>
             (case cgi_headers (take header_end raw) resp of
                Inl e \<Rightarrow> Inl e
              | Inr resp' \<Rightarrow>
                  Inr (resp'\<lparr>resp_body := drop (header_end + 4) raw,
                             resp_headers := hput (lit ''Connection'') (lit ''close'') (resp_headers resp')\<rparr>)))"

record fcgi_env =
  fcgi_connects :: bool
  fcgi_writes :: results
  fcgi_answer :: "bytes list"

definition send_request :: "fcgi_env \<Rightarrow> http_request \<Rightarrow> bytes \<Rightarrow> bytes \<Rightarrow> cpp_exception + http_response option" where
  "send_request env req script_filename document_root =
     (if \<not> fcgi_connects env then Inr None
      else if \<not> fst (snd (write_all (fcgi_writes env) (build_packet req script_filename document_root))) then Inr None
      else case read_response (fcgi_answer env) of
             None \<Rightarrow> Inr None
           | Some raw_response \<Rightarrow>
               (case parse_fcgi_response raw_response of Inl e \<Rightarrow> Inl e | Inr resp \<Rightarrow> Inr (Some resp)))"

section \<open>The packet as the protocol reads it\<close>

text \<open>A length, a name-value pair and a record as the FastCGI specification defines them.\<close>

definition fcgi_length :: "bytes \<Rightarrow> (nat \<times> bytes) option" where
  "fcgi_length bs =
     (case bs of
        [] \<Rightarrow> None
      | b # r \<Rightarrow>
          if unat b < 128 then Some (unat b, r)
          else if length r < 3 then None
          else Some (unat (take_bit 31 (be32 b (r ! 0) (r ! 1) (r ! 2))), drop 3 r))"

definition fcgi_pair :: "bytes \<Rightarrow> ((bytes \<times> bytes) \<times> bytes) option" where
  "fcgi_pair bs =
     (case fcgi_length bs of
        None \<Rightarrow> None
      | Some (n, r1) \<Rightarrow>
          (case fcgi_length r1 of
             None \<Rightarrow> None
           | Some (m, r2) \<Rightarrow>
               if length r2 < n + m then None
               else Some ((take n r2, take m (drop n r2)), drop (n + m) r2)))"

definition fcgi_record :: "bytes \<Rightarrow> ((byte \<times> bytes) \<times> bytes) option" where
  "fcgi_record bs =
     (if length bs < 8 \<or> bs ! 0 \<noteq> 1 then None
      else let n = unat (be16 (bs ! 4) (bs ! 5)); p = unat (bs ! 6)
           in if length bs < 8 + n + p then None
              else Some ((bs ! 1, take n (drop 8 bs)), drop (8 + n + p) bs))"

lemma fcgi_length_encode:
  assumes "n < 2 ^ 31"
  shows "fcgi_length (encode_length n @ rest) = Some (n, rest)"
proof (cases "n < 128")
  case True
  then show ?thesis
    by (simp add: encode_length_def fcgi_length_def unat_of_nat)
next
  case False
  define x :: u32 where "x = of_nat n"
  define w :: u32 where "w = x OR 0x80000000"
  have m: "(0x80000000 :: u32) = push_bit 31 1"
    by simp
  have n: "unat x = n"
    using assms by (simp add: x_def unat_of_nat)
  have small: "bit x j \<Longrightarrow> j < 31" for j
    using bit_small [of x 31 j] assms n by (force simp: not_less [symmetric])
  have "take_bit 31 w = x"
    unfolding w_def m by (rule bit_word_eqI) (auto simp only: bit_simps dest: small)
  then have value_eq: "unat (take_bit 31 w) = n"
    using n by simp
  have "bit w 31"
    unfolding w_def m bit_or_iff bit_push_bit_iff by simp
  then have "bit (ucast (drop_bit 24 w) :: byte) 7"
    by (simp add: bit_simps)
  then have high: "\<not> unat (ucast (drop_bit 24 w) :: byte) < 128"
    using bit_small [of "ucast (drop_bit 24 w) :: byte" 7 7] by auto
  have "fcgi_length (bytes32 w @ rest) = Some (n, rest)"
    unfolding bytes32_def append_Cons append_Nil fcgi_length_def list.case
    by (simp add: high be32_bytes32 value_eq numeral_2_eq_2)
  with False show ?thesis
    by (simp add: encode_length_def w_def x_def)
qed

lemma fcgi_pair_encode:
  assumes "length (fst nv) < 2 ^ 31" and "length (snd nv) < 2 ^ 31"
  shows "fcgi_pair (encode_name_value nv @ rest) = Some (nv, rest)"
  using assms by (simp add: fcgi_pair_def encode_name_value_def fcgi_length_encode)

definition param_fits :: "bytes \<times> bytes \<Rightarrow> bool" where
  "param_fits nv \<longleftrightarrow> length (fst nv) < 2 ^ 31 \<and> length (snd nv) < 2 ^ 31"

interpretation fcgi_params: codec encode_name_value fcgi_pair param_fits
  by unfold_locales (simp add: param_fits_def fcgi_pair_encode)

definition build_record :: "byte \<times> bytes \<Rightarrow> bytes" where
  "build_record r = build_header (fst r) 1 (of_nat (length (snd r))) @ snd r"

definition record_fits :: "byte \<times> bytes \<Rightarrow> bool" where
  "record_fits r \<longleftrightarrow> length (snd r) \<le> 65535"

lemma unat_u16_length: "n \<le> 65535 \<Longrightarrow> unat (of_nat n :: u16) = n"
  by (simp add: unat_of_nat)

lemma header_be16: "be16 (build_header ty i n ! 4) (build_header ty i n ! 5) = n"
  by (simp add: build_header_def bytes16_def be16_bytes16)

interpretation fcgi_records: codec build_record fcgi_record record_fits
proof unfold_locales
  fix r rest
  assume "record_fits r"
  then have n: "unat (of_nat (length (snd r)) :: u16) = length (snd r)"
    by (simp add: record_fits_def unat_u16_length)
  have drop8: "drop (8 + k) (a # b # c # d # e # f # g # h # s) = drop k s" for k a b c d e f g h and s :: bytes
    by (simp add: eval_nat_numeral)
  have e: "build_record r @ rest =
      [1, fst r, ucast (drop_bit 8 (1 :: u16)), ucast (1 :: u16), ucast (drop_bit 8 (of_nat (length (snd r)) :: u16)),
       ucast (of_nat (length (snd r)) :: u16), 0, 0] @ snd r @ rest"
    by (simp add: build_record_def build_header_def bytes16_def)
  show "fcgi_record (build_record r @ rest) = Some (r, rest)"
    unfolding e fcgi_record_def append_Cons append_Nil
    using drop8 [of 0] by (simp add: be16_bytes16 n Let_def drop8 del: drop_Suc_Cons)
qed

function fcgi_chunks :: "bytes \<Rightarrow> bytes list" where
  "fcgi_chunks data = (if data = [] then [] else take 65535 data # fcgi_chunks (drop 65535 data))"
  by pat_completeness auto
termination
  by (relation "measure length") auto

declare fcgi_chunks.simps [simp del]

lemma concat_fcgi_chunks: "concat (fcgi_chunks data) = data"
proof (induction data rule: fcgi_chunks.induct)
  case (1 data)
  then show ?case by (subst fcgi_chunks.simps) simp
qed

lemma fcgi_chunks_bound: "c \<in> set (fcgi_chunks data) \<Longrightarrow> c \<noteq> [] \<and> length c \<le> 65535"
proof (induction data rule: fcgi_chunks.induct)
  case (1 data)
  then show ?case by (subst (asm) (2) fcgi_chunks.simps) (auto split: if_splits)
qed

lemma stream_records_fcgi_chunks:
  "stream_records ty 1 data = concat (map (\<lambda>c. build_record (ty, c)) (fcgi_chunks data))"
proof (induction data rule: fcgi_chunks.induct)
  case (1 data)
  show ?case
  proof (cases "data = []")
    case True
    then show ?thesis by (simp add: stream_records.simps fcgi_chunks.simps)
  next
    case False
    have d: "take (min (length data) 65535) data = take 65535 data" "drop (min (length data) 65535) data = drop 65535 data"
      by (simp_all add: min_def)
    have "stream_records ty 1 data = build_record (ty, take 65535 data) @ stream_records ty 1 (drop 65535 data)"
      using False by (subst stream_records.simps) (simp add: d build_record_def Let_def min.commute)
    with 1 False show ?thesis
      by (simp add: fcgi_chunks.simps [of data])
  qed
qed

definition begin_body :: bytes where
  "begin_body = bytes16 FCGI_RESPONDER @ [FCGI_KEEP_CONN] @ replicate 5 0"

text \<open>The records of a request: the start, the parameters and the body, each closed by an empty record.\<close>

definition packet_records :: "http_request \<Rightarrow> bytes \<Rightarrow> bytes \<Rightarrow> (byte \<times> bytes) list" where
  "packet_records req script root =
     (FCGI_BEGIN_REQUEST, begin_body)
     # map (\<lambda>c. (FCGI_PARAMS, c)) (fcgi_chunks (encode_params (request_params req script root))) @ [(FCGI_PARAMS, [])]
     @ map (\<lambda>c. (FCGI_STDIN, c)) (fcgi_chunks (req_body req)) @ [(FCGI_STDIN, [])]"

lemma build_packet_records: "build_packet req script root = concat (map build_record (packet_records req script root))"
  by (simp add: build_packet_def packet_records_def stream_records_fcgi_chunks comp_def)
    (simp add: build_record_def build_begin_request_def begin_body_def bytes16_def)

text \<open>
  C24. The packet is read back by the rules of the protocol: it is the record that begins the request, parameter records with content, an
  empty parameter record that closes the stream, input records with content and an empty one that closes that
  stream, all within the limit of 65535 bytes; the contents of the parameter records decode to the parameters
  of the request, and those of the input records are its body.
\<close>

theorem fcgi_packet_readable:
  assumes "\<forall>nv \<in> set (request_params req script root). param_fits nv"
  shows "\<exists>ps ins rs. rs = (FCGI_BEGIN_REQUEST, begin_body) # map (Pair FCGI_PARAMS) ps @ [(FCGI_PARAMS, [])]
        @ map (Pair FCGI_STDIN) ins @ [(FCGI_STDIN, [])]
    \<and> decode_seq fcgi_record (length rs) (build_packet req script root) = Some (rs, [])
    \<and> (\<forall>c \<in> set (ps @ ins). c \<noteq> [] \<and> length c \<le> 65535)
    \<and> decode_seq fcgi_pair (length (request_params req script root)) (concat ps) = Some (request_params req script root, [])
    \<and> concat ins = req_body req"
proof (intro exI conjI)
  let ?rs = "packet_records req script root" and ?ps = "encode_params (request_params req script root)"
  show "?rs = (FCGI_BEGIN_REQUEST, begin_body) # map (Pair FCGI_PARAMS) (fcgi_chunks ?ps) @ [(FCGI_PARAMS, [])]
        @ map (Pair FCGI_STDIN) (fcgi_chunks (req_body req)) @ [(FCGI_STDIN, [])]"
    by (simp add: packet_records_def)
  have "\<forall>r \<in> set ?rs. record_fits r"
    using fcgi_chunks_bound by (auto simp: packet_records_def record_fits_def begin_body_def)
  then show "decode_seq fcgi_record (length ?rs) (build_packet req script root) = Some (?rs, [])"
    using fcgi_records.decode_seq_enc [of ?rs "[]"] by (simp add: build_packet_records)
  show "\<forall>c \<in> set (fcgi_chunks ?ps @ fcgi_chunks (req_body req)). c \<noteq> [] \<and> length c \<le> 65535"
    using fcgi_chunks_bound by auto
  show "decode_seq fcgi_pair (length (request_params req script root)) (concat (fcgi_chunks ?ps)) = Some (request_params req script root, [])"
    unfolding concat_fcgi_chunks encode_params_def
    using fcgi_params.decode_seq_enc [of "request_params req script root" "[]"] assms by simp
  show "concat (fcgi_chunks (req_body req)) = req_body req"
    by (rule concat_fcgi_chunks)
qed

section \<open>The answer as the protocol writes it\<close>

definition answer_record :: "byte \<Rightarrow> bytes \<Rightarrow> byte \<Rightarrow> bytes" where
  "answer_record ty content pad =
     [1, ty, 0, 1] @ bytes16 (of_nat (length content)) @ [pad, 0] @ content @ replicate (unat pad) 0"

text \<open>
  An answer arrives in pieces, each of which a call of \<open>read\<close> gives or a part of it.  What is left of the pieces after some
  bytes were read:
\<close>

fun advance :: "nat \<Rightarrow> bytes list \<Rightarrow> bytes list" where
  "advance k [] = []"
| "advance k (s # segs) = (if k < length s then drop k s # segs else advance (k - length s) segs)"

lemma advance_0 [simp]: "[] \<notin> set segs \<Longrightarrow> advance 0 segs = segs"
  by (cases segs) auto

lemma advance_add: "[] \<notin> set segs \<Longrightarrow> advance (j + k) segs = advance k (advance j segs)"
  by (induction j segs rule: advance.induct) (auto simp: add.commute)

lemma advance_nonempty [simp]: "[] \<notin> set segs \<Longrightarrow> [] \<notin> set (advance k segs)"
  by (induction k segs rule: advance.induct) auto

lemma concat_advance: "concat (advance k segs) = drop k (concat segs)"
  by (induction k segs rule: advance.induct) auto

lemma read_some_advance:
  assumes "[] \<notin> set segs" and "0 < m"
  shows "snd (read_some m segs) = advance (length (fst (read_some m segs))) segs"
  using assms by (cases segs) auto

lemma read_exact_advance:
  assumes "n \<le> length (concat segs)" and "[] \<notin> set segs"
  shows "read_exact n segs = Some (take n (concat segs), advance n segs)"
  using assms
proof (induction n segs rule: read_exact.induct)
  case (1 n segs)
  show ?case
  proof (cases "n = 0")
    case False
    obtain got rest where g: "read_some n segs = (got, rest)"
      by (cases "read_some n segs")
    have r: "rest = advance (length got) segs" "concat segs = got @ concat rest" "length got \<le> n"
      using read_some_advance [OF "1.prems"(2), of n] read_some_concat [of n segs] read_some_le [of n segs] False g by simp_all
    moreover have "got \<noteq> []"
      using g False "1.prems" by (cases segs) (auto split: if_splits)
    moreover have "read_exact (n - length got) rest = Some (take (n - length got) (concat rest), advance (n - length got) rest)"
      using "1.IH" [OF False g [symmetric] refl \<open>got \<noteq> []\<close>] "1.prems" r(1,2) by simp
    ultimately show ?thesis
      using False advance_add [OF "1.prems"(2), of "length got" "n - length got"]
      by (simp add: read_exact.simps [of n segs] g)
  qed (use "1.prems" in \<open>simp add: read_exact.simps\<close>)
qed

lemma skip_padding_advance:
  assumes "n \<le> length (concat segs)" and "[] \<notin> set segs"
  shows "skip_padding n segs = advance n segs"
  using assms
proof (induction n segs rule: skip_padding.induct)
  case (1 n segs)
  show ?case
  proof (cases "n = 0")
    case False
    obtain got rest where g: "read_some (min n 256) segs = (got, rest)"
      by (cases "read_some (min n 256) segs")
    have r: "rest = advance (length got) segs" "concat segs = got @ concat rest" "length got \<le> n"
      using read_some_advance [OF "1.prems"(2), of "min n 256"] read_some_concat [of "min n 256" segs]
        read_some_le [of "min n 256" segs] False g by simp_all
    moreover have "got \<noteq> []"
      using g False "1.prems" by (cases segs) (auto split: if_splits)
    moreover have "skip_padding (n - length got) rest = advance (n - length got) rest"
      using "1.IH" [OF False g [symmetric] refl \<open>got \<noteq> []\<close>] "1.prems" r(1,2) by simp
    ultimately show ?thesis
      using False advance_add [OF "1.prems"(2), of "length got" "n - length got"]
      by (simp add: skip_padding.simps [of n segs] g)
  qed (use "1.prems" in \<open>simp add: skip_padding.simps\<close>)
qed

text \<open>A record whose header arrives in one piece is read, however its content and padding are cut.\<close>

lemma read_record_answer:
  assumes "length content \<le> 65535" and "k + length content \<le> MAX_FCGI_RESPONSE"
    and "concat segs = answer_record ty content pad @ rest" and "[] \<notin> set segs" and "8 \<le> length (hd segs)"
  shows "read_record k segs = Record ty content (advance (8 + length content + unat pad) segs)"
proof -
  define hdr where "hdr = [1, ty, 0, 1] @ bytes16 (of_nat (length content)) @ [pad, 0]"
  define s where "s = content @ replicate (unat pad) 0 @ rest"
  have e: "answer_record ty content pad @ rest = hdr @ s" "length hdr = 8"
    by (simp_all add: answer_record_def hdr_def s_def bytes16_def)
  have fields: "hdr ! Suc 0 = ty" "hdr ! 6 = pad" "unat (be16 (hdr ! 4) (hdr ! 5)) = length content"
    using assms(1) by (simp_all add: hdr_def bytes16_def be16_bytes16 unat_u16_length)
  obtain p ps where p: "segs = p # ps"
    using assms(3) by (cases segs) (auto simp: answer_record_def)
  have "take 8 p = hdr"
    using arg_cong [OF assms(3), of "take 8"] assms(5) e by (simp add: p)
  then have "fst (read_some 8 segs) = hdr"
    using assms(5) by (auto simp: p)
  then have h: "read_some 8 segs = (hdr, advance 8 segs)"
    using read_some_advance [OF assms(4), of 8] e(2) by (metis prod.collapse zero_less_numeral)
  let ?t = "advance 8 segs"
  have t: "concat ?t = s" "[] \<notin> set ?t"
    using assms(3,4) e by (simp_all add: concat_advance)
  have "read_exact (length content) ?t = Some (content, advance (length content) ?t)"
    using read_exact_advance [of "length content" ?t] t by (simp add: s_def)
  moreover have "skip_padding (unat pad) (advance (length content) ?t) = advance (unat pad) (advance (length content) ?t)"
    using t by (intro skip_padding_advance) (simp_all add: concat_advance s_def)
  moreover have "advance (unat pad) (advance (length content) ?t) = advance (8 + length content + unat pad) segs"
    using assms(4) advance_add [of segs "8 + length content" "unat pad"] advance_add [of segs 8 "length content"] by simp
  ultimately show ?thesis
    unfolding read_record_def h using assms(2) e(2) by (auto simp: fields Let_def)
qed

type_synonym fcgi_answer_record = "byte \<times> bytes \<times> byte"

definition answer_bytes :: "fcgi_answer_record list \<Rightarrow> bytes" where
  "answer_bytes rs = concat (map (\<lambda>(ty, content, pad). answer_record ty content pad) rs)"

definition stdout_of :: "fcgi_answer_record list \<Rightarrow> bytes" where
  "stdout_of rs = concat (map (fst \<circ> snd) (filter (\<lambda>r. fst r = FCGI_STDOUT) rs))"

definition answer_fits :: "fcgi_answer_record \<Rightarrow> bool" where
  "answer_fits r \<longleftrightarrow> fst r \<noteq> FCGI_END_REQUEST \<and> length (fst (snd r)) \<le> 65535"

definition answer_size :: "fcgi_answer_record list \<Rightarrow> nat" where
  "answer_size rs = sum_list (map (\<lambda>r. length (fst (snd r))) rs)"

definition record_size :: "fcgi_answer_record \<Rightarrow> nat" where
  "record_size r = 8 + length (fst (snd r)) + unat (snd (snd r))"

text \<open>No header of a record is cut.\<close>

fun whole_headers :: "fcgi_answer_record list \<Rightarrow> bytes list \<Rightarrow> bool" where
  "whole_headers [] segs = True"
| "whole_headers (r # rs) segs = (segs \<noteq> [] \<and> 8 \<le> length (hd segs) \<and> whole_headers rs (advance (record_size r) segs))"

lemma read_records_answer:
  assumes "\<forall>r \<in> set rs. answer_fits r" and "length c \<le> 65535"
    and "length out + answer_size rs + length c \<le> MAX_FCGI_RESPONSE"
    and "concat segs = answer_bytes (rs @ [(FCGI_END_REQUEST, c, pad)]) @ rest" and "[] \<notin> set segs"
    and "whole_headers (rs @ [(FCGI_END_REQUEST, c, pad)]) segs"
  shows "read_records out err segs = Some (out @ stdout_of rs)"
  using assms(1,3-6)
proof (induction rs arbitrary: out err segs)
  case Nil
  then have "read_record (length out) segs = Record FCGI_END_REQUEST c (advance (8 + length c + unat pad) segs)"
    using assms(2) by (intro read_record_answer [where rest = rest]) (simp_all add: answer_bytes_def answer_size_def)
  then show ?case
    by (subst read_records.simps) (simp add: stdout_of_def fcgi_types)
next
  case (Cons r rs)
  obtain ty content p where r: "r = (ty, content, p)"
    by (cases r)
  let ?segs = "advance (record_size r) segs" and ?last = "[(FCGI_END_REQUEST, c, pad)]"
  have rec: "read_record (length out) segs = Record ty content ?segs"
    unfolding record_size_def r fst_conv snd_conv
    using Cons.prems by (intro read_record_answer [where rest = "answer_bytes (rs @ ?last) @ rest"])
      (simp_all add: answer_bytes_def r answer_fits_def answer_size_def)
  have len: "length (answer_record ty content p) = record_size r"
    by (simp add: answer_record_def record_size_def r bytes16_def)
  have segs: "concat ?segs = answer_bytes (rs @ ?last) @ rest" "[] \<notin> set ?segs" "whole_headers (rs @ ?last) ?segs"
    using Cons.prems(3-5) len by (simp_all add: concat_advance answer_bytes_def r)
  have "ty \<noteq> FCGI_END_REQUEST" "\<forall>r \<in> set rs. answer_fits r"
    using Cons.prems(1) by (simp_all add: r answer_fits_def)
  moreover have "stdout_of (r # rs) = (if ty = FCGI_STDOUT then content else []) @ stdout_of rs"
    by (simp add: stdout_of_def r)
  moreover have "FCGI_STDERR \<noteq> FCGI_STDOUT"
    by (simp add: fcgi_types)
  moreover have "length (out @ content) + answer_size rs + length c \<le> MAX_FCGI_RESPONSE"
    "length out + answer_size rs + length c \<le> MAX_FCGI_RESPONSE"
    using Cons.prems(2) by (simp_all add: r answer_size_def)
  ultimately show ?case
    using Cons.IH [OF _ _ segs] by (subst read_records.simps) (simp only: rec, simp)
qed

text \<open>
  An answer is read back: whatever the lengths, the padding, the other records in between and the pieces in which it
  arrives, the output is the concatenation of the contents of the output records, as long as the answer
  stays within 64 MB and no header of a record is cut.
\<close>

theorem fcgi_answer_read:
  assumes "\<forall>r \<in> set rs. answer_fits r" and "length c \<le> 65535"
    and "answer_size rs + length c \<le> MAX_FCGI_RESPONSE"
    and "concat segs = answer_bytes (rs @ [(FCGI_END_REQUEST, c, pad)]) @ rest" and "[] \<notin> set segs"
    and "whole_headers (rs @ [(FCGI_END_REQUEST, c, pad)]) segs"
  shows "read_response segs = Some (stdout_of rs)"
  using read_records_answer [OF assms(1,2) _ assms(4-6), of "[]" "[]"] assms(3) by (simp add: read_response_def)

text \<open>A header that arrives in two pieces is refused, whatever would follow.\<close>

theorem fcgi_split_header_refused:
  assumes "s \<noteq> []" and "length s < 8"
  shows "read_response (s # segs) = None"
proof -
  have "read_record 0 (s # segs) = Bad_record"
    using assms by (simp add: read_record_def)
  then show ?thesis
    by (simp add: read_response_def read_records.simps)
qed

section \<open>CGI headers\<close>

definition cgi_plain :: "bytes \<times> bytes \<Rightarrow> bool" where
  "cgi_plain kv \<longleftrightarrow> 58 \<notin> set (fst kv) \<and> 13 \<notin> set (fst kv) \<and> fst kv \<noteq> lit ''Status'' \<and> 13 \<notin> set (snd kv)
     \<and> snd kv \<noteq> [] \<and> hd (snd kv) \<noteq> 32 \<and> hd (snd kv) \<noteq> 9"

lemma cgi_header_plain:
  assumes "cgi_plain (k, v)"
  shows "cgi_header (header_line (k, v)) resp = Inr (resp\<lparr>resp_headers := hput k v (resp_headers resp)\<rparr>)"
proof -
  have "find_sub [58] (header_line (k, v)) = Some (length k)"
    using assms find_sub_single_append [of 58 k "32 # v"] by (simp add: cgi_plain_def header_line_def lit_def)
  moreover have "cgi_value (drop (length k + 1) (header_line (k, v))) = v"
    using assms by (cases v) (auto simp: cgi_plain_def header_line_def lit_def cgi_value_def)
  moreover have "take (length k) (header_line (k, v)) = k"
    by (simp add: header_line_def)
  ultimately show ?thesis
    using assms by (simp add: cgi_header_def cgi_plain_def)
qed

definition status_line :: "int \<Rightarrow> bytes \<Rightarrow> bytes" where
  "status_line code reason = lit ''Status: '' @ to_string code @ 32 # reason"

lemma cgi_header_status:
  assumes "- (2 ^ 31) \<le> code" and "code < 2 ^ 31"
  shows "cgi_header (status_line code reason) resp = Inr (resp\<lparr>status_code := code, status_text := reason\<rparr>)"
proof -
  have chars: "32 \<notin> set (to_string code)"
    using to_string_chars [of 32 code] by (auto simp: digit_byte_def)
  obtain c cs where c: "to_string code = c # cs" "c = 45 \<or> digit_byte c"
    using to_string_hd by blast
  have split: "find_sub [58] (status_line code reason) = Some 6"
    "take 6 (status_line code reason) = lit ''Status''" 
    "drop 7 (status_line code reason) = 32 # to_string code @ 32 # reason"
    by (simp_all add: status_line_def lit_def)
  have "cgi_value (32 # to_string code @ 32 # reason) = to_string code @ 32 # reason"
    using c by (auto simp: cgi_value_def digit_byte_def)
  moreover have "find_sub [32] (to_string code @ 32 # reason) = Some (length (to_string code))"
    using chars by (rule find_sub_single_append)
  ultimately show ?thesis
    unfolding cgi_header_def split
    using assms by (simp add: split stoi_def sto_int_to_string)
qed

fun joined :: "bytes list \<Rightarrow> bytes" where
  "joined [] = []"
| "joined [l] = l"
| "joined (l # m # ls) = l @ crlf @ joined (m # ls)"

lemma joined_lines: "ls \<noteq> [] \<Longrightarrow> concat (map (\<lambda>l. l @ crlf) ls) = joined ls @ crlf"
  by (induction ls rule: joined.induct) simp_all

lemma cut_line_joined: "13 \<notin> set l \<Longrightarrow> cut_line (l @ crlf @ s) = (l, s)" "13 \<notin> set l \<Longrightarrow> cut_line l = (l, [])"
proof -
  assume l: "13 \<notin> set l"
  then show "cut_line (l @ crlf @ s) = (l, s)"
    by (simp add: cut_line_def find_sub_pair_append)
  have "find_sub crlf l = None"
    using find_sub_skip [OF l, of "[10]" "[]"] by simp
  then show "cut_line l = (l, [])"
    by (simp add: cut_line_def)
qed

lemma cgi_headers_Cons:
  assumes "13 \<notin> set l" and "l \<noteq> []"
  shows "cgi_headers (joined (l # ls)) resp =
    (case cgi_header l resp of Inl e \<Rightarrow> Inl e | Inr r \<Rightarrow> cgi_headers (joined ls) r)"
proof (cases ls)
  case Nil
  then show ?thesis
    unfolding Nil joined.simps(1) using assms by (subst cgi_headers.simps) (simp add: cut_line_joined)
next
  case (Cons m ms)
  then show ?thesis
    unfolding Cons
    using assms cut_line_joined(1) [OF assms(1), of "joined (m # ms)"] by (subst cgi_headers.simps) simp
qed

definition put_headers :: "bytes smap \<Rightarrow> bytes smap \<Rightarrow> bytes smap" where
  "put_headers hs m = foldl (\<lambda>m (k, v). hput k v m) m hs"

lemma cgi_headers_plain:
  assumes "\<forall>kv \<in> set hs. cgi_plain kv"
  shows "cgi_headers (joined (map header_line hs)) resp = Inr (resp\<lparr>resp_headers := put_headers hs (resp_headers resp)\<rparr>)"
  using assms
proof (induction hs arbitrary: resp)
  case Nil
  then show ?case by (simp add: cgi_headers.simps put_headers_def)
next
  case (Cons kv hs)
  obtain k v where kv: "kv = (k, v)" by (cases kv)
  have "13 \<notin> set (header_line (k, v))" "header_line (k, v) \<noteq> []"
    using Cons.prems by (simp_all add: kv cgi_plain_def header_line_def lit_def)
  moreover have "cgi_plain (k, v)" using Cons.prems kv by simp
  ultimately show ?case
    using Cons.IH Cons.prems
    by (simp add: kv cgi_headers_Cons cgi_header_plain put_headers_def)
qed

definition cgi_output :: "int \<Rightarrow> bytes \<Rightarrow> bytes smap \<Rightarrow> bytes \<Rightarrow> bytes" where
  "cgi_output code reason hs body =
     concat (map (\<lambda>l. l @ crlf) (status_line code reason # map header_line hs)) @ crlf @ body"

lemma parse_cgi_output:
  assumes "- (2 ^ 31) \<le> code" and "code < 2 ^ 31" and "13 \<notin> set reason" and "\<forall>kv \<in> set hs. cgi_plain kv"
  shows "parse_fcgi_response (cgi_output code reason hs body) =
    Inr \<lparr>status_code = code, status_text = reason,
         resp_headers = hput (lit ''Connection'') (lit ''close'') (put_headers hs []), resp_body = body\<rparr>"
proof -
  let ?ls = "status_line code reason # map header_line hs"
  have status: "13 \<notin> set (status_line code reason)" "status_line code reason \<noteq> []"
    using assms(3) by (simp_all add: status_line_def lit_def to_string_no_CR)
  have lines: "\<forall>l \<in> set ?ls. l \<noteq> [] \<and> 13 \<notin> set l"
    using status assms(4) by (auto simp: header_line_def lit_def cgi_plain_def)
  have j: "concat (map (\<lambda>l. l @ crlf) ?ls) = joined ?ls @ crlf"
    by (rule joined_lines) simp
  have "find_sub [13, 10, 13, 10] (cgi_output code reason hs body) = Some (length (concat (map (\<lambda>l. l @ crlf) ?ls)) - 2)"
    unfolding cgi_output_def using find_end_of_lines [OF _ lines, of body] by simp
  then have "find_sub [13, 10, 13, 10] (cgi_output code reason hs body) = Some (length (joined ?ls))"
    unfolding j by simp
  moreover have "take (length (joined ?ls)) (cgi_output code reason hs body) = joined ?ls"
    "drop (length (joined ?ls) + 4) (cgi_output code reason hs body) = body"
    unfolding cgi_output_def j by simp_all
  moreover have "cgi_headers (joined ?ls) r =
      Inr (r\<lparr>status_code := code, status_text := reason, resp_headers := put_headers hs (resp_headers r)\<rparr>)" for r
    using status cgi_headers_plain [OF assms(4)]
    by (simp add: cgi_headers_Cons cgi_header_status [OF assms(1,2)])
  ultimately show ?thesis
    by (simp add: parse_fcgi_response_def empty_response_def)
qed

text \<open>
  C25. A call of a FastCGI application: when the socket connects and takes the packet, and the
  application answers by records whose output is a status, headers and a body, the client returns
  exactly that response, with the connection header added.  The answer may arrive in any pieces that do not cut the header of a record
  (a cut header makes the client discard the answer), and its size is within 64 MB.
\<close>

theorem fcgi_call:
  assumes "fcgi_connects env" and "\<And>i. 0 < fcgi_writes env i"
    and "concat (fcgi_answer env) = answer_bytes (rs @ [(FCGI_END_REQUEST, c, pad)])" and "[] \<notin> set (fcgi_answer env)"
    and "whole_headers (rs @ [(FCGI_END_REQUEST, c, pad)]) (fcgi_answer env)"
    and "\<forall>r \<in> set rs. answer_fits r" and "length c \<le> 65535"
    and "answer_size rs + length c \<le> MAX_FCGI_RESPONSE"
    and "stdout_of rs = cgi_output code reason hs body"
    and "- (2 ^ 31) \<le> code" and "code < 2 ^ 31" and "13 \<notin> set reason" and "\<forall>kv \<in> set hs. cgi_plain kv"
  shows "send_request env req script root =
    Inr (Some \<lparr>status_code = code, status_text = reason,
          resp_headers = hput (lit ''Connection'') (lit ''close'') (put_headers hs []), resp_body = body\<rparr>)"
proof -
  have "read_response (fcgi_answer env) = Some (cgi_output code reason hs body)"
    using read_records_answer [OF assms(6,7), of "[]" "fcgi_answer env" pad "[]" "[]"] assms(3-5,8,9)
    by (simp add: read_response_def)
  with assms(1) write_all_ok [OF assms(2)] parse_cgi_output [OF assms(10-13)] show ?thesis
    by (simp add: send_request_def)
qed

section \<open>Examples and limits\<close>

definition sample_records :: "fcgi_answer_record list" where
  "sample_records = [(FCGI_STDERR, lit ''warn'', 4), (FCGI_STDOUT, cgi_output 201 (lit ''Made'') [(lit ''A'', lit ''b'')] (lit ''x''), 3)]"

text \<open>An answer that arrives in three pieces: the first ends within the content of the error record, the second within the output.\<close>

definition sample_env :: fcgi_env where
  "sample_env =
     (let s = answer_bytes (sample_records @ [(FCGI_END_REQUEST, replicate 8 0, 0)])
      in \<lparr>fcgi_connects = True, fcgi_writes = (\<lambda>i. 100), fcgi_answer = [take 10 s, take 20 (drop 10 s), drop 30 s]\<rparr>)"

theorem fcgi_call_witness:
  "send_request sample_env empty_request [] [] =
    Inr (Some \<lparr>status_code = 201, status_text = lit ''Made'',
          resp_headers = [(lit ''A'', lit ''b''), (lit ''Connection'', lit ''close'')], resp_body = lit ''x''\<rparr>)"
proof -
  let ?last = "(FCGI_END_REQUEST, replicate 8 0, 0)"
  have segs: "concat (fcgi_answer sample_env) = answer_bytes (sample_records @ [?last])" "[] \<notin> set (fcgi_answer sample_env)"
    "whole_headers (sample_records @ [?last]) (fcgi_answer sample_env)"
    "stdout_of sample_records = cgi_output 201 (lit ''Made'') [(lit ''A'', lit ''b'')] (lit ''x'')" "answer_size sample_records \<le> 100"
    by code_simp+
  have "\<forall>r \<in> set sample_records. fst r \<noteq> FCGI_END_REQUEST \<and> length (fst (snd r)) \<le> 100"
    by code_simp
  then have fits: "\<forall>r \<in> set sample_records. answer_fits r"
    by (auto simp: answer_fits_def)
  have plain: "\<forall>kv \<in> set [(lit ''A'', lit ''b'')]. cgi_plain kv" "13 \<notin> set (lit ''Made'')"
    by (simp_all add: cgi_plain_def lit_def)
  have "send_request sample_env empty_request [] [] =
    Inr (Some \<lparr>status_code = 201, status_text = lit ''Made'',
          resp_headers = hput (lit ''Connection'') (lit ''close'') (put_headers [(lit ''A'', lit ''b'')] []), resp_body = lit ''x''\<rparr>)"
    by (rule fcgi_call [OF _ _ segs(1-3) fits _ _ segs(4) _ _ plain(2,1)])
      (use segs(5) in \<open>simp_all add: MAX_FCGI_RESPONSE_def\<close>, simp_all add: sample_env_def Let_def)
  then show ?thesis
    by (simp add: put_headers_def lit_eq_iff)
qed

theorem fcgi_packet_readable_witness:
  "\<exists>ps ins rs. decode_seq fcgi_record (length rs) (build_packet (empty_request\<lparr>req_body := lit ''hi''\<rparr>) [] []) = Some (rs, [])
     \<and> rs = (FCGI_BEGIN_REQUEST, begin_body) # map (Pair FCGI_PARAMS) ps @ [(FCGI_PARAMS, [])]
        @ map (Pair FCGI_STDIN) ins @ [(FCGI_STDIN, [])] \<and> concat ins = lit ''hi''"
proof -
  have "\<forall>nv \<in> set (request_params (empty_request\<lparr>req_body := lit ''hi''\<rparr>) [] []). param_fits nv"
    by (simp add: request_params_def base_params_def param_fits_def empty_request_def get_header_def to_dec.simps)
  from fcgi_packet_readable [OF this] show ?thesis
    by (elim exE conjE) (intro exI conjI, assumption+, simp)
qed

text \<open>A status without a reason phrase is ignored: the answer counts as a success.\<close>

theorem cgi_bare_status_ignored:
  "case parse_fcgi_response (lit ''Status: 404'' @ crlf @ crlf) of Inl e \<Rightarrow> False | Inr r \<Rightarrow> status_code r = 200"
  by code_simp

text \<open>A status that is no number throws, and nothing catches it.\<close>

theorem cgi_bad_status_throws:
  "parse_fcgi_response (lit ''Status: Not Found'' @ crlf @ crlf) = Inl Invalid_argument"
  by code_simp

text \<open>A \<open>Proxy\<close> header of the client becomes the variable \<open>HTTP_PROXY\<close> of the application.\<close>

theorem proxy_header_forwarded:
  "map_of (request_params (empty_request\<lparr>req_headers := [(lit ''Proxy'', v)]\<rparr>) script root) (lit ''HTTP_PROXY'') = Some v"
proof -
  have "env_name (lit ''Proxy'') = lit ''HTTP_PROXY''" "lower (lit ''Proxy'') \<noteq> lower (lit ''Content-Type'')"
    by code_simp+
  then show ?thesis
    by (simp add: request_params_def get_header_def)
qed

end
