(* ===== verification/Config.thy ===== *)
theory Config
  imports Runtime Complex_Main
begin

text \<open>
  The configuration (\<open>src/include/config.hpp\<close>, \<open>src/src/config.cpp\<close>): its defaults and the reader of
  the configuration file.  \<open>std::stod\<close> is an argument, numbers of type \<open>double\<close> are real numbers
  (their rounding is left out).  A value that is no number throws out of \<open>load_from_file\<close>.

  What is shown: the file is read line by line, blank lines, comments, lines without an equals
  sign and unknown keys change nothing, and of several lines for a key the last one counts.
\<close>

section \<open>Data\<close>

record security_headers_config =
  sh_enabled :: bool
  csp_enabled :: bool
  csp_value :: bytes
  hsts_enabled :: bool
  hsts_value :: bytes
  xcto_enabled :: bool
  xxss_enabled :: bool
  xxss_value :: bytes
  xfo_enabled :: bool
  xfo_value :: bytes
  referrer_policy_enabled :: bool
  referrer_policy_value :: bytes

definition security_headers_default :: security_headers_config where
  "security_headers_default =
     \<lparr>sh_enabled = True,
      csp_enabled = True,
      csp_value = lit ''default-src '' @ [39] @ lit ''self'' @ [39] @ lit ''; script-src '' @ [39] @ lit ''self'' @ [39]
        @ lit ''; style-src '' @ [39] @ lit ''self'' @ [39, 32, 39] @ lit ''unsafe-inline'' @ [39]
        @ lit ''; img-src '' @ [39] @ lit ''self'' @ [39] @ lit '' data:; frame-ancestors '' @ [39] @ lit ''none'' @ [39],
      hsts_enabled = True,
      hsts_value = lit ''max-age=31536000; includeSubDomains; preload'',
      xcto_enabled = True,
      xxss_enabled = True,
      xxss_value = lit ''1; mode=block'',
      xfo_enabled = True,
      xfo_value = lit ''DENY'',
      referrer_policy_enabled = True,
      referrer_policy_value = lit ''strict-origin-when-cross-origin''\<rparr>"

record config =
  cfg_bind_address :: bytes
  cfg_port :: u16
  cfg_backlog :: int
  cfg_worker_threads :: int
  cfg_tls_cert_path :: bytes
  cfg_tls_key_path :: bytes
  cfg_tls_enabled :: bool
  cfg_max_connections_per_ip :: int
  cfg_header_read_timeout_ms :: int
  cfg_request_body_timeout_ms :: int
  cfg_max_request_size :: int
  cfg_rate_limit_rps :: real
  cfg_rate_limit_burst :: real
  cfg_max_total_connections :: int
  cfg_max_memory_bytes :: u64
  cfg_max_open_files :: int
  cfg_drop_uid :: int
  cfg_drop_gid :: int
  cfg_metrics_localhost_only :: bool
  cfg_server_header :: bytes
  cfg_document_root :: bytes
  cfg_index_file :: bytes
  cfg_chroot_enabled :: bool
  cfg_fastcgi_socket :: bytes
  cfg_fastcgi_enabled :: bool
  cfg_waf_enabled :: bool
  cfg_waf_body_inspection_limit :: u64
  cfg_security_headers :: security_headers_config
  cfg_log_level :: bytes

definition config_defaults :: config where
  "config_defaults =
     \<lparr>cfg_bind_address = lit ''0.0.0.0'',
      cfg_port = 8443,
      cfg_backlog = 512,
      cfg_worker_threads = 4,
      cfg_tls_cert_path = lit ''/etc/justserver/cert.pem'',
      cfg_tls_key_path = lit ''/etc/justserver/key.pem'',
      cfg_tls_enabled = True,
      cfg_max_connections_per_ip = 50,
      cfg_header_read_timeout_ms = 5000,
      cfg_request_body_timeout_ms = 10000,
      cfg_max_request_size = 8 * 1024 * 1024,
      cfg_rate_limit_rps = 10,
      cfg_rate_limit_burst = 50,
      cfg_max_total_connections = 10000,
      cfg_max_memory_bytes = 2 * 1024 * 1024 * 1024,
      cfg_max_open_files = 65536,
      cfg_drop_uid = - 1,
      cfg_drop_gid = - 1,
      cfg_metrics_localhost_only = True,
      cfg_server_header = [],
      cfg_document_root = lit ''/var/www/html'',
      cfg_index_file = lit ''index.html'',
      cfg_chroot_enabled = False,
      cfg_fastcgi_socket = lit ''/run/php/php-fpm.sock'',
      cfg_fastcgi_enabled = True,
      cfg_waf_enabled = True,
      cfg_waf_body_inspection_limit = 131072,
      cfg_security_headers = security_headers_default,
      cfg_log_level = lit ''info''\<rparr>"

section \<open>One setting\<close>

type_synonym setter = "bytes \<Rightarrow> config \<Rightarrow> cpp_exception + config"

definition as_text :: "((bytes \<Rightarrow> bytes) \<Rightarrow> config \<Rightarrow> config) \<Rightarrow> setter" where
  "as_text upd value c = Inr (upd (\<lambda>_. value) c)"

definition as_bool :: "((bool \<Rightarrow> bool) \<Rightarrow> config \<Rightarrow> config) \<Rightarrow> setter" where
  "as_bool upd value c = Inr (upd (\<lambda>_. value = lit ''true'' \<or> value = lit ''1'') c)"

definition with_number :: "(bytes \<Rightarrow> cpp_exception + 'a) \<Rightarrow> ('a \<Rightarrow> config \<Rightarrow> config) \<Rightarrow> setter" where
  "with_number reader upd value c = (case reader value of Inl e \<Rightarrow> Inl e | Inr n \<Rightarrow> Inr (upd n c))"

definition as_int :: "((int \<Rightarrow> int) \<Rightarrow> config \<Rightarrow> config) \<Rightarrow> setter" where
  "as_int upd = with_number stoi (\<lambda>n. upd (\<lambda>_. n))"

definition in_headers :: "((security_headers_config \<Rightarrow> security_headers_config) \<Rightarrow> config \<Rightarrow> config)" where
  "in_headers f c = c\<lparr>cfg_security_headers := f (cfg_security_headers c)\<rparr>"

text \<open>The chain of comparisons, in its order.\<close>

definition config_keys :: "(bytes \<Rightarrow> cpp_exception + real) \<Rightarrow> (string \<times> setter) list" where
  "config_keys stod =
     [(''bind_address'', as_text cfg_bind_address_update),
      (''port'', with_number stoi (\<lambda>n. cfg_port_update (\<lambda>_. of_int n))),
      (''backlog'', as_int cfg_backlog_update),
      (''worker_threads'', as_int cfg_worker_threads_update),
      (''tls_cert'', as_text cfg_tls_cert_path_update),
      (''tls_key'', as_text cfg_tls_key_path_update),
      (''tls_enabled'', as_bool cfg_tls_enabled_update),
      (''max_connections_per_ip'', as_int cfg_max_connections_per_ip_update),
      (''header_read_timeout_ms'', as_int cfg_header_read_timeout_ms_update),
      (''request_body_timeout_ms'', as_int cfg_request_body_timeout_ms_update),
      (''max_request_size'', as_int cfg_max_request_size_update),
      (''document_root'', as_text cfg_document_root_update),
      (''index_file'', as_text cfg_index_file_update),
      (''chroot_enabled'', as_bool cfg_chroot_enabled_update),
      (''fastcgi_socket'', as_text cfg_fastcgi_socket_update),
      (''fastcgi_enabled'', as_bool cfg_fastcgi_enabled_update),
      (''waf_enabled'', as_bool cfg_waf_enabled_update),
      (''waf_body_inspection_limit'', with_number stoi (\<lambda>n. cfg_waf_body_inspection_limit_update (\<lambda>_. of_int n))),
      (''log_level'', as_text cfg_log_level_update),
      (''rate_limit_rps'', with_number stod (\<lambda>x. cfg_rate_limit_rps_update (\<lambda>_. x))),
      (''rate_limit_burst'', with_number stod (\<lambda>x. cfg_rate_limit_burst_update (\<lambda>_. x))),
      (''max_total_connections'', as_int cfg_max_total_connections_update),
      (''max_memory_bytes'', with_number stoll (\<lambda>n. cfg_max_memory_bytes_update (\<lambda>_. of_int n))),
      (''max_open_files'', as_int cfg_max_open_files_update),
      (''drop_uid'', as_int cfg_drop_uid_update),
      (''drop_gid'', as_int cfg_drop_gid_update),
      (''metrics_localhost_only'', as_bool cfg_metrics_localhost_only_update),
      (''server_header'', as_text cfg_server_header_update),
      (''security_headers_enabled'', as_bool (\<lambda>f. in_headers (sh_enabled_update f))),
      (''csp_enabled'', as_bool (\<lambda>f. in_headers (csp_enabled_update f))),
      (''csp_value'', as_text (\<lambda>f. in_headers (csp_value_update f))),
      (''hsts_enabled'', as_bool (\<lambda>f. in_headers (hsts_enabled_update f))),
      (''hsts_value'', as_text (\<lambda>f. in_headers (hsts_value_update f))),
      (''xcto_enabled'', as_bool (\<lambda>f. in_headers (xcto_enabled_update f))),
      (''xxss_enabled'', as_bool (\<lambda>f. in_headers (xxss_enabled_update f))),
      (''xfo_enabled'', as_bool (\<lambda>f. in_headers (xfo_enabled_update f))),
      (''xfo_value'', as_text (\<lambda>f. in_headers (xfo_value_update f))),
      (''referrer_policy_enabled'', as_bool (\<lambda>f. in_headers (referrer_policy_enabled_update f))),
      (''referrer_policy_value'', as_text (\<lambda>f. in_headers (referrer_policy_value_update f)))]"

definition set_key :: "(bytes \<Rightarrow> cpp_exception + real) \<Rightarrow> bytes \<Rightarrow> setter" where
  "set_key stod key value c =
     (case map_of (map (\<lambda>(k, f). (lit k, f)) (config_keys stod)) key of
        None \<Rightarrow> Inr c
      | Some f \<Rightarrow> f value c)"

section \<open>The file\<close>

definition is_blank :: "byte \<Rightarrow> bool" where
  "is_blank c \<longleftrightarrow> c = 32 \<or> c = 9 \<or> c = 13 \<or> c = 10"

definition trim :: "bytes \<Rightarrow> bytes" where
  "trim sv = rev (dropWhile is_blank (rev (dropWhile is_blank sv)))"

text \<open>\<open>std::getline\<close>: the last line need not be closed.\<close>

fun getlines :: "bytes \<Rightarrow> bytes \<Rightarrow> bytes list" where
  "getlines line [] = (if line = [] then [] else [line])"
| "getlines line (c # cs) = (if c = 10 then line # getlines [] cs else getlines (line @ [c]) cs)"

definition config_line :: "(bytes \<Rightarrow> cpp_exception + real) \<Rightarrow> bytes \<Rightarrow> config \<Rightarrow> cpp_exception + config" where
  "config_line stod line c =
     (let trimmed = trim line
      in if trimmed = [] \<or> hd trimmed = 35 then Inr c
         else case find_sub [61] trimmed of
                None \<Rightarrow> Inr c
              | Some eq_pos \<Rightarrow>
                  set_key stod (trim (take eq_pos trimmed)) (trim (drop (eq_pos + 1) trimmed)) c)"

fun config_lines :: "(bytes \<Rightarrow> cpp_exception + real) \<Rightarrow> bytes list \<Rightarrow> config \<Rightarrow> cpp_exception + config" where
  "config_lines stod [] c = Inr c"
| "config_lines stod (line # ls) c =
     (case config_line stod line c of Inl e \<Rightarrow> Inl e | Inr c' \<Rightarrow> config_lines stod ls c')"

definition load_from_file :: "(bytes \<Rightarrow> cpp_exception + real) \<Rightarrow> bytes option \<Rightarrow> cpp_exception + config" where
  "load_from_file stod file =
     (case file of
        None \<Rightarrow> Inr config_defaults
      | Some text \<Rightarrow> config_lines stod (getlines [] text) config_defaults)"

section \<open>Reading a file\<close>

lemma getlines_closed:
  assumes "10 \<notin> set l"
  shows "getlines acc (l @ 10 # s) = (acc @ l) # getlines [] s"
  using assms by (induction l arbitrary: acc) auto

lemma getlines_lines:
  "\<forall>l \<in> set ls. 10 \<notin> set l \<Longrightarrow> getlines [] (concat (map (\<lambda>l. l @ [10]) ls)) = ls"
  by (induction ls) (simp_all add: getlines_closed)

definition trimmed :: "bytes \<Rightarrow> bool" where
  "trimmed s \<longleftrightarrow> s = [] \<or> \<not> is_blank (hd s) \<and> \<not> is_blank (last s)"

lemma trim_trimmed: "trimmed s \<Longrightarrow> trim s = s"
proof -
  assume "trimmed s"
  then have "dropWhile is_blank s = s" "dropWhile is_blank (rev s) = rev s"
    unfolding trimmed_def dropWhile_eq_self_iff by (auto simp: hd_rev)
  then show ?thesis by (simp add: trim_def)
qed

lemma trim_blank_front: "is_blank c \<Longrightarrow> trim (c # s) = trim s"
  by (simp add: trim_def)

lemma trim_blank_back: "is_blank c \<Longrightarrow> trim (s @ [c]) = trim s"
  by (cases "\<forall>x \<in> set s. is_blank x")
    (auto simp: trim_def dropWhile_append dest: set_dropWhileD)

text \<open>A line of a file: a setting, or a line that is passed over.\<close>

datatype config_entry = Setting bytes bytes | Passed bytes

definition entry_line :: "config_entry \<Rightarrow> bytes" where
  "entry_line e = (case e of Setting k v \<Rightarrow> k @ [32, 61, 32] @ v | Passed l \<Rightarrow> l)"

definition entry_ok :: "config_entry \<Rightarrow> bool" where
  "entry_ok e =
     (case e of
        Setting k v \<Rightarrow> k \<noteq> [] \<and> hd k \<noteq> 35 \<and> 61 \<notin> set k \<and> 10 \<notin> set k \<and> trimmed k \<and> 10 \<notin> set v \<and> trimmed v
      | Passed l \<Rightarrow> 10 \<notin> set l \<and> (trim l = [] \<or> hd (trim l) = 35 \<or> 61 \<notin> set l))"

definition entry_effect :: "(bytes \<Rightarrow> cpp_exception + real) \<Rightarrow> config_entry \<Rightarrow> config \<Rightarrow> cpp_exception + config" where
  "entry_effect stod e c = (case e of Setting k v \<Rightarrow> set_key stod k v c | Passed l \<Rightarrow> Inr c)"

fun entries_effect :: "(bytes \<Rightarrow> cpp_exception + real) \<Rightarrow> config_entry list \<Rightarrow> config \<Rightarrow> cpp_exception + config" where
  "entries_effect stod [] c = Inr c"
| "entries_effect stod (e # es) c =
     (case entry_effect stod e c of Inl x \<Rightarrow> Inl x | Inr c' \<Rightarrow> entries_effect stod es c')"

lemma set_trim: "set (trim s) \<subseteq> set s"
  unfolding trim_def by (metis order_trans set_dropWhileD set_rev subsetI)

lemma config_line_setting:
  assumes "entry_ok (Setting k v)"
  shows "config_line stod (entry_line (Setting k v)) c = set_key stod k v c"
proof -
  have k: "k \<noteq> []" "hd k \<noteq> 35" "61 \<notin> set k" "trimmed k" "trimmed v"
    using assms by (simp_all add: entry_ok_def)
  have key: "trim (k @ [32]) = k"
    using k by (simp add: trim_blank_back trim_trimmed is_blank_def)
  have blank: "\<not> is_blank 61" "is_blank 32"
    by (simp_all add: is_blank_def)
  show ?thesis
  proof (cases "v = []")
    case True
    have "trimmed (k @ [32, 61])"
      using k blank by (simp add: trimmed_def)
    then have "trim (k @ [32, 61, 32]) = k @ [32, 61]"
      using trim_blank_back [OF blank(2), of "k @ [32, 61]"] by (simp add: trim_trimmed)
    with True k key find_sub_single_append [of 61 "k @ [32]" "[]"] show ?thesis
      by (simp add: config_line_def entry_line_def trim_def)
  next
    case False
    then have "trimmed (k @ [32, 61, 32] @ v)"
      using k by (simp add: trimmed_def)
    with False k key find_sub_single_append [of 61 "k @ [32]" "32 # v"] show ?thesis
      by (simp add: config_line_def entry_line_def trim_trimmed trim_blank_front blank)
  qed
qed

lemma config_line_passed:
  assumes "entry_ok (Passed l)"
  shows "config_line stod l c = Inr c"
proof -
  have "find_sub [61] (trim l) = None" if "61 \<notin> set l"
    using that set_trim [of l] by (auto simp: find_sub_single_None)
  with assms show ?thesis
    by (cases "61 \<in> set l") (auto simp: config_line_def entry_ok_def Let_def)
qed

lemma config_lines_entries:
  "\<forall>e \<in> set es. entry_ok e \<Longrightarrow> config_lines stod (map entry_line es) c = entries_effect stod es c"
proof (induction es arbitrary: c)
  case (Cons e es)
  have "config_line stod (entry_line e) c = entry_effect stod e c"
    using Cons.prems config_line_setting config_line_passed
    by (cases e) (auto simp: entry_effect_def entry_line_def [of "Passed _"])
  with Cons show ?case
    by (simp split: sum.split)
qed simp

lemma config_keys_overwrite:
  "(k, f) \<in> set (config_keys stod) \<Longrightarrow> f v c = Inr c' \<Longrightarrow> f w c' = f w c"
  unfolding config_keys_def
  by (auto simp: as_text_def as_bool_def as_int_def with_number_def in_headers_def split: sum.splits)

text \<open>
  A configuration file is read line by line into the defaults: settings take effect in their
  order, everything else is passed over, a later setting of a key replaces an earlier one, and
  the first value that is not a number where one is expected ends the reading.
\<close>

theorem config_file_read:
  assumes "\<forall>e \<in> set es. entry_ok e"
  shows "load_from_file stod (Some (concat (map (\<lambda>e. entry_line e @ [10]) es))) = entries_effect stod es config_defaults
    \<and> (set_key stod k v c = Inr c' \<longrightarrow> set_key stod k w c' = set_key stod k w c)"
proof
  have "\<forall>l \<in> set (map entry_line es). 10 \<notin> set l"
    using assms by (auto simp: entry_ok_def entry_line_def split: config_entry.splits)
  then show "load_from_file stod (Some (concat (map (\<lambda>e. entry_line e @ [10]) es))) = entries_effect stod es config_defaults"
    using getlines_lines [of "map entry_line es"] config_lines_entries [OF assms]
    by (simp add: load_from_file_def comp_def)
  show "set_key stod k v c = Inr c' \<longrightarrow> set_key stod k w c' = set_key stod k w c"
    unfolding set_key_def
    by (auto split: option.splits dest!: map_of_SomeD intro: config_keys_overwrite)
qed

section \<open>Examples and limits\<close>

definition no_stod :: "bytes \<Rightarrow> cpp_exception + real" where
  "no_stod s = Inl Invalid_argument"

lemma map_of_lit: "map_of (map (\<lambda>(k, f). (lit k, f)) xs) (lit k) = map_of xs k"
  by (induction xs) (auto simp: lit_eq_iff)

lemma set_port:
  "set_key stod (lit ''port'') value c = (case stoi value of Inl e \<Rightarrow> Inl e | Inr n \<Rightarrow> Inr (c\<lparr>cfg_port := of_int n\<rparr>))"
  unfolding set_key_def map_of_lit by (simp add: config_keys_def with_number_def)

theorem config_file_read_witness:
  "load_from_file no_stod (Some (concat (map (\<lambda>e. entry_line e @ [10])
      [Passed (lit ''# port''), Setting (lit ''port'') (lit ''80''), Setting (lit ''port'') (lit ''8080'')])))
    = Inr (config_defaults\<lparr>cfg_port := 8080\<rparr>)"
proof -
  let ?es = "[Passed (lit ''# port''), Setting (lit ''port'') (lit ''80''), Setting (lit ''port'') (lit ''8080'')]"
  have "\<forall>e \<in> set ?es. entry_ok e"
    by code_simp
  moreover have "stoi (lit ''80'') = Inr 80" "stoi (lit ''8080'') = Inr 8080"
    by code_simp+
  ultimately show ?thesis
    using config_file_read [of ?es no_stod] by (simp add: entry_effect_def set_port)
qed

text \<open>A port beyond 65535 wraps around, and a value that is no number throws.\<close>

theorem config_port_wraps:
  "set_key stod (lit ''port'') (lit ''70000'') c = Inr (c\<lparr>cfg_port := 4464\<rparr>)
   \<and> set_key stod (lit ''port'') (lit ''http'') c = Inl Invalid_argument"
proof -
  have "to_string 70000 = lit ''70000''"
    by (simp add: to_string_def to_dec.simps lit_def)
  then have "stoi (lit ''70000'') = Inr 70000"
    using sto_int_to_string [of "2 ^ 31" 70000] by (simp add: stoi_def)
  moreover have "stoi (lit ''http'') = Inl Invalid_argument"
    by code_simp
  ultimately show ?thesis by (simp add: set_port)
qed

lemma config_key_names:
  "map fst (config_keys stod) =
     [''bind_address'', ''port'', ''backlog'', ''worker_threads'',
      ''tls_cert'', ''tls_key'', ''tls_enabled'', ''max_connections_per_ip'',
      ''header_read_timeout_ms'', ''request_body_timeout_ms'', ''max_request_size'', ''document_root'',
      ''index_file'', ''chroot_enabled'', ''fastcgi_socket'', ''fastcgi_enabled'',
      ''waf_enabled'', ''waf_body_inspection_limit'', ''log_level'', ''rate_limit_rps'',
      ''rate_limit_burst'', ''max_total_connections'', ''max_memory_bytes'', ''max_open_files'',
      ''drop_uid'', ''drop_gid'', ''metrics_localhost_only'', ''server_header'',
      ''security_headers_enabled'', ''csp_enabled'', ''csp_value'', ''hsts_enabled'',
      ''hsts_value'', ''xcto_enabled'', ''xxss_enabled'', ''xfo_enabled'',
      ''xfo_value'', ''referrer_policy_enabled'', ''referrer_policy_value'']"
  unfolding config_keys_def by simp

text \<open>
  The keys of the sample configuration for the token validator, compression, the proxy and the cache
  are not read.
\<close>

theorem config_documented_keys_ignored:
  "\<forall>k \<in> {''jwt_enabled'', ''compression_enabled'', ''proxy_enabled'', ''cache_enabled''}.
     set_key stod (lit k) value c = Inr c"
proof
  fix k
  assume k: "k \<in> {''jwt_enabled'', ''compression_enabled'', ''proxy_enabled'', ''cache_enabled''}"
  have "k \<notin> set (map fst (config_keys stod))"
    unfolding config_key_names using k by auto
  then have "map_of (config_keys stod) k = None"
    by (simp add: map_of_eq_None_iff)
  then show "set_key stod (lit k) value c = Inr c"
    by (simp add: set_key_def map_of_lit)
qed

end
