(* ===== verification/Metrics.thy ===== *)
theory Metrics
  imports Http_Message Complex_Main
begin

text \<open>
  The metrics (\<open>src/src/metrics.cpp\<close>, \<open>src/include/metrics.hpp\<close>): counters of 64 bits, a histogram of
  latencies, and the page that shows them.  Each operation is one atomic step.  Latencies are
  real numbers (their rounding is left out); how the stream prints their sum is an argument.
\<close>

section \<open>Data\<close>

record metrics =
  total_requests :: u64
  m_total_connections :: u64
  active_connections :: u64
  blocked_ips :: u64
  waf_blocks :: u64
  bytes_sent :: u64
  bytes_received :: u64
  active_workers :: u64
  status_2xx :: u64
  status_3xx :: u64
  status_4xx :: u64
  status_5xx :: u64
  latency_buckets :: "u64 list"
  latency_count :: u64
  latency_sum :: real
  m_start_time :: int

definition bucket_bounds :: "real list" where
  "bucket_bounds = [1, 5, 10, 25, 50, 100, 250, 500, 1000, 10 ^ 18]"

definition metrics_init :: "int \<Rightarrow> metrics" where
  "metrics_init now =
     \<lparr>total_requests = 0, m_total_connections = 0, active_connections = 0, blocked_ips = 0, waf_blocks = 0,
      bytes_sent = 0, bytes_received = 0, active_workers = 0, status_2xx = 0, status_3xx = 0, status_4xx = 0,
      status_5xx = 0, latency_buckets = replicate 10 0, latency_count = 0, latency_sum = 0, m_start_time = now\<rparr>"

section \<open>Counting\<close>

definition record_connection :: "metrics \<Rightarrow> metrics" where
  "record_connection m =
     m\<lparr>m_total_connections := m_total_connections m + 1, active_connections := active_connections m + 1\<rparr>"

definition record_disconnection :: "metrics \<Rightarrow> metrics" where
  "record_disconnection m = m\<lparr>active_connections := active_connections m - 1\<rparr>"

definition record_status :: "int \<Rightarrow> metrics \<Rightarrow> metrics" where
  "record_status code m =
     (if 200 \<le> code \<and> code < 300 then m\<lparr>status_2xx := status_2xx m + 1\<rparr>
      else if 300 \<le> code \<and> code < 400 then m\<lparr>status_3xx := status_3xx m + 1\<rparr>
      else if 400 \<le> code \<and> code < 500 then m\<lparr>status_4xx := status_4xx m + 1\<rparr>
      else if 500 \<le> code then m\<lparr>status_5xx := status_5xx m + 1\<rparr>
      else m)"

text \<open>Every bucket whose bound is not below the latency is counted up.\<close>

definition record_latency :: "real \<Rightarrow> u64 list \<Rightarrow> u64 list" where
  "record_latency latency_ms bs = map (\<lambda>(bound, b). if latency_ms \<le> bound then b + 1 else b) (zip bucket_bounds bs)"

definition record_request :: "int \<Rightarrow> real \<Rightarrow> metrics \<Rightarrow> metrics" where
  "record_request code latency_ms m =
     (let m = record_status code (m\<lparr>total_requests := total_requests m + 1\<rparr>)
      in m\<lparr>latency_buckets := record_latency latency_ms (latency_buckets m), latency_count := latency_count m + 1,
           latency_sum := latency_sum m + latency_ms\<rparr>)"

definition record_blocked_ip :: "metrics \<Rightarrow> metrics" where
  "record_blocked_ip m = m\<lparr>blocked_ips := blocked_ips m + 1\<rparr>"

definition record_waf_block :: "metrics \<Rightarrow> metrics" where
  "record_waf_block m = m\<lparr>waf_blocks := waf_blocks m + 1\<rparr>"

definition record_bytes_sent :: "nat \<Rightarrow> metrics \<Rightarrow> metrics" where
  "record_bytes_sent n m = m\<lparr>bytes_sent := bytes_sent m + of_nat n\<rparr>"

definition record_bytes_received :: "nat \<Rightarrow> metrics \<Rightarrow> metrics" where
  "record_bytes_received n m = m\<lparr>bytes_received := bytes_received m + of_nat n\<rparr>"

definition record_worker_busy :: "metrics \<Rightarrow> metrics" where
  "record_worker_busy m = m\<lparr>active_workers := active_workers m + 1\<rparr>"

definition record_worker_idle :: "metrics \<Rightarrow> metrics" where
  "record_worker_idle m = m\<lparr>active_workers := active_workers m - 1\<rparr>"

lemmas metrics_defs = record_connection_def record_disconnection_def record_request_def record_blocked_ip_def
  record_waf_block_def record_bytes_sent_def record_bytes_received_def record_worker_busy_def record_worker_idle_def

section \<open>The page\<close>

definition bucket_labels :: "string list" where
  "bucket_labels = [''1'', ''5'', ''10'', ''25'', ''50'', ''100'', ''250'', ''500'', ''1000'', ''+Inf'']"

text \<open>The loop that adds up the buckets while it prints them.\<close>

fun running_sums :: "u64 \<Rightarrow> u64 list \<Rightarrow> u64 list" where
  "running_sums cumulative [] = []"
| "running_sums cumulative (b # bs) = (cumulative + b) # running_sums (cumulative + b) bs"

definition shown_buckets :: "metrics \<Rightarrow> (string \<times> u64) list" where
  "shown_buckets m = zip bucket_labels (running_sums 0 (latency_buckets m))"

definition num :: "u64 \<Rightarrow> bytes" where
  "num w = to_dec (unat w)"

definition nl :: bytes where
  "nl = [10]"

text \<open>The description of a metric, and a metric with one value.\<close>

definition described :: "string \<Rightarrow> string \<Rightarrow> string \<Rightarrow> bytes" where
  "described name descr ty =
     lit ''# HELP '' @ lit name @ [32] @ lit descr @ nl @ lit ''# TYPE '' @ lit name @ [32] @ lit ty @ nl"

definition single :: "string \<Rightarrow> string \<Rightarrow> string \<Rightarrow> bytes \<Rightarrow> bytes" where
  "single name descr ty val = described name descr ty @ lit name @ [32] @ val @ nl @ nl"

definition labelled :: "string \<Rightarrow> string \<Rightarrow> string \<Rightarrow> bytes \<Rightarrow> bytes" where
  "labelled name label lval val = lit name @ lit ''{'' @ lit label @ [61, 34] @ lit lval @ [34] @ lit ''} '' @ val @ nl"

definition metrics_text :: "(real \<Rightarrow> bytes) \<Rightarrow> int \<Rightarrow> metrics \<Rightarrow> bytes" where
  "metrics_text show_fixed now m =
     described ''justserver_info'' ''Server information'' ''gauge''
     @ labelled ''justserver_info'' ''version'' ''1.0'' (lit ''1'') @ nl
     @ single ''justserver_uptime_seconds'' ''Server uptime in seconds'' ''counter'' (to_string (now - m_start_time m))
     @ single ''justserver_connections_total'' ''Total connections accepted'' ''counter'' (num (m_total_connections m))
     @ single ''justserver_connections_active'' ''Current active connections'' ''gauge'' (num (active_connections m))
     @ single ''justserver_requests_total'' ''Total HTTP requests processed'' ''counter'' (num (total_requests m))
     @ described ''justserver_responses_total'' ''Total responses by status class'' ''counter''
     @ labelled ''justserver_responses_total'' ''code'' ''2xx'' (num (status_2xx m))
     @ labelled ''justserver_responses_total'' ''code'' ''3xx'' (num (status_3xx m))
     @ labelled ''justserver_responses_total'' ''code'' ''4xx'' (num (status_4xx m))
     @ labelled ''justserver_responses_total'' ''code'' ''5xx'' (num (status_5xx m)) @ nl
     @ single ''justserver_blocked_ips_total'' ''IPs blocked by DDoS guard'' ''counter'' (num (blocked_ips m))
     @ single ''justserver_waf_blocks_total'' ''Requests blocked by WAF'' ''counter'' (num (waf_blocks m))
     @ single ''justserver_bytes_sent_total'' ''Total bytes sent'' ''counter'' (num (bytes_sent m))
     @ single ''justserver_bytes_received_total'' ''Total bytes received'' ''counter'' (num (bytes_received m))
     @ single ''justserver_workers_active'' ''Currently busy workers'' ''gauge'' (num (active_workers m))
     @ described ''justserver_request_duration_ms'' ''Request latency in milliseconds'' ''histogram''
     @ concat (map (\<lambda>(label, n). labelled ''justserver_request_duration_ms_bucket'' ''le'' label (num n)) (shown_buckets m))
     @ lit ''justserver_request_duration_ms_sum '' @ show_fixed (latency_sum m) @ nl
     @ lit ''justserver_request_duration_ms_count '' @ num (latency_count m) @ nl"

definition serve_metrics :: "(real \<Rightarrow> bytes) \<Rightarrow> int \<Rightarrow> metrics \<Rightarrow> http_response" where
  "serve_metrics show_fixed now m =
     empty_response\<lparr>status_code := 200, status_text := lit ''OK'',
       resp_headers := hput (lit ''Connection'') (lit ''close'')
         (hput (lit ''Content-Type'') (lit ''text/plain; version=0.0.4; charset=utf-8'') []),
       resp_body := metrics_text show_fixed now m\<rparr>"

section \<open>What the counters count\<close>

text \<open>Everything the server does to its metrics, as a sequence of operations.\<close>

datatype metric_op = M_connect | M_disconnect | M_request int real | M_blocked | M_waf | M_sent nat | M_received nat
  | M_busy | M_idle

fun metric_step :: "metric_op \<Rightarrow> metrics \<Rightarrow> metrics" where
  "metric_step M_connect m = record_connection m"
| "metric_step M_disconnect m = record_disconnection m"
| "metric_step (M_request code ms) m = record_request code ms m"
| "metric_step M_blocked m = record_blocked_ip m"
| "metric_step M_waf m = record_waf_block m"
| "metric_step (M_sent n) m = record_bytes_sent n m"
| "metric_step (M_received n) m = record_bytes_received n m"
| "metric_step M_busy m = record_worker_busy m"
| "metric_step M_idle m = record_worker_idle m"

definition metric_run :: "int \<Rightarrow> metric_op list \<Rightarrow> metrics" where
  "metric_run start ops = foldl (\<lambda>m op. metric_step op m) (metrics_init start) ops"

definition count_op :: "(metric_op \<Rightarrow> bool) \<Rightarrow> metric_op list \<Rightarrow> nat" where
  "count_op P ops = length (filter P ops)"

fun is_request :: "metric_op \<Rightarrow> bool" where
  "is_request (M_request c ms) = True"
| "is_request _ = False"

fun in_class :: "int \<Rightarrow> int \<Rightarrow> metric_op \<Rightarrow> bool" where
  "in_class lo hi (M_request c ms) = (lo \<le> c \<and> c < hi)"
| "in_class lo hi _ = False"

fun at_most :: "real \<Rightarrow> metric_op \<Rightarrow> bool" where
  "at_most bound (M_request c ms) = (ms \<le> bound)"
| "at_most bound _ = False"

lemma metric_run_snoc: "metric_run start (ops @ [op]) = metric_step op (metric_run start ops)"
  by (simp add: metric_run_def)

lemma count_op_snoc: "count_op P (ops @ [op]) = count_op P ops + (if P op then 1 else 0)"
  by (simp add: count_op_def)

lemma count_op_Nil [simp]: "count_op P [] = 0"
  by (simp add: count_op_def)

lemma record_status_other [simp]:
  "total_requests (record_status c m) = total_requests m" "latency_buckets (record_status c m) = latency_buckets m"
  "latency_count (record_status c m) = latency_count m" "active_connections (record_status c m) = active_connections m"
  "m_total_connections (record_status c m) = m_total_connections m"
  by (simp_all add: record_status_def)

lemma record_request_buckets [simp]: "latency_buckets (record_request c ms m) = record_latency ms (latency_buckets m)"
  by (simp add: record_request_def Let_def)

text \<open>
  The counters are exact after any sequence of operations (modulo \<open>2^64\<close>): the requests, the responses
  of a class, the connections that are open, and in each bucket of the histogram the requests that
  took at most as long as its bound.
\<close>

theorem metrics_exact:
  "total_requests (metric_run start ops) = of_nat (count_op is_request ops)
   \<and> latency_count (metric_run start ops) = of_nat (count_op is_request ops)
   \<and> status_2xx (metric_run start ops) = of_nat (count_op (in_class 200 300) ops)
   \<and> status_4xx (metric_run start ops) = of_nat (count_op (in_class 400 500) ops)
   \<and> active_connections (metric_run start ops) = of_nat (count_op (\<lambda>op. op = M_connect) ops) - of_nat (count_op (\<lambda>op. op = M_disconnect) ops)
   \<and> latency_buckets (metric_run start ops) = map (\<lambda>bound. of_nat (count_op (at_most bound) ops)) bucket_bounds"
proof (induction ops rule: rev_induct)
  case Nil
  then show ?case
    by (simp add: metric_run_def metrics_init_def bucket_bounds_def eval_nat_numeral)
next
  case (snoc op ops)
  let ?m = "metric_run start ops"
  have total: "total_requests (metric_step op ?m) = total_requests ?m + (if is_request op then 1 else 0)"
    "latency_count (metric_step op ?m) = latency_count ?m + (if is_request op then 1 else 0)"
    by (cases op; simp add: metrics_defs Let_def)+
  have classes: "status_2xx (metric_step op ?m) = status_2xx ?m + (if in_class 200 300 op then 1 else 0)"
    "status_4xx (metric_step op ?m) = status_4xx ?m + (if in_class 400 500 op then 1 else 0)"
    by (cases op; simp add: metrics_defs record_status_def Let_def)+
  have active: "active_connections (metric_step op ?m) =
      active_connections ?m + (if op = M_connect then 1 else 0) - (if op = M_disconnect then 1 else 0)"
    by (cases op; simp add: metrics_defs Let_def)
  have buckets: "latency_buckets (metric_step op ?m) = map (\<lambda>bound. of_nat (count_op (at_most bound) (ops @ [op]))) bucket_bounds"
  proof (cases op)
    case (M_request c ms)
    have "record_latency ms (map (\<lambda>bound. of_nat (count_op (at_most bound) ops)) bucket_bounds)
        = map (\<lambda>bound. of_nat (count_op (at_most bound) (ops @ [op]))) bucket_bounds"
      unfolding record_latency_def count_op_snoc M_request
      by (rule nth_equalityI) auto
    with snoc M_request show ?thesis by simp
  qed (use snoc in \<open>simp_all add: metrics_defs count_op_snoc\<close>)
  show ?case
    using snoc by (simp add: metric_run_snoc total classes active buckets count_op_snoc)
qed

text \<open>
  The buckets are added up once more when they are shown: after a single fast request the page shows
  ten requests in the last bucket, and one request in all.
\<close>

theorem histogram_shown_twice_cumulated:
  assumes "ms \<le> 1"
  shows "map_of (shown_buckets (metric_run start [M_request code ms])) ''+Inf'' = Some 10
    \<and> latency_count (metric_run start [M_request code ms]) = 1"
proof -
  have "latency_buckets (metric_run start [M_request code ms]) = replicate 10 1"
    using assms
    by (simp add: metric_run_def metrics_init_def record_latency_def bucket_bounds_def eval_nat_numeral)
  then have "shown_buckets (metric_run start [M_request code ms]) = zip bucket_labels [1, 2, 3, 4, 5, 6, 7, 8, 9, 10]"
    by (simp add: shown_buckets_def eval_nat_numeral)
  moreover have "latency_count (metric_run start [M_request code ms]) = 1"
    by (simp add: metric_run_def metrics_init_def record_request_def Let_def)
  ultimately show ?thesis
    by (simp add: bucket_labels_def)
qed

theorem histogram_shown_twice_cumulated_witness:
  "map_of (shown_buckets (metric_run 0 [M_request 200 1])) ''+Inf'' = Some 10"
  using histogram_shown_twice_cumulated [of 1 0 200] by simp

end
