(* ===== verification/Worker.thy ===== *)
theory Worker
  imports Http_Requests Http2_Exchange Websocket Grpc Waf Rate_Limit File_Handler Fastcgi Config Metrics
begin

text \<open>
  The worker (\<open>src/src/worker.cpp\<close>): everything that happens to one connection, from the TLS handshake
  to the release of the connection.  It composes the request parser, the firewall, the guard, the
  WebSocket connection, the file handler, the FastCGI client and the metrics as the code does.

  The state that connections share is the guard and the metrics (\<open>shared\<close>).  What the outside does to one
  connection is an argument (\<open>connection\<close>): the outcome of the handshake, what arrives and when, the
  readings of the clock and what the calls that write return.  The bytes the client gets are the
  result.  An exception leaves \<open>handle_connection\<close> (\<open>Thrown\<close>); nothing catches it.

  The callback of an HTTP/2 connection changes the shared state, so its answers depend on the requests it was called
  with before (\<open>h2_callback\<close>); the state after a piece of input is that of these calls in order (\<open>h2_run\<close>), and an exception of
  one of them ends the connection.
\<close>

section \<open>Data\<close>

record worker =
  w_config :: config
  w_tls_native :: bool
  w_waf :: waf_rules
  w_fs :: filesystem
  w_file_handler :: file_handler
  w_fcgi :: "fcgi_env option"
  w_SHA1 :: "bytes \<Rightarrow> bytes"
  w_EncodeBlock :: "bytes \<Rightarrow> bytes"
  w_show_fixed :: "real \<Rightarrow> bytes"

record shared =
  guard :: ddos_guard
  stats :: metrics

text \<open>
  What a call that reads gives: bytes, a wish of the TLS library to be called again, or the end
  of the stream, an error or a timeout.  An empty read is the end of the stream.
\<close>

datatype read_event = Got bytes | Again | Ended

text \<open>What a request of an HTTP/2 connection finds: the clocks, the FastCGI application and the files.\<close>

record h2_env =
  he_now :: real
  he_clock :: int
  he_fcgi :: fcgi_env
  he_fs :: filesystem

record connection =
  c_ip :: bytes
  c_handshake :: bool
  c_h2 :: bool
  c_start :: real
  c_deadline_base :: real
  c_read_base :: real
  c_reads :: "(real \<times> read_event) list"
  c_read_end :: real
  c_now :: real
  c_clock :: int
  c_end :: real
  c_writes :: results
  c_sendfile :: results
  c_h2_env :: "nat \<Rightarrow> h2_env"

datatype conn_result = Finished shared bytes | Thrown cpp_exception

section \<open>Responses\<close>

definition put_when :: "bool \<Rightarrow> string \<Rightarrow> bytes \<Rightarrow> (bytes \<times> bytes) list \<Rightarrow> (bytes \<times> bytes) list" where
  "put_when on name val hs = (if on then hput (lit name) val hs else hs)"

definition apply_security_headers :: "config \<Rightarrow> http_response \<Rightarrow> http_response" where
  "apply_security_headers cfg resp =
     (let sh = cfg_security_headers cfg;
          hs = resp_headers resp;
          hs = put_when (csp_enabled sh) ''Content-Security-Policy'' (csp_value sh) hs;
          hs = put_when (hsts_enabled sh \<and> cfg_tls_enabled cfg) ''Strict-Transport-Security'' (hsts_value sh) hs;
          hs = put_when (xcto_enabled sh) ''X-Content-Type-Options'' (lit ''nosniff'') hs;
          hs = put_when (xxss_enabled sh) ''X-XSS-Protection'' (xxss_value sh) hs;
          hs = put_when (xfo_enabled sh) ''X-Frame-Options'' (xfo_value sh) hs;
          hs = put_when (referrer_policy_enabled sh) ''Referrer-Policy'' (referrer_policy_value sh) hs;
          hs = (if cfg_server_header cfg \<noteq> [] then hput (lit ''Server'') (cfg_server_header cfg) hs
                else hdel (lit ''Server'') hs)
      in if \<not> sh_enabled sh then resp else resp\<lparr>resp_headers := hs\<rparr>)"

definition is_php_request :: "bytes \<Rightarrow> bool" where
  "is_php_request p \<longleftrightarrow> 4 \<le> length p \<and> drop (length p - 4) p = lit ''.php''"

definition route_request :: "worker \<Rightarrow> int \<Rightarrow> metrics \<Rightarrow> http_request \<Rightarrow> bytes \<Rightarrow> cpp_exception + http_response" where
  "route_request w clock m req client_ip =
     (if path req = lit ''/metrics'' then
        (if cfg_metrics_localhost_only (w_config w) \<and> client_ip \<noteq> lit ''127.0.0.1'' \<and> client_ip \<noteq> lit ''::1''
             \<and> client_ip \<noteq> []
         then Inr (make_error 403 (lit ''Metrics access denied''))
         else Inr (serve_metrics (w_show_fixed w) clock m))
      else case (if is_php_request (path req) \<and> cfg_fastcgi_enabled (w_config w) then w_fcgi w else None) of
        Some fcgi \<Rightarrow>
          (case send_request fcgi req (path_join (cfg_document_root (w_config w)) (drop 1 (path req)))
                  (cfg_document_root (w_config w)) of
             Inl e \<Rightarrow> Inl e
           | Inr (Some result) \<Rightarrow> Inr result
           | Inr None \<Rightarrow> Inr (make_error 502 (lit ''FastCGI backend unavailable'')))
      | None \<Rightarrow> serve (w_fs w) (w_file_handler w) req)"

section \<open>The checks in front of every request\<close>

text \<open>The firewall: \<open>Some\<close> is the page that refuses the request.\<close>

definition waf_refuses :: "worker \<Rightarrow> http_request \<Rightarrow> http_response option" where
  "waf_refuses w req =
     (if \<not> cfg_waf_enabled (w_config w) then None
      else let verdict = inspect (w_waf w) req (unat (cfg_waf_body_inspection_limit (w_config w)))
           in if blocked verdict then Some (make_error (verdict_status verdict) (lit (reason verdict))) else None)"

text \<open>The function that answers request number \<open>k\<close> of an HTTP/2 connection.\<close>

definition h2_request :: "worker \<Rightarrow> connection \<Rightarrow> nat \<Rightarrow> shared \<Rightarrow> http_request \<Rightarrow> cpp_exception + shared \<times> http_response" where
  "h2_request w c k s req =
     (let e = c_h2_env c k;
          w = w\<lparr>w_fcgi := map_option (\<lambda>_. he_fcgi e) (w_fcgi w), w_fs := he_fs e\<rparr>
      in case waf_refuses w req of
        Some page \<Rightarrow> Inr (s\<lparr>stats := record_waf_block (stats s)\<rparr>, page)
      | None \<Rightarrow>
          (let (g, allowed) = allow_request (he_now e) (c_ip c) (guard s); s = s\<lparr>guard := g\<rparr>
           in if \<not> allowed then Inr (s, make_error 429 (lit ''Too Many Requests''))
              else if is_grpc_request req
              then Inr (s, apply_security_headers (w_config w) (grpc_handle grpc_init req))
              else case route_request w (he_clock e) (stats s) req (c_ip c) of
                     Inl e \<Rightarrow> Inl e
                   | Inr resp \<Rightarrow> Inr (s, apply_security_headers (w_config w) resp)))"

fun h2_run :: "worker \<Rightarrow> connection \<Rightarrow> nat \<Rightarrow> shared \<Rightarrow> http_request list \<Rightarrow> cpp_exception + shared" where
  "h2_run w c k s [] = Inr s"
| "h2_run w c k s (req # reqs) =
     (case h2_request w c k s req of Inl e \<Rightarrow> Inl e | Inr (s, resp) \<Rightarrow> h2_run w c (Suc k) s reqs)"

text \<open>
  The callback, from the state that a call of \<open>process_input\<close> finds after \<open>k\<close> requests.  What it answers after an exception does not
  matter: the exception ends that call, and \<open>h2_input\<close> discards the rest.
\<close>

definition h2_callback :: "worker \<Rightarrow> connection \<Rightarrow> nat \<Rightarrow> shared \<Rightarrow> h2_handler" where
  "h2_callback w c k s before req =
     (case h2_run w c k s (drop k before) of
        Inl e \<Rightarrow> empty_response
      | Inr s \<Rightarrow> (case h2_request w c (length before) s req of Inl e \<Rightarrow> empty_response | Inr (s, resp) \<Rightarrow> resp))"

definition h2_input :: "worker \<Rightarrow> connection \<Rightarrow> shared \<Rightarrow> h2_conn \<Rightarrow> bytes \<Rightarrow> cpp_exception + shared \<times> h2_conn \<times> bytes" where
  "h2_input w c s conn data =
     (let k = length (h2_requests conn);
          (conn, out) = h2_process_input (h2_callback w c k s) conn data
      in case h2_run w c k s (drop k (h2_requests conn)) of Inl e \<Rightarrow> Inl e | Inr s \<Rightarrow> Inr (s, conn, out))"

section \<open>Reading a request\<close>

text \<open>
  \<open>read_request\<close> and \<open>read_request_plain\<close>, which differ in what they do when the library wants to be called
  again: without TLS there is no such case, and a call that does not read ends the reading.
\<close>

fun read_loop :: "bool \<Rightarrow> nat \<Rightarrow> real \<Rightarrow> nat \<Rightarrow> http_parser \<Rightarrow> metrics \<Rightarrow> (real \<times> read_event) list
    \<Rightarrow> http_parser \<times> bool \<times> metrics \<times> (real \<times> read_event) list" where
  "read_loop tls limit deadline total_read p m [] = (p, False, m, [])"
| "read_loop tls limit deadline total_read p m ((now, ev) # evs) =
     (if deadline < now then (p, False, m, (now, ev) # evs)
      else case ev of
        Ended \<Rightarrow> (p, False, m, evs)
      | Again \<Rightarrow> if tls then read_loop tls limit deadline total_read p m evs else (p, False, m, evs)
      | Got data \<Rightarrow>
          (if data = [] then (p, False, m, evs)
           else let total = total_read + length data; m = record_bytes_received (length data) m
                in if limit < total then (p, False, m, evs)
                   else let (p, state) = feed p data
                        in case state of
                             COMPLETE \<Rightarrow> (p, True, m, evs)
                           | ERROR \<Rightarrow> (p, False, m, evs)
                           | INCOMPLETE \<Rightarrow> read_loop tls limit deadline total p m evs))"

definition request_limit :: "config \<Rightarrow> nat" where
  "request_limit cfg = unat (of_int (cfg_max_request_size cfg) :: u64)"

section \<open>Sending\<close>

text \<open>\<open>send_response\<close> and \<open>send_response_plain\<close>: what the client gets of a response.\<close>

definition send_response :: "results \<Rightarrow> http_response \<Rightarrow> bytes" where
  "send_response ws resp = fst (write_all ws (serialize resp))"

definition security_header_lines :: "config \<Rightarrow> bytes" where
  "security_header_lines cfg =
     (let sh = cfg_security_headers cfg;
          line = (\<lambda>on name val. if on then lit name @ lit '': '' @ val @ crlf else [])
      in if \<not> sh_enabled sh then []
         else line (csp_enabled sh) ''Content-Security-Policy'' (csp_value sh)
           @ line (hsts_enabled sh \<and> cfg_tls_enabled cfg) ''Strict-Transport-Security'' (hsts_value sh)
           @ line (xcto_enabled sh) ''X-Content-Type-Options'' (lit ''nosniff'')
           @ line (xxss_enabled sh) ''X-XSS-Protection'' (xxss_value sh)
           @ line (xfo_enabled sh) ''X-Frame-Options'' (xfo_value sh)
           @ line (referrer_policy_enabled sh) ''Referrer-Policy'' (referrer_policy_value sh))"

text \<open>
  \<open>try_sendfile\<close>: the bytes that were sent, whether it counts as done, what is left of the results of the
  calls that write, and the metrics.
\<close>

definition try_sendfile :: "worker \<Rightarrow> connection \<Rightarrow> metrics \<Rightarrow> http_request
    \<Rightarrow> cpp_exception + bytes \<times> bool \<times> results \<times> metrics" where
  "try_sendfile w c m req =
     (case resolve_for_sendfile (w_fs w) (w_file_handler w) req of
        Inl e \<Rightarrow> Inl e
      | Inr None \<Rightarrow> Inr ([], False, c_writes c, m)
      | Inr (Some info) \<Rightarrow>
          (let (out, ok, ws) = write_all (c_writes c) (sf_headers info @ security_header_lines (w_config w) @ crlf)
           in if \<not> ok then Inr (out, False, ws, m)
              else let body = fst (write_all (c_sendfile c) (take (file_size info) (fs_fd_content (w_fs w) (sf_fd info))))
                   in Inr (out @ body, True, ws, record_bytes_sent (file_size info) m)))"

section \<open>WebSocket connections\<close>

definition write_once :: "results \<Rightarrow> bytes \<Rightarrow> bytes \<times> results" where
  "write_once ws data = (if ws 0 \<le> 0 then [] else take (nat (ws 0)) data, later ws)"

text \<open>The callback: every message is sent back, by one call whose result is not looked at.\<close>

fun echo :: "results \<Rightarrow> ws_event list \<Rightarrow> bytes \<times> results" where
  "echo ws [] = ([], ws)"
| "echo ws (On_Message opcode data # es) =
     (let (out, ws1) = write_once ws (build_frame opcode data True); (more, ws2) = echo ws1 es
      in (out @ more, ws2))"
| "echo ws (_ # es) = echo ws es"

fun ws_serve :: "bool \<Rightarrow> results \<Rightarrow> ws_conn \<Rightarrow> metrics \<Rightarrow> (real \<times> read_event) list \<Rightarrow> bytes \<times> metrics" where
  "ws_serve tls ws conn m [] = ([], m)"
| "ws_serve tls ws conn m ((now, ev) # evs) =
     (if \<not> is_alive conn then ([], m)
      else case ev of
        Ended \<Rightarrow> ([], m)
      | Again \<Rightarrow> if tls then ws_serve tls ws conn m evs else ([], m)
      | Got data \<Rightarrow>
          (if data = [] then ([], m)
           else let m = record_bytes_received (length data) m;
                    (conn, events) = ws_process_input conn data;
                    (echoed, ws) = echo ws events;
                    response_data = ws_output events
                in if response_data = []
                   then (let (out, m) = ws_serve tls ws conn m evs in (echoed @ out, m))
                   else (let (sent, ok, ws) = write_all ws response_data
                         in if \<not> ok then (echoed @ sent, m)
                            else (let (out, m) = ws_serve tls ws conn (record_bytes_sent (length response_data) m) evs
                                  in (echoed @ sent @ out, m)))))"

section \<open>A connection\<close>

text \<open>What every path ends with: the descriptor is closed and the connection released.\<close>

definition end_connection :: "bytes \<Rightarrow> shared \<Rightarrow> shared" where
  "end_connection client_ip s =
     s\<lparr>guard := release_connection client_ip (guard s),
       stats := record_worker_idle (record_disconnection (stats s))\<rparr>"

definition handle_websocket :: "worker \<Rightarrow> bool \<Rightarrow> connection \<Rightarrow> shared \<Rightarrow> http_request
    \<Rightarrow> (real \<times> read_event) list \<Rightarrow> conn_result" where
  "handle_websocket w tls c s req evs =
     (let (accepted, ok, ws) = write_all (c_writes c) (serialize (build_accept_response (w_SHA1 w) (w_EncodeBlock w) req));
          (out, m) = ws_serve tls ws ws_init (stats s) evs
      in Finished (end_connection (c_ip c) (s\<lparr>stats := m\<rparr>)) (accepted @ out))"

section \<open>HTTP/2 connections\<close>

text \<open>The read and write loop; a read that times out under TLS is a wish to be called again.\<close>

fun h2_serve :: "worker \<Rightarrow> connection \<Rightarrow> results \<Rightarrow> h2_conn \<Rightarrow> shared \<Rightarrow> (real \<times> read_event) list
    \<Rightarrow> cpp_exception + shared \<times> bytes" where
  "h2_serve w c ws conn s [] = Inr (s, [])"
| "h2_serve w c ws conn s ((now, ev) # evs) =
     (if \<not> h2_is_alive conn then Inr (s, [])
      else case ev of
        Ended \<Rightarrow> Inr (s, [])
      | Again \<Rightarrow> h2_serve w c ws conn s evs
      | Got data \<Rightarrow>
          (if data = [] then Inr (s, [])
           else case h2_input w c (s\<lparr>stats := record_bytes_received (length data) (stats s)\<rparr>) conn data of
                  Inl e \<Rightarrow> Inl e
                | Inr (s, conn, response_data) \<Rightarrow>
                    (let (sent, ok, ws) = write_all ws response_data;
                         s = s\<lparr>stats := record_bytes_sent (length sent) (stats s)\<rparr>
                     in if \<not> ok then Inr (s, sent)
                        else case h2_serve w c ws conn s evs of
                               Inl e \<Rightarrow> Inl e
                             | Inr (s, out) \<Rightarrow> Inr (s, sent @ out))))"

definition handle_h2_connection :: "worker \<Rightarrow> connection \<Rightarrow> shared \<Rightarrow> conn_result" where
  "handle_h2_connection w c s =
     (case h2_serve w c (c_writes c) h2_init s (c_reads c) of
        Inl e \<Rightarrow> Thrown e
      | Inr (s, out) \<Rightarrow> Finished (end_connection (c_ip c) s) out)"

section \<open>HTTP/1.1 connections\<close>

text \<open>The end of a request that is answered by a page: the page, the entry in the metrics, the release.\<close>

definition answer :: "worker \<Rightarrow> connection \<Rightarrow> shared \<Rightarrow> results \<Rightarrow> http_response \<Rightarrow> conn_result" where
  "answer w c s ws resp =
     (let resp = apply_security_headers (w_config w) resp
      in Finished (end_connection (c_ip c) (s\<lparr>stats := record_request (status_code resp) (c_end c - c_start c) (stats s)\<rparr>))
           (send_response ws resp))"

text \<open>The last part: zero-copy sending where it is possible, otherwise the routed response.\<close>

definition serve_routed :: "worker \<Rightarrow> connection \<Rightarrow> shared \<Rightarrow> results \<Rightarrow> bytes \<Rightarrow> http_request \<Rightarrow> conn_result" where
  "serve_routed w c s ws before req =
     (case route_request w (c_clock c) (stats s) req (c_ip c) of
        Inl e \<Rightarrow> Thrown e
      | Inr resp \<Rightarrow>
          (let resp = apply_security_headers (w_config w) resp;
               m = record_request (status_code resp) (c_end c - c_start c) (stats s)
           in Finished (end_connection (c_ip c) (s\<lparr>stats := record_bytes_sent (length (resp_body resp)) m\<rparr>))
                (before @ send_response ws resp)))"

definition serve_checked :: "worker \<Rightarrow> bool \<Rightarrow> connection \<Rightarrow> shared \<Rightarrow> http_request
    \<Rightarrow> (real \<times> read_event) list \<Rightarrow> conn_result" where
  "serve_checked w tls c s req evs =
     (if is_upgrade_request req then handle_websocket w tls c s req evs
      else if \<not> tls \<and> \<not> is_php_request (path req) \<and> path req \<noteq> lit ''/metrics'' then
        (case try_sendfile w c (stats s) req of
           Inl e \<Rightarrow> Thrown e
         | Inr (out, sent, ws, m) \<Rightarrow>
             if sent
             then Finished (end_connection (c_ip c) (s\<lparr>stats := record_request 200 (c_end c - c_start c) m\<rparr>)) out
             else serve_routed w c (s\<lparr>stats := m\<rparr>) ws out req)
      else serve_routed w c s (c_writes c) [] req)"

definition handle_request :: "worker \<Rightarrow> bool \<Rightarrow> connection \<Rightarrow> shared \<Rightarrow> http_request
    \<Rightarrow> (real \<times> read_event) list \<Rightarrow> conn_result" where
  "handle_request w tls c s req evs =
     (case waf_refuses w req of
        Some page \<Rightarrow> answer w c (s\<lparr>stats := record_waf_block (stats s)\<rparr>) (c_writes c) page
      | None \<Rightarrow>
          (let (g, allowed) = allow_request (c_now c) (c_ip c) (guard s); s = s\<lparr>guard := g\<rparr>
           in if \<not> allowed then answer w c s (c_writes c) (make_error 429 (lit ''Too Many Requests''))
              else serve_checked w tls c s req evs))"

definition handle_http1 :: "worker \<Rightarrow> bool \<Rightarrow> connection \<Rightarrow> shared \<Rightarrow> conn_result" where
  "handle_http1 w tls c s =
     (let timeout = real_of_int (cfg_header_read_timeout_ms (w_config w));
          (p, success, m, evs) = read_loop tls (request_limit (w_config w)) (c_read_base c + timeout) 0 init_parser (stats s) (c_reads c);
          s = s\<lparr>stats := m\<rparr>
      in if \<not> success \<or> c_deadline_base c + timeout < c_read_end c
         then answer w c s (c_writes c) (make_error 408 (lit ''Request timeout or parse error''))
         else handle_request w tls c s (p_request p) evs)"

definition handle_connection :: "worker \<Rightarrow> connection \<Rightarrow> shared \<Rightarrow> conn_result" where
  "handle_connection w c s =
     (let s = s\<lparr>stats := record_worker_busy (record_connection (stats s))\<rparr>
      in if cfg_tls_enabled (w_config w) \<and> w_tls_native w then
           (if \<not> c_handshake c then Finished (end_connection (c_ip c) s) []
            else if c_h2 c then handle_h2_connection w c s
            else handle_http1 w True c s)
         else handle_http1 w False c s)"

section \<open>The books are balanced\<close>

text \<open>Operations that leave the connection counts of the metrics alone.\<close>

definition same_counts :: "metrics \<Rightarrow> metrics \<Rightarrow> bool" where
  "same_counts m m' \<longleftrightarrow> active_connections m' = active_connections m \<and> active_workers m' = active_workers m
     \<and> m_total_connections m' = m_total_connections m"

lemma same_counts_refl [simp, intro]: "same_counts m m"
  by (simp add: same_counts_def)

lemma same_counts_trans [trans]: "same_counts a b \<Longrightarrow> same_counts b c \<Longrightarrow> same_counts a c"
  by (simp add: same_counts_def)

lemma same_counts_steps [simp, intro]:
  "same_counts m (record_bytes_received n m)" "same_counts m (record_bytes_sent n m)" "same_counts m (record_waf_block m)"
  "same_counts m (record_request c ms m)"
  by (simp_all add: same_counts_def metrics_defs record_status_def Let_def)

lemma same_counts_received: "same_counts (record_bytes_received n m) m' \<Longrightarrow> same_counts m m'"
  using same_counts_trans [OF same_counts_steps(1)] .

lemma same_counts_sent: "same_counts (record_bytes_sent n m) m' \<Longrightarrow> same_counts m m'"
  using same_counts_trans [OF same_counts_steps(2)] .

lemma read_loop_counts: "same_counts m (fst (snd (snd (read_loop tls limit d n p m evs))))"
proof (induction evs arbitrary: n p m)
  case (Cons e evs)
  obtain now ev where e: "e = (now, ev)" by (cases e)
  show ?case
  proof (cases ev)
    case (Got data)
    have "same_counts m (fst (snd (snd (read_loop tls limit d k q (record_bytes_received l m) evs))))" for k q l
      using Cons.IH same_counts_received by blast
    with Got e show ?thesis
      by (simp add: Let_def split: prod.split parse_state.split)
  qed (cases tls; use Cons.IH e in simp)+
qed simp

lemma ws_serve_counts: "same_counts m (snd (ws_serve tls ws conn m evs))"
proof (induction evs arbitrary: ws conn m)
  case (Cons e evs)
  obtain now ev where e: "e = (now, ev)" by (cases e)
  show ?case
  proof (cases ev)
    case (Got data)
    have "same_counts m (snd (ws_serve tls ws' conn' (record_bytes_received l m) evs))"
      "same_counts m (snd (ws_serve tls ws' conn' (record_bytes_sent k (record_bytes_received l m)) evs))" for ws' conn' k l
      using Cons.IH same_counts_received same_counts_sent by blast+
    with Got e show ?thesis
      by (simp add: Let_def case_prod_unfold)
  qed (cases tls; use Cons.IH e in simp)+
qed simp

text \<open>A result of a connection that began with guard \<open>g\<close> and metrics \<open>m\<close>.\<close>

definition settles :: "connection \<Rightarrow> ddos_guard \<Rightarrow> metrics \<Rightarrow> conn_result \<Rightarrow> bool" where
  "settles c g m r =
     (case r of
        Finished s out \<Rightarrow>
          guard s \<in> {release_connection (c_ip c) g, release_connection (c_ip c) (fst (allow_request (c_now c) (c_ip c) g))}
          \<and> (\<exists>m'. same_counts m m' \<and> stats s = record_worker_idle (record_disconnection m'))
      | Thrown e \<Rightarrow> True)"

lemma settles_release:
  assumes "guard s = g \<or> guard s = fst (allow_request (c_now c) (c_ip c) g)" and "same_counts m (stats s)"
  shows "settles c g m (Finished (end_connection (c_ip c) s) out)"
  using assms by (auto simp: settles_def end_connection_def)

lemma answer_settles:
  assumes "guard s = g \<or> guard s = fst (allow_request (c_now c) (c_ip c) g)" and "same_counts m (stats s)"
  shows "settles c g m (answer w c s ws resp)"
  using assms same_counts_trans [OF assms(2) same_counts_steps(4)]
  by (auto simp: answer_def Let_def intro!: settles_release)

lemma serve_routed_settles:
  assumes "guard s = g \<or> guard s = fst (allow_request (c_now c) (c_ip c) g)" and "same_counts m (stats s)"
  shows "settles c g m (serve_routed w c s ws before req)"
proof (cases "route_request w (c_clock c) (stats s) req (c_ip c)")
  case (Inl e)
  then show ?thesis by (simp add: serve_routed_def settles_def)
next
  case (Inr resp)
  have "same_counts m (record_bytes_sent n (record_request code ms (stats s)))" for n code ms
    using assms(2) same_counts_steps(2,4) same_counts_trans by blast
  with Inr assms(1) show ?thesis
    by (auto simp: serve_routed_def Let_def intro!: settles_release)
qed

lemma handle_websocket_settles:
  assumes "guard s = g \<or> guard s = fst (allow_request (c_now c) (c_ip c) g)" and "same_counts m (stats s)"
  shows "settles c g m (handle_websocket w tls c s req evs)"
proof -
  have "same_counts m (snd (ws_serve tls ws ws_init (stats s) evs))" for ws
    using assms(2) ws_serve_counts same_counts_trans by blast
  with assms(1) show ?thesis
    by (auto simp: handle_websocket_def case_prod_unfold Let_def intro!: settles_release)
qed

lemma try_sendfile_counts: "try_sendfile w c m req = Inr (out, done', ws, m') \<Longrightarrow> same_counts m m'"
  by (auto simp: try_sendfile_def Let_def split: sum.splits option.splits prod.splits if_splits)

lemma serve_checked_settles:
  assumes "guard s = g \<or> guard s = fst (allow_request (c_now c) (c_ip c) g)" and "same_counts m (stats s)"
  shows "settles c g m (serve_checked w tls c s req evs)"
proof (cases "is_upgrade_request req \<or> tls \<or> is_php_request (path req) \<or> path req = lit ''/metrics''")
  case True
  with assms show ?thesis
    by (auto simp: serve_checked_def handle_websocket_settles serve_routed_settles)
next
  case False
  show ?thesis
  proof (cases "try_sendfile w c (stats s) req")
    case (Inl e)
    with False show ?thesis by (simp add: serve_checked_def settles_def)
  next
    case (Inr r)
    obtain out sent ws m' where r: "r = (out, sent, ws, m')" by (cases r)
    have "same_counts m m'"
      using same_counts_trans [OF assms(2) try_sendfile_counts [of w c "stats s" req out sent ws m']] Inr r by simp
    with False Inr r assms(1) same_counts_trans [OF _ same_counts_steps(4)] show ?thesis
      by (auto simp: serve_checked_def serve_routed_settles intro!: settles_release)
  qed
qed

lemma handle_request_settles: "same_counts m (stats s) \<Longrightarrow> settles c (guard s) m (handle_request w tls c s req evs)"
  using same_counts_trans [OF _ same_counts_steps(3)]
  by (auto simp: handle_request_def case_prod_unfold Let_def answer_settles serve_checked_settles split: option.split)

lemma handle_http1_settles: "settles c (guard s) (stats s) (handle_http1 w tls c s)"
proof -
  obtain p success m evs where r: "read_loop tls (request_limit (w_config w))
      (c_read_base c + real_of_int (cfg_header_read_timeout_ms (w_config w))) 0 init_parser (stats s) (c_reads c) = (p, success, m, evs)"
    by (metis prod_cases4)
  have "same_counts (stats s) m"
    using read_loop_counts [of "stats s" tls "request_limit (w_config w)"
        "c_read_base c + real_of_int (cfg_header_read_timeout_ms (w_config w))" 0 init_parser "c_reads c"] by (simp add: r)
  then show ?thesis
    using handle_request_settles [of "stats s" "s\<lparr>stats := m\<rparr>" c w tls]
    by (simp add: handle_http1_def r Let_def answer_settles)
qed

definition begun :: "shared \<Rightarrow> shared" where
  "begun s = s\<lparr>stats := record_worker_busy (record_connection (stats s))\<rparr>"

text \<open>The charges of several requests of an address.\<close>

definition charges :: "bytes \<Rightarrow> real list \<Rightarrow> ddos_guard \<Rightarrow> ddos_guard" where
  "charges ip ts g = fold (\<lambda>now g. fst (allow_request now ip g)) ts g"

lemma charges_append: "charges ip (ts @ us) g = charges ip us (charges ip ts g)"
  by (simp add: charges_def)

text \<open>What an HTTP/2 connection does to the shared state before its end: charges, and counters that are not gauges.\<close>

definition h2_changes :: "bytes \<Rightarrow> shared \<Rightarrow> shared \<Rightarrow> bool" where
  "h2_changes ip s s' \<longleftrightarrow> (\<exists>ts. guard s' = charges ip ts (guard s)) \<and> same_counts (stats s) (stats s')
     \<and> total_requests (stats s') = total_requests (stats s)"

lemma h2_changes_trans: "h2_changes ip a b \<Longrightarrow> h2_changes ip b c \<Longrightarrow> h2_changes ip a c"
  using same_counts_trans by (fastforce simp: h2_changes_def simp flip: charges_append)

lemma h2_changes_stats:
  "h2_changes ip s (s\<lparr>stats := record_bytes_received n (stats s)\<rparr>)" "h2_changes ip s (s\<lparr>stats := record_bytes_sent n (stats s)\<rparr>)"
  "h2_changes ip s (s\<lparr>stats := record_waf_block (stats s)\<rparr>)" "h2_changes ip s s"
  by (auto simp: h2_changes_def charges_def metrics_defs same_counts_def intro: exI [of _ "[]"])

lemma waf_refuses_env [simp]: "waf_refuses (w\<lparr>w_fcgi := f, w_fs := fs\<rparr>) req = waf_refuses w req"
  by (simp add: waf_refuses_def)

lemma h2_request_changes:
  assumes "h2_request w c k s req = Inr (s', resp)"
  shows "h2_changes (c_ip c) s s'"
proof -
  have "h2_changes (c_ip c) s (s\<lparr>guard := fst (allow_request t (c_ip c) (guard s))\<rparr>)" for t
    by (auto simp: h2_changes_def charges_def intro: exI [of _ "[t]"])
  then show ?thesis
    using assms h2_changes_stats(3)
    by (auto simp: h2_request_def Let_def case_prod_unfold split: option.splits if_splits sum.splits)
qed

lemma h2_run_changes: "h2_run w c k s reqs = Inr s' \<Longrightarrow> h2_changes (c_ip c) s s'"
proof (induction reqs arbitrary: k s)
  case (Cons req reqs)
  then show ?case
    using h2_request_changes h2_changes_trans by (fastforce split: sum.splits)
qed (simp add: h2_changes_stats)

lemma h2_serve_changes: "h2_serve w c ws conn s evs = Inr (s', out) \<Longrightarrow> h2_changes (c_ip c) s s'"
proof (induction evs arbitrary: ws conn s s' out)
  case (Cons e evs)
  obtain now ev where e: "e = (now, ev)"
    by (cases e)
  show ?case
  proof (cases "\<exists>data. ev = Got data \<and> data \<noteq> [] \<and> h2_is_alive conn")
    case True
    then obtain data where data: "ev = Got data" "data \<noteq> []" "h2_is_alive conn"
      by blast
    let ?s = "s\<lparr>stats := record_bytes_received (length data) (stats s)\<rparr>"
    obtain s1 conn1 rd where i: "h2_input w c ?s conn data = Inr (s1, conn1, rd)"
      using Cons.prems e data by (auto split: sum.splits)
    obtain sent ok ws1 where wr: "write_all ws rd = (sent, ok, ws1)"
      by (cases "write_all ws rd")
    have "h2_changes (c_ip c) s s1"
      using i h2_run_changes h2_changes_trans [OF h2_changes_stats(1)]
      by (fastforce simp: h2_input_def Let_def split: sum.splits prod.splits)
    then have s2: "h2_changes (c_ip c) s (s1\<lparr>stats := record_bytes_sent (length sent) (stats s1)\<rparr>)"
      using h2_changes_stats(2) h2_changes_trans by blast
    show ?thesis
    proof (cases ok)
      case True
      then obtain out2 where "h2_serve w c ws1 conn1 (s1\<lparr>stats := record_bytes_sent (length sent) (stats s1)\<rparr>) evs = Inr (s', out2)"
        using Cons.prems e data i wr by (auto split: sum.splits)
      then show ?thesis
        using Cons.IH s2 h2_changes_trans by blast
    qed (use Cons.prems e data i wr s2 in auto)
  qed (use Cons e h2_changes_stats(4) in \<open>auto split: read_event.splits if_splits\<close>)
qed (simp add: h2_changes_stats)

lemma handle_connection_settles:
  assumes "handle_connection w c s = Finished s' out"
  shows "\<exists>ts m. guard s' = release_connection (c_ip c) (charges (c_ip c) ts (guard s)) \<and> (c_h2 c \<or> length ts \<le> 1)
    \<and> same_counts (stats (begun s)) m \<and> stats s' = record_worker_idle (record_disconnection m)"
proof -
  have g: "guard (begun s) = guard s"
    by (simp add: begun_def)
  show ?thesis
  proof (cases "c_h2 c \<and> cfg_tls_enabled (w_config w) \<and> w_tls_native w \<and> c_handshake c")
    case True
    then obtain s1 where "h2_serve w c (c_writes c) h2_init (begun s) (c_reads c) = Inr (s1, out)" "s' = end_connection (c_ip c) s1"
      using assms by (auto simp: handle_connection_def handle_h2_connection_def begun_def [symmetric] split: sum.splits)
    with h2_serve_changes show ?thesis
      using True g by (fastforce simp: h2_changes_def end_connection_def)
  next
    case False
    have "settles c (guard s) (stats (begun s)) (handle_connection w c s)"
      using False handle_http1_settles [of c "begun s" w] settles_release [of "begun s" "guard s" c "stats (begun s)"]
      by (auto simp: handle_connection_def begun_def [symmetric] Let_def g)
    moreover have "charges ip [] g' = g'" "charges ip [now] g' = fst (allow_request now ip g')" for ip now g'
      by (simp_all add: charges_def)
    ultimately show ?thesis
      by (auto simp: assms settles_def intro: exI [of _ "[]"] exI [of _ "[c_now c]"])
  qed
qed

text \<open>
  C18. Whatever a client sends and however the calls fail: when the worker is done with a connection, the
  guard has been told of its end exactly once, after the requests were charged to the
  address (at most one, unless the connection negotiated HTTP/2), and the gauges of open connections and of busy workers are what they were before.
\<close>

theorem worker_settles:
  assumes "handle_connection w c s = Finished s' out"
  shows "(\<exists>ts. guard s' = release_connection (c_ip c) (charges (c_ip c) ts (guard s)) \<and> (c_h2 c \<or> length ts \<le> 1))
    \<and> active_connections (stats s') = active_connections (stats s)
    \<and> active_workers (stats s') = active_workers (stats s)
    \<and> m_total_connections (stats s') = m_total_connections (stats s) + 1"
  using handle_connection_settles [OF assms] by (auto simp: same_counts_def metrics_defs begun_def)

section \<open>The order of the checks\<close>

text \<open>A request was read completely and in time.\<close>

definition request_read :: "worker \<Rightarrow> bool \<Rightarrow> connection \<Rightarrow> shared \<Rightarrow> http_parser \<Rightarrow> metrics \<Rightarrow> (real \<times> read_event) list \<Rightarrow> bool" where
  "request_read w tls c s p m evs \<longleftrightarrow>
     read_loop tls (request_limit (w_config w)) (c_read_base c + real_of_int (cfg_header_read_timeout_ms (w_config w))) 0
       init_parser (stats s) (c_reads c) = (p, True, m, evs)
     \<and> c_read_end c \<le> c_deadline_base c + real_of_int (cfg_header_read_timeout_ms (w_config w))"

lemma handle_http1_read:
  "request_read w tls c s p m evs \<Longrightarrow> handle_http1 w tls c s = handle_request w tls c (s\<lparr>stats := m\<rparr>) (p_request p) evs"
  by (simp add: request_read_def handle_http1_def)

lemma send_response_complete: "(\<And>i. 0 < ws i) \<Longrightarrow> send_response ws resp = serialize resp"
  using write_all_ok [of ws "serialize resp"] by (simp add: send_response_def)

text \<open>The headers that the configuration asks for, with the values it gives them.\<close>

definition secured :: "config \<Rightarrow> http_response \<Rightarrow> bool" where
  "secured cfg resp \<longleftrightarrow>
     (let sh = cfg_security_headers cfg; has = (\<lambda>name val. map_of (resp_headers resp) (lit name) = Some val)
      in sh_enabled sh \<longrightarrow>
           (csp_enabled sh \<longrightarrow> has ''Content-Security-Policy'' (csp_value sh))
           \<and> (hsts_enabled sh \<and> cfg_tls_enabled cfg \<longrightarrow> has ''Strict-Transport-Security'' (hsts_value sh))
           \<and> (xcto_enabled sh \<longrightarrow> has ''X-Content-Type-Options'' (lit ''nosniff''))
           \<and> (xxss_enabled sh \<longrightarrow> has ''X-XSS-Protection'' (xxss_value sh))
           \<and> (xfo_enabled sh \<longrightarrow> has ''X-Frame-Options'' (xfo_value sh))
           \<and> (referrer_policy_enabled sh \<longrightarrow> has ''Referrer-Policy'' (referrer_policy_value sh))
           \<and> (cfg_server_header cfg = [] \<longrightarrow> map_of (resp_headers resp) (lit ''Server'') = None))"

lemma map_of_put_when [simp]:
  "map_of (put_when on name val hs) (lit k) = (if name = k \<and> on then Some val else map_of hs (lit k))"
  by (simp add: put_when_def lit_eq_iff)

lemma map_of_hput_hdel_lit [simp]:
  "map_of (hput (lit a) val hs) (lit k) = (if a = k then Some val else map_of hs (lit k))"
  "map_of (hdel (lit a) hs) (lit k) = (if a = k then None else map_of hs (lit k))"
  by (simp_all add: lit_eq_iff)

lemma apply_security_headers_secured: "secured cfg (apply_security_headers cfg resp)"
  by (cases "cfg_server_header cfg = []")
    (simp_all split del: if_split add: secured_def apply_security_headers_def Let_def lit_eq_iff)

lemma apply_security_headers_rest [simp]:
  "status_code (apply_security_headers cfg resp) = status_code resp"
  "resp_body (apply_security_headers cfg resp) = resp_body resp"
  by (simp_all add: apply_security_headers_def Let_def)

text \<open>
  C8. The order of the checks on an HTTP/1.1 connection whose writes succeed, once the request is read completely and in time: a request
  the firewall refuses gets only the page of the refusal and is not charged to the rate of its address; a request over the rate gets only the page for that;
  and only a request that passed both reaches a handler.  The two pages carry the security headers.
  (On an HTTP/2 connection the checks come in the same order, but the pages do not carry the headers.)
\<close>

theorem checks_before_service:
  assumes "request_read w tls c s p m evs" and "\<And>i. 0 < c_writes c i"
  shows "(\<forall>page. waf_refuses w (p_request p) = Some page \<longrightarrow>
            (\<exists>s' resp. handle_http1 w tls c s = Finished s' (serialize resp) \<and> secured (w_config w) resp
               \<and> status_code resp = status_code page \<and> resp_body resp = resp_body page
               \<and> guard s' = release_connection (c_ip c) (guard s)))
    \<and> (waf_refuses w (p_request p) = None \<longrightarrow> \<not> snd (allow_request (c_now c) (c_ip c) (guard s)) \<longrightarrow>
         (\<exists>s' resp. handle_http1 w tls c s = Finished s' (serialize resp) \<and> secured (w_config w) resp
            \<and> status_code resp = 429))
    \<and> (waf_refuses w (p_request p) = None \<longrightarrow> snd (allow_request (c_now c) (c_ip c) (guard s)) \<longrightarrow>
         handle_http1 w tls c s =
           serve_checked w tls c (s\<lparr>stats := m, guard := fst (allow_request (c_now c) (c_ip c) (guard s))\<rparr>) (p_request p) evs)"
proof (intro conjI allI impI)
  fix page
  assume "waf_refuses w (p_request p) = Some page"
  then have "handle_http1 w tls c s = answer w c (s\<lparr>stats := record_waf_block m\<rparr>) (c_writes c) page"
    by (simp add: handle_http1_read [OF assms(1)] handle_request_def)
  then show "\<exists>s' resp. handle_http1 w tls c s = Finished s' (serialize resp) \<and> secured (w_config w) resp
       \<and> status_code resp = status_code page \<and> resp_body resp = resp_body page
       \<and> guard s' = release_connection (c_ip c) (guard s)"
    using apply_security_headers_secured [of "w_config w" page]
    by (auto simp: answer_def Let_def send_response_complete assms(2) end_connection_def intro!: exI)
next
  assume "waf_refuses w (p_request p) = None" "\<not> snd (allow_request (c_now c) (c_ip c) (guard s))"
  then have "handle_http1 w tls c s = answer w c (s\<lparr>stats := m, guard := fst (allow_request (c_now c) (c_ip c) (guard s))\<rparr>)
      (c_writes c) (make_error 429 (lit ''Too Many Requests''))"
    by (simp add: handle_http1_read [OF assms(1)] handle_request_def case_prod_unfold Let_def)
  then show "\<exists>s' resp. handle_http1 w tls c s = Finished s' (serialize resp) \<and> secured (w_config w) resp \<and> status_code resp = 429"
    using apply_security_headers_secured [of "w_config w" "make_error 429 (lit ''Too Many Requests'')"]
    by (auto simp: answer_def Let_def send_response_complete assms(2) intro!: exI)
next
  assume "waf_refuses w (p_request p) = None" "snd (allow_request (c_now c) (c_ip c) (guard s))"
  then show "handle_http1 w tls c s =
      serve_checked w tls c (s\<lparr>stats := m, guard := fst (allow_request (c_now c) (c_ip c) (guard s))\<rparr>) (p_request p) evs"
    by (simp add: handle_http1_read [OF assms(1)] handle_request_def case_prod_unfold Let_def)
qed

text \<open>
  What is sent for a static file: the response of the file handler with the security headers; over
  plain HTTP, where \<open>sendfile\<close> is used for GET, the headers of the handler, the same security headers
  as lines, an empty line and the content of the file.
\<close>

theorem static_file_sent:
  assumes "\<not> is_upgrade_request req" and "\<not> is_php_request (path req)" and "path req \<noteq> lit ''/metrics''"
    and "\<And>i. 0 < c_writes c i" and "\<And>i. 0 < c_sendfile c i"
  shows "(\<forall>resp. serve (w_fs w) (w_file_handler w) req = Inr resp \<longrightarrow>
            (\<exists>s'. serve_checked w True c s req evs = Finished s' (serialize (apply_security_headers (w_config w) resp))))
    \<and> (\<forall>info. resolve_for_sendfile (w_fs w) (w_file_handler w) req = Inr (Some info) \<longrightarrow>
            (\<exists>s'. serve_checked w False c s req evs = Finished s'
               (sf_headers info @ security_header_lines (w_config w) @ crlf
                @ take (file_size info) (fs_fd_content (w_fs w) (sf_fd info)))))"
proof (intro conjI allI impI)
  fix resp
  assume r: "serve (w_fs w) (w_file_handler w) req = Inr resp"
  then have "route_request w k m req ip = Inr resp" for k m ip
    using assms(2,3) by (simp add: route_request_def)
  then show "\<exists>s'. serve_checked w True c s req evs = Finished s' (serialize (apply_security_headers (w_config w) resp))"
    using assms(1) by (simp add: serve_checked_def serve_routed_def Let_def send_response_complete [OF assms(4)])
next
  fix info
  assume i: "resolve_for_sendfile (w_fs w) (w_file_handler w) req = Inr (Some info)"
  have "fst (write_all (c_writes c) d) = d" "fst (snd (write_all (c_writes c) d))" "fst (write_all (c_sendfile c) d) = d" for d
    using write_all_ok [of "c_writes c" d] write_all_ok [of "c_sendfile c" d] assms(4,5) by simp_all
  then have "\<exists>ws m. try_sendfile w c (stats s) req =
      Inr (sf_headers info @ security_header_lines (w_config w) @ crlf
                @ take (file_size info) (fs_fd_content (w_fs w) (sf_fd info)), True, ws, m)"
    by (simp add: try_sendfile_def i case_prod_unfold Let_def)
  then show "\<exists>s'. serve_checked w False c s req evs = Finished s'
               (sf_headers info @ security_header_lines (w_config w) @ crlf
                @ take (file_size info) (fs_fd_content (w_fs w) (sf_fd info)))"
    using assms(1-3) by (auto simp: serve_checked_def)
qed

text \<open>The page with the metrics is refused to other machines when it is restricted.\<close>

theorem metrics_restricted:
  assumes "path req = lit ''/metrics''" and "cfg_metrics_localhost_only (w_config w)"
    and "ip \<notin> {lit ''127.0.0.1'', lit ''::1'', []}"
  shows "route_request w k m req ip = Inr (make_error 403 (lit ''Metrics access denied''))"
  using assms by (simp add: route_request_def)

section \<open>Limits\<close>

text \<open>A request with an empty path ends the program: the exception of the file handler leaves the worker.\<close>

theorem empty_path_ends_worker:
  assumes "req_method req = GET" and "path req = []" and "\<not> is_upgrade_request req"
  shows "serve_checked w tls c s req evs = Thrown Out_of_range"
proof -
  have "decode_percent_utf8 [] = []"
    by simp
  then have r: "resolve_path fs h [] = Inl Out_of_range" for fs h
    by (simp add: resolve_path_def lit_def)
  have "path req \<noteq> lit ''/metrics''" "\<not> is_php_request (path req)"
    using assms(2) by (simp_all add: is_php_request_def lit_def)
  with assms r show ?thesis
    by (simp add: serve_checked_def try_sendfile_def resolve_for_sendfile_def serve_routed_def route_request_def serve_def)
qed

text \<open>The pages of refusal of an HTTP/2 connection do not carry the security headers.\<close>

theorem h2_refusal_not_secured:
  assumes "waf_refuses w req = Some page" and "sh_enabled (cfg_security_headers (w_config w))"
    and "csp_enabled (cfg_security_headers (w_config w))"
  shows "\<exists>s'. h2_request w c k s req = Inr (s', page) \<and> \<not> secured (w_config w) page"
proof -
  obtain code msg where "page = make_error code msg"
    using assms(1) by (auto simp: waf_refuses_def Let_def split: if_splits)
  then have "map_of (resp_headers page) (lit ''Content-Security-Policy'') = None"
    by (simp add: make_error_def Let_def lit_eq_iff)
  with assms show ?thesis
    by (auto simp: h2_request_def secured_def Let_def)
qed

text \<open>After a piece of input the shared state is \<open>s'\<close>, \<open>resp\<close> is sent on stream \<open>i\<close> and the connection waits for the next frame.\<close>

definition h2_sends :: "worker \<Rightarrow> connection \<Rightarrow> shared \<Rightarrow> h2_conn \<Rightarrow> bytes \<Rightarrow> 32 word \<Rightarrow> shared \<Rightarrow> http_response \<Rightarrow> bool" where
  "h2_sends w c s conn data i s' resp \<longleftrightarrow>
     (\<exists>conn'. h2_input w c s conn data = Inr (s', conn', build_headers_response conn i resp) \<and> h2_is_alive conn' \<and> h2_buffer conn' = [])"

text \<open>What a request in a HEADERS frame does to the connection and to the shared state, by what the worker answers to it.\<close>

lemma h2_headers_input:
  assumes "h2_is_alive conn" and "preface_received conn" and "h2_buffer conn = []" and "settings_in_range conn"
    and "i \<noteq> 0" and "unat i < 2 ^ 31" and "h2_streams conn i = None"
    and "length (encode hs) \<le> unat (max_frame_size conn)" and "\<forall>h \<in> set hs. header_fits h"
    and "h2_request w c (length (h2_requests conn)) s (build_request hs empty_request) = res"
    and "frame = h2_build_frame H2_HEADERS (END_STREAM OR END_HEADERS) i (encode hs)"
  shows "res = Inr (s', resp) \<Longrightarrow> h2_sends w c s conn frame i s' resp"
    and "res = Inl e \<Longrightarrow> h2_input w c s conn frame = Inl e"
proof -
  let ?k = "length (h2_requests conn)" and ?r = "build_request hs empty_request"
  obtain conn' where c: "h2_process_input (h2_callback w c ?k s) conn frame
      = (conn', build_headers_response conn i (h2_callback w c ?k s (h2_requests conn) ?r))"
    "h2_is_alive conn'" "h2_buffer conn' = []" "h2_requests conn' = h2_requests conn @ [?r]"
    using headers_frame_answered [OF assms(1-9), of "h2_callback w c ?k s"] assms(11) by blast
  show "res = Inl e \<Longrightarrow> h2_input w c s conn frame = Inl e"
    using c assms(10) by (simp add: h2_input_def)
  assume a: "res = Inr (s', resp)"
  then have "h2_callback w c ?k s (h2_requests conn) ?r = resp"
    using assms(10) by (simp add: h2_callback_def)
  then show "h2_sends w c s conn frame i s' resp"
    using c a assms(10) by (simp add: h2_sends_def h2_input_def)
qed

text \<open>
  C38. The order of the checks on an HTTP/2 connection, for a request in a HEADERS frame with the block that the server's own encoder makes of its
  headers: if the firewall refuses it, the page of the refusal is sent, the refusal is counted and the
  address is not charged; if it is over the rate of its address, the page for that is sent; else, after the charge, it gets
  the answer of the gRPC handler or of the router, with the security headers, and an exception of the router leaves the
  connection.  But for the exception, the connection stays alive and is ready for the next frame.
\<close>

theorem h2_checks_before_service:
  assumes "h2_is_alive conn" and "preface_received conn" and "h2_buffer conn = []" and "settings_in_range conn"
    and "i \<noteq> 0" and "unat i < 2 ^ 31" and "h2_streams conn i = None"
    and "length (encode hs) \<le> unat (max_frame_size conn)" and "\<forall>h \<in> set hs. header_fits h"
    and "req = build_request hs empty_request" and "e = c_h2_env c (length (h2_requests conn))"
    and "allow_request (he_now e) (c_ip c) (guard s) = (g, allowed)"
    and "w' = w\<lparr>w_fcgi := map_option (\<lambda>_. he_fcgi e) (w_fcgi w), w_fs := he_fs e\<rparr>"
    and "frame = h2_build_frame H2_HEADERS (END_STREAM OR END_HEADERS) i (encode hs)"
  shows "(\<forall>page. waf_refuses w req = Some page \<longrightarrow> h2_sends w c s conn frame i (s\<lparr>stats := record_waf_block (stats s)\<rparr>) page)
    \<and> (waf_refuses w req = None \<longrightarrow> \<not> allowed \<longrightarrow> h2_sends w c s conn frame i (s\<lparr>guard := g\<rparr>) (make_error 429 (lit ''Too Many Requests'')))
    \<and> (waf_refuses w req = None \<longrightarrow> allowed \<longrightarrow> is_grpc_request req \<longrightarrow>
         (\<exists>resp. h2_sends w c s conn frame i (s\<lparr>guard := g\<rparr>) resp \<and> secured (w_config w) resp
            \<and> status_code resp = status_code (grpc_handle grpc_init req) \<and> resp_body resp = resp_body (grpc_handle grpc_init req)))
    \<and> (waf_refuses w req = None \<longrightarrow> allowed \<longrightarrow> \<not> is_grpc_request req \<longrightarrow>
         (case route_request w' (he_clock e) (stats s) req (c_ip c) of
            Inl x \<Rightarrow> h2_input w c s conn frame = Inl x
          | Inr routed \<Rightarrow> (\<exists>resp. h2_sends w c s conn frame i (s\<lparr>guard := g\<rparr>) resp \<and> secured (w_config w) resp
              \<and> status_code resp = status_code routed \<and> resp_body resp = resp_body routed)))"
proof -
  let ?a = "h2_request w c (length (h2_requests conn)) s req"
  note frame = h2_headers_input [OF assms(1-9), of w c s ?a]
  have sends: "?a = Inr (s', resp) \<Longrightarrow> h2_sends w c s conn frame i s' resp" for s' resp
    using frame(1) assms(10,14) by simp
  have throws: "?a = Inl x \<Longrightarrow> h2_input w c s conn frame = Inl x" for x
    using frame(2) assms(10,14) by simp
  have a: "?a = (case waf_refuses w req of
        Some page \<Rightarrow> Inr (s\<lparr>stats := record_waf_block (stats s)\<rparr>, page)
      | None \<Rightarrow>
          (if \<not> allowed then Inr (s\<lparr>guard := g\<rparr>, make_error 429 (lit ''Too Many Requests''))
           else if is_grpc_request req then Inr (s\<lparr>guard := g\<rparr>, apply_security_headers (w_config w) (grpc_handle grpc_init req))
           else case route_request w' (he_clock e) (stats s) req (c_ip c) of
                  Inl e \<Rightarrow> Inl e
                | Inr resp \<Rightarrow> Inr (s\<lparr>guard := g\<rparr>, apply_security_headers (w_config w) resp)))"
    using assms(11-13) by (simp add: h2_request_def Let_def split: option.split sum.split)
  have secure: "\<exists>resp. h2_sends w c s conn frame i s' resp \<and> secured (w_config w) resp \<and> status_code resp = status_code r \<and> resp_body resp = resp_body r"
    if "?a = Inr (s', apply_security_headers (w_config w) r)" for s' r
    using sends [OF that] apply_security_headers_secured [of "w_config w" r]
    by (intro exI [of _ "apply_security_headers (w_config w) r"]) simp
  show ?thesis
    using a by (auto intro: sends throws secure split: sum.split)
qed

text \<open>
  Reads that time out do not end an HTTP/2 connection, however many there are: an idle client keeps its worker.
\<close>

theorem h2_timeouts_ignored:
  "h2_serve w c ws conn s (map (\<lambda>t. (t, Again)) ts @ evs) = (if h2_is_alive conn then h2_serve w c ws conn s evs else Inr (s, []))"
  by (induction ts; cases evs) auto

text \<open>The requests of an HTTP/2 connection are not counted.\<close>

theorem h2_requests_not_counted:
  assumes "handle_h2_connection w c s = Finished s' out"
  shows "total_requests (stats s') = total_requests (stats s)"
proof -
  obtain s1 where "h2_serve w c (c_writes c) h2_init s (c_reads c) = Inr (s1, out)" "s' = end_connection (c_ip c) s1"
    using assms by (auto simp: handle_h2_connection_def split: sum.splits)
  with h2_serve_changes show ?thesis
    by (fastforce simp: h2_changes_def end_connection_def metrics_defs)
qed

section \<open>A small server\<close>

definition small_config :: config where
  "small_config = config_defaults\<lparr>cfg_tls_enabled := False\<rparr>"

definition small_worker :: worker where
  "small_worker =
     \<lparr>w_config = small_config, w_tls_native = False, w_waf = no_rules, w_fs = sample_fs, w_file_handler = sample_handler,
      w_fcgi = None, w_SHA1 = (\<lambda>d. []), w_EncodeBlock = (\<lambda>d. []), w_show_fixed = (\<lambda>r. [])\<rparr>"

definition small_shared :: shared where
  "small_shared = \<lparr>guard = fst (allow_connection 0 (lit ''c'') (guard_init small_guard)), stats = metrics_init 0\<rparr>"

text \<open>A client that sends one piece of data, half a second after its connection.\<close>

definition small_client :: "bytes \<Rightarrow> connection" where
  "small_client data =
     \<lparr>c_ip = lit ''c'', c_handshake = True, c_h2 = False, c_start = 0, c_deadline_base = 0, c_read_base = 0,
      c_reads = [(500, Got data)], c_read_end = 500, c_now = 1, c_clock = 1, c_end = 501,
      c_writes = (\<lambda>i. 100), c_sendfile = (\<lambda>i. 100),
      c_h2_env = (\<lambda>k. \<lparr>he_now = 1, he_clock = 1, he_fcgi = sample_env, he_fs = sample_fs\<rparr>)\<rparr>"

definition overlong_request :: bytes where
  "overlong_request = lit ''GET /%C0%AF HTTP/1.1'' @ crlf @ lit ''Host: h'' @ crlf @ crlf"

lemma overlong_request_complete: "snd (feed init_parser overlong_request) = COMPLETE"
  by code_simp

lemma overlong_request_refused: "waf_refuses small_worker (p_request (fst (feed init_parser overlong_request))) \<noteq> None"
proof -
  have "uri (p_request (fst (feed init_parser overlong_request))) = lit ''/%C0%AF''"
    by code_simp
  moreover have "detect_multibyte_bypass (decode_percent_utf8 (lit ''/%C0%AF''))"
    by code_simp
  ultimately show ?thesis
    by (simp add: waf_refuses_def inspect_def Let_def block_at_once_def small_worker_def small_config_def config_defaults_def)
qed

lemma overlong_request_read:
  "\<exists>m. request_read small_worker False (small_client overlong_request) small_shared (fst (feed init_parser overlong_request)) m []"
  using overlong_request_complete
  by (simp add: request_read_def small_client_def request_limit_def small_worker_def small_config_def config_defaults_def
      case_prod_unfold Let_def overlong_request_def lit_def)

lemma no_upgrade: "\<not> is_upgrade_request (file_request p)"
  by (simp add: is_upgrade_request_def file_request_def get_header_def empty_request_def Let_def)

lemma small_client_finished: "\<exists>s' out. handle_connection small_worker (small_client []) s = Finished s' out"
  by (simp add: handle_connection_def small_worker_def small_config_def small_client_def handle_http1_def answer_def Let_def
      config_defaults_def)

theorem worker_settles_witness:
  "\<exists>s' out. handle_connection small_worker (small_client []) small_shared = Finished s' out
     \<and> active_connections (stats s') = 0 \<and> m_total_connections (stats s') = 1"
proof -
  obtain s' out where f: "handle_connection small_worker (small_client []) small_shared = Finished s' out"
    using small_client_finished by blast
  show ?thesis
    using worker_settles [OF f] f by (simp add: small_shared_def metrics_init_def)
qed

theorem checks_before_service_witness:
  "\<exists>s' resp. handle_http1 small_worker False (small_client overlong_request) small_shared = Finished s' (serialize resp)
     \<and> secured small_config resp"
proof -
  obtain m where "request_read small_worker False (small_client overlong_request) small_shared
      (fst (feed init_parser overlong_request)) m []"
    using overlong_request_read by blast
  moreover have "0 < c_writes (small_client overlong_request) i" for i
    by (simp add: small_client_def)
  ultimately show ?thesis
    using checks_before_service [of small_worker False "small_client overlong_request" small_shared _ m "[]"]
      overlong_request_refused by (fastforce simp: small_worker_def)
qed

theorem static_file_sent_witness:
  "\<exists>s' out. serve_checked small_worker True (small_client []) small_shared (file_request (lit ''/a.css'')) [] = Finished s' out"
proof -
  have "case serve sample_fs sample_handler (file_request (lit ''/a.css'')) of Inr resp \<Rightarrow> True | Inl e \<Rightarrow> False"
    by code_simp
  then obtain resp where "serve sample_fs sample_handler (file_request (lit ''/a.css'')) = Inr resp"
    by (auto split: sum.splits)
  moreover have "\<not> is_upgrade_request (file_request (lit ''/a.css''))" "\<not> is_php_request (path (file_request (lit ''/a.css'')))"
    "path (file_request (lit ''/a.css'')) \<noteq> lit ''/metrics''"
    by (simp add: no_upgrade) (simp_all add: is_php_request_def file_request_def lit_def)
  moreover have "0 < c_writes (small_client []) i" "0 < c_sendfile (small_client []) i" for i
    by (simp_all add: small_client_def)
  ultimately show ?thesis
    using static_file_sent [of "file_request (lit ''/a.css'')" "small_client []" small_worker small_shared "[]"]
    by (auto simp: small_worker_def)
qed

theorem empty_path_ends_worker_witness:
  "serve_checked small_worker False (small_client []) small_shared (file_request []) [] = Thrown Out_of_range"
  by (rule empty_path_ends_worker) (simp_all add: no_upgrade, simp_all add: file_request_def)

text \<open>A request whose path is an overlong encoding of a slash is refused by the firewall over HTTP/2 too.\<close>

definition get_overlong :: "(bytes \<times> bytes) list" where
  "get_overlong = [(lit '':method'', lit ''GET''), (lit '':path'', lit ''/%C0%AF''), (lit '':authority'', lit ''h'')]"

theorem h2_checks_before_service_witness:
  "\<exists>page conn'. h2_input small_worker (small_client []) small_shared live_conn
      (h2_build_frame H2_HEADERS (END_STREAM OR END_HEADERS) 1 (encode get_overlong))
      = Inr (small_shared\<lparr>stats := record_waf_block (stats small_shared)\<rparr>, conn', build_headers_response live_conn 1 page)"
proof -
  let ?req = "build_request get_overlong empty_request"
  have fit: "length (encode get_overlong) \<le> 16384" "\<forall>h \<in> set get_overlong. header_fits h"
    using length_encode [of get_overlong] by (simp_all add: get_overlong_def lit_def header_fits_def)
  have "uri ?req = lit ''/%C0%AF''"
    using h2_request_fields [of "lit ''GET''" "lit ''/%C0%AF''" "lit ''h''"] by (simp add: get_overlong_def)
  moreover have "detect_multibyte_bypass (decode_percent_utf8 (lit ''/%C0%AF''))"
    by code_simp
  ultimately obtain page where "waf_refuses small_worker ?req = Some page"
    by (simp add: waf_refuses_def inspect_def Let_def block_at_once_def small_worker_def small_config_def config_defaults_def)
  then show ?thesis
    using h2_checks_before_service [of live_conn 1 get_overlong ?req _ "small_client []" small_shared _ _ _ small_worker, OF _ _ _ _ _ _ _ _ _ refl refl _ refl refl] fit
    by (cases "allow_request (he_now (c_h2_env (small_client []) (length (h2_requests live_conn)))) (c_ip (small_client [])) (guard small_shared)")
      (fastforce simp: h2_sends_def live_conn_def h2_init_def h2_is_alive_def settings_in_range_def)
qed

theorem h2_requests_not_counted_witness:
  "\<exists>s' out. handle_h2_connection small_worker (small_client []) small_shared = Finished s' out
    \<and> total_requests (stats s') = total_requests (stats small_shared)"
proof -
  obtain s' out where "handle_h2_connection small_worker (small_client []) small_shared = Finished s' out"
    by (simp add: handle_h2_connection_def small_client_def h2_is_alive_def h2_init_def)
  with h2_requests_not_counted show ?thesis by blast
qed

end
