(* ===== verification/Startup.thy ===== *)
theory Startup
  imports Config
begin

text \<open>
  How the program starts (\<open>src/src/main.cpp\<close>, the first half of \<open>src/src/server.cpp\<close>): the command line, the
  start sequence with the restrictions of the process (limits, chroot, the drop of privileges, the
  system call filter) and the listening socket.

  The operating system is an argument: \<open>kn log call\<close> is whether a call succeeds after the calls \<open>log\<close>
  (for \<open>getuid\<close>: whether the answer is not 0).  The filter is modelled itself: it is a BPF program, and
  once it is installed a call succeeds only if the program allows its number.

  Shown: the filter allows exactly its list, on every architecture; a server that listens has never
  installed the filter, because the calls that open the socket come after it and are not on the
  list; privileges are given up before the socket is bound; and the check that they are gone has no effect.
\<close>

section \<open>The system call filter\<close>

datatype sock_filter = LD_nr | JEQ u32 nat nat | RET u32

record seccomp_data =
  nr :: u32
  arch :: u32

text \<open>The interpreter of the kernel for the instructions the filter uses: jumps are relative and forward.\<close>

function bpf_run :: "seccomp_data \<Rightarrow> u32 \<Rightarrow> sock_filter list \<Rightarrow> u32 option" where
  "bpf_run d a [] = None"
| "bpf_run d a (LD_nr # prog) = bpf_run d (nr d) prog"
| "bpf_run d a (JEQ k jt jf # prog) = bpf_run d a (drop (if a = k then jt else jf) prog)"
| "bpf_run d a (RET k # prog) = Some k"
  by pat_completeness auto
termination
  by (relation "measure (\<lambda>(d, a, prog). length prog)") auto

definition SECCOMP_RET_ALLOW :: u32 where "SECCOMP_RET_ALLOW = 0x7fff0000"
definition SECCOMP_RET_ERRNO :: u32 where "SECCOMP_RET_ERRNO = 0x00050000"
definition SECCOMP_RET_DATA :: u32 where "SECCOMP_RET_DATA = 0x0000ffff"
definition EPERM :: u32 where "EPERM = 1"

text \<open>
  The list, by the numbers of \<open>sys/syscall.h\<close> on x86-64: networking, epoll, files, memory, threads, time,
  signals, io_uring and the rest.
\<close>

definition allowlist :: "(string \<times> u32) list" where
  "allowlist =
     [(''read'', 0), (''write'', 1), (''close'', 3), (''sendto'', 44), (''recvfrom'', 45), (''sendmsg'', 46),
      (''recvmsg'', 47), (''accept4'', 288), (''socket'', 41), (''connect'', 42), (''setsockopt'', 54),
      (''getsockopt'', 55), (''shutdown'', 48),
      (''epoll_wait'', 232), (''epoll_ctl'', 233), (''epoll_pwait'', 281), (''poll'', 7),
      (''openat'', 257), (''fstat'', 5), (''newfstatat'', 262), (''lseek'', 8), (''sendfile'', 40), (''getdents64'', 217),
      (''mmap'', 9), (''munmap'', 11), (''mprotect'', 10), (''brk'', 12), (''mremap'', 25),
      (''futex'', 202), (''clone'', 56), (''clone3'', 435), (''set_robust_list'', 273), (''rseq'', 334),
      (''clock_gettime'', 228), (''gettimeofday'', 96), (''nanosleep'', 35), (''clock_nanosleep'', 230),
      (''rt_sigaction'', 13), (''rt_sigprocmask'', 14), (''rt_sigreturn'', 15),
      (''io_uring_setup'', 425), (''io_uring_enter'', 426), (''io_uring_register'', 427),
      (''exit'', 60), (''exit_group'', 231), (''fcntl'', 72), (''ioctl'', 16), (''getrandom'', 318), (''getpid'', 39),
      (''gettid'', 186), (''tgkill'', 234), (''writev'', 20), (''readv'', 19), (''pread64'', 17), (''pwrite64'', 18),
      (''madvise'', 28), (''getuid'', 102), (''getgid'', 104)]"

definition seccomp_filter :: "sock_filter list" where
  "seccomp_filter =
     LD_nr # concat (map (\<lambda>(name, n). [JEQ n 0 1, RET SECCOMP_RET_ALLOW]) allowlist)
     @ [RET (SECCOMP_RET_ERRNO OR (EPERM AND SECCOMP_RET_DATA))]"

section \<open>The process\<close>

datatype os_call =
    Setrlimit_as u64 | Setrlimit_nofile u64 | Chroot bytes | Setgroups | Setgid u32 | Setuid u32 | Sigpipe_ignore
  | Getuid | Prctl_no_new_privs | Prctl_seccomp | Socket | Setsockopt | Bind bytes u16 | Listen int | Fcntl
  | Epoll_create1 | Epoll_ctl

fun syscall_nr :: "os_call \<Rightarrow> u32" where
  "syscall_nr (Setrlimit_as n) = 160" | "syscall_nr (Setrlimit_nofile n) = 160" | "syscall_nr (Chroot p) = 161"
| "syscall_nr Setgroups = 116" | "syscall_nr (Setgid g) = 106" | "syscall_nr (Setuid u) = 105"
| "syscall_nr Sigpipe_ignore = 13" | "syscall_nr Getuid = 102" | "syscall_nr Prctl_no_new_privs = 157"
| "syscall_nr Prctl_seccomp = 157" | "syscall_nr Socket = 41" | "syscall_nr Setsockopt = 54"
| "syscall_nr (Bind a p) = 49" | "syscall_nr (Listen n) = 50" | "syscall_nr Fcntl = 72"
| "syscall_nr Epoll_create1 = 291" | "syscall_nr Epoll_ctl = 233"

definition AUDIT_ARCH_X86_64 :: u32 where "AUDIT_ARCH_X86_64 = 0xc000003e"

record process =
  os_log :: "os_call list"
  filtered :: bool

definition fresh_process :: process where
  "fresh_process = \<lparr>os_log = [], filtered = False\<rparr>"

type_synonym kernel = "os_call list \<Rightarrow> os_call \<Rightarrow> bool"

definition os :: "kernel \<Rightarrow> os_call \<Rightarrow> process \<Rightarrow> process \<times> bool" where
  "os kn call p =
     (let ok = kn (os_log p) call \<and>
           (filtered p \<longrightarrow> bpf_run \<lparr>nr = syscall_nr call, arch = AUDIT_ARCH_X86_64\<rparr> 0 seccomp_filter = Some SECCOMP_RET_ALLOW)
      in (p\<lparr>os_log := os_log p @ [call], filtered := filtered p \<or> ok \<and> call = Prctl_seccomp\<rparr>, ok))"

text \<open>A call whose result is only logged.\<close>

definition os_when :: "kernel \<Rightarrow> bool \<Rightarrow> os_call \<Rightarrow> process \<Rightarrow> process" where
  "os_when kn cond call p = (if cond then fst (os kn call p) else p)"

section \<open>Restricting the process\<close>

definition change_root :: "kernel \<Rightarrow> config \<Rightarrow> process \<Rightarrow> config \<times> process" where
  "change_root kn cfg p =
     (if cfg_chroot_enabled cfg then
        (let (p, ok) = os kn (Chroot (cfg_document_root cfg)) p
         in (if ok then cfg\<lparr>cfg_document_root := lit ''/''\<rparr> else cfg, p))
      else (cfg, p))"

text \<open>The drop of privileges; the result is whether root could be regained.\<close>

definition drop_privileges :: "kernel \<Rightarrow> config \<Rightarrow> process \<Rightarrow> process \<times> bool" where
  "drop_privileges kn cfg p =
     (let p = os_when kn (0 \<le> cfg_drop_gid cfg) Setgroups p;
          p = os_when kn (0 \<le> cfg_drop_gid cfg) (Setgid (of_int (cfg_drop_gid cfg))) p
      in if cfg_drop_uid cfg < 0 then (p, False)
         else let (p, ok) = os kn (Setuid (of_int (cfg_drop_uid cfg))) p
              in if ok then os kn (Setuid 0) p else (p, False))"

definition install_filter :: "kernel \<Rightarrow> config \<Rightarrow> process \<Rightarrow> process" where
  "install_filter kn cfg p =
     (if cfg_drop_uid cfg < 0 then p
      else let (p, nonroot) = os kn Getuid p
           in if \<not> nonroot then p
              else let (p, ok) = os kn Prctl_no_new_privs p in os_when kn ok Prctl_seccomp p)"

definition apply_security :: "kernel \<Rightarrow> config \<Rightarrow> process \<Rightarrow> config \<times> process \<times> bool" where
  "apply_security kn cfg p =
     (let p = os_when kn (0 < cfg_max_memory_bytes cfg) (Setrlimit_as (cfg_max_memory_bytes cfg)) p;
          p = os_when kn (0 < cfg_max_open_files cfg) (Setrlimit_nofile (of_int (cfg_max_open_files cfg))) p;
          (cfg, p) = change_root kn cfg p;
          (p, regained) = drop_privileges kn cfg p
      in if regained then (cfg, p, False)
         else (cfg, install_filter kn cfg (os_when kn True Sigpipe_ignore p), True))"

section \<open>The listening socket\<close>

definition set_nonblocking :: "kernel \<Rightarrow> process \<Rightarrow> process" where
  "set_nonblocking kn p = (let (p, ok) = os kn Fcntl p in os_when kn ok Fcntl p)"

definition setup_listener :: "kernel \<Rightarrow> (bytes \<Rightarrow> bool) \<Rightarrow> config \<Rightarrow> process \<Rightarrow> process \<times> bool" where
  "setup_listener kn inet_pton cfg p =
     (let (p, ok) = os kn Socket p
      in if \<not> ok then (p, False)
         else let p = os_when kn True Setsockopt p;
                  p = os_when kn True Setsockopt p;
                  p = os_when kn True Setsockopt p
              in if \<not> inet_pton (cfg_bind_address cfg) then (p, False)
                 else let (p, ok) = os kn (Bind (cfg_bind_address cfg) (cfg_port cfg)) p
                      in if \<not> ok then (p, False)
                         else let (p, ok) = os kn (Listen (cfg_backlog cfg)) p
                              in if \<not> ok then (p, False)
                                 else let p = set_nonblocking kn p; (p, ok) = os kn Epoll_create1 p
                                      in if \<not> ok then (p, False) else os kn Epoll_ctl p)"

text \<open>
  \<open>Server::start\<close> up to the first worker thread; \<open>tls_init\<close> is the outcome of loading the certificate.  The
  result of \<open>apply_security\<close> is not looked at.
\<close>

definition tls_config :: "bool \<Rightarrow> config \<Rightarrow> config" where
  "tls_config tls_init cfg = (if cfg_tls_enabled cfg \<and> \<not> tls_init then cfg\<lparr>cfg_tls_enabled := False\<rparr> else cfg)"

definition start :: "kernel \<Rightarrow> (bytes \<Rightarrow> bool) \<Rightarrow> bool \<Rightarrow> config \<Rightarrow> process \<Rightarrow> config \<times> process \<times> bool" where
  "start kn inet_pton tls_init cfg p =
     (let (cfg, p, ignored) = apply_security kn (tls_config tls_init cfg) p;
          (p, ok) = setup_listener kn inet_pton cfg p
      in (cfg, p, ok))"

section \<open>The command line\<close>

datatype command_line = Run config bytes | Help | Unknown bytes

fun parse_args :: "config \<Rightarrow> bytes \<Rightarrow> bytes list \<Rightarrow> cpp_exception + command_line" where
  "parse_args cfg file [] = Inr (Run cfg file)"
| "parse_args cfg file (arg # args) =
     (if arg = lit ''-c'' \<and> args \<noteq> [] then parse_args cfg (hd args) (tl args)
      else if arg = lit ''-p'' \<and> args \<noteq> [] then
        (case stoi (hd args) of Inl e \<Rightarrow> Inl e
         | Inr n \<Rightarrow> parse_args (cfg\<lparr>cfg_port := of_int n\<rparr>) file (tl args))
      else if arg = lit ''-d'' \<and> args \<noteq> [] then parse_args (cfg\<lparr>cfg_document_root := hd args\<rparr>) file (tl args)
      else if arg = lit ''-w'' \<and> args \<noteq> [] then
        (case stoi (hd args) of Inl e \<Rightarrow> Inl e
         | Inr n \<Rightarrow> parse_args (cfg\<lparr>cfg_worker_threads := n\<rparr>) file (tl args))
      else if arg = lit ''--no-tls'' then parse_args (cfg\<lparr>cfg_tls_enabled := False\<rparr>) file args
      else if arg = lit ''--no-waf'' then parse_args (cfg\<lparr>cfg_waf_enabled := False\<rparr>) file args
      else if arg = lit ''--no-fcgi'' then parse_args (cfg\<lparr>cfg_fastcgi_enabled := False\<rparr>) file args
      else if arg = lit ''-h'' \<or> arg = lit ''--help'' then Inr Help
      else Inr (Unknown arg))"

text \<open>
  The configuration the server is built with: \<open>hw\<close> is the number of processors and \<open>files\<close> the content
  of a file, if it can be opened.
\<close>

definition main_config :: "nat \<Rightarrow> (bytes \<Rightarrow> cpp_exception + real) \<Rightarrow> (bytes \<Rightarrow> bytes option) \<Rightarrow> bytes list
    \<Rightarrow> cpp_exception + command_line" where
  "main_config hw stod files args =
     (let cfg = (if 0 < hw then config_defaults\<lparr>cfg_worker_threads := int hw\<rparr> else config_defaults)
      in case parse_args cfg [] args of
           Inr (Run cfg file) \<Rightarrow>
             (if file \<noteq> [] then (case load_from_file stod (files file) of Inl e \<Rightarrow> Inl e | Inr c \<Rightarrow> Inr (Run c file))
              else Inr (Run cfg file))
         | other \<Rightarrow> other)"

section \<open>The filter allows exactly its list\<close>

lemma bpf_run_list:
  "bpf_run d a (concat (map (\<lambda>(name, n). [JEQ n 0 (Suc 0), RET ok]) xs) @ [RET no])
    = Some (if a \<in> set (map snd xs) then ok else no)"
  by (induction xs) (simp_all add: case_prod_unfold)

text \<open>
  The filter lets a call pass exactly if its number is on the list, and answers every other call with
  \<open>EPERM\<close>; the architecture of the call does not matter to it.
\<close>

theorem seccomp_allowlist:
  "bpf_run d a seccomp_filter =
     Some (if nr d \<in> set (map snd allowlist) then SECCOMP_RET_ALLOW else SECCOMP_RET_ERRNO OR EPERM)"
proof -
  have "EPERM AND SECCOMP_RET_DATA = EPERM"
    by (simp add: EPERM_def SECCOMP_RET_DATA_def)
  then show ?thesis
    by (simp add: seccomp_filter_def bpf_run_list del: set_map)
qed

lemma filter_refuses:
  "n \<notin> set (map snd allowlist) \<Longrightarrow> bpf_run \<lparr>nr = n, arch = ar\<rparr> 0 seccomp_filter \<noteq> Some SECCOMP_RET_ALLOW"
  by (simp add: seccomp_filter_def bpf_run_list del: set_map)
    (simp add: SECCOMP_RET_ALLOW_def SECCOMP_RET_ERRNO_def EPERM_def SECCOMP_RET_DATA_def)

section \<open>A listening server is not filtered\<close>

lemma filtered_os [simp]:
  "filtered (fst (os kn call p)) \<longleftrightarrow> filtered p \<or> snd (os kn call p) \<and> call = Prctl_seccomp"
  by (simp add: os_def Let_def)

lemma filtered_os_when [simp]: "call \<noteq> Prctl_seccomp \<Longrightarrow> filtered (os_when kn cond call p) = filtered p"
  by (simp add: os_when_def)

lemma filtered_set_nonblocking [simp]: "filtered (set_nonblocking kn p) = filtered p"
  by (simp add: set_nonblocking_def case_prod_unfold Let_def)

lemma bind_refused: "filtered p \<Longrightarrow> \<not> snd (os kn (Bind a port) p)"
  using filter_refuses [of 49] by (auto simp: os_def Let_def allowlist_def)

lemma setup_listener_filtered:
  "filtered (fst (setup_listener kn inet_pton cfg p)) = filtered p"
  "filtered p \<Longrightarrow> \<not> snd (setup_listener kn inet_pton cfg p)"
  by (simp_all add: setup_listener_def Let_def case_prod_unfold bind_refused)

lemma start_unfold:
  "start kn inet_pton tls_init cfg p =
     (case apply_security kn (tls_config tls_init cfg) p of
        (cfg1, p1, r) \<Rightarrow> (cfg1, setup_listener kn inet_pton cfg1 p1))"
  by (simp add: start_def Let_def case_prod_unfold)

text \<open>
  C39. A server that gets to listen runs without the filter: where the filter could be installed, \<open>bind\<close>
  comes after it and is refused, so the start fails.
\<close>

theorem listening_server_unfiltered:
  assumes "start kn inet_pton tls_init cfg fresh_process = (cfg', p, True)"
  shows "\<not> filtered p"
proof -
  obtain cfg1 p1 where "setup_listener kn inet_pton cfg1 p1 = (p, True)"
    using assms by (auto simp: start_unfold split: prod.splits)
  then show ?thesis
    using setup_listener_filtered [where kn = kn and inet_pton = inet_pton and cfg = cfg1 and p = p1] by auto
qed

theorem listening_server_unfiltered_witness:
  "\<exists>cfg p. start (\<lambda>log call. True) (\<lambda>a. True) True config_defaults fresh_process = (cfg, p, True) \<and> \<not> filtered p"
proof -
  have "snd (snd (start (\<lambda>log call. True) (\<lambda>a. True) True config_defaults fresh_process))"
    by code_simp
  then obtain cfg p where "start (\<lambda>log call. True) (\<lambda>a. True) True config_defaults fresh_process = (cfg, p, True)"
    by (metis (full_types) prod.collapse)
  with listening_server_unfiltered [OF this] show ?thesis by blast
qed

section \<open>The order of the start sequence\<close>

lemma os_log_os [simp]: "os_log (fst (os kn call p)) = os_log p @ [call]"
  by (simp add: os_def Let_def)

lemma os_log_when: "os_log (os_when kn cond call p) = os_log p @ (if cond then [call] else [])"
  by (simp add: os_when_def)

text \<open>The process has given up its privileges, or it could regain them, before the socket is bound.\<close>

lemma tls_config_fields [simp]:
  "cfg_drop_uid (tls_config t cfg) = cfg_drop_uid cfg" "cfg_port (tls_config t cfg) = cfg_port cfg"
  by (simp_all add: tls_config_def)

lemma change_root_fields [simp]:
  "cfg_drop_uid (fst (change_root kn cfg p)) = cfg_drop_uid cfg" "cfg_port (fst (change_root kn cfg p)) = cfg_port cfg"
  by (simp_all add: change_root_def case_prod_unfold Let_def)

lemma drop_privileges_log:
  "0 \<le> cfg_drop_uid cfg \<Longrightarrow> Setuid (of_int (cfg_drop_uid cfg)) \<in> set (os_log (fst (drop_privileges kn cfg p)))"
  by (simp add: drop_privileges_def case_prod_unfold Let_def)

lemma install_filter_log: "set (os_log p) \<subseteq> set (os_log (install_filter kn cfg p))"
  by (auto simp: install_filter_def case_prod_unfold Let_def os_log_when)

lemma apply_security_unfold:
  "\<exists>p'. apply_security kn cfg p =
     (let (cfg, p) = change_root kn cfg p'; (p, regained) = drop_privileges kn cfg p
      in if regained then (cfg, p, False) else (cfg, install_filter kn cfg (os_when kn True Sigpipe_ignore p), True))"
  unfolding apply_security_def Let_def by blast

lemma apply_security_drops:
  assumes "0 \<le> cfg_drop_uid cfg"
  shows "Setuid (of_int (cfg_drop_uid cfg)) \<in> set (os_log (fst (snd (apply_security kn cfg p))))"
    and "cfg_port (fst (apply_security kn cfg p)) = cfg_port cfg"
proof -
  obtain p1 where s: "apply_security kn cfg p =
     (let (cfg, p) = change_root kn cfg p1; (p, regained) = drop_privileges kn cfg p
      in if regained then (cfg, p, False) else (cfg, install_filter kn cfg (os_when kn True Sigpipe_ignore p), True))"
    using apply_security_unfold by blast
  obtain cfg2 p2 where c: "change_root kn cfg p1 = (cfg2, p2)"
    by (cases "change_root kn cfg p1")
  obtain p3 r where d: "drop_privileges kn cfg2 p2 = (p3, r)"
    by (cases "drop_privileges kn cfg2 p2")
  have f: "cfg_drop_uid cfg2 = cfg_drop_uid cfg" "cfg_port cfg2 = cfg_port cfg"
    using change_root_fields [of kn cfg p1] by (simp_all add: c)
  then have "Setuid (of_int (cfg_drop_uid cfg)) \<in> set (os_log p3)"
    using drop_privileges_log [of cfg2 kn p2] assms by (simp add: d)
  then have "Setuid (of_int (cfg_drop_uid cfg)) \<in> set (os_log (install_filter kn cfg2 (os_when kn True Sigpipe_ignore p3)))"
    using install_filter_log [of "os_when kn True Sigpipe_ignore p3" kn cfg2] by (auto simp: os_log_when)
  with \<open>Setuid (of_int (cfg_drop_uid cfg)) \<in> set (os_log p3)\<close>
  show "Setuid (of_int (cfg_drop_uid cfg)) \<in> set (os_log (fst (snd (apply_security kn cfg p))))"
    by (simp add: s c d)
  show "cfg_port (fst (apply_security kn cfg p)) = cfg_port cfg"
    by (simp add: s c d f)
qed

text \<open>
  Where only root may bind a port below 1024 (in the kernel's terms: not after \<open>setuid\<close> to another
  user), a server that gives up root cannot listen on such a port, although it was started by root.
\<close>

theorem low_port_refused_after_drop:
  assumes "0 \<le> cfg_drop_uid cfg" and "cfg_port cfg < 1024"
    and "\<And>log a port. Setuid (of_int (cfg_drop_uid cfg)) \<in> set log \<Longrightarrow> port < 1024 \<Longrightarrow> \<not> kn log (Bind a port)"
  shows "\<not> snd (snd (start kn inet_pton tls_init cfg fresh_process))"
proof -
  obtain cfg1 p1 r where s: "apply_security kn (tls_config tls_init cfg) fresh_process = (cfg1, p1, r)"
    by (metis prod_cases3)
  have u: "Setuid (of_int (cfg_drop_uid cfg)) \<in> set (os_log p1)" and "cfg_port cfg1 < 1024"
    using apply_security_drops [of "tls_config tls_init cfg" kn fresh_process] assms(1,2) by (simp_all add: s)
  then have "\<not> snd (os kn (Bind a (cfg_port cfg1)) p)" if "Setuid (of_int (cfg_drop_uid cfg)) \<in> set (os_log p)" for a p
    using assms(3) that by (auto simp: os_def Let_def)
  then have "\<not> snd (setup_listener kn inet_pton cfg1 p1)"
    by (simp add: setup_listener_def Let_def case_prod_unfold os_log_when u)
  then show ?thesis
    by (simp add: start_unfold s)
qed

definition root_only_ports :: kernel where
  "root_only_ports past call \<longleftrightarrow> (case call of Bind a port \<Rightarrow> 1024 \<le> port \<or> (\<forall>u \<in> set past. u \<noteq> Setuid 33) | _ \<Rightarrow> True)"

theorem low_port_refused_after_drop_witness:
  "\<not> snd (snd (start root_only_ports (\<lambda>a. True) True (config_defaults\<lparr>cfg_port := 443, cfg_drop_uid := 33\<rparr>) fresh_process))"
  using low_port_refused_after_drop [of "config_defaults\<lparr>cfg_port := 443, cfg_drop_uid := 33\<rparr>" root_only_ports]
  by (auto simp: root_only_ports_def)

text \<open>
  A process that can regain root after the drop of privileges is told to abort, and serves all the same.
\<close>

theorem regained_root_serves:
  assumes "0 \<le> cfg_drop_uid cfg"
  shows "snd (snd (apply_security (\<lambda>log call. True) cfg fresh_process)) = False
    \<and> snd (snd (start (\<lambda>log call. True) (\<lambda>a. True) True cfg fresh_process))"
proof -
  have os: "snd (os (\<lambda>log call. True) call p)" if "\<not> filtered p" for call p
    using that by (simp add: os_def Let_def)
  obtain cfg1 p1 r where s: "apply_security (\<lambda>log call. True) cfg fresh_process = (cfg1, p1, r)"
    by (metis prod_cases3)
  have f: "\<not> filtered fresh_process"
    by (simp add: fresh_process_def)
  have "\<not> r \<and> \<not> filtered p1"
    using s assms f by (auto simp: apply_security_def change_root_def drop_privileges_def case_prod_unfold Let_def os split: if_splits)
  moreover from this have "snd (setup_listener (\<lambda>log call. True) (\<lambda>a. True) cfg1 p1)"
    by (simp add: setup_listener_def Let_def case_prod_unfold os)
  ultimately show ?thesis
    by (simp add: start_unfold s tls_config_def)
qed

section \<open>The command line\<close>

text \<open>With \<open>-c\<close>, every other option is lost: the file replaces the configuration.\<close>

theorem options_lost_with_file:
  assumes "main_config hw stod files args = Inr (Run cfg file)" and "file \<noteq> []"
  shows "load_from_file stod (files file) = Inr cfg"
  using assms by (auto simp: main_config_def Let_def split: sum.splits command_line.splits if_splits)

text \<open>Without it, the options are what the command line says, whatever the order.\<close>

theorem option_port:
  assumes "-(2 ^ 31) \<le> n" and "n < 2 ^ 31"
  shows "parse_args cfg file (lit ''-p'' # to_string n # args) = parse_args (cfg\<lparr>cfg_port := of_int n\<rparr>) file args"
  using assms by (simp add: lit_eq_iff stoi_def sto_int_to_string)

end
