(* ===== verification/Server.thy ===== *)
theory Server
  imports Worker Startup
begin

text \<open>
  The running server (\<open>event_loop\<close>, \<open>worker_thread_func\<close>, \<open>stop\<close> and \<open>reload_config\<close> of \<open>src/src/server.cpp\<close>): the thread
  that accepts connections, the queue, the worker threads and the signals, as a relation of steps.
  A step is one call of the guard, one call of the metrics, one visit to the queue under its lock or one call of the
  condition variable; any other thread may get in between two of them.

  The event loop polls, has been refused or granted a connection by the guard, has pushed it to the queue, or has ended.
  A worker is at the head of its loop, wants the lock of the queue, has found nothing to do and still holds the lock
  (\<open>Checked\<close>), sleeps, has taken a connection, has counted it, is inside the connection (\<open>Handling\<close>), is done with it and
  has still to release it, to count the disconnection and to count itself as idle, or has returned.  How long a
  worker stays inside a connection is up to the client; there it may charge requests and change counters that are
  not gauges.  What a connection does to the shared state is taken from \<open>Worker\<close>: every run of \<open>handle_connection\<close> that ends is a
  sequence of steps here.  An exception that leaves \<open>handle_connection\<close> ends the program, and the run with it.

  A call of the guard is one step.  All of it runs under the mutex of the guard, but for the first line of
  \<open>allow_connection\<close>, which reads the total before; only the event loop makes the total grow and only one thread runs the event loop,
  so between that line and the rest of the call the total only falls and the call decides as it does here.  The writes of a reload to the configuration are one step
  as well; nothing shown here reads them.

  Shown: the books of the guard and the gauges are exact in every reachable state, so the connections the server
  has granted and not yet released never exceed the limit; after \<open>stop\<close> a worker makes a bounded number of steps outside its connection,
  whatever the other threads do, and is never stuck, unless it missed the notification, and such a one sleeps for ever.
\<close>

section \<open>State\<close>

type_synonym pending_connection = "int \<times> bytes"

datatype worker_state =
    At_loop | Waiting | Checked | Blocked | Taken pending_connection | Counted pending_connection
  | Handling pending_connection | Closing pending_connection | Released | Disconnected | Returned

datatype loop_state = Polling | Denied | Granted pending_connection | Pushed | Loop_left

record server =
  running :: bool
  stop_notify :: bool
  reload_requested :: bool
  sv_config :: config
  sv_shared :: shared
  pending :: "pending_connection list"
  workers :: "worker_state list"
  loop_at :: loop_state

definition guard_settings_of :: "config \<Rightarrow> guard_config" where
  "guard_settings_of cfg =
     \<lparr>max_connections_per_ip = cfg_max_connections_per_ip cfg, max_total_connections = cfg_max_total_connections cfg,
      rate_limit_rps = cfg_rate_limit_rps cfg, rate_limit_burst = cfg_rate_limit_burst cfg\<rparr>"

text \<open>The server when \<open>start\<close> has started its workers and enters the event loop.\<close>

definition server_init :: "int \<Rightarrow> config \<Rightarrow> server" where
  "server_init clock cfg =
     \<lparr>running = True, stop_notify = False, reload_requested = False, sv_config = cfg,
      sv_shared = \<lparr>guard = guard_init (guard_settings_of cfg), stats = metrics_init clock\<rparr>, pending = [],
      workers = replicate (nat (cfg_worker_threads cfg)) At_loop, loop_at = Polling\<rparr>"

section \<open>The condition variable\<close>

definition mutex_free :: "server \<Rightarrow> bool" where
  "mutex_free s \<longleftrightarrow> Checked \<notin> set (workers s)"

definition set_worker :: "nat \<Rightarrow> worker_state \<Rightarrow> server \<Rightarrow> server" where
  "set_worker i w s = s\<lparr>workers := (workers s)[i := w]\<rparr>"

definition woken :: "worker_state \<Rightarrow> worker_state" where
  "woken w = (if w = Blocked then Waiting else w)"

definition notify_one :: "nat \<Rightarrow> server \<Rightarrow> server" where
  "notify_one i s = (if i < length (workers s) then set_worker i (woken (workers s ! i)) s else s)"

definition notify_all :: "server \<Rightarrow> server" where
  "notify_all s = s\<lparr>workers := map woken (workers s)\<rparr>"

section \<open>The event loop\<close>

definition accept_one :: "real \<Rightarrow> pending_connection \<Rightarrow> server \<Rightarrow> server" where
  "accept_one now conn s =
     (let (g, allowed) = allow_connection now (snd conn) (guard (sv_shared s))
      in s\<lparr>sv_shared := (sv_shared s)\<lparr>guard := g\<rparr>, loop_at := if allowed then Granted conn else Denied\<rparr>)"

definition count_denied :: "server \<Rightarrow> server" where
  "count_denied s = s\<lparr>sv_shared := (sv_shared s)\<lparr>stats := record_blocked_ip (stats (sv_shared s))\<rparr>, loop_at := Polling\<rparr>"

definition enqueue :: "pending_connection \<Rightarrow> server \<Rightarrow> server" where
  "enqueue conn s = s\<lparr>pending := pending s @ [conn], loop_at := Pushed\<rparr>"

text \<open>The part of a new configuration that a reload takes over; without a file there is none.\<close>

definition reload :: "config option \<Rightarrow> server \<Rightarrow> server" where
  "reload new s =
     (let s = s\<lparr>reload_requested := False\<rparr>
      in case new of
           None \<Rightarrow> s
         | Some n \<Rightarrow>
             s\<lparr>sv_shared := (sv_shared s)\<lparr>guard := set_max_per_ip (cfg_max_connections_per_ip n) (guard (sv_shared s))\<rparr>,
               sv_config := (sv_config s)\<lparr>cfg_waf_enabled := cfg_waf_enabled n,
                 cfg_max_connections_per_ip := cfg_max_connections_per_ip n,
                 cfg_header_read_timeout_ms := cfg_header_read_timeout_ms n,
                 cfg_request_body_timeout_ms := cfg_request_body_timeout_ms n,
                 cfg_max_request_size := cfg_max_request_size n, cfg_log_level := cfg_log_level n\<rparr>\<rparr>)"

definition stop :: "server \<Rightarrow> server" where
  "stop s = s\<lparr>running := False, stop_notify := True\<rparr>"

definition reload_config :: "server \<Rightarrow> server" where
  "reload_config s = s\<lparr>reload_requested := True\<rparr>"

section \<open>The workers\<close>

text \<open>The next step of worker \<open>i\<close>; \<open>None\<close> if it has to wait for another thread or for its client, or has returned.\<close>

definition worker_thread_func :: "nat \<Rightarrow> server \<Rightarrow> server option" where
  "worker_thread_func i s =
     (let sh = sv_shared s
      in case workers s ! i of
           At_loop \<Rightarrow> Some (set_worker i (if running s then Waiting else Returned) s)
         | Waiting \<Rightarrow>
             if \<not> mutex_free s then None
             else (case pending s of
                     conn # rest \<Rightarrow> Some (set_worker i (Taken conn) (s\<lparr>pending := rest\<rparr>))
                   | [] \<Rightarrow> Some (set_worker i (if running s then Checked else Returned) s))
         | Checked \<Rightarrow> Some (set_worker i Blocked s)
         | Blocked \<Rightarrow> None
         | Taken conn \<Rightarrow> Some (set_worker i (Counted conn) (s\<lparr>sv_shared := sh\<lparr>stats := record_connection (stats sh)\<rparr>\<rparr>))
         | Counted conn \<Rightarrow> Some (set_worker i (Handling conn) (s\<lparr>sv_shared := sh\<lparr>stats := record_worker_busy (stats sh)\<rparr>\<rparr>))
         | Handling conn \<Rightarrow> None
         | Closing conn \<Rightarrow> Some (set_worker i Released (s\<lparr>sv_shared := sh\<lparr>guard := release_connection (snd conn) (guard sh)\<rparr>\<rparr>))
         | Released \<Rightarrow> Some (set_worker i Disconnected (s\<lparr>sv_shared := sh\<lparr>stats := record_disconnection (stats sh)\<rparr>\<rparr>))
         | Disconnected \<Rightarrow> Some (set_worker i At_loop (s\<lparr>sv_shared := sh\<lparr>stats := record_worker_idle (stats sh)\<rparr>\<rparr>))
         | Returned \<Rightarrow> None)"

section \<open>Steps\<close>

text \<open>
  Who makes a step: a signal handler, the event loop, a worker outside its connection, a worker inside it, where the client decides what
  it does next and when it is done, or the condition variable, which may wake a sleeper for no reason.  A request that times out
  is counted after the release, so the counters may change there too.
\<close>

datatype actor = Signal | Loop | Worker nat | Inside nat | Spurious nat

inductive server_step :: "actor \<Rightarrow> server \<Rightarrow> server \<Rightarrow> bool" where
  accepting: "loop_at s = Polling \<Longrightarrow> server_step Loop s (accept_one now conn s)"
| denying: "loop_at s = Denied \<Longrightarrow> server_step Loop s (count_denied s)"
| pushing: "loop_at s = Granted conn \<Longrightarrow> mutex_free s \<Longrightarrow> server_step Loop s (enqueue conn s)"
| notifying: "loop_at s = Pushed \<Longrightarrow>
    Blocked \<in> set (workers s) \<longrightarrow> i < length (workers s) \<and> workers s ! i = Blocked \<Longrightarrow>
    server_step Loop s (notify_one i (s\<lparr>loop_at := Polling\<rparr>))"
| reloading: "loop_at s = Polling \<Longrightarrow> running s \<Longrightarrow> reload_requested s \<Longrightarrow> server_step Loop s (reload new s)"
| leaving: "loop_at s = Polling \<Longrightarrow> \<not> running s \<Longrightarrow> server_step Loop s (s\<lparr>loop_at := Loop_left\<rparr>)"
| failing: "loop_at s = Polling \<Longrightarrow> server_step Loop s (s\<lparr>loop_at := Loop_left\<rparr>)"
| stopping: "server_step Signal s (stop s)"
| stopped: "stop_notify s \<Longrightarrow> server_step Signal s (notify_all (s\<lparr>stop_notify := False\<rparr>))"
| hanging_up: "server_step Signal s (reload_config s)"
| working: "i < length (workers s) \<Longrightarrow> worker_thread_func i s = Some s' \<Longrightarrow> server_step (Worker i) s s'"
| charging: "i < length (workers s) \<Longrightarrow> workers s ! i = Handling conn \<Longrightarrow>
    server_step (Inside i) s
      (s\<lparr>sv_shared := (sv_shared s)\<lparr>guard := fst (allow_request now (snd conn) (guard (sv_shared s)))\<rparr>\<rparr>)"
| counting: "i < length (workers s) \<Longrightarrow> workers s ! i = Handling conn \<or> workers s ! i = Released \<Longrightarrow>
    same_counts (stats (sv_shared s)) m \<Longrightarrow> server_step (Inside i) s (s\<lparr>sv_shared := (sv_shared s)\<lparr>stats := m\<rparr>\<rparr>)"
| ending: "i < length (workers s) \<Longrightarrow> workers s ! i = Handling conn \<Longrightarrow> server_step (Inside i) s (set_worker i (Closing conn) s)"
| waking: "i < length (workers s) \<Longrightarrow> workers s ! i = Blocked \<Longrightarrow> server_step (Spurious i) s (set_worker i Waiting s)"

inductive_cases server_stepE: "server_step a s s'"

inductive server_reachable :: "server \<Rightarrow> server \<Rightarrow> bool" for s0 where
  begin_at: "server_reachable s0 s0"
| step_to: "server_reachable s0 s \<Longrightarrow> server_step a s s' \<Longrightarrow> server_reachable s0 s'"

section \<open>The connections the server holds\<close>

text \<open>
  A connection is held from the grant of the guard to the release: by the event loop until it is pushed, by the queue, and
  by the worker that took it.
\<close>

fun conn_of :: "worker_state \<Rightarrow> pending_connection list" where
  "conn_of (Taken c) = [c]"
| "conn_of (Counted c) = [c]"
| "conn_of (Handling c) = [c]"
| "conn_of (Closing c) = [c]"
| "conn_of _ = []"

fun granted_by :: "loop_state \<Rightarrow> pending_connection list" where
  "granted_by (Granted c) = [c]"
| "granted_by _ = []"

definition held_ips :: "server \<Rightarrow> bytes list" where
  "held_ips s = map snd (granted_by (loop_at s) @ pending s @ concat (map conn_of (workers s)))"

definition held_count :: "server \<Rightarrow> bytes \<Rightarrow> int" where
  "held_count s ip = int (count_list (held_ips s) ip)"

text \<open>The workers whose connection is counted as open, and those that are counted as busy.\<close>

fun counts_open :: "worker_state \<Rightarrow> bool" where
  "counts_open (Counted c) = True"
| "counts_open (Handling c) = True"
| "counts_open (Closing c) = True"
| "counts_open Released = True"
| "counts_open _ = False"

fun counts_busy :: "worker_state \<Rightarrow> bool" where
  "counts_busy (Handling c) = True"
| "counts_busy (Closing c) = True"
| "counts_busy Released = True"
| "counts_busy Disconnected = True"
| "counts_busy _ = False"

definition server_inv :: "int \<Rightarrow> nat \<Rightarrow> server \<Rightarrow> bool" where
  "server_inv cap n s \<longleftrightarrow>
     guard_books cap (guard (sv_shared s)) (held_count s)
     \<and> total_connections (guard (sv_shared s)) = int (length (held_ips s))
     \<and> active_connections (stats (sv_shared s)) = of_nat (length (filter counts_open (workers s)))
     \<and> active_workers (stats (sv_shared s)) = of_nat (length (filter counts_busy (workers s)))
     \<and> length (workers s) = n \<and> count_list (workers s) Checked \<le> 1"

lemma worker_split:
  assumes "i < length ws"
  shows "\<exists>pre post. ws = pre @ ws ! i # post \<and> (\<forall>w. ws[i := w] = pre @ w # post)"
  using id_take_nth_drop [OF assms] upd_conv_take_nth_drop [OF assms] by blast

lemma woken_same [simp]:
  "conn_of (woken w) = conn_of w" "counts_open (woken w) = counts_open w" "counts_busy (woken w) = counts_busy w"
  "woken w = Checked \<longleftrightarrow> w = Checked"
  by (cases w; simp add: woken_def)+

lemma total_allow_connection:
  "total_connections (fst (allow_connection now ip g)) = total_connections g + (if snd (allow_connection now ip g) then 1 else 0)"
  by (simp add: allow_connection_def Let_def)

lemma total_allow_request [simp]: "total_connections (fst (allow_request now ip g)) = total_connections g"
  by (simp add: allow_request_def case_prod_unfold Let_def split: option.split)

lemma total_release:
  "guard_books cap g held \<Longrightarrow> 0 < held ip \<Longrightarrow> total_connections (release_connection ip g) = total_connections g - 1"
  using guard_books_entry(2) [of cap g held ip]
  by (cases "map_of (connections g) ip") (simp_all add: release_connection_def Let_def)

lemma server_inv_init: "server_inv (cfg_max_total_connections cfg) (nat (cfg_worker_threads cfg)) (server_init clock cfg)"
proof -
  have "concat (map conn_of (replicate k At_loop)) = []" "filter counts_open (replicate k At_loop) = []" "filter counts_busy (replicate k At_loop) = []"
    "count_list (replicate k At_loop) Checked = 0" for k
    by (induction k) simp_all
  then show ?thesis
    by (simp add: server_inv_def server_init_def guard_books_def guard_init_def guard_settings_of_def active_def sum_active_def
        held_ips_def held_count_def metrics_init_def)
qed

text \<open>How the counts change when one worker changes its state.\<close>

lemma update_counts:
  assumes "i < length ws"
  shows "count_list (map snd (concat (map conn_of (ws[i := w])))) ip + count_list (map snd (conn_of (ws ! i))) ip
       = count_list (map snd (concat (map conn_of ws))) ip + count_list (map snd (conn_of w)) ip"
    and "length (concat (map conn_of (ws[i := w]))) + length (conn_of (ws ! i)) = length (concat (map conn_of ws)) + length (conn_of w)"
    and "length (filter P (ws[i := w])) + (if P (ws ! i) then 1 else 0)
       = length (filter P ws) + (if P w then 1 else 0)"
    and "count_list (ws[i := w]) Checked + (if ws ! i = Checked then 1 else 0)
       = count_list ws Checked + (if w = Checked then 1 else 0)"
proof -
  obtain pre post where s: "ws = pre @ ws ! i # post" "\<forall>w. ws[i := w] = pre @ w # post"
    using worker_split [OF assms] by blast
  obtain v where v: "v = ws ! i" by simp
  have u: "ws[i := w] = pre @ w # post" "ws = pre @ v # post"
    using s v by simp_all
  show "count_list (map snd (concat (map conn_of (ws[i := w])))) ip + count_list (map snd (conn_of (ws ! i))) ip
       = count_list (map snd (concat (map conn_of ws))) ip + count_list (map snd (conn_of w)) ip"
    "length (concat (map conn_of (ws[i := w]))) + length (conn_of (ws ! i)) = length (concat (map conn_of ws)) + length (conn_of w)"
    "length (filter P (ws[i := w])) + (if P (ws ! i) then 1 else 0)
       = length (filter P ws) + (if P w then 1 else 0)"
    "count_list (ws[i := w]) Checked + (if ws ! i = Checked then 1 else 0)
       = count_list ws Checked + (if w = Checked then 1 else 0)"
    unfolding v [symmetric] u(1) by (simp_all add: u(2))
qed

text \<open>
  A step of one worker: the queue and the shared state change with the state of the worker so that the counts stay right.
\<close>

lemma worker_update_inv:
  assumes "server_inv cap n s" and "i < length (workers s)"
    and "workers s' = (workers s)[i := w]" and "loop_at s' = loop_at s"
    and "guard_books cap (guard (sv_shared s')) (held_count s')"
    and "total_connections (guard (sv_shared s')) = int (length (held_ips s'))"
    and "active_connections (stats (sv_shared s')) + of_bool (counts_open (workers s ! i))
       = active_connections (stats (sv_shared s)) + of_bool (counts_open w)"
    and "active_workers (stats (sv_shared s')) + of_bool (counts_busy (workers s ! i))
       = active_workers (stats (sv_shared s)) + of_bool (counts_busy w)"
    and "w = Checked \<longrightarrow> workers s ! i = Checked \<or> mutex_free s"
  shows "server_inv cap n s'"
proof -
  have gauge: "x' = of_nat (length (filter P ((workers s)[i := w])))"
    if "x = of_nat (length (filter P (workers s)))" "x' + of_bool (P (workers s ! i)) = x + of_bool (P w)"
    for P and x x' :: "64 word"
  proof -
    have "of_nat (length (filter P ((workers s)[i := w]))) + of_bool (P (workers s ! i))
        = (of_nat (length (filter P (workers s))) + of_bool (P w) :: 64 word)"
      using arg_cong [OF update_counts(3) [OF assms(2), of P w], of "of_nat :: nat \<Rightarrow> 64 word"]
      by (simp split: if_splits)
    then show ?thesis
      using that by (metis add_right_cancel)
  qed
  have "count_list (workers s) Checked = 0" if "mutex_free s"
    using that by (simp add: mutex_free_def)
  then have "count_list ((workers s)[i := w]) Checked \<le> 1"
    using assms(1,9) update_counts(4) [OF assms(2), of w] by (auto simp: server_inv_def split: if_splits)
  with assms gauge show ?thesis
    by (simp add: server_inv_def)
qed

text \<open>A step that keeps the connection and does not touch the guard.\<close>

lemma same_conn_inv:
  assumes "server_inv cap n s" and "i < length (workers s)" and "conn_of w = conn_of (workers s ! i)"
    and "workers s' = (workers s)[i := w]" and "loop_at s' = loop_at s" and "pending s' = pending s"
    and "guard (sv_shared s') = guard (sv_shared s)"
    and "active_connections (stats (sv_shared s')) + of_bool (counts_open (workers s ! i))
       = active_connections (stats (sv_shared s)) + of_bool (counts_open w)"
    and "active_workers (stats (sv_shared s')) + of_bool (counts_busy (workers s ! i))
       = active_workers (stats (sv_shared s)) + of_bool (counts_busy w)"
    and "w = Checked \<longrightarrow> workers s ! i = Checked \<or> mutex_free s"
  shows "server_inv cap n s'"
proof (rule worker_update_inv [OF assms(1,2,4,5)])
  have "held_count s' = held_count s"
    using update_counts(1) [OF assms(2), of w] assms(3-6) by (simp add: fun_eq_iff held_count_def held_ips_def)
  then show "guard_books cap (guard (sv_shared s')) (held_count s')"
    using assms(1,7) by (simp add: server_inv_def)
  show "total_connections (guard (sv_shared s')) = int (length (held_ips s'))"
    using assms(1,3-7) update_counts(2) [OF assms(2), of w] by (simp add: server_inv_def held_ips_def)
qed (use assms in auto)

lemma set_worker_inv:
  assumes "server_inv cap n s" and "i < length (workers s)" and "conn_of w = conn_of (workers s ! i)"
    and "counts_open w = counts_open (workers s ! i)" and "counts_busy w = counts_busy (workers s ! i)"
    and "w = Checked \<longrightarrow> workers s ! i = Checked \<or> mutex_free s"
  shows "server_inv cap n (set_worker i w s)"
  by (rule same_conn_inv [OF assms(1-3)]) (use assms in \<open>simp_all add: set_worker_def\<close>)

lemma loop_at_inv: "granted_by l = granted_by (loop_at s) \<Longrightarrow> server_inv cap n (s\<lparr>loop_at := l\<rparr>) = server_inv cap n s"
  by (simp add: server_inv_def held_ips_def held_count_def [abs_def])

lemma notify_one_inv: "server_inv cap n s \<Longrightarrow> server_inv cap n (notify_one i s)"
  by (simp add: notify_one_def set_worker_inv)

lemma notify_all_inv: "server_inv cap n s \<Longrightarrow> server_inv cap n (notify_all s)"
proof -
  have "concat (map conn_of (map woken ws)) = concat (map conn_of ws)"
    "length (filter counts_open (map woken ws)) = length (filter counts_open ws)"
    "length (filter counts_busy (map woken ws)) = length (filter counts_busy ws)"
    "count_list (map woken ws) Checked = count_list ws Checked" for ws
    by (induction ws) auto
  then show "server_inv cap n s \<Longrightarrow> server_inv cap n (notify_all s)"
    by (simp add: server_inv_def notify_all_def held_ips_def held_count_def [abs_def])
qed

text \<open>The steps of the event loop.\<close>

lemma accept_one_inv:
  assumes "server_inv cap n s" and "loop_at s = Polling"
  shows "server_inv cap n (accept_one now conn s)"
proof -
  let ?ip = "snd conn" and ?g = "guard (sv_shared s)"
  obtain g ok where a: "allow_connection now ?ip ?g = (g, ok)"
    by (cases "allow_connection now ?ip ?g")
  have "guard_books cap ?g (held_count s)"
    using assms(1) by (simp add: server_inv_def)
  then have "guard_books cap g (if ok then (held_count s)(?ip := held_count s ?ip + 1) else held_count s)"
    using guard_books_connection [OF _ a] by blast
  moreover have "held_count (accept_one now conn s) = (if ok then (held_count s)(?ip := held_count s ?ip + 1) else held_count s)"
    using assms(2) by (auto simp: fun_eq_iff held_count_def held_ips_def accept_one_def a)
  ultimately show ?thesis
    using assms total_allow_connection [of now ?ip ?g]
    by (cases ok) (simp_all add: server_inv_def accept_one_def a held_ips_def)
qed

lemma count_denied_inv: "server_inv cap n s \<Longrightarrow> loop_at s = Denied \<Longrightarrow> server_inv cap n (count_denied s)"
  by (simp add: server_inv_def count_denied_def held_ips_def held_count_def [abs_def] metrics_defs)

lemma enqueue_inv:
  assumes "server_inv cap n s" and "loop_at s = Granted conn"
  shows "server_inv cap n (enqueue conn s)"
proof -
  have "held_count (enqueue conn s) = held_count s" "length (held_ips (enqueue conn s)) = length (held_ips s)"
    using assms(2) by (simp_all add: fun_eq_iff held_count_def held_ips_def enqueue_def)
  with assms(1) show ?thesis
    by (simp add: server_inv_def) (simp add: enqueue_def)
qed

lemma reload_inv: "server_inv cap n s \<Longrightarrow> server_inv cap n (reload new s)"
  by (simp add: server_inv_def reload_def Let_def held_ips_def held_count_def [abs_def] guard_books_max_per_ip split: option.split)
    (simp add: set_max_per_ip_def)

text \<open>The steps of a worker that move a connection: from the queue, and back to the guard.\<close>

lemma take_inv:
  assumes "server_inv cap n s" and "i < length (workers s)" and "workers s ! i = Waiting" and "pending s = conn # rest"
  shows "server_inv cap n (set_worker i (Taken conn) (s\<lparr>pending := rest\<rparr>))" (is "server_inv cap n ?s'")
proof (rule worker_update_inv [OF assms(1,2), where w = "Taken conn"])
  note u = update_counts(1,2) [OF assms(2), of "Taken conn"]
  have "held_count ?s' = held_count s"
    using u(1) assms(3,4) by (simp add: fun_eq_iff held_count_def held_ips_def set_worker_def)
  then show "guard_books cap (guard (sv_shared ?s')) (held_count ?s')"
    using assms(1) by (simp add: server_inv_def set_worker_def)
  show "total_connections (guard (sv_shared ?s')) = int (length (held_ips ?s'))"
    using assms u(2) by (simp add: server_inv_def held_ips_def set_worker_def)
qed (use assms(3) in \<open>simp_all add: set_worker_def\<close>)

lemma release_inv:
  assumes "server_inv cap n s" and "i < length (workers s)" and "workers s ! i = Closing conn"
    and "sh = (sv_shared s)\<lparr>guard := release_connection (snd conn) (guard (sv_shared s))\<rparr>"
  shows "server_inv cap n (set_worker i Released (s\<lparr>sv_shared := sh\<rparr>))" (is "server_inv cap n ?s'")
proof (rule worker_update_inv [OF assms(1,2), where w = Released])
  let ?ip = "snd conn"
  note u = update_counts(1,2) [OF assms(2), of Released]
  have held: "0 < held_count s ?ip"
    using u(1) [of ?ip] assms(3) by (simp add: held_count_def held_ips_def)
  have b: "guard_books cap (guard (sv_shared s)) (held_count s)"
    using assms(1) by (simp add: server_inv_def)
  have "held_count ?s' ip = ((held_count s)(?ip := held_count s ?ip - 1)) ip" for ip
    using u(1) [of ip] assms(3) by (auto simp: held_count_def held_ips_def set_worker_def split: if_splits)
  then have "held_count ?s' = (held_count s)(?ip := held_count s ?ip - 1)"
    by blast
  then show "guard_books cap (guard (sv_shared ?s')) (held_count ?s')"
    using guard_books_release [OF b held] by (simp add: assms(4) set_worker_def)
  show "total_connections (guard (sv_shared ?s')) = int (length (held_ips ?s'))"
    using assms(1,3) total_release [OF b held] u(2) by (simp add: server_inv_def assms(4) set_worker_def held_ips_def)
qed (use assms(3,4) in \<open>simp_all add: set_worker_def\<close>)

lemma worker_inv:
  assumes "server_inv cap n s" and "i < length (workers s)" and "worker_thread_func i s = Some s'"
  shows "server_inv cap n s'"
proof (cases "workers s ! i")
  case Waiting
  with assms show ?thesis
    by (cases "pending s") (auto simp: worker_thread_func_def take_inv set_worker_inv split: if_splits)
next
  case (Closing conn)
  with assms show ?thesis
    by (auto simp: worker_thread_func_def Let_def intro!: release_inv)
next
  case (Taken conn)
  then show ?thesis
    using assms(3)
    by (intro same_conn_inv [OF assms(1,2), of "Counted conn"]) (auto simp: worker_thread_func_def set_worker_def metrics_defs Let_def)
next
  case (Counted conn)
  then show ?thesis
    using assms(3)
    by (intro same_conn_inv [OF assms(1,2), of "Handling conn"]) (auto simp: worker_thread_func_def set_worker_def metrics_defs Let_def)
next
  case Released
  then show ?thesis
    using assms(3)
    by (intro same_conn_inv [OF assms(1,2), of Disconnected]) (auto simp: worker_thread_func_def set_worker_def metrics_defs Let_def)
next
  case Disconnected
  then show ?thesis
    using assms(3)
    by (intro same_conn_inv [OF assms(1,2), of At_loop]) (auto simp: worker_thread_func_def set_worker_def metrics_defs Let_def)
qed (use assms in \<open>auto simp: worker_thread_func_def intro!: set_worker_inv split: if_splits\<close>)

lemma inside_inv:
  assumes "server_inv cap n s"
  shows "server_inv cap n (s\<lparr>sv_shared := (sv_shared s)\<lparr>guard := fst (allow_request now ip (guard (sv_shared s)))\<rparr>\<rparr>)"
    and "same_counts (stats (sv_shared s)) m \<Longrightarrow> server_inv cap n (s\<lparr>sv_shared := (sv_shared s)\<lparr>stats := m\<rparr>\<rparr>)"
  using assms by (auto simp: server_inv_def held_ips_def held_count_def [abs_def] same_counts_def guard_books_request)

lemma flags_inv [simp]:
  "server_inv cap n (s\<lparr>stop_notify := b\<rparr>) = server_inv cap n s"
  "server_inv cap n (stop s) = server_inv cap n s" "server_inv cap n (reload_config s) = server_inv cap n s"
  by (simp_all add: server_inv_def held_ips_def held_count_def [abs_def] stop_def reload_config_def)

lemmas step_inv = accept_one_inv count_denied_inv enqueue_inv reload_inv notify_one_inv notify_all_inv worker_inv inside_inv loop_at_inv

lemma server_step_inv: "server_step a s s' \<Longrightarrow> server_inv cap n s \<Longrightarrow> server_inv cap n s'"
  by (induction rule: server_step.induct) (auto simp: step_inv intro: set_worker_inv)

lemma server_reachable_inv:
  "server_reachable (server_init clock cfg) s \<Longrightarrow>
   server_inv (cfg_max_total_connections cfg) (nat (cfg_worker_threads cfg)) s"
  by (induction rule: server_reachable.induct) (auto simp: server_inv_init server_step_inv)

text \<open>
  C3. In every state the threads of the server can reach, in whatever order their calls of the guard, the queue, the condition variable and the metrics come:
  the guard counts for every address exactly the connections of it that were granted and not yet released (one the event loop has still to push,
  those in the queue and those in a worker), the total of the guard is their number and within the limit, the gauges of the metrics are the numbers of
  the workers whose connection is counted as open and of those counted as busy, and at most one worker holds the lock of the queue.
\<close>

theorem server_accounts:
  assumes "server_reachable (server_init clock cfg) s"
  shows "(\<forall>ip. active (guard (sv_shared s)) ip = int (count_list (held_ips s) ip))
    \<and> total_connections (guard (sv_shared s)) = int (length (held_ips s))
    \<and> int (length (held_ips s)) \<le> max 0 (cfg_max_total_connections cfg)
    \<and> active_connections (stats (sv_shared s)) = of_nat (length (filter counts_open (workers s)))
    \<and> active_workers (stats (sv_shared s)) = of_nat (length (filter counts_busy (workers s)))
    \<and> count_list (workers s) Checked \<le> 1"
  using server_reachable_inv [OF assms] by (auto simp: server_inv_def guard_books_def held_count_def)

section \<open>The steps are the runs of the worker\<close>

lemma server_reachable_trans: "server_reachable b c \<Longrightarrow> server_reachable a b \<Longrightarrow> server_reachable a c"
  by (induction rule: server_reachable.induct) (auto intro: server_reachable.intros)

text \<open>A worker inside a connection may charge any number of requests.\<close>

lemma charges_are_steps:
  assumes "i < length (workers s)" and "workers s ! i = Handling (fd, ip)"
  shows "server_reachable s (s\<lparr>sv_shared := (sv_shared s)\<lparr>guard := charges ip ts (guard (sv_shared s))\<rparr>\<rparr>)"
proof (induction ts rule: rev_induct)
  case Nil
  then show ?case
    by (simp add: charges_def begin_at)
next
  case (snoc t ts)
  let ?s = "s\<lparr>sv_shared := (sv_shared s)\<lparr>guard := charges ip ts (guard (sv_shared s))\<rparr>\<rparr>"
  have "server_step (Inside i) ?s (s\<lparr>sv_shared := (sv_shared s)\<lparr>guard := charges ip (ts @ [t]) (guard (sv_shared s))\<rparr>\<rparr>)"
    using charging [of i ?s "(fd, ip)" t] assms by (simp add: charges_def)
  with snoc show ?case
    by (rule step_to)
qed

text \<open>
  C16. Every run of \<open>handle_connection\<close> that ends is a sequence of steps of the server: from the state in which worker \<open>i\<close>
  has taken the connection to the one in which it is back at its loop and the shared state is the result of the run.
\<close>

theorem connection_is_steps:
  assumes "i < length (workers s)" and "workers s ! i = Taken (fd, c_ip c)"
    and "handle_connection w c (sv_shared s) = Finished sh out"
  shows "server_reachable s (set_worker i At_loop (s\<lparr>sv_shared := sh\<rparr>))"
proof -
  let ?ip = "c_ip c" and ?g = "guard (sv_shared s)" and ?m = "stats (sv_shared s)"
  obtain ts m where g: "guard sh = release_connection ?ip (charges ?ip ts ?g)"
    and m: "same_counts (stats (begun (sv_shared s))) m" "stats sh = record_worker_idle (record_disconnection m)"
    using handle_connection_settles [OF assms(3)] by blast
  define st where "st v sh' = set_worker i v (s\<lparr>sv_shared := sh'\<rparr>)" for v sh'
  have st: "i < length (workers (st v sh'))" "workers (st v sh') ! i = v" "sv_shared (st v sh') = sh'"
    "set_worker i v' (st v sh') = st v' sh'" "(st v sh')\<lparr>sv_shared := sh''\<rparr> = st v sh''" for v sh' v' sh''
    using assms(1) by (simp_all add: st_def set_worker_def)
  have wk: "server_reachable s (st v sh')" if "server_reachable s (st u sh'')" "worker_thread_func i (st u sh'') = Some (st v sh')"
    for u v sh' sh''
    using step_to [OF that(1) working [OF st(1) that(2)]] .
  let ?c = "(fd, ?ip)" and ?sh = "sv_shared s"
  define sh2 where "sh2 = ?sh\<lparr>guard := charges ?ip ts ?g, stats := m\<rparr>"
  have "server_reachable s (st (Taken ?c) ?sh)"
    using begin_at [of s] list_update_id [of "workers s" i] assms(2) by (simp add: st_def set_worker_def)
  then have "server_reachable s (st (Counted ?c) (?sh\<lparr>stats := record_connection ?m\<rparr>))"
    by (rule wk) (simp add: worker_thread_func_def Let_def st)
  then have "server_reachable s (st (Handling ?c) (begun ?sh))"
    by (rule wk) (simp add: worker_thread_func_def Let_def st begun_def)
  moreover have "server_reachable (st (Handling ?c) (begun ?sh)) (st (Handling ?c) ((begun ?sh)\<lparr>guard := charges ?ip ts ?g\<rparr>))"
    using charges_are_steps [OF st(1) st(2), of fd ?ip "begun ?sh" ts] by (simp add: st begun_def)
  ultimately have "server_reachable s (st (Handling ?c) ((begun ?sh)\<lparr>guard := charges ?ip ts ?g\<rparr>))"
    by (rule server_reachable_trans [rotated])
  then have "server_reachable s (st (Handling ?c) sh2)"
    by (rule step_to) (use counting [OF st(1), of "Handling ?c" "(begun ?sh)\<lparr>guard := charges ?ip ts ?g\<rparr>" ?c m] m(1)
      in \<open>simp add: st begun_def sh2_def\<close>)
  then have "server_reachable s (st (Closing ?c) sh2)"
    by (rule step_to) (use ending [OF st(1) st(2), of ?c sh2] in \<open>simp add: st\<close>)
  then have "server_reachable s (st Released (sh2\<lparr>guard := guard sh\<rparr>))"
    by (rule wk) (simp add: worker_thread_func_def Let_def st g sh2_def)
  then have "server_reachable s (st Disconnected (sh2\<lparr>guard := guard sh, stats := record_disconnection m\<rparr>))"
    by (rule wk) (simp add: worker_thread_func_def Let_def st sh2_def)
  then have "server_reachable s (st At_loop (sh2\<lparr>guard := guard sh, stats := stats sh\<rparr>))"
    by (rule wk) (simp add: worker_thread_func_def Let_def st sh2_def m(2))
  moreover have "sh2\<lparr>guard := guard sh, stats := stats sh\<rparr> = sh"
    by (cases sh) (simp add: sh2_def)
  ultimately show ?thesis
    by (simp add: st_def)
qed

section \<open>Stopping\<close>

text \<open>A run of the server: the threads that make its steps, in order.\<close>

inductive server_run :: "actor list \<Rightarrow> server \<Rightarrow> server \<Rightarrow> bool" where
  run_nil: "server_run [] s s"
| run_step: "server_step a s t \<Longrightarrow> server_run as t u \<Longrightarrow> server_run (a # as) s u"

inductive_cases server_runE: "server_run as s s'"

text \<open>How many steps a worker of a stopped server has left outside its connection, if it does not sleep.\<close>

fun steps_left :: "worker_state \<Rightarrow> nat" where
  "steps_left Waiting = 7"
| "steps_left (Taken c) = 6"
| "steps_left (Counted c) = 5"
| "steps_left (Handling c) = 4"
| "steps_left (Closing c) = 4"
| "steps_left Released = 3"
| "steps_left Disconnected = 2"
| "steps_left At_loop = 1"
| "steps_left Returned = 0"
| "steps_left Checked = 0"
| "steps_left Blocked = 0"

definition awake :: "server \<Rightarrow> bool" where
  "awake s \<longleftrightarrow> \<not> running s \<and> Checked \<notin> set (workers s) \<and> Blocked \<notin> set (workers s)"

text \<open>One worker changes its state; the others stay.\<close>

lemma awake_update:
  assumes "awake s" and "i < length (workers s)" and "workers s' = (workers s)[i := w]" and "running s' = running s"
    and "w \<noteq> Checked" and "w \<noteq> Blocked" and "d + steps_left w \<le> steps_left (workers s ! i)"
  shows "awake s' \<and> length (workers s') = length (workers s)
    \<and> steps_left (workers s' ! j) + (if j = i then d else 0) \<le> steps_left (workers s ! j)"
  using assms set_update_subset_insert [of "workers s" i w] by (auto simp: awake_def nth_list_update)

lemma awake_same:
  assumes "awake s" and "workers s' = workers s" and "running s' \<longrightarrow> running s"
  shows "awake s' \<and> length (workers s') = length (workers s) \<and> steps_left (workers s' ! j) \<le> steps_left (workers s ! j)"
  using assms by (auto simp: awake_def)

lemma awake_notify:
  assumes "awake s"
  shows "notify_one i s = s" "notify_all s = s"
proof -
  have woken: "woken w = w" if "w \<in> set (workers s)" for w
    using that assms by (auto simp: awake_def woken_def)
  then show "notify_one i s = s"
    by (simp add: notify_one_def set_worker_def)
  have "map woken (workers s) = workers s"
    using woken by (simp add: map_idI)
  then show "notify_all s = s"
    by (simp add: notify_all_def)
qed

lemma awake_worker:
  assumes "awake s" and "i < length (workers s)" and "worker_thread_func i s = Some s'"
  shows "awake s' \<and> length (workers s') = length (workers s)
    \<and> steps_left (workers s' ! j) + (if j = i then 1 else 0) \<le> steps_left (workers s ! j)"
proof -
  have "\<not> running s" "workers s ! i \<noteq> Checked"
    using assms(1,2) nth_mem by (fastforce simp: awake_def)+
  then obtain w where "workers s' = (workers s)[i := w]" "running s' = running s" "w \<noteq> Checked" "w \<noteq> Blocked"
    "1 + steps_left w \<le> steps_left (workers s ! i)"
    using assms(3) by (auto simp: worker_thread_func_def set_worker_def Let_def split: worker_state.splits if_splits list.splits)
  then show ?thesis
    by (rule awake_update [OF assms(1,2)])
qed

lemma awake_step:
  assumes "server_step a s s'" and "awake s"
  shows "awake s' \<and> length (workers s') = length (workers s)
    \<and> steps_left (workers s' ! j) + (if a = Worker j then 1 else 0) \<le> steps_left (workers s ! j)"
  using assms(1)
proof cases
  case (notifying i)
  then show ?thesis
    using awake_same [OF assms(2), of "s\<lparr>loop_at := Polling\<rparr>" j] awake_notify(1) [of "s\<lparr>loop_at := Polling\<rparr>" i] by simp
next
  case stopped
  then show ?thesis
    using awake_same [OF assms(2), of "s\<lparr>stop_notify := False\<rparr>" j] awake_notify(2) [of "s\<lparr>stop_notify := False\<rparr>"] by simp
next
  case (working i)
  then show ?thesis
    using awake_worker [OF assms(2) working(2,3), of j] by (auto split: if_splits)
next
  case (ending i conn)
  then show ?thesis
    using awake_update [OF assms(2) ending(3), of s' "Closing conn" 0 j] by (simp add: set_worker_def)
next
  case (waking i)
  then show ?thesis
    using assms(2) nth_mem by (fastforce simp: awake_def)
qed (use awake_same [OF assms(2), of s' j] in
  \<open>simp_all add: accept_one_def count_denied_def enqueue_def reload_def stop_def reload_config_def case_prod_unfold Let_def split: option.splits\<close>)

lemma awake_run:
  assumes "server_run as s s'" and "awake s"
  shows "awake s' \<and> length (workers s') = length (workers s)
    \<and> count_list as (Worker j) + steps_left (workers s' ! j) \<le> steps_left (workers s ! j)"
  using assms
proof (induction rule: server_run.induct)
  case (run_step a s t as u)
  then show ?case
    using awake_step [OF run_step(1) run_step(4), of j] by auto
qed simp

lemma steps_left_le: "steps_left w \<le> 7"
  by (cases w) simp_all

text \<open>A worker that has not returned and is not inside a connection can go on.\<close>

lemma awake_can_go_on:
  assumes "awake s" and "i < length (workers s)" and "workers s ! i \<noteq> Returned" and "\<forall>c. workers s ! i \<noteq> Handling c"
  shows "\<exists>s'. server_step (Worker i) s s'"
proof -
  have "workers s ! i \<noteq> Blocked" "mutex_free s"
    using assms(1,2) nth_mem by (fastforce simp: awake_def mutex_free_def)+
  then have "\<exists>s'. worker_thread_func i s = Some s'"
    using assms(3,4) by (cases "workers s ! i") (auto simp: worker_thread_func_def Let_def split: list.split)
  then show ?thesis
    using assms(2) working by blast
qed

text \<open>
  C17. The workers of a stopped server that have all got the notification end, as far as their clients let them: in any run of the
  threads, in whatever order, a worker makes at most seven steps outside its connection, and at
  every moment it has returned, can make its next step, or is inside a connection, where it may stay as long as
  its client wants.
\<close>

theorem stopped_workers_end:
  assumes "\<not> running s" and "Checked \<notin> set (workers s)" and "Blocked \<notin> set (workers s)" and "server_run as s s'"
    and "i < length (workers s)"
  shows "count_list as (Worker i) \<le> 7
    \<and> (workers s' ! i = Returned \<or> (\<exists>conn. workers s' ! i = Handling conn) \<or> (\<exists>s''. server_step (Worker i) s' s''))"
proof -
  have "awake s"
    using assms(1-3) by (simp add: awake_def)
  from awake_run [OF assms(4) this, of i] show ?thesis
    using awake_can_go_on [of s' i] steps_left_le [of "workers s ! i"] assms(5) by auto
qed

text \<open>
  C40. \<open>stop\<close> does not take the lock of the queue.  A worker that has found the queue empty and has not yet gone to
  sleep misses the notification; when the event loop has ended too, no thread of the server can make a
  step, so \<open>start\<close> waits for that worker for ever (unless it is woken for no reason, or by another signal).
\<close>

theorem stop_can_be_missed:
  assumes "cfg_worker_threads cfg = 1"
  shows "\<exists>s. server_reachable (server_init clock cfg) s \<and> \<not> running s \<and> \<not> stop_notify s \<and> workers s = [Blocked]
    \<and> (\<forall>a s'. server_step a s s' \<longrightarrow> a = Signal \<or> (\<exists>i. a = Spurious i))"
proof -
  let ?s0 = "server_init clock cfg"
  let ?st = "\<lambda>r n w l. ?s0\<lparr>running := r, stop_notify := n, workers := [w], loop_at := l\<rparr>"
  have s0: "?st True False At_loop Polling = ?s0"
    using assms by (simp add: server_init_def)
  have w: "server_step (Worker 0) (?st r n w l) (?st r n w' l)"
    if "worker_thread_func 0 (?st r n w l) = Some (?st r n w' l)" for r n w w' l
    by (rule working) (use that in simp_all)
  have p: "pending ?s0 = []"
    by (simp add: server_init_def)
  have "server_reachable ?s0 (?st True False At_loop Polling)"
    unfolding s0 by (rule begin_at)
  then have "server_reachable ?s0 (?st True False Waiting Polling)"
    by (rule step_to) (rule w, simp add: worker_thread_func_def set_worker_def)
  then have "server_reachable ?s0 (?st True False Checked Polling)"
    by (rule step_to) (rule w, simp add: worker_thread_func_def set_worker_def mutex_free_def p)
  then have "server_reachable ?s0 (?st False True Checked Polling)"
    by (rule step_to [where a = Signal]) (use stopping [of "?st True False Checked Polling"] in \<open>simp add: stop_def server_init_def\<close>)
  then have "server_reachable ?s0 (?st False False Checked Polling)"
    by (rule step_to [where a = Signal])
      (use stopped [of "?st False True Checked Polling"] in \<open>simp add: notify_all_def woken_def server_init_def\<close>)
  then have "server_reachable ?s0 (?st False False Blocked Polling)"
    by (rule step_to) (rule w, simp add: worker_thread_func_def set_worker_def)
  then have "server_reachable ?s0 (?st False False Blocked Loop_left)"
    by (rule step_to [where a = Loop]) (use leaving [of "?st False False Blocked Polling"] in \<open>simp add: server_init_def\<close>)
  moreover have "a = Signal \<or> (\<exists>i. a = Spurious i)" if "server_step a (?st False False Blocked Loop_left) s'" for a s'
    using that by cases (auto simp: worker_thread_func_def)
  ultimately show ?thesis
    by (intro exI [of _ "?st False False Blocked Loop_left"]) simp
qed

text \<open>
  An error of \<open>epoll_wait\<close> ends the event loop and leaves \<open>running_\<close> set: a worker that has nothing to do then
  sleeps, and nothing but a signal ends the program, although no connection is accepted any more.
\<close>

theorem failed_loop_leaves_workers:
  assumes "loop_at s = Loop_left" and "running s" and "pending s = []" and "set (workers s) \<subseteq> {Blocked}" and "\<not> stop_notify s"
    and "server_step a s s'"
  shows "a = Signal \<or> (\<exists>i. a = Spurious i)"
proof -
  have "workers s ! i = Blocked" if "i < length (workers s)" for i
    using assms(4) nth_mem [OF that] by blast
  with assms(6) show ?thesis
    by cases (auto simp: assms(1) worker_thread_func_def)
qed

section \<open>A small server\<close>

definition one_worker :: config where
  "one_worker = config_defaults\<lparr>cfg_worker_threads := 1\<rparr>"

lemma one_worker_workers: "workers (server_init clock one_worker) = [At_loop]"
  by (simp add: server_init_def one_worker_def)

text \<open>The client is granted a connection and the event loop has still to push it: the guard counts it already.\<close>

theorem server_accounts_witness:
  "let s = accept_one 0 (5, lit ''c'') (server_init 0 one_worker)
   in loop_at s = Granted (5, lit ''c'') \<and> pending s = [] \<and> active (guard (sv_shared s)) (lit ''c'') = 1"
proof -
  let ?init = "server_init 0 one_worker" and ?t = "accept_one 0 (5, lit ''c'') (server_init 0 one_worker)"
  have "guard (sv_shared ?init) = guard_init (guard_settings_of one_worker)"
    by (simp add: server_init_def)
  then have "snd (allow_connection 0 (lit ''c'') (guard (sv_shared ?init)))"
    by (simp add: one_worker_def config_defaults_def guard_init_def guard_settings_of_def allow_connection_def
        ip_entry_init_def Let_def)
  then have l: "loop_at ?t = Granted (5, lit ''c'')"
    by (simp add: accept_one_def case_prod_unfold Let_def)
  have p: "pending ?t = []" "workers ?t = [At_loop]"
    using one_worker_workers [of 0] by (simp_all add: accept_one_def case_prod_unfold Let_def) (simp add: server_init_def)
  have "server_reachable ?init ?t"
    by (rule step_to [OF begin_at accepting]) (simp add: server_init_def)
  moreover have "held_ips ?t = [lit ''c'']"
    using l p by (simp add: held_ips_def)
  ultimately show ?thesis
    using server_accounts [of 0 one_worker ?t] l p by (simp add: Let_def)
qed

theorem connection_is_steps_witness:
  "\<exists>sh. server_reachable ((server_init 0 one_worker)\<lparr>workers := [Taken (5, lit ''c'')]\<rparr>)
     ((server_init 0 one_worker)\<lparr>workers := [At_loop], sv_shared := sh\<rparr>)"
proof -
  let ?s = "(server_init 0 one_worker)\<lparr>workers := [Taken (5, lit ''c'')]\<rparr>"
  obtain sh out where "handle_connection small_worker (small_client []) (sv_shared ?s) = Finished sh out"
    using small_client_finished by blast
  moreover have "c_ip (small_client []) = lit ''c''"
    by (simp add: small_client_def)
  ultimately have "server_reachable ?s (set_worker 0 At_loop (?s\<lparr>sv_shared := sh\<rparr>))"
    by (intro connection_is_steps) simp_all
  then show ?thesis
    by (auto simp: set_worker_def server_init_def)
qed

text \<open>A worker of the stopped server that the event loop has still given a connection: it takes it, and may stay inside it.\<close>

theorem stopped_workers_end_witness:
  "let s = (stop (server_init 0 one_worker))\<lparr>workers := [Counted (5, lit ''c'')]\<rparr>
   in \<exists>s'. server_run [Worker 0, Loop] s s' \<and> workers s' = [Handling (5, lit ''c'')] \<and> count_list [Worker 0, Loop] (Worker 0) \<le> 7"
proof -
  let ?s = "(stop (server_init 0 one_worker))\<lparr>workers := [Counted (5, lit ''c'')]\<rparr>"
  have w: "workers ?s = [Counted (5, lit ''c'')]" "\<not> running ?s" "loop_at ?s = Polling"
    by (simp_all add: stop_def server_init_def)
  obtain s1 where s1: "worker_thread_func 0 ?s = Some s1" "workers s1 = [Handling (5, lit ''c'')]" "loop_at s1 = Polling" "\<not> running s1"
    using w by (simp add: worker_thread_func_def set_worker_def Let_def)
  have "server_step (Worker 0) ?s s1" "server_step Loop s1 (s1\<lparr>loop_at := Loop_left\<rparr>)"
    using s1 by (auto intro: working leaving)
  then have "server_run [Worker 0, Loop] ?s (s1\<lparr>loop_at := Loop_left\<rparr>)"
    by (blast intro: server_run.intros)
  with stopped_workers_end [of ?s "[Worker 0, Loop]" "s1\<lparr>loop_at := Loop_left\<rparr>" 0] w s1(2) show ?thesis
    by (auto simp: Let_def)
qed

theorem stop_can_be_missed_witness:
  "\<exists>s. server_reachable (server_init 0 one_worker) s \<and> \<not> running s \<and> workers s = [Blocked]
    \<and> (\<forall>a s'. server_step a s s' \<longrightarrow> a = Signal \<or> (\<exists>i. a = Spurious i))"
  using stop_can_be_missed [of one_worker 0] by (auto simp: one_worker_def)

end
