(* ===== verification/Load_Balancer.thy ===== *)
theory Load_Balancer
  imports Prelude Complex_Main
begin

text \<open>
  The load balancers (\<open>src/load_balancer.cpp\<close>): round robin, least connections, EWMA and
  consistent hashing over one pool of backends, and the health checker that sets the
  backends' health.  A backend pointer is an index into the pool.  Counters of connections
  are integers, latencies real numbers (the rounding of \<open>double\<close> is left out), a point in time
  is an argument; what the system calls of a probe return is an argument too.

  The interface of \<open>class LoadBalancer\<close> is the locale \<open>balancer\<close>; all four classes
  interpret it.  Shown: only healthy backends are selected, selection fails only when none is
  healthy, connections are accounted for, round robin is fair, least connections is minimal,
  consistent hashing keeps its keys when other backends fail, health changes have hysteresis.
\<close>

section \<open>Backends\<close>

record backend =
  address :: bytes
  b_host :: bytes
  b_port :: u16
  weight :: int
  healthy :: bool
  active_connections :: int
  ewma_latency_ns :: real
  last_response_time :: real

type_synonym pool = "backend list"

text \<open>\<open>fetch_add(1)\<close> and \<open>fetch_sub(1)\<close> on the connections of a backend.\<close>

definition acquire :: "nat \<Rightarrow> pool \<Rightarrow> pool" where
  "acquire i bs = bs[i := (bs ! i)\<lparr>active_connections := active_connections (bs ! i) + 1\<rparr>]"

definition release :: "nat \<Rightarrow> pool \<Rightarrow> pool" where
  "release i bs = bs[i := (bs ! i)\<lparr>active_connections := active_connections (bs ! i) - 1\<rparr>]"

text \<open>\<open>report_result\<close> of the balancers that keep no latency.\<close>

definition report_connection :: "pool \<Rightarrow> nat option \<Rightarrow> pool" where
  "report_connection bs backend = (case backend of None \<Rightarrow> bs | Some i \<Rightarrow> release i bs)"

section \<open>Round robin\<close>

record round_robin =
  rr_pool :: pool
  rr_counter :: u64

definition round_robin_init :: "pool \<Rightarrow> round_robin" where
  "round_robin_init bs = \<lparr>rr_pool = bs, rr_counter = 0\<rparr>"

text \<open>The loop of at most \<open>n\<close> tries; each try advances the counter.\<close>

fun rr_loop :: "nat \<Rightarrow> round_robin \<Rightarrow> round_robin \<times> nat option" where
  "rr_loop 0 lb = (lb, None)"
| "rr_loop (Suc tries) lb =
     (let idx = unat (rr_counter lb) mod length (rr_pool lb);
          lb = lb\<lparr>rr_counter := rr_counter lb + 1\<rparr>
      in if healthy (rr_pool lb ! idx) then (lb\<lparr>rr_pool := acquire idx (rr_pool lb)\<rparr>, Some idx)
         else rr_loop tries lb)"

definition rr_select :: "round_robin \<Rightarrow> bytes \<Rightarrow> round_robin \<times> nat option" where
  "rr_select lb key = (if rr_pool lb = [] then (lb, None) else rr_loop (length (rr_pool lb)) lb)"

definition rr_report :: "round_robin \<Rightarrow> nat option \<Rightarrow> round_robin" where
  "rr_report lb backend = lb\<lparr>rr_pool := report_connection (rr_pool lb) backend\<rparr>"

section \<open>Least connections\<close>

definition INT_MAX :: int where "INT_MAX = 2147483647"

fun lc_scan :: "pool \<Rightarrow> nat \<Rightarrow> int \<Rightarrow> nat option \<Rightarrow> nat option" where
  "lc_scan [] i min_conns best = best"
| "lc_scan (b # bs) i min_conns best =
     (if healthy b \<and> active_connections b < min_conns
      then lc_scan bs (i + 1) (active_connections b) (Some i)
      else lc_scan bs (i + 1) min_conns best)"

definition lc_select :: "pool \<Rightarrow> bytes \<Rightarrow> pool \<times> nat option" where
  "lc_select bs key =
     (case lc_scan bs 0 INT_MAX None of None \<Rightarrow> (bs, None) | Some i \<Rightarrow> (acquire i bs, Some i))"

section \<open>EWMA\<close>

definition DBL_MAX :: real where "DBL_MAX = (2 - 1 / 2 ^ 52) * 2 ^ 1023"

record ewma_lb =
  ew_pool :: pool
  decay_ns :: real

definition ewma_score :: "real \<Rightarrow> real \<Rightarrow> backend \<Rightarrow> real" where
  "ewma_score decay now b =
     ewma_latency_ns b * exp (- (now - last_response_time b) / decay)
       * (1 + real_of_int (active_connections b) * (1 / 10))"

fun ewma_scan :: "real \<Rightarrow> real \<Rightarrow> pool \<Rightarrow> nat \<Rightarrow> real \<Rightarrow> nat option \<Rightarrow> nat option" where
  "ewma_scan decay now [] i best_score best = best"
| "ewma_scan decay now (b # bs) i best_score best =
     (if healthy b \<and> ewma_score decay now b < best_score
      then ewma_scan decay now bs (i + 1) (ewma_score decay now b) (Some i)
      else ewma_scan decay now bs (i + 1) best_score best)"

definition ewma_select :: "real \<Rightarrow> ewma_lb \<Rightarrow> bytes \<Rightarrow> ewma_lb \<times> nat option" where
  "ewma_select now lb key =
     (case ewma_scan (decay_ns lb) now (ew_pool lb) 0 DBL_MAX None of
        None \<Rightarrow> (lb, None)
      | Some i \<Rightarrow> (lb\<lparr>ew_pool := acquire i (ew_pool lb)\<rparr>, Some i))"

definition ewma_report :: "real \<Rightarrow> ewma_lb \<Rightarrow> nat option \<Rightarrow> int \<Rightarrow> bool \<Rightarrow> ewma_lb" where
  "ewma_report now lb backend latency success =
     (case backend of
        None \<Rightarrow> lb
      | Some i \<Rightarrow>
          let b = release i (ew_pool lb) ! i;
              b = b\<lparr>last_response_time := now\<rparr>;
              b = (if success
                   then b\<lparr>ewma_latency_ns := 4 / 10 * real_of_int latency + (1 - 4 / 10) * ewma_latency_ns b\<rparr>
                   else b\<lparr>ewma_latency_ns := 10 ^ 9\<rparr>)
          in lb\<lparr>ew_pool := (ew_pool lb)[i := b]\<rparr>)"

section \<open>Consistent hashing\<close>

definition fnv_step :: "u64 \<Rightarrow> byte \<Rightarrow> u64" where
  "fnv_step h c = (h XOR ucast c) * 1099511628211"

definition hash :: "bytes \<Rightarrow> u64" where
  "hash data = foldl fnv_step 14695981039346656037 data"

text \<open>
  The ring holds (hash, backend) for every virtual node, sorted by hash; \<open>std::sort\<close> may
  order equal hashes in any way, here the order of the pool is kept.
\<close>

record hash_lb =
  ch_pool :: pool
  ring :: "(u64 \<times> nat) list"

definition vnodes :: "nat \<Rightarrow> pool \<Rightarrow> (u64 \<times> nat) list" where
  "vnodes vnodes_per_backend bs =
     concat (map (\<lambda>i. map (\<lambda>v. (hash (address (bs ! i) @ lit ''#'' @ to_dec v), i)) [0..<vnodes_per_backend])
       [0..<length bs])"

definition hash_init :: "pool \<Rightarrow> nat \<Rightarrow> hash_lb" where
  "hash_init bs vnodes_per_backend = \<lparr>ch_pool = bs, ring = sort_key fst (vnodes vnodes_per_backend bs)\<rparr>"

text \<open>\<open>lower_bound\<close>: the first node whose hash is not below \<open>h\<close>, then once around the ring.\<close>

definition ring_start :: "(u64 \<times> nat) list \<Rightarrow> u64 \<Rightarrow> nat" where
  "ring_start r h =
     (let it = length (takeWhile (\<lambda>node. fst node < h) r) in if it = length r then 0 else it)"

fun ring_walk :: "nat \<Rightarrow> (u64 \<times> nat) list \<Rightarrow> nat \<Rightarrow> pool \<Rightarrow> nat option" where
  "ring_walk 0 r it bs = None"
| "ring_walk (Suc steps) r it bs =
     (if healthy (bs ! snd (r ! it)) then Some (snd (r ! it))
      else ring_walk steps r (if it + 1 = length r then 0 else it + 1) bs)"

definition hash_select :: "hash_lb \<Rightarrow> bytes \<Rightarrow> hash_lb \<times> nat option" where
  "hash_select lb key =
     (if ring lb = [] then (lb, None)
      else case ring_walk (length (ring lb)) (ring lb) (ring_start (ring lb) (hash key)) (ch_pool lb) of
             None \<Rightarrow> (lb, None)
           | Some i \<Rightarrow> (lb\<lparr>ch_pool := acquire i (ch_pool lb)\<rparr>, Some i))"

definition hash_report :: "hash_lb \<Rightarrow> nat option \<Rightarrow> hash_lb" where
  "hash_report lb backend = lb\<lparr>ch_pool := report_connection (ch_pool lb) backend\<rparr>"

section \<open>The health checker\<close>

record health_checker =
  hc_pool :: pool
  failure_counts :: "bytes \<Rightarrow> int"
  success_counts :: "bytes \<Rightarrow> int"
  unhealthy_threshold :: int
  healthy_threshold :: int

definition check_backend :: "bool \<Rightarrow> health_checker \<Rightarrow> nat \<Rightarrow> health_checker" where
  "check_backend ok hc i =
     (let b = hc_pool hc ! i; a = address b
      in if ok then
           let sc = success_counts hc a + 1;
               hc = hc\<lparr>failure_counts := (failure_counts hc)(a := 0), success_counts := (success_counts hc)(a := sc)\<rparr>
           in if \<not> healthy b \<and> healthy_threshold hc \<le> sc
              then hc\<lparr>hc_pool := (hc_pool hc)[i := b\<lparr>healthy := True\<rparr>]\<rparr> else hc
         else
           let fc = failure_counts hc a + 1;
               hc = hc\<lparr>success_counts := (success_counts hc)(a := 0), failure_counts := (failure_counts hc)(a := fc)\<rparr>
           in if healthy b \<and> unhealthy_threshold hc \<le> fc
              then hc\<lparr>hc_pool := (hc_pool hc)[i := b\<lparr>healthy := False\<rparr>]\<rparr> else hc)"

definition check_all :: "(backend \<Rightarrow> bool) \<Rightarrow> health_checker \<Rightarrow> health_checker" where
  "check_all probe hc =
     fold (\<lambda>i hc. check_backend (probe (hc_pool hc ! i)) hc i) [0..<length (hc_pool hc)] hc"

text \<open>
  One probe, \<open>probe_backend\<close>: what the system calls return is an argument.  The status is
  read from the bytes received, the one behind them being 0.
\<close>

record probe_io =
  sockfd :: int
  connect_ret :: int
  in_progress :: bool
  poll_out :: int
  can_write :: bool
  sent :: int
  poll_in :: int
  received :: "bytes option"

definition status_is_2xx :: "bytes \<Rightarrow> bool option" where
  "status_is_2xx response =
     (case find_sub [32] response of
        None \<Rightarrow> None
      | Some space \<Rightarrow> Some ((response @ [0]) ! (space + 1) = 50))"

definition probe_request :: "bytes \<Rightarrow> backend \<Rightarrow> bytes" where
  "probe_request check_path b =
     lit ''GET '' @ check_path @ lit '' HTTP/1.1'' @ [13, 10] @ lit ''Host: '' @ b_host b @ [13, 10]
       @ lit ''Connection: close'' @ [13, 10, 13, 10]"

definition probe_backend :: "(bytes \<Rightarrow> probe_io) \<Rightarrow> bytes \<Rightarrow> backend \<Rightarrow> bool" where
  "probe_backend io check_path b =
     (let r = io (probe_request check_path b)
      in if sockfd r < 0 then False
         else if connect_ret r < 0 \<and> \<not> in_progress r then False
         else let connected = (0 < poll_out r \<and> can_write r)
              in if connected \<and> 0 < sent r \<and> 0 < poll_in r then
                   case received r of
                     None \<Rightarrow> connected
                   | Some [] \<Rightarrow> connected
                   | Some buf \<Rightarrow>
                       (case status_is_2xx (take 255 buf) of None \<Rightarrow> connected | Some ok \<Rightarrow> ok)
                 else connected)"

section \<open>The factory\<close>

datatype lb_algorithm = ROUND_ROBIN | LEAST_CONNECTIONS | EWMA | CONSISTENT_HASH | RANDOM

datatype load_balancer =
  RoundRobinLB round_robin
| LeastConnectionsLB pool
| EwmaLB ewma_lb
| ConsistentHashLB hash_lb

fun lb_create :: "lb_algorithm \<Rightarrow> pool \<Rightarrow> load_balancer" where
  "lb_create ROUND_ROBIN bs = RoundRobinLB (round_robin_init bs)"
| "lb_create LEAST_CONNECTIONS bs = LeastConnectionsLB bs"
| "lb_create EWMA bs = EwmaLB \<lparr>ew_pool = bs, decay_ns = 10 * 10 ^ 9\<rparr>"
| "lb_create CONSISTENT_HASH bs = ConsistentHashLB (hash_init bs 150)"
| "lb_create RANDOM bs = RoundRobinLB (round_robin_init bs)"

text \<open>The virtual calls.\<close>

fun lb_select :: "real \<Rightarrow> load_balancer \<Rightarrow> bytes \<Rightarrow> load_balancer \<times> nat option" where
  "lb_select now (RoundRobinLB lb) key = map_prod RoundRobinLB id (rr_select lb key)"
| "lb_select now (LeastConnectionsLB bs) key = map_prod LeastConnectionsLB id (lc_select bs key)"
| "lb_select now (EwmaLB lb) key = map_prod EwmaLB id (ewma_select now lb key)"
| "lb_select now (ConsistentHashLB lb) key = map_prod ConsistentHashLB id (hash_select lb key)"

fun lb_report :: "real \<Rightarrow> int \<Rightarrow> bool \<Rightarrow> load_balancer \<Rightarrow> nat option \<Rightarrow> load_balancer" where
  "lb_report now latency success (RoundRobinLB lb) b = RoundRobinLB (rr_report lb b)"
| "lb_report now latency success (LeastConnectionsLB bs) b = LeastConnectionsLB (report_connection bs b)"
| "lb_report now latency success (EwmaLB lb) b = EwmaLB (ewma_report now lb b latency success)"
| "lb_report now latency success (ConsistentHashLB lb) b = ConsistentHashLB (hash_report lb b)"

fun lb_pool :: "load_balancer \<Rightarrow> pool" where
  "lb_pool (RoundRobinLB lb) = rr_pool lb"
| "lb_pool (LeastConnectionsLB bs) = bs"
| "lb_pool (EwmaLB lb) = ew_pool lb"
| "lb_pool (ConsistentHashLB lb) = ch_pool lb"

section \<open>The interface\<close>

text \<open>
  What the callers of \<open>LoadBalancer\<close> rely on.  \<open>exhausted s b\<close> says that a healthy backend
  may be passed over in state \<open>s\<close> (a counter at its limit); \<open>ok\<close> is the invariant of the class.
\<close>

datatype lb_event = Select bytes | Report nat

fun lb_run :: "('s \<Rightarrow> bytes \<Rightarrow> 's \<times> nat option) \<Rightarrow> ('s \<Rightarrow> nat option \<Rightarrow> 's) \<Rightarrow> 's \<Rightarrow> lb_event list
    \<Rightarrow> 's \<times> (nat \<Rightarrow> int)" where
  "lb_run sel rep s [] = (s, \<lambda>i. 0)"
| "lb_run sel rep s (Select k # es) =
     (let (s1, r) = sel s k; (t, held) = lb_run sel rep s1 es
      in (t, \<lambda>i. held i + (if r = Some i then 1 else 0)))"
| "lb_run sel rep s (Report j # es) =
     (let (t, held) = lb_run sel rep (rep s (Some j)) es in (t, \<lambda>i. held i - (if i = j then 1 else 0)))"

definition same_backends :: "pool \<Rightarrow> pool \<Rightarrow> bool" where
  "same_backends bs bs' = (map address bs' = map address bs \<and> map healthy bs' = map healthy bs
                           \<and> map active_connections bs' = map active_connections bs)"

locale balancer =
  fixes select :: "'s \<Rightarrow> bytes \<Rightarrow> 's \<times> nat option"
    and report :: "'s \<Rightarrow> nat option \<Rightarrow> 's"
    and pool_of :: "'s \<Rightarrow> pool"
    and ok :: "'s \<Rightarrow> bool"
    and exhausted :: "'s \<Rightarrow> backend \<Rightarrow> bool"
  assumes selected: "ok s \<Longrightarrow> select s k = (s', Some i) \<Longrightarrow>
      i < length (pool_of s) \<and> healthy (pool_of s ! i) \<and> pool_of s' = acquire i (pool_of s) \<and> ok s'"
    and none_selected: "ok s \<Longrightarrow> select s k = (s', None) \<Longrightarrow>
      pool_of s' = pool_of s \<and> ok s' \<and> (\<forall>b \<in> set (pool_of s). healthy b \<longrightarrow> exhausted s b)"
    and reported: "ok s \<Longrightarrow> j < length (pool_of s) \<Longrightarrow>
      same_backends (release j (pool_of s)) (pool_of (report s (Some j))) \<and> ok (report s (Some j))"
begin

lemma acquire_connections:
  "i < length bs \<Longrightarrow> j < length bs \<Longrightarrow>
     active_connections (acquire j bs ! i) = active_connections (bs ! i) + (if j = i then 1 else 0)"
  by (simp add: acquire_def nth_list_update)

lemma release_connections:
  "i < length bs \<Longrightarrow> j < length bs \<Longrightarrow>
     active_connections (release j bs ! i) = active_connections (bs ! i) - (if i = j then 1 else 0)"
  by (simp add: release_def nth_list_update)

lemma same_backendsD:
  assumes "same_backends bs bs'"
  shows "length bs' = length bs"
    and "i < length bs \<Longrightarrow> active_connections (bs' ! i) = active_connections (bs ! i)"
proof -
  show len: "length bs' = length bs"
    using assms by (auto simp: same_backends_def dest: map_eq_imp_length_eq)
  show "active_connections (bs' ! i) = active_connections (bs ! i)" if "i < length bs"
    using assms that len unfolding same_backends_def by (metis nth_map)
qed

text \<open>Connections are accounted for: what a run selected and did not report is still held.\<close>

lemma run_balanced:
  assumes "ok s" and "\<And>j. Report j \<in> set es \<Longrightarrow> j < length (pool_of s)"
    and "lb_run select report s es = (t, held)"
  shows "length (pool_of t) = length (pool_of s) \<and> ok t
       \<and> (\<forall>i < length (pool_of s).
            active_connections (pool_of t ! i) = active_connections (pool_of s ! i) + held i)"
  using assms
proof (induction es arbitrary: s t held)
  case (Cons e es)
  show ?case
  proof (cases e)
    case (Select k)
    obtain s1 r where sel: "select s k = (s1, r)"
      by fastforce
    obtain held1 where run: "lb_run select report s1 es = (t, held1)"
        "held = (\<lambda>i. held1 i + (if r = Some i then 1 else 0))"
      using Cons.prems(3) Select sel by (auto split: prod.splits)
    have s1: "ok s1" "length (pool_of s1) = length (pool_of s)"
        "\<And>i. i < length (pool_of s) \<Longrightarrow> active_connections (pool_of s1 ! i)
           = active_connections (pool_of s ! i) + (if r = Some i then 1 else 0)"
      using sel Cons.prems(1) selected [of s k s1] none_selected [of s k s1]
      by (cases r; force simp: acquire_connections acquire_def)+
    from Cons.IH [OF s1(1) _ run(1)] Cons.prems(2) s1 run(2) show ?thesis
      by simp
  next
    case (Report j)
    let ?s1 = "report s (Some j)"
    have j: "j < length (pool_of s)"
      using Cons.prems(2) Report by simp
    note rep = reported [OF Cons.prems(1) j]
    have len: "length (pool_of ?s1) = length (pool_of s)"
      using same_backendsD(1) [of "release j (pool_of s)"] rep by (simp add: release_def)
    have conn: "active_connections (pool_of ?s1 ! i) = active_connections (pool_of s ! i) - (if i = j then 1 else 0)"
      if "i < length (pool_of s)" for i
      using same_backendsD(2) [of "release j (pool_of s)" "pool_of ?s1" i] rep that j
        release_connections [OF that j] by (simp add: release_def)
    obtain held1 where run: "lb_run select report ?s1 es = (t, held1)"
        "held = (\<lambda>i. held1 i - (if i = j then 1 else 0))"
      using Cons.prems(3) Report by (auto split: prod.splits)
    from Cons.IH [OF _ _ run(1)] Cons.prems(2) rep len conn run(2) show ?thesis
      by simp
  qed
qed simp

end

section \<open>The four balancers implement the interface\<close>

lemma mod_cover: "i < n \<Longrightarrow> \<exists>j < n. (c + j) mod n = i" for i n c :: nat
proof -
  assume "i < n"
  then have "(c + (i + (n - c mod n)) mod n) mod n = (c mod n + i + (n - c mod n)) mod n"
    by (metis add.assoc mod_add_left_eq mod_add_right_eq)
  also have "\<dots> = (i + n) mod n"
    using \<open>i < n\<close> by (simp add: less_imp_le)
  finally have "(c + (i + (n - c mod n)) mod n) mod n = i"
    using \<open>i < n\<close> by simp
  with \<open>i < n\<close> show ?thesis
    by (intro exI [of _ "(i + (n - c mod n)) mod n"]) simp
qed

lemma rr_loop_Some:
  assumes "rr_pool lb \<noteq> []" and "rr_loop tries lb = (lb', Some i)"
  shows "i < length (rr_pool lb) \<and> healthy (rr_pool lb ! i) \<and> rr_pool lb' = acquire i (rr_pool lb)"
  using assms by (induction tries lb rule: rr_loop.induct) (auto simp: Let_def split: if_splits)

lemma rr_loop_None:
  assumes "rr_loop tries lb = (lb', None)"
  shows "rr_pool lb' = rr_pool lb
       \<and> (unat (rr_counter lb) + tries \<le> 2 ^ 64 \<longrightarrow>
          (\<forall>j < tries. \<not> healthy (rr_pool lb ! ((unat (rr_counter lb) + j) mod length (rr_pool lb)))))"
  using assms
proof (induction tries arbitrary: lb)
  case (Suc tries)
  let ?lb = "lb\<lparr>rr_counter := rr_counter lb + 1\<rparr>"
  have here: "\<not> healthy (rr_pool lb ! (unat (rr_counter lb) mod length (rr_pool lb)))"
    and run: "rr_loop tries ?lb = (lb', None)"
    using Suc.prems by (auto simp: Let_def split: if_splits)
  note IH = Suc.IH [OF run]
  have step: "unat (rr_counter lb + 1) = unat (rr_counter lb) + 1"
    if "unat (rr_counter lb) + Suc tries \<le> 2 ^ 64" "0 < tries"
    using that by (simp add: unat_word_ariths)
  show ?case
  proof (intro conjI impI allI)
    show "rr_pool lb' = rr_pool lb"
      using IH by simp
    fix j
    assume small: "unat (rr_counter lb) + Suc tries \<le> 2 ^ 64" and j: "j < Suc tries"
    show "\<not> healthy (rr_pool lb ! ((unat (rr_counter lb) + j) mod length (rr_pool lb)))"
    proof (cases j)
      case (Suc k)
      with IH step [OF small] small j show ?thesis
        by (auto dest!: spec [of _ k])
    qed (use here in simp)
  qed
qed simp

interpretation rr: balancer rr_select rr_report rr_pool "\<lambda>lb. True"
    "\<lambda>lb b. 2 ^ 64 < unat (rr_counter lb) + length (rr_pool lb)"
proof unfold_locales
  fix s s' :: round_robin and k i
  show "rr_select s k = (s', Some i) \<Longrightarrow>
      i < length (rr_pool s) \<and> healthy (rr_pool s ! i) \<and> rr_pool s' = acquire i (rr_pool s) \<and> True"
    using rr_loop_Some [of s] by (auto simp: rr_select_def split: if_splits)
  assume none: "rr_select s k = (s', None)"
  show "rr_pool s' = rr_pool s \<and> True
      \<and> (\<forall>b \<in> set (rr_pool s). healthy b \<longrightarrow> 2 ^ 64 < unat (rr_counter s) + length (rr_pool s))"
  proof (cases "rr_pool s = []")
    case False
    with none have *: "rr_loop (length (rr_pool s)) s = (s', None)"
      by (simp add: rr_select_def)
    have "\<not> healthy b" if "b \<in> set (rr_pool s)" "unat (rr_counter s) + length (rr_pool s) \<le> 2 ^ 64" for b
      using that rr_loop_None [OF *] mod_cover [of _ "length (rr_pool s)" "unat (rr_counter s)"]
      by (metis in_set_conv_nth)
    with rr_loop_None [OF *] show ?thesis
      by (auto simp: not_le [symmetric])
  qed (use none in \<open>simp add: rr_select_def\<close>)
qed (simp add: rr_report_def report_connection_def same_backends_def)

text \<open>The two scans for a minimum: both return the first healthy backend with the least score.\<close>

lemma lc_scan_spec:
  assumes "lc_scan bs n m best = r"
  shows "(r = best \<and> (\<forall>b \<in> set bs. healthy b \<longrightarrow> m \<le> active_connections b))
       \<or> (\<exists>i < length bs. r = Some (n + i) \<and> healthy (bs ! i) \<and> active_connections (bs ! i) < m
            \<and> (\<forall>b \<in> set bs. healthy b \<longrightarrow> active_connections (bs ! i) \<le> active_connections b))"
  using assms
proof (induction bs arbitrary: n m best)
  case (Cons b bs)
  show ?case
  proof (cases "healthy b \<and> active_connections b < m")
    case True
    with Cons.prems have "lc_scan bs (n + 1) (active_connections b) (Some n) = r"
      by simp
    from Cons.IH [OF this] show ?thesis
    proof (elim disjE exE conjE)
      fix i assume "i < length bs" "r = Some (n + 1 + i)" "healthy (bs ! i)"
        "active_connections (bs ! i) < active_connections b"
        "\<forall>b \<in> set bs. healthy b \<longrightarrow> active_connections (bs ! i) \<le> active_connections b"
      with True show ?thesis
        by (intro disjI2 exI [of _ "Suc i"]) auto
    qed (use True in \<open>intro disjI2 exI [of _ 0], auto\<close>)
  next
    case False
    with Cons.prems have "lc_scan bs (n + 1) m best = r"
      by auto
    from Cons.IH [OF this] False show ?thesis
      by (elim disjE exE conjE) (auto intro!: exI [of _ "Suc _"])
  qed
qed simp

lemma ewma_scan_spec:
  assumes "ewma_scan decay now bs n m best = r"
  shows "(r = best \<and> (\<forall>b \<in> set bs. healthy b \<longrightarrow> m \<le> ewma_score decay now b))
       \<or> (\<exists>i < length bs. r = Some (n + i) \<and> healthy (bs ! i) \<and> ewma_score decay now (bs ! i) < m
            \<and> (\<forall>b \<in> set bs. healthy b \<longrightarrow> ewma_score decay now (bs ! i) \<le> ewma_score decay now b))"
  using assms
proof (induction bs arbitrary: n m best)
  case (Cons b bs)
  show ?case
  proof (cases "healthy b \<and> ewma_score decay now b < m")
    case True
    with Cons.prems have "ewma_scan decay now bs (n + 1) (ewma_score decay now b) (Some n) = r"
      by simp
    from Cons.IH [OF this] show ?thesis
    proof (elim disjE exE conjE)
      fix i assume "i < length bs" "r = Some (n + 1 + i)" "healthy (bs ! i)"
        "ewma_score decay now (bs ! i) < ewma_score decay now b"
        "\<forall>b \<in> set bs. healthy b \<longrightarrow> ewma_score decay now (bs ! i) \<le> ewma_score decay now b"
      with True show ?thesis
        by (intro disjI2 exI [of _ "Suc i"]) auto
    qed (use True in \<open>intro disjI2 exI [of _ 0], auto\<close>)
  next
    case False
    with Cons.prems have "ewma_scan decay now bs (n + 1) m best = r"
      by auto
    from Cons.IH [OF this] False show ?thesis
      by (elim disjE exE conjE) (auto intro!: exI [of _ "Suc _"])
  qed
qed simp

interpretation lc: balancer lc_select report_connection "\<lambda>bs. bs" "\<lambda>bs. True"
    "\<lambda>bs b. INT_MAX \<le> active_connections b"
proof unfold_locales
  fix s s' :: pool and k i
  show "lc_select s k = (s', Some i) \<Longrightarrow> i < length s \<and> healthy (s ! i) \<and> s' = acquire i s \<and> True"
    using lc_scan_spec [OF refl, of s 0 INT_MAX None] by (auto simp: lc_select_def split: option.splits)
  show "lc_select s k = (s', None) \<Longrightarrow>
      s' = s \<and> True \<and> (\<forall>b \<in> set s. healthy b \<longrightarrow> INT_MAX \<le> active_connections b)"
    using lc_scan_spec [OF refl, of s 0 INT_MAX None] by (auto simp: lc_select_def split: option.splits)
qed (simp add: report_connection_def same_backends_def)

interpretation ew: balancer "ewma_select now" "\<lambda>lb b. ewma_report now lb b latency success" ew_pool "\<lambda>lb. True"
    "\<lambda>lb b. DBL_MAX \<le> ewma_score (decay_ns lb) now b"
proof unfold_locales
  fix s s' :: ewma_lb and k i
  show "ewma_select now s k = (s', Some i) \<Longrightarrow>
      i < length (ew_pool s) \<and> healthy (ew_pool s ! i) \<and> ew_pool s' = acquire i (ew_pool s) \<and> True"
    using ewma_scan_spec [OF refl, of "decay_ns s" now "ew_pool s" 0 DBL_MAX None]
    by (auto simp: ewma_select_def split: option.splits)
  show "ewma_select now s k = (s', None) \<Longrightarrow> ew_pool s' = ew_pool s \<and> True
      \<and> (\<forall>b \<in> set (ew_pool s). healthy b \<longrightarrow> DBL_MAX \<le> ewma_score (decay_ns s) now b)"
    using ewma_scan_spec [OF refl, of "decay_ns s" now "ew_pool s" 0 DBL_MAX None]
    by (auto simp: ewma_select_def split: option.splits)
  fix j assume "j < length (ew_pool s)"
  then show "same_backends (release j (ew_pool s)) (ew_pool (ewma_report now s (Some j) latency success)) \<and> True"
    by (auto simp: ewma_report_def release_def same_backends_def Let_def map_update)
qed

text \<open>The ring refers to the pool, and every backend is on it.\<close>

definition ring_ok :: "hash_lb \<Rightarrow> bool" where
  "ring_ok lb = (snd ` set (ring lb) = {..<length (ch_pool lb)})"

lemma ring_start_less: "r \<noteq> [] \<Longrightarrow> ring_start r h < length r"
  using length_takeWhile_le [of "\<lambda>node. fst node < h" r] unfolding ring_start_def Let_def by auto

lemma ring_next: "it < n \<Longrightarrow> (if it + 1 = n then 0 else it + 1) = (it + 1) mod n" for it n :: nat
  by auto

lemma ring_walk_Some:
  assumes "it < length r" and "ring_walk steps r it bs = Some i"
  shows "i \<in> snd ` set r \<and> healthy (bs ! i)"
  using assms
proof (induction steps arbitrary: it)
  case (Suc steps)
  show ?case
  proof (cases "healthy (bs ! snd (r ! it))")
    case False
    have "ring_walk steps r ((it + 1) mod length r) bs = Some i"
      using Suc.prems False ring_next [OF Suc.prems(1)] by simp
    moreover have "(it + 1) mod length r < length r"
      using Suc.prems(1) by (intro mod_less_divisor) linarith
    ultimately show ?thesis
      using Suc.IH by blast
  qed (use Suc.prems in auto)
qed simp

lemma ring_walk_None:
  assumes "it < length r" and "ring_walk steps r it bs = None" and "j < steps"
  shows "\<not> healthy (bs ! snd (r ! ((it + j) mod length r)))"
  using assms
proof (induction steps arbitrary: it j)
  case (Suc steps)
  have here: "\<not> healthy (bs ! snd (r ! it))" and run: "ring_walk steps r ((it + 1) mod length r) bs = None"
    using Suc.prems(2) ring_next [OF Suc.prems(1)] by (simp_all split: if_splits)
  have less: "(it + 1) mod length r < length r"
    using Suc.prems(1) by (intro mod_less_divisor) linarith
  show ?case
  proof (cases j)
    case j: (Suc k)
    have "((it + 1) mod length r + k) mod length r = (it + j) mod length r"
      by (simp add: j mod_add_left_eq)
    with Suc.IH [OF less run, of k] j Suc.prems(3) show ?thesis
      by simp
  qed (use here Suc.prems(1) in simp)
qed simp

lemma hash_select_Some:
  assumes "ring_ok lb" and "hash_select lb k = (lb', Some i)"
  shows "i < length (ch_pool lb) \<and> healthy (ch_pool lb ! i)
       \<and> lb' = lb\<lparr>ch_pool := acquire i (ch_pool lb)\<rparr>"
  using assms ring_walk_Some [OF ring_start_less, of "ring lb" "length (ring lb)" "hash k" "ch_pool lb" i]
  by (auto simp: hash_select_def ring_ok_def split: if_splits option.splits)

lemma hash_select_None:
  assumes "ring_ok lb" and "hash_select lb k = (lb', None)"
  shows "lb' = lb \<and> (\<forall>b \<in> set (ch_pool lb). \<not> healthy b)"
proof (cases "ring lb = []")
  case True
  then have "ch_pool lb = []"
    using assms(1) by (auto simp: ring_ok_def lessThan_empty_iff)
  with True assms(2) show ?thesis
    by (simp add: hash_select_def)
next
  case False
  let ?n = "length (ring lb)" and ?s = "ring_start (ring lb) (hash k)"
  have walk: "ring_walk ?n (ring lb) ?s (ch_pool lb) = None" and "lb' = lb"
    using assms(2) False by (auto simp: hash_select_def split: option.splits)
  have down: "\<not> healthy (ch_pool lb ! snd (ring lb ! m))" if m: "m < ?n" for m
    using ring_walk_None [OF ring_start_less [OF False] walk] mod_cover [OF m, of ?s] by metis
  have "\<not> healthy (ch_pool lb ! i)" if "i < length (ch_pool lb)" for i
  proof -
    have "i \<in> snd ` set (ring lb)"
      using assms(1) that by (simp add: ring_ok_def)
    then obtain m where "m < ?n" "snd (ring lb ! m) = i"
      by (metis (no_types, lifting) imageE in_set_conv_nth)
    with down show ?thesis
      by blast
  qed
  with \<open>lb' = lb\<close> show ?thesis
    by (auto simp: in_set_conv_nth)
qed

interpretation ch: balancer hash_select hash_report ch_pool ring_ok "\<lambda>lb b. False"
proof unfold_locales
  fix s s' :: hash_lb and k i
  assume ok: "ring_ok s"
  show "hash_select s k = (s', Some i) \<Longrightarrow>
      i < length (ch_pool s) \<and> healthy (ch_pool s ! i) \<and> ch_pool s' = acquire i (ch_pool s) \<and> ring_ok s'"
    using hash_select_Some [OF ok, of k s' i] ok by (simp add: ring_ok_def acquire_def)
  show "hash_select s k = (s', None) \<Longrightarrow>
      ch_pool s' = ch_pool s \<and> ring_ok s' \<and> (\<forall>b \<in> set (ch_pool s). healthy b \<longrightarrow> False)"
    using hash_select_None [OF ok] ok by auto
  fix j assume "j < length (ch_pool s)"
  show "same_backends (release j (ch_pool s)) (ch_pool (hash_report s (Some j))) \<and> ring_ok (hash_report s (Some j))"
    using ok by (simp add: hash_report_def report_connection_def same_backends_def ring_ok_def release_def)
qed

lemma ring_ok_init: "0 < n \<Longrightarrow> ring_ok (hash_init bs n)"
proof -
  assume "0 < n"
  then have "0 \<in> {0..<n}"
    by simp
  then show ?thesis
    by (force simp: ring_ok_def hash_init_def vnodes_def)
qed

text \<open>The dispatch over the four classes keeps the contract.\<close>

fun lb_ok :: "load_balancer \<Rightarrow> bool" where
  "lb_ok (ConsistentHashLB lb) = ring_ok lb"
| "lb_ok _ = True"

fun lb_exhausted :: "real \<Rightarrow> load_balancer \<Rightarrow> backend \<Rightarrow> bool" where
  "lb_exhausted now (RoundRobinLB lb) b = (2 ^ 64 < unat (rr_counter lb) + length (rr_pool lb))"
| "lb_exhausted now (LeastConnectionsLB bs) b = (INT_MAX \<le> active_connections b)"
| "lb_exhausted now (EwmaLB lb) b = (DBL_MAX \<le> ewma_score (decay_ns lb) now b)"
| "lb_exhausted now (ConsistentHashLB lb) b = False"

interpretation lb: balancer "lb_select now" "lb_report now latency success" lb_pool lb_ok "lb_exhausted now"
proof unfold_locales
  fix s s' :: load_balancer and k i j
  assume ok: "lb_ok s"
  show "i < length (lb_pool s) \<and> healthy (lb_pool s ! i) \<and> lb_pool s' = acquire i (lb_pool s) \<and> lb_ok s'"
    if "lb_select now s k = (s', Some i)"
  proof (cases s)
    case (RoundRobinLB lb)
    with that rr.selected [OF TrueI, of lb k] show ?thesis by (cases "rr_select lb k") auto
  next
    case (LeastConnectionsLB bs)
    with that lc.selected [OF TrueI, of bs k] show ?thesis by (cases "lc_select bs k") auto
  next
    case (EwmaLB lb)
    with that ew.selected [OF TrueI, of now lb k] show ?thesis by (cases "ewma_select now lb k") auto
  next
    case (ConsistentHashLB lb)
    with that ok ch.selected [of lb k] show ?thesis by (cases "hash_select lb k") auto
  qed
  show "lb_pool s' = lb_pool s \<and> lb_ok s' \<and> (\<forall>b \<in> set (lb_pool s). healthy b \<longrightarrow> lb_exhausted now s b)"
    if "lb_select now s k = (s', None)"
  proof (cases s)
    case (RoundRobinLB lb)
    with that rr.none_selected [OF TrueI, of lb k] show ?thesis by (cases "rr_select lb k") auto
  next
    case (LeastConnectionsLB bs)
    with that lc.none_selected [OF TrueI, of bs k] show ?thesis by (cases "lc_select bs k") auto
  next
    case (EwmaLB lb)
    with that ew.none_selected [OF TrueI, of now lb k] show ?thesis by (cases "ewma_select now lb k") auto
  next
    case (ConsistentHashLB lb)
    with that ok ch.none_selected [of lb k] show ?thesis by (cases "hash_select lb k") auto
  qed
  show "same_backends (release j (lb_pool s)) (lb_pool (lb_report now latency success s (Some j)))
      \<and> lb_ok (lb_report now latency success s (Some j))"
    if "j < length (lb_pool s)"
    using that ok rr.reported lc.reported ew.reported ch.reported by (cases s) simp_all
qed

lemma lb_create_ok [simp]: "lb_ok (lb_create algo bs)" "lb_pool (lb_create algo bs) = bs"
  using ring_ok_init [of 150 bs] by (cases algo; simp add: round_robin_init_def hash_init_def)+

section \<open>Properties\<close>

lemma rr_select_healthy:
  "case rr_select rr k of
      (_, Some i) \<Rightarrow> i < length (rr_pool rr) \<and> healthy (rr_pool rr ! i)
    | (_, None) \<Rightarrow> unat (rr_counter rr) + length (rr_pool rr) \<le> 2 ^ 64 \<longrightarrow> (\<forall>b \<in> set (rr_pool rr). \<not> healthy b)"
proof (cases "rr_select rr k")
  case (Pair lb r)
  then show ?thesis
    using rr.none_selected [OF TrueI, of rr k lb] rr.selected [OF TrueI, of rr k lb]
    by (cases r) (auto simp: not_less)
qed

lemma hash_select_healthy:
  "case hash_select (hash_init bs (Suc n)) k of
      (_, Some i) \<Rightarrow> i < length bs \<and> healthy (bs ! i)
    | (_, None) \<Rightarrow> \<forall>b \<in> set bs. \<not> healthy b"
proof (cases "hash_select (hash_init bs (Suc n)) k")
  case (Pair lb r)
  then show ?thesis
    using hash_select_None [OF ring_ok_init, of "Suc n" bs k lb] hash_select_Some [OF ring_ok_init, of "Suc n" bs k lb]
    by (cases r) (simp_all add: hash_init_def)
qed

text \<open>
  C10. Every balancer only hands out healthy backends and fails only when it must: whatever the
  state and the key, a selected backend is in the pool and healthy; no backend means that
  none is healthy (for least connections and EWMA: none below the largest representable
  score; for round robin: unless its 64-bit counter is about to wrap around).
\<close>

theorem balancers_select_healthy:
  "(case rr_select rr k of
      (_, Some i) \<Rightarrow> i < length (rr_pool rr) \<and> healthy (rr_pool rr ! i)
    | (_, None) \<Rightarrow> unat (rr_counter rr) + length (rr_pool rr) \<le> 2 ^ 64 \<longrightarrow> (\<forall>b \<in> set (rr_pool rr). \<not> healthy b))
   \<and> (case lc_select bs k of
      (_, Some i) \<Rightarrow> i < length bs \<and> healthy (bs ! i)
        \<and> (\<forall>b \<in> set bs. healthy b \<longrightarrow> active_connections (bs ! i) \<le> active_connections b)
    | (_, None) \<Rightarrow> \<forall>b \<in> set bs. healthy b \<longrightarrow> INT_MAX \<le> active_connections b)
   \<and> (case ewma_select now ew k of
      (_, Some i) \<Rightarrow> i < length (ew_pool ew) \<and> healthy (ew_pool ew ! i)
        \<and> (\<forall>b \<in> set (ew_pool ew). healthy b \<longrightarrow>
             ewma_score (decay_ns ew) now (ew_pool ew ! i) \<le> ewma_score (decay_ns ew) now b)
    | (_, None) \<Rightarrow> \<forall>b \<in> set (ew_pool ew). healthy b \<longrightarrow> DBL_MAX \<le> ewma_score (decay_ns ew) now b)
   \<and> (case hash_select (hash_init bs (Suc n)) k of
      (_, Some i) \<Rightarrow> i < length bs \<and> healthy (bs ! i)
    | (_, None) \<Rightarrow> \<forall>b \<in> set bs. \<not> healthy b)"
  using rr_select_healthy [of rr k] hash_select_healthy [of bs n k] lc_scan_spec [OF refl, of bs 0 INT_MAX None]
    ewma_scan_spec [OF refl, of "decay_ns ew" now "ew_pool ew" 0 DBL_MAX None]
  by (intro conjI) (auto simp: lc_select_def ewma_select_def split: option.splits)

definition demo_backend :: "string \<Rightarrow> bool \<Rightarrow> backend" where
  "demo_backend name up =
     \<lparr>address = lit name, b_host = lit name, b_port = 80, weight = 1, healthy = up, active_connections = 0,
      ewma_latency_ns = 0, last_response_time = 0\<rparr>"

definition demo_pool :: pool where
  "demo_pool = [demo_backend ''a'' False, demo_backend ''b'' True]"

theorem balancers_select_healthy_witness:
  "snd (rr_select (round_robin_init demo_pool) []) = Some 1 \<and> healthy (demo_pool ! 1)"
proof -
  have run: "rr_select (round_robin_init demo_pool) []
      = (\<lparr>rr_pool = acquire 1 demo_pool, rr_counter = 2\<rparr>, Some 1)"
    by (simp add: rr_select_def round_robin_init_def demo_pool_def demo_backend_def numeral_2_eq_2)
  show ?thesis
    using balancers_select_healthy [where rr = "round_robin_init demo_pool" and k = "[]"] run
    by (simp add: round_robin_init_def)
qed

text \<open>
  Connections are accounted for by all balancers: after any sequence of selections and
  reports the connection count of each backend is what it was, plus the times the backend
  was handed out, minus the times it was reported.
\<close>

theorem connections_balanced:
  assumes "\<forall>j. Report j \<in> set es \<longrightarrow> j < length bs"
    and "lb_run (lb_select now) (lb_report now latency success) (lb_create algo bs) es = (t, held)"
    and "i < length bs"
  shows "active_connections (lb_pool t ! i) = active_connections (bs ! i) + held i"
  using lb.run_balanced [where s = "lb_create algo bs" and es = es] assms lb_create_ok [of algo bs]
  by (simp split: prod.split)

theorem connections_balanced_witness:
  "let (t, held) = lb_run (lb_select 0) (lb_report 0 7 True) (lb_create EWMA demo_pool) [Select [], Report 1, Select []]
   in active_connections (lb_pool t ! 1) = held 1"
proof -
  obtain t held where run:
    "lb_run (lb_select 0) (lb_report 0 7 True) (lb_create EWMA demo_pool) [Select [], Report 1, Select []] = (t, held)"
    by fastforce
  show ?thesis
    using connections_balanced [OF _ run, of 1] unfolding run
    by (simp add: demo_pool_def demo_backend_def)
qed

text \<open>Consecutive selections of round robin.\<close>

fun rr_many :: "nat \<Rightarrow> round_robin \<Rightarrow> nat option list" where
  "rr_many 0 lb = []"
| "rr_many (Suc n) lb = (let (lb', r) = rr_select lb [] in r # rr_many n lb')"

lemma rr_select_all_healthy:
  assumes "rr_pool lb \<noteq> []" and "\<forall>b \<in> set (rr_pool lb). healthy b"
  shows "rr_select lb k =
     (lb\<lparr>rr_counter := rr_counter lb + 1,
         rr_pool := acquire (unat (rr_counter lb) mod length (rr_pool lb)) (rr_pool lb)\<rparr>,
      Some (unat (rr_counter lb) mod length (rr_pool lb)))"
proof -
  obtain n where n: "length (rr_pool lb) = Suc n"
    using assms(1) by (cases "length (rr_pool lb)") auto
  have "healthy (rr_pool lb ! (unat (rr_counter lb) mod length (rr_pool lb)))"
    using assms by (intro bspec [OF assms(2)] nth_mem) simp
  then show ?thesis
    using assms(1) n by (simp add: rr_select_def Let_def)
qed

lemma rr_many_sequence:
  assumes "rr_pool lb \<noteq> []" and "\<forall>b \<in> set (rr_pool lb). healthy b" and "unat (rr_counter lb) + m < 2 ^ 64"
  shows "rr_many m lb = map (\<lambda>j. Some ((unat (rr_counter lb) + j) mod length (rr_pool lb))) [0..<m]"
  using assms
proof (induction m arbitrary: lb)
  case (Suc m)
  let ?i = "unat (rr_counter lb) mod length (rr_pool lb)"
  let ?lb = "lb\<lparr>rr_counter := rr_counter lb + 1, rr_pool := acquire ?i (rr_pool lb)\<rparr>"
  have cnt: "unat (rr_counter lb + 1) = Suc (unat (rr_counter lb))"
    using Suc.prems(3) by (simp add: unat_word_ariths)
  have len: "length (acquire ?i (rr_pool lb)) = length (rr_pool lb)"
    by (simp add: acquire_def)
  have "\<forall>b \<in> set (acquire ?i (rr_pool lb)). healthy b"
    using Suc.prems(1,2) set_update_subset_insert by (fastforce simp: acquire_def)
  moreover have "acquire ?i (rr_pool lb) \<noteq> []"
    using Suc.prems(1) len by auto
  ultimately have "rr_many m ?lb = map (\<lambda>j. Some ((unat (rr_counter lb) + Suc j) mod length (rr_pool lb))) [0..<m]"
    using Suc.IH [of ?lb] Suc.prems(3) cnt len by simp
  then show ?case
    using rr_select_all_healthy [OF Suc.prems(1,2), of "[]"]
    by (simp add: map_Suc_upt [symmetric] upt_rec [of 0] del: upt_Suc map_Suc_upt)
qed simp

text \<open>
  Round robin is fair: while all n backends are healthy (and the 64-bit counter does not
  wrap), any n consecutive selections hand out every backend exactly once.
\<close>

theorem round_robin_fair:
  assumes "bs \<noteq> []" and "\<forall>b \<in> set bs. healthy b" and "unat c + length bs < 2 ^ 64"
  shows "set (rr_many (length bs) \<lparr>rr_pool = bs, rr_counter = c\<rparr>) = Some ` {..<length bs}
       \<and> distinct (rr_many (length bs) \<lparr>rr_pool = bs, rr_counter = c\<rparr>)"
proof -
  let ?n = "length bs" and ?f = "\<lambda>j. Some ((unat c + j) mod length bs)"
  have run: "rr_many ?n \<lparr>rr_pool = bs, rr_counter = c\<rparr> = map ?f [0..<?n]"
    using rr_many_sequence [of "\<lparr>rr_pool = bs, rr_counter = c\<rparr>" ?n] assms by simp
  have "?f ` {..<?n} = Some ` {..<?n}"
  proof
    show "?f ` {..<?n} \<subseteq> Some ` {..<?n}"
      using assms(1) by auto
    show "Some ` {..<?n} \<subseteq> ?f ` {..<?n}"
      using mod_cover [of _ ?n "unat c"] by force
  qed
  then have set: "set (map ?f [0..<?n]) = Some ` {..<?n}"
    by (simp add: atLeast0LessThan)
  then have "card (set (map ?f [0..<?n])) = ?n"
    by (simp add: card_image)
  then have "distinct (map ?f [0..<?n])"
    by (intro card_distinct) simp
  with set run show ?thesis
    by simp
qed

theorem round_robin_fair_witness:
  "set (rr_many 2 \<lparr>rr_pool = [demo_backend ''a'' True, demo_backend ''b'' True], rr_counter = 5\<rparr>) = Some ` {..<2}"
  using round_robin_fair [of "[demo_backend ''a'' True, demo_backend ''b'' True]" 5]
  by (simp add: demo_backend_def numeral_2_eq_2 [symmetric] del: rr_many.simps)

text \<open>Consistent hashing: the walk only depends on which backends are up.\<close>

lemma ring_walk_mono:
  assumes "ring_walk steps r it bs = Some i" and "it < length r"
    and "\<forall>j \<in> snd ` set r. healthy (bs' ! j) \<longrightarrow> healthy (bs ! j)" and "healthy (bs' ! i)"
  shows "ring_walk steps r it bs' = Some i"
  using assms(1,2)
proof (induction steps arbitrary: it)
  case (Suc steps)
  show ?case
  proof (cases "healthy (bs ! snd (r ! it))")
    case True
    then show ?thesis
      using Suc.prems assms(4) by auto
  next
    case False
    have "\<not> healthy (bs' ! snd (r ! it))"
      using False assms(3) Suc.prems(2) by auto
    moreover have "ring_walk steps r ((it + 1) mod length r) bs = Some i"
      using Suc.prems False ring_next [OF Suc.prems(2)] by simp
    moreover have "(it + 1) mod length r < length r"
      using Suc.prems(2) by (intro mod_less_divisor) linarith
    ultimately show ?thesis
      using Suc.IH ring_next [OF Suc.prems(2)] by simp
  qed
qed simp

text \<open>
  Session affinity of consistent hashing: a key that was mapped to a backend is mapped to
  the same backend again, whatever connections come and go and whichever other backends
  fail, as long as that backend is healthy and none that was down comes back.
\<close>

theorem hash_affinity:
  assumes "ring_ok lb" and "hash_select lb k = (lb', Some i)"
    and "ring lb2 = ring lb" and "\<forall>j < length (ch_pool lb). healthy (ch_pool lb2 ! j) \<longrightarrow> healthy (ch_pool lb ! j)"
    and "healthy (ch_pool lb2 ! i)"
  shows "snd (hash_select lb2 k) = Some i"
proof -
  have ne: "ring lb \<noteq> []"
    using assms(2) by (auto simp: hash_select_def)
  have "ring_walk (length (ring lb)) (ring lb) (ring_start (ring lb) (hash k)) (ch_pool lb) = Some i"
    using assms(2) ne by (auto simp: hash_select_def split: option.splits)
  moreover have "\<forall>j \<in> snd ` set (ring lb). healthy (ch_pool lb2 ! j) \<longrightarrow> healthy (ch_pool lb ! j)"
    using assms(1,4) by (simp add: ring_ok_def)
  ultimately have "ring_walk (length (ring lb)) (ring lb) (ring_start (ring lb) (hash k)) (ch_pool lb2) = Some i"
    using ring_walk_mono [OF _ ring_start_less [OF ne]] assms(5) by blast
  then show ?thesis
    using ne assms(3) by (simp add: hash_select_def)
qed

definition demo_ring :: hash_lb where
  "demo_ring = \<lparr>ch_pool = demo_pool, ring = [(5, 0), (9, 1)]\<rparr>"

theorem hash_affinity_witness: "snd (hash_select demo_ring (lit ''x'')) = Some 1"
proof -
  have ok: "ring_ok demo_ring"
    by (auto simp: ring_ok_def demo_ring_def demo_pool_def)
  obtain lb' r where sel: "hash_select demo_ring (lit ''x'') = (lb', r)"
    by fastforce
  have up: "\<not> healthy (demo_pool ! 0)" "healthy (demo_pool ! 1)" "length demo_pool = 2"
    by (simp_all add: demo_pool_def demo_backend_def)
  show ?thesis
  proof (cases r)
    case None
    have "demo_pool ! 1 \<in> set demo_pool"
      using up by (intro nth_mem) simp
    with None hash_select_None [OF ok, of "lit ''x''" lb'] sel up show ?thesis
      by (simp add: demo_ring_def)
  next
    case (Some i)
    with hash_select_Some [OF ok, of "lit ''x''" lb' i] sel up have "i = 1"
      by (auto simp: demo_ring_def less_2_cases_iff)
    with hash_affinity [OF ok, of "lit ''x''" lb' i demo_ring] sel Some up show ?thesis
      by (simp add: demo_ring_def)
  qed
qed

section \<open>Health checks\<close>

text \<open>
  The abstract checker of one backend: its health and the numbers of failed and successful
  probes in a row.
\<close>

definition health_step :: "int \<Rightarrow> int \<Rightarrow> bool \<Rightarrow> bool \<times> int \<times> int \<Rightarrow> bool \<times> int \<times> int" where
  "health_step unhealthy_at healthy_at ok st =
     (let (up, fails, successes) = st
      in if ok then (up \<or> healthy_at \<le> successes + 1, 0, successes + 1)
         else (up \<and> fails + 1 < unhealthy_at, fails + 1, 0))"

definition health_view :: "health_checker \<Rightarrow> nat \<Rightarrow> bool \<times> int \<times> int" where
  "health_view hc i =
     (let b = hc_pool hc ! i in (healthy b, failure_counts hc (address b), success_counts hc (address b)))"

definition pool_distinct :: "health_checker \<Rightarrow> bool" where
  "pool_distinct hc = distinct (map address (hc_pool hc))"

lemma check_backend_frame:
  "map address (hc_pool (check_backend ok hc i)) = map address (hc_pool hc)"
  "unhealthy_threshold (check_backend ok hc i) = unhealthy_threshold hc"
  "healthy_threshold (check_backend ok hc i) = healthy_threshold hc"
  "j \<noteq> i \<Longrightarrow> hc_pool (check_backend ok hc i) ! j = hc_pool hc ! j"
proof -
  have "map address (bs[i := (bs ! i)\<lparr>healthy := h\<rparr>]) = map address bs" for bs :: pool and h
    by (cases "i < length bs") (auto simp: map_update list_update_same_conv list_update_beyond)
  then show "map address (hc_pool (check_backend ok hc i)) = map address (hc_pool hc)"
    by (simp add: check_backend_def Let_def)
qed (simp_all add: check_backend_def Let_def)

lemma check_backend_view:
  assumes "pool_distinct hc" and "i < length (hc_pool hc)" and "j < length (hc_pool hc)"
  shows "health_view (check_backend ok hc i) j =
     (if j = i then health_step (unhealthy_threshold hc) (healthy_threshold hc) ok (health_view hc i)
      else health_view hc j)"
proof -
  have "j \<noteq> i \<Longrightarrow> address (hc_pool hc ! j) \<noteq> address (hc_pool hc ! i)"
    using assms by (metis length_map nth_eq_iff_index_eq nth_map pool_distinct_def)
  with assms(2,3) show ?thesis
    by (auto simp: health_view_def check_backend_def health_step_def Let_def)
qed

lemma check_fold:
  assumes "pool_distinct hc" and "m \<le> length (hc_pool hc)"
    and "hc' = fold (\<lambda>i hc. check_backend (probe (hc_pool hc ! i)) hc i) [0..<m] hc"
  shows "map address (hc_pool hc') = map address (hc_pool hc)
       \<and> unhealthy_threshold hc' = unhealthy_threshold hc \<and> healthy_threshold hc' = healthy_threshold hc
       \<and> (\<forall>j < length (hc_pool hc). m \<le> j \<longrightarrow> hc_pool hc' ! j = hc_pool hc ! j)
       \<and> (\<forall>j < length (hc_pool hc). health_view hc' j =
            (if j < m then health_step (unhealthy_threshold hc) (healthy_threshold hc) (probe (hc_pool hc ! j)) (health_view hc j)
             else health_view hc j))"
  using assms(2,3)
proof (induction m arbitrary: hc')
  case (Suc m)
  define h1 where "h1 = fold (\<lambda>i hc. check_backend (probe (hc_pool hc ! i)) hc i) [0..<m] hc"
  note IH = Suc.IH [OF Suc_leD [OF Suc.prems(1)] h1_def]
  have len: "length (hc_pool h1) = length (hc_pool hc)"
    using IH by (metis length_map)
  have dist: "pool_distinct h1"
    using IH assms(1) by (simp add: pool_distinct_def)
  have hc': "hc' = check_backend (probe (hc_pool hc ! m)) h1 m"
    using Suc.prems IH by (simp add: h1_def)
  have m: "m < length (hc_pool h1)"
    using Suc.prems(1) len by simp
  show ?case
    using IH check_backend_view [OF dist m, of _ "probe (hc_pool hc ! m)"] len
    by (auto simp: hc' check_backend_frame less_Suc_eq)
qed simp

lemma check_all_view:
  assumes "pool_distinct hc" and "i < length (hc_pool hc)"
  shows "health_view (check_all probe hc) i =
      health_step (unhealthy_threshold hc) (healthy_threshold hc) (probe (hc_pool hc ! i)) (health_view hc i)"
    and "map address (hc_pool (check_all probe hc)) = map address (hc_pool hc)"
    and "unhealthy_threshold (check_all probe hc) = unhealthy_threshold hc"
    and "healthy_threshold (check_all probe hc) = healthy_threshold hc"
  using check_fold [OF assms(1) order_refl check_all_def [of probe hc]] assms(2) by simp_all

text \<open>
  The health checker refines independent checkers: on a pool with distinct addresses one
  round of \<open>check_all\<close> advances, for every backend, the abstract two-threshold machine by
  that backend's own probe, and nothing else.
\<close>

theorem check_all_refines:
  assumes "distinct (map address (hc_pool hc))" and "i < length (hc_pool hc)"
  shows "health_view (check_all probe hc) i =
      health_step (unhealthy_threshold hc) (healthy_threshold hc) (probe (hc_pool hc ! i)) (health_view hc i)"
  using check_all_view(1) assms by (simp add: pool_distinct_def)

definition demo_checker :: health_checker where
  "demo_checker = \<lparr>hc_pool = demo_pool, failure_counts = (\<lambda>_. 0), success_counts = (\<lambda>_. 0),
     unhealthy_threshold = 3, healthy_threshold = 2\<rparr>"

lemma demo_checker_distinct: "distinct (map address (hc_pool demo_checker))" "length (hc_pool demo_checker) = 2"
  by (simp_all add: demo_checker_def demo_pool_def demo_backend_def lit_def)

theorem check_all_refines_witness:
  "health_view (check_all (\<lambda>b. False) demo_checker) 1 = (True, 1, 0)"
  using check_all_refines [OF demo_checker_distinct(1), of 1 "\<lambda>b. False"] demo_checker_distinct(2)
  by (simp add: health_view_def health_step_def) (simp add: demo_checker_def demo_pool_def demo_backend_def)

text \<open>
  Hysteresis: a healthy backend with no failure on record is taken out exactly after
  \<open>unhealthy_threshold\<close> failed rounds in a row, no earlier and no later.
\<close>

theorem health_hysteresis:
  assumes "distinct (map address (hc_pool hc))" and "i < length (hc_pool hc)"
    and "healthy (hc_pool hc ! i)" and "failure_counts hc (address (hc_pool hc ! i)) = 0"
    and "0 < unhealthy_threshold hc"
    and "\<forall>probe \<in> set probes. \<forall>b. address b = address (hc_pool hc ! i) \<longrightarrow> \<not> probe b"
  shows "healthy (hc_pool (fold check_all probes hc) ! i) = (int (length probes) < unhealthy_threshold hc)"
proof -
  have "map address (hc_pool (fold check_all probes hc)) = map address (hc_pool hc)
      \<and> unhealthy_threshold (fold check_all probes hc) = unhealthy_threshold hc
      \<and> fst (health_view (fold check_all probes hc) i) = (int (length probes) < unhealthy_threshold hc)
      \<and> fst (snd (health_view (fold check_all probes hc) i)) = int (length probes)"
    using assms(6)
  proof (induction probes rule: rev_induct)
    case Nil
    then show ?case
      using assms(3-5) by (simp add: health_view_def)
  next
    case (snoc p ps)
    let ?h = "fold check_all ps hc"
    have IH: "map address (hc_pool ?h) = map address (hc_pool hc)" "unhealthy_threshold ?h = unhealthy_threshold hc"
        "fst (health_view ?h i) = (int (length ps) < unhealthy_threshold hc)"
        "fst (snd (health_view ?h i)) = int (length ps)"
      using snoc.IH snoc.prems by auto
    have len: "length (hc_pool ?h) = length (hc_pool hc)"
      using IH(1) by (metis length_map)
    then have i: "i < length (hc_pool ?h)" and dist: "pool_distinct ?h"
      using assms(1,2) IH(1) by (simp_all add: pool_distinct_def)
    have "address (hc_pool ?h ! i) = address (hc_pool hc ! i)"
      using IH(1) assms(2) i by (metis nth_map)
    then have "\<not> p (hc_pool ?h ! i)"
      using snoc.prems by simp
    with check_all_view [OF dist i, of p] IH show ?case
      by (auto simp: health_step_def split: prod.splits)
  qed
  then show ?thesis
    by (simp add: health_view_def Let_def)
qed

theorem health_hysteresis_witness:
  "healthy (hc_pool (fold check_all [\<lambda>b. False, \<lambda>b. False] demo_checker) ! 1)
   \<and> \<not> healthy (hc_pool (fold check_all [\<lambda>b. False, \<lambda>b. False, \<lambda>b. False] demo_checker) ! 1)"
  using health_hysteresis [OF demo_checker_distinct(1), of 1 "[\<lambda>b. False, \<lambda>b. False]"]
    health_hysteresis [OF demo_checker_distinct(1), of 1 "[\<lambda>b. False, \<lambda>b. False, \<lambda>b. False]"]
    demo_checker_distinct(2)
  by (simp add: demo_checker_def demo_pool_def demo_backend_def)

text \<open>
  A probe needs no answer: a backend that accepts the connection and then stays silent, or
  closes without sending a byte, counts as healthy.
\<close>

theorem probe_silent_is_healthy:
  assumes "r = io (probe_request check_path b)" and "0 \<le> sockfd r" and "0 \<le> connect_ret r \<or> in_progress r"
    and "0 < poll_out r" and "can_write r" and "poll_in r \<le> 0 \<or> received r \<in> {None, Some []}"
  shows "probe_backend io check_path b"
  using assms by (auto simp: probe_backend_def Let_def)

theorem probe_silent_is_healthy_witness:
  "probe_backend (\<lambda>req. \<lparr>sockfd = 3, connect_ret = -1, in_progress = True, poll_out = 1, can_write = True, sent = 50,
     poll_in = 0, received = None\<rparr>) (lit ''/health'') (demo_backend ''a'' True)"
  by (rule probe_silent_is_healthy [OF refl]) simp_all

end
