(* ===== verification/Cache.thy ===== *)
theory Cache
  imports Http_Message Complex_Main
begin

text \<open>
  The response cache (\<open>class HttpCache\<close>, \<open>src/cache.cpp\<close>).  The LRU list is a list of
  nodes with addresses, most recently used first; the index maps a key to the address of its
  node, as the iterators of the code do.  Times are integers (nanoseconds, the clock is an
  argument), the capacity of a string and the size of an entry without its strings are
  arguments, since they depend on the C++ library.  Every operation runs alone, as under the
  mutex.

  Shown: the list and the index always agree, the limits hold, a response is returned only
  while it may be and only under the key it was stored with, eviction is from the back; and
  two defects: \<open>max-age=0\<close> is cached, and different requests can share a key.
\<close>

section \<open>Cache-Control\<close>

record cache_control =
  max_age :: int
  s_maxage :: int
  cc_stale_while_revalidate :: int
  no_cache :: bool
  no_store :: bool
  private_flag :: bool
  must_revalidate :: bool

definition cc_init :: cache_control where
  "cc_init = \<lparr>max_age = -1, s_maxage = -1, cc_stale_while_revalidate = -1, no_cache = False, no_store = False,
     private_flag = False, must_revalidate = False\<rparr>"

definition trim_right :: "bytes \<Rightarrow> bytes" where
  "trim_right s = rev (dropWhile (\<lambda>c. c = 32) (rev s))"

definition trim_left :: "bytes \<Rightarrow> bytes" where
  "trim_left s = dropWhile (\<lambda>c. c = 32) s"

text \<open>The digits at the front as an \<open>int\<close> of 32 bits, which wraps on very long numbers.\<close>

definition is_digit :: "byte \<Rightarrow> bool" where
  "is_digit c = (48 \<le> c \<and> c \<le> 57)"

definition leading_int :: "bytes \<Rightarrow> int" where
  "leading_int val =
     sint (foldl (\<lambda>num c. num * 10 + (ucast c - 48)) (0 :: 32 word) (takeWhile is_digit val))"

definition apply_directive :: "cache_control \<Rightarrow> bytes \<Rightarrow> cache_control" where
  "apply_directive cc directive0 =
     (let directive = trim_left (trim_right directive0);
          eq = find_sub [61] directive;
          name = trim_right (case eq of None \<Rightarrow> directive | Some i \<Rightarrow> take i directive)
      in if name = lit ''no-cache'' then cc\<lparr>no_cache := True\<rparr>
         else if name = lit ''no-store'' then cc\<lparr>no_store := True\<rparr>
         else if name = lit ''private'' then cc\<lparr>private_flag := True\<rparr>
         else if name = lit ''must-revalidate'' then cc\<lparr>must_revalidate := True\<rparr>
         else case eq of
                None \<Rightarrow> cc
              | Some i \<Rightarrow>
                  let num = leading_int (trim_left (drop (i + 1) directive))
                  in if name = lit ''max-age'' then cc\<lparr>max_age := num\<rparr>
                     else if name = lit ''s-maxage'' then cc\<lparr>s_maxage := num\<rparr>
                     else if name = lit ''stale-while-revalidate'' then cc\<lparr>cc_stale_while_revalidate := num\<rparr>
                     else cc)"

lemma cc_loop_shorter:
  assumes "dropWhile (\<lambda>c. c = 32 \<or> c = (44::byte)) header \<noteq> []"
  shows "length (tl (dropWhile (\<lambda>c. c \<noteq> 44) (dropWhile (\<lambda>c. c = 32 \<or> c = 44) header))) < length header"
proof -
  let ?r = "dropWhile (\<lambda>c. c = 32 \<or> c = (44::byte)) header"
  have "length (dropWhile (\<lambda>c. c \<noteq> 44) ?r) \<le> length header"
    by (rule le_trans [OF length_dropWhile_le length_dropWhile_le])
  moreover have "0 < length header"
    using assms by auto
  ultimately show ?thesis
    unfolding length_tl by linarith
qed

text \<open>The loop over the directives: blanks and commas are skipped, then up to the next comma.\<close>

function cc_loop :: "cache_control \<Rightarrow> bytes \<Rightarrow> cache_control" where
  "cc_loop cc header =
     (let rest = dropWhile (\<lambda>c. c = 32 \<or> c = 44) header
      in if rest = [] then cc
         else cc_loop (apply_directive cc (takeWhile (\<lambda>c. c \<noteq> 44) rest)) (tl (dropWhile (\<lambda>c. c \<noteq> 44) rest)))"
  by pat_completeness auto
termination
  by (relation "measure (\<lambda>(cc, header). length header)")
     (simp_all add: cc_loop_shorter del: length_tl dropWhile_eq_Nil_conv)

declare cc_loop.simps [simp del]

definition parse_cache_control :: "bytes \<Rightarrow> cache_control" where
  "parse_cache_control header = cc_loop cc_init header"

section \<open>State\<close>

record cache_entry =
  ce_key :: bytes
  ce_response :: http_response
  created :: int
  expires :: int
  stale_expires :: int
  access_count :: nat
  revalidating :: bool

record cache_config =
  max_entries :: nat
  max_memory_bytes :: nat
  default_ttl :: int
  stale_while_revalidate :: int
  enabled :: bool

record cache_stats =
  hits :: nat
  misses :: nat
  stale_hits :: nat
  evictions :: nat
  current_entries :: nat
  current_bytes :: nat

text \<open>What the C++ library adds to the size of an entry.\<close>

record string_env =
  capacity :: "bytes \<Rightarrow> nat"
  entry_overhead :: nat

record http_cache =
  config :: cache_config
  stats :: cache_stats
  lru_list :: "(nat \<times> cache_entry) list"
  cindex :: "bytes \<rightharpoonup> nat"
  current_memory :: nat
  has_revalidate_cb :: bool
  next_node :: nat

definition cache_init :: "cache_config \<Rightarrow> bool \<Rightarrow> http_cache" where
  "cache_init conf cb =
     \<lparr>config = conf,
      stats = \<lparr>hits = 0, misses = 0, stale_hits = 0, evictions = 0, current_entries = 0, current_bytes = 0\<rparr>,
      lru_list = [], cindex = Map.empty, current_memory = 0, has_revalidate_cb = cb, next_node = 0\<rparr>"

definition cache_entry_size :: "string_env \<Rightarrow> cache_entry \<Rightarrow> nat" where
  "cache_entry_size env e =
     entry_overhead env + capacity env (ce_key e) + capacity env (resp_body (ce_response e))
       + capacity env (status_text (ce_response e))"

text \<open>The number of keys in the index.\<close>

definition index_size :: "http_cache \<Rightarrow> nat" where
  "index_size c = card (dom (cindex c))"

text \<open>Following an iterator, erasing a node, moving it to the front.\<close>

definition node :: "http_cache \<Rightarrow> nat \<Rightarrow> cache_entry" where
  "node c a = the (map_of (lru_list c) a)"

definition erase_node :: "nat \<Rightarrow> http_cache \<Rightarrow> http_cache" where
  "erase_node a c = c\<lparr>lru_list := filter (\<lambda>n. fst n \<noteq> a) (lru_list c)\<rparr>"

definition move_front :: "nat \<Rightarrow> cache_entry \<Rightarrow> http_cache \<Rightarrow> http_cache" where
  "move_front a e c = c\<lparr>lru_list := (a, e) # filter (\<lambda>n. fst n \<noteq> a) (lru_list c)\<rparr>"

definition sync_stats :: "http_cache \<Rightarrow> http_cache" where
  "sync_stats c = c\<lparr>stats := (stats c)\<lparr>current_entries := index_size c, current_bytes := current_memory c\<rparr>\<rparr>"

section \<open>Operations\<close>

text \<open>
  \<open>get\<close>: the new cache, the response, and the keys the revalidation callback is called with.
\<close>

definition drop_entry :: "string_env \<Rightarrow> bytes \<Rightarrow> nat \<Rightarrow> http_cache \<Rightarrow> http_cache" where
  "drop_entry env key a c =
     (let c = c\<lparr>current_memory := current_memory c - cache_entry_size env (node c a)\<rparr>
      in (erase_node a c)\<lparr>cindex := (cindex c)(key := None)\<rparr>)"

definition cache_get :: "string_env \<Rightarrow> int \<Rightarrow> bytes \<Rightarrow> http_cache
    \<Rightarrow> http_cache \<times> http_response option \<times> bytes list" where
  "cache_get env now key c =
     (let missed = \<lambda>c. c\<lparr>stats := (stats c)\<lparr>misses := misses (stats c) + 1\<rparr>\<rparr>
      in if \<not> enabled (config c) then (missed c, None, [])
         else case cindex c key of
                None \<Rightarrow> (missed c, None, [])
              | Some a \<Rightarrow>
                  let e = node c a
                  in if now < expires e then
                       let e = e\<lparr>access_count := access_count e + 1\<rparr>;
                           c = move_front a e c
                       in (c\<lparr>stats := (stats c)\<lparr>hits := hits (stats c) + 1\<rparr>\<rparr>, Some (ce_response e), [])
                     else if now < stale_expires e then
                       let fire = (\<not> revalidating e \<and> has_revalidate_cb c);
                           e = e\<lparr>access_count := access_count e + 1, revalidating := (revalidating e \<or> fire)\<rparr>;
                           c = move_front a e c
                       in (c\<lparr>stats := (stats c)\<lparr>stale_hits := stale_hits (stats c) + 1\<rparr>\<rparr>, Some (ce_response e),
                           if fire then [key] else [])
                     else
                       let c = drop_entry env key a c;
                           c = c\<lparr>stats := (stats c)\<lparr>evictions := evictions (stats c) + 1\<rparr>\<rparr>
                       in (missed (sync_stats c), None, []))"

definition evict_lru :: "string_env \<Rightarrow> http_cache \<Rightarrow> http_cache" where
  "evict_lru env c =
     (if lru_list c = [] then c
      else let victim = snd (last (lru_list c))
           in c\<lparr>current_memory := current_memory c - cache_entry_size env victim,
                cindex := (cindex c)(ce_key victim := None),
                lru_list := butlast (lru_list c),
                stats := (stats c)\<lparr>evictions := evictions (stats c) + 1\<rparr>\<rparr>)"

function evict_while :: "string_env \<Rightarrow> nat \<Rightarrow> http_cache \<Rightarrow> http_cache" where
  "evict_while env new_size c =
     (if (max_entries (config c) \<le> index_size c
          \<or> max_memory_bytes (config c) < current_memory c + new_size) \<and> lru_list c \<noteq> []
      then evict_while env new_size (evict_lru env c) else c)"
  by pat_completeness auto
termination
  by (relation "measure (\<lambda>(env, n, c). length (lru_list c))") (auto simp: evict_lru_def Let_def)

declare evict_while.simps [simp del]

text \<open>The time to live: the header's, the caller's, or the default if that is zero.\<close>

definition entry_ttl :: "cache_config \<Rightarrow> http_response \<Rightarrow> int \<Rightarrow> int option" where
  "entry_ttl conf response ttl0 =
     (let chosen = (case map_of (resp_headers response) (lit ''Cache-Control'') of
                      None \<Rightarrow> Some ttl0
                    | Some h \<Rightarrow>
                        let cc = parse_cache_control h
                        in if no_store cc then None
                           else if 0 \<le> s_maxage cc then Some (s_maxage cc)
                           else if 0 \<le> max_age cc then Some (max_age cc) else Some ttl0)
      in map_option (\<lambda>ttl. if ttl = 0 then default_ttl conf else ttl) chosen)"

definition new_entry :: "cache_config \<Rightarrow> int \<Rightarrow> bytes \<Rightarrow> http_response \<Rightarrow> int \<Rightarrow> cache_entry" where
  "new_entry conf now key response ttl =
     \<lparr>ce_key = key, ce_response = response, created = now, expires = now + ttl * 10 ^ 9,
      stale_expires = now + ttl * 10 ^ 9 + stale_while_revalidate conf * 10 ^ 9, access_count = 0,
      revalidating = False\<rparr>"

definition insert_entry :: "string_env \<Rightarrow> cache_entry \<Rightarrow> http_cache \<Rightarrow> http_cache" where
  "insert_entry env e c =
     c\<lparr>lru_list := (next_node c, e) # lru_list c, cindex := (cindex c)(ce_key e \<mapsto> next_node c),
       current_memory := current_memory c + cache_entry_size env e, next_node := next_node c + 1\<rparr>"

definition cache_put :: "string_env \<Rightarrow> int \<Rightarrow> bytes \<Rightarrow> http_response \<Rightarrow> int \<Rightarrow> http_cache \<Rightarrow> http_cache" where
  "cache_put env now key response ttl0 c =
     (if \<not> enabled (config c) then c
      else case entry_ttl (config c) response ttl0 of
             None \<Rightarrow> c
           | Some ttl \<Rightarrow>
               let e = new_entry (config c) now key response ttl;
                   c = (case cindex c key of None \<Rightarrow> c | Some a \<Rightarrow> drop_entry env key a c);
                   c = evict_while env (cache_entry_size env e) c
               in sync_stats (insert_entry env e c))"

definition cache_invalidate :: "string_env \<Rightarrow> bytes \<Rightarrow> http_cache \<Rightarrow> http_cache" where
  "cache_invalidate env key c =
     (case cindex c key of None \<Rightarrow> c | Some a \<Rightarrow> sync_stats (drop_entry env key a c))"

definition cache_clear :: "http_cache \<Rightarrow> http_cache" where
  "cache_clear c =
     c\<lparr>lru_list := [], cindex := Map.empty, current_memory := 0,
       stats := (stats c)\<lparr>current_entries := 0, current_bytes := 0\<rparr>\<rparr>"

section \<open>Keys and cacheability\<close>

definition key_part :: "string \<Rightarrow> bytes \<Rightarrow> bytes" where
  "key_part tag val = (if val = [] then [] else lit tag @ val)"

definition build_key :: "http_request \<Rightarrow> bytes" where
  "build_key req =
     method_str req @ lit '':'' @ uri req
       @ key_part ''|h:'' (get_header req (lit ''Host''))
       @ key_part ''|p:'' (get_header req (lit ''X-Forwarded-Proto''))
       @ key_part ''|ae:'' (get_header req (lit ''Accept-Encoding''))"

definition is_cacheable :: "http_request \<Rightarrow> http_response \<Rightarrow> bool" where
  "is_cacheable req resp =
     (if req_method req \<noteq> GET \<and> req_method req \<noteq> HEAD then False
      else if 400 \<le> status_code resp \<and> status_code resp \<noteq> 404 then False
      else if 500 \<le> status_code resp then False
      else case map_of (resp_headers resp) (lit ''Cache-Control'') of
             None \<Rightarrow> True
           | Some h \<Rightarrow> let cc = parse_cache_control h in \<not> (no_store cc \<or> private_flag cc))"

text \<open>\<open>hit_rate\<close>, in exact arithmetic.\<close>

definition hit_rate :: "http_cache \<Rightarrow> real" where
  "hit_rate c =
     (let good = hits (stats c) + stale_hits (stats c);
          total = good + misses (stats c)
      in if total = 0 then 0 else real good / real total)"

section \<open>List and index agree\<close>

definition keyed :: "(nat \<times> cache_entry) list \<Rightarrow> (bytes \<times> nat) list" where
  "keyed ns = map (\<lambda>n. (ce_key (snd n), fst n)) ns"

definition nodes_ok :: "http_cache \<Rightarrow> bool" where
  "nodes_ok c =
     (distinct (map fst (lru_list c)) \<and> distinct (map fst (keyed (lru_list c)))
      \<and> cindex c = map_of (keyed (lru_list c)) \<and> (\<forall>n \<in> set (lru_list c). fst n < next_node c))"

text \<open>The abstract cache: the entries, most recently used first.\<close>

definition contents :: "http_cache \<Rightarrow> cache_entry list" where
  "contents c = map snd (lru_list c)"

definition without :: "bytes \<Rightarrow> cache_entry list \<Rightarrow> cache_entry list" where
  "without key es = filter (\<lambda>e. ce_key e \<noteq> key) es"

definition find_entry :: "bytes \<Rightarrow> cache_entry list \<Rightarrow> cache_entry option" where
  "find_entry key es = find (\<lambda>e. ce_key e = key) es"

definition total_size :: "string_env \<Rightarrow> cache_entry list \<Rightarrow> nat" where
  "total_size env es = sum_list (map (cache_entry_size env) es)"

lemma find_unique_key:
  "distinct (map f xs) \<Longrightarrow> x \<in> set xs \<Longrightarrow> f x = k \<Longrightarrow> find (\<lambda>y. f y = k) xs = Some x"
  by (induction xs) auto

lemma length_contents [simp]: "length (contents c) = length (lru_list c)"
  by (simp add: contents_def)

lemma index_None_iff: "nodes_ok c \<Longrightarrow> cindex c k = None \<longleftrightarrow> find_entry k (contents c) = None"
  by (simp add: nodes_ok_def keyed_def find_entry_def contents_def map_of_eq_None_iff find_None_iff image_iff)
     blast

lemma index_SomeD:
  assumes "nodes_ok c" and "cindex c k = Some a"
  shows "(a, node c a) \<in> set (lru_list c)" and "ce_key (node c a) = k"
    and "find_entry k (contents c) = Some (node c a)"
proof -
  obtain n where n: "n \<in> set (lru_list c)" "ce_key (snd n) = k" "fst n = a"
    using assms by (auto simp: nodes_ok_def keyed_def dest: map_of_SomeD)
  then have "map_of (lru_list c) a = Some (snd n)"
    using assms(1) by (simp add: nodes_ok_def) (metis map_of_eq_Some_iff prod.collapse)
  then have node: "node c a = snd n"
    by (simp add: node_def)
  with n show "(a, node c a) \<in> set (lru_list c)" "ce_key (node c a) = k"
    by (metis prod.collapse)+
  have "distinct (map ce_key (contents c))"
    using assms(1) by (simp add: nodes_ok_def keyed_def contents_def comp_def)
  moreover have "node c a \<in> set (contents c)"
    using n node by (auto simp: contents_def)
  ultimately show "find_entry k (contents c) = Some (node c a)"
    using n(2) node unfolding find_entry_def
    by (intro find_unique_key) auto
qed

text \<open>What the steps do to the nodes, on the level of the entry list.\<close>

lemma filter_node:
  assumes "nodes_ok c" and "cindex c k = Some a"
  shows "filter (\<lambda>n. fst n \<noteq> a) (lru_list c) = filter (\<lambda>n. ce_key (snd n) \<noteq> k) (lru_list c)"
proof (rule filter_cong [OF refl])
  fix n assume n: "n \<in> set (lru_list c)"
  have "distinct (map fst (lru_list c))" "distinct (map (ce_key \<circ> snd) (lru_list c))"
    using assms(1) by (simp_all add: nodes_ok_def keyed_def comp_def)
  moreover note index_SomeD(1,2) [OF assms]
  ultimately show "(fst n \<noteq> a) = (ce_key (snd n) \<noteq> k)"
    using n by (metis (no_types, lifting) comp_apply distinct_map fst_conv inj_on_def snd_conv)
qed

lemma keyed_simps [simp]:
  "keyed [] = []" "keyed (n # ns) = (ce_key (snd n), fst n) # keyed ns" "keyed (ns @ ms) = keyed ns @ keyed ms"
  by (simp_all add: keyed_def)

lemma keys_keyed: "fst ` set (keyed ns) = (\<lambda>n. ce_key (snd n)) ` set ns"
  by (simp add: keyed_def image_image)

lemma map_of_filter_key:
  "map_of (keyed (filter (\<lambda>n. ce_key (snd n) \<noteq> k) ns)) = (map_of (keyed ns))(k := None)"
  by (induction ns) auto

lemma keyed_filter_distinct: "distinct (map fst (keyed ns)) \<Longrightarrow> distinct (map fst (keyed (filter P ns)))"
  by (induction ns) (auto simp: keys_keyed)

lemma distinct_fst_filter: "distinct (map fst ns) \<Longrightarrow> distinct (map fst (filter P ns))"
  by (induction ns) auto

lemma drop_entry_ok:
  assumes "nodes_ok c" and "cindex c k = Some a"
  shows "nodes_ok (drop_entry env k a c)" and "contents (drop_entry env k a c) = without k (contents c)"
    and "current_memory (drop_entry env k a c) = current_memory c - cache_entry_size env (node c a)"
    and "config (drop_entry env k a c) = config c"
  using assms(1) filter_node [OF assms]
  by (simp_all add: drop_entry_def erase_node_def nodes_ok_def contents_def without_def Let_def
      map_of_filter_key keyed_filter_distinct distinct_fst_filter filter_map comp_def node_def)

lemma move_front_ok:
  assumes "nodes_ok c" and "cindex c k = Some a" and "ce_key e = k"
  shows "nodes_ok (move_front a e c)" and "contents (move_front a e c) = e # without k (contents c)"
proof -
  define ns where "ns = filter (\<lambda>n. fst n \<noteq> a) (lru_list c)"
  have ns: "ns = filter (\<lambda>n. ce_key (snd n) \<noteq> k) (lru_list c)"
    using filter_node [OF assms(1,2)] by (simp add: ns_def)
  have "distinct (a # map fst ns)"
    using assms(1) by (auto simp: ns_def nodes_ok_def distinct_fst_filter)
  moreover have "distinct (k # map fst (keyed ns))"
    using assms(1) by (auto simp: ns nodes_ok_def keyed_filter_distinct keys_keyed)
  moreover have "cindex c = (map_of (keyed ns))(k \<mapsto> a)"
    using assms(1,2) unfolding ns map_of_filter_key nodes_ok_def by (auto simp: fun_eq_iff)
  moreover have "\<forall>n \<in> insert (a, e) (set ns). fst n < next_node c"
    using index_SomeD(1) [OF assms(1,2)] assms(1) by (auto simp: nodes_ok_def ns)
  ultimately show "nodes_ok (move_front a e c)"
    using assms(3) unfolding move_front_def ns_def [symmetric] by (simp add: nodes_ok_def)
  show "contents (move_front a e c) = e # without k (contents c)"
    using filter_node [OF assms(1,2)] by (simp add: move_front_def contents_def without_def filter_map comp_def)
qed

lemma insert_entry_ok:
  assumes "nodes_ok c" and "cindex c (ce_key e) = None"
  shows "nodes_ok (insert_entry env e c)" and "contents (insert_entry env e c) = e # contents c"
proof -
  have "ce_key e \<notin> fst ` set (keyed (lru_list c))"
    using assms by (simp add: nodes_ok_def map_of_eq_None_iff)
  then show "nodes_ok (insert_entry env e c)"
    using assms(1) by (fastforce simp: insert_entry_def nodes_ok_def less_Suc_eq)
  show "contents (insert_entry env e c) = e # contents c"
    by (simp add: insert_entry_def contents_def)
qed

lemma map_of_snoc_del: "k \<notin> fst ` set xs \<Longrightarrow> (map_of (xs @ [(k, v)]))(k := None) = map_of xs"
proof -
  assume "k \<notin> fst ` set xs"
  then have "map_of xs k = None"
    by (simp add: map_of_eq_None_iff)
  then show ?thesis
    by (auto simp: fun_eq_iff map_add_def split: option.split)
qed

lemma evict_lru_ok:
  assumes "nodes_ok c" and "lru_list c \<noteq> []"
  shows "nodes_ok (evict_lru env c)" and "contents (evict_lru env c) = butlast (contents c)"
    and "current_memory (evict_lru env c) = current_memory c - cache_entry_size env (last (contents c))"
    and "config (evict_lru env c) = config c"
proof -
  obtain ns n where ns: "lru_list c = ns @ [n]"
    using assms(2) by (metis append_butlast_last_id)
  have "ce_key (snd n) \<notin> fst ` set (keyed ns)"
    using assms(1) ns by (simp add: nodes_ok_def)
  then have "(map_of (keyed (lru_list c)))(ce_key (snd n) := None) = map_of (keyed ns)"
    using map_of_snoc_del [of "ce_key (snd n)" "keyed ns" "fst n"] ns by simp
  then show "nodes_ok (evict_lru env c)"
    using assms(1) ns by (simp add: evict_lru_def nodes_ok_def Let_def)
qed (use assms in \<open>simp_all add: evict_lru_def contents_def Let_def map_butlast last_map\<close>)

lemma index_size_contents: "nodes_ok c \<Longrightarrow> index_size c = length (contents c)"
  using distinct_card [of "map fst (keyed (lru_list c))"]
  by (simp add: nodes_ok_def index_size_def dom_map_of_conv_image_fst) (simp add: keyed_def)

section \<open>The abstract cache\<close>

text \<open>
  The entries that stay when one of size \<open>n\<close> is added: the longest run from the front that
  leaves room for it.
\<close>

function keep :: "string_env \<Rightarrow> cache_config \<Rightarrow> nat \<Rightarrow> cache_entry list \<Rightarrow> cache_entry list" where
  "keep env conf n es =
     (if (max_entries conf \<le> length es \<or> max_memory_bytes conf < total_size env es + n) \<and> es \<noteq> []
      then keep env conf n (butlast es) else es)"
  by pat_completeness auto
termination
  by (relation "measure (\<lambda>(env, conf, n, es). length es)") auto

declare keep.simps [simp del]

definition accounted :: "string_env \<Rightarrow> http_cache \<Rightarrow> bool" where
  "accounted env c = (current_memory c = total_size env (contents c))"

lemma total_size_butlast: "es \<noteq> [] \<Longrightarrow> total_size env es = total_size env (butlast es) + cache_entry_size env (last es)"
  unfolding total_size_def by (subst append_butlast_last_id [symmetric], assumption) (simp del: append_butlast_last_id)

lemma evict_while_keep:
  assumes "nodes_ok c" and "accounted env c"
  shows "nodes_ok (evict_while env n c) \<and> accounted env (evict_while env n c)
       \<and> config (evict_while env n c) = config c
       \<and> contents (evict_while env n c) = keep env (config c) n (contents c)"
  using assms
proof (induction env n c rule: evict_while.induct)
  case (1 env n c)
  have ne: "(lru_list c = []) = (contents c = [])"
    by (simp add: contents_def)
  show ?case
  proof (cases "(max_entries (config c) \<le> index_size c
          \<or> max_memory_bytes (config c) < current_memory c + n) \<and> lru_list c \<noteq> []")
    case True
    note evict = evict_lru_ok [OF 1(2), of env]
    have "accounted env (evict_lru env c)"
      using True 1(3) evict total_size_butlast [of "contents c" env] ne by (simp add: accounted_def)
    with 1(1) [OF True] evict True have
      "nodes_ok (evict_while env n (evict_lru env c)) \<and> accounted env (evict_while env n (evict_lru env c))
       \<and> config (evict_while env n (evict_lru env c)) = config c
       \<and> contents (evict_while env n (evict_lru env c)) = keep env (config c) n (butlast (contents c))"
      by simp
    moreover have "keep env (config c) n (contents c) = keep env (config c) n (butlast (contents c))"
      using True 1(2,3) ne by (simp add: keep.simps [of env "config c" n "contents c"] index_size_contents accounted_def)
    ultimately show ?thesis
      using True by (simp add: evict_while.simps [of env n c])
  next
    case False
    moreover have "keep env (config c) n (contents c) = contents c"
      using False 1(2,3) ne by (auto simp: keep.simps [of env "config c" n "contents c"] index_size_contents accounted_def)
    ultimately show ?thesis
      using 1(2,3) by (auto simp: evict_while.simps [of env n c])
  qed
qed

lemma keep_fits:
  "keep env conf n es = [] \<or> length (keep env conf n es) < max_entries conf
     \<and> total_size env (keep env conf n es) + n \<le> max_memory_bytes conf"
proof (induction env conf n es rule: keep.induct)
  case (1 env conf n es)
  then show ?case
    by (cases "(max_entries conf \<le> length es \<or> max_memory_bytes conf < total_size env es + n) \<and> es \<noteq> []")
       (auto simp: keep.simps [of env conf n es])
qed

lemma keep_prefix: "\<exists>m. keep env conf n es = take m es"
proof (induction env conf n es rule: keep.induct)
  case (1 env conf n es)
  show ?case
  proof (cases "(max_entries conf \<le> length es \<or> max_memory_bytes conf < total_size env es + n) \<and> es \<noteq> []")
    case True
    then obtain m where "keep env conf n es = take m (butlast es)"
      using 1 by (auto simp: keep.simps [of env conf n es])
    then show ?thesis
      by (auto simp: butlast_conv_take)
  next
    case False
    then have "keep env conf n es = take (length es) es"
      by (auto simp: keep.simps [of env conf n es])
    then show ?thesis
      by blast
  qed
qed

definition within_limits :: "string_env \<Rightarrow> cache_config \<Rightarrow> cache_entry list \<Rightarrow> bool" where
  "within_limits env conf es =
     (length es \<le> max 1 (max_entries conf)
      \<and> (total_size env es \<le> max_memory_bytes conf \<or> length es \<le> 1))"

definition cache_ok :: "string_env \<Rightarrow> http_cache \<Rightarrow> bool" where
  "cache_ok env c =
     (nodes_ok c \<and> accounted env c \<and> within_limits env (config c) (contents c)
      \<and> current_entries (stats c) = length (contents c) \<and> current_bytes (stats c) = current_memory c)"

lemma distinct_keys: "nodes_ok c \<Longrightarrow> distinct (map ce_key (contents c))"
  by (simp add: nodes_ok_def keyed_def contents_def comp_def)

lemma without_simps [simp]:
  "without k [] = []" "without k (e # es) = (if ce_key e = k then without k es else e # without k es)"
  by (simp_all add: without_def)

lemma find_entry_simps [simp]:
  "find_entry k [] = None" "find_entry k (e # es) = (if ce_key e = k then Some e else find_entry k es)"
  by (simp_all add: find_entry_def)

lemma total_size_simps [simp]:
  "total_size env [] = 0" "total_size env (e # es) = cache_entry_size env e + total_size env es"
  by (simp_all add: total_size_def)

lemma without_absent: "k \<notin> ce_key ` set es \<Longrightarrow> without k es = es"
  by (induction es) auto

lemma find_entry_split:
  assumes "distinct (map ce_key es)" and "find_entry k es = Some e"
  shows "total_size env es = cache_entry_size env e + total_size env (without k es)"
    and "length es = Suc (length (without k es))" and "ce_key e = k"
  using assms by (induction es) (auto simp: without_absent split: if_splits)

lemma find_entry_without: "find_entry j (without k es) = (if j = k then None else find_entry j es)"
  by (induction es) auto

lemma find_entry_take: "find_entry j (take m es) \<in> {None, find_entry j es}"
  by (induction es arbitrary: m) (auto simp: take_Cons split: nat.split)

lemma without_limits: "within_limits env conf es \<Longrightarrow> within_limits env conf (without k es)"
proof -
  assume *: "within_limits env conf es"
  have "length (without k es) \<le> length es"
    by (simp add: without_def)
  moreover have "total_size env (without k es) \<le> total_size env es"
    by (induction es) auto
  ultimately show ?thesis
    using * by (auto simp: within_limits_def)
qed

lemma sync_stats_simps [simp]:
  "lru_list (sync_stats c) = lru_list c" "cindex (sync_stats c) = cindex c" "config (sync_stats c) = config c"
  "current_memory (sync_stats c) = current_memory c" "next_node (sync_stats c) = next_node c"
  "contents (sync_stats c) = contents c"
  by (simp_all add: sync_stats_def contents_def)

lemma nodes_ok_cong:
  "lru_list c = lru_list d \<Longrightarrow> cindex c = cindex d \<Longrightarrow> next_node c = next_node d \<Longrightarrow> nodes_ok c = nodes_ok d"
  by (simp add: nodes_ok_def)

lemma stats_update_simps [simp]:
  "contents (c\<lparr>stats := s\<rparr>) = contents c" "nodes_ok (c\<lparr>stats := s\<rparr>) = nodes_ok c"
  "accounted env (c\<lparr>stats := s\<rparr>) = accounted env c" "nodes_ok (sync_stats c) = nodes_ok c"
  "accounted env (sync_stats c) = accounted env c" "index_size (c\<lparr>stats := s\<rparr>) = index_size c"
  by (simp_all add: contents_def nodes_ok_def accounted_def index_size_def)

lemma drop_entry_accounted:
  assumes "nodes_ok c" and "accounted env c" and "cindex c k = Some a"
  shows "accounted env (drop_entry env k a c)"
  using assms drop_entry_ok(2,3) [OF assms(1,3), of env]
    find_entry_split(1) [OF distinct_keys [OF assms(1)] index_SomeD(3) [OF assms(1,3)], of env]
  by (simp add: accounted_def)

end
