(* ===== verification/Cache_Refinement.thy ===== *)
theory Cache_Refinement
  imports Cache
begin

text \<open>
  What the cache promises: an interface for stores that may forget (a locale), its
  interpretation on the operations of \<open>Cache\<close>, and the properties of the cache that follow:
  its limits, its refinement of the list of entries by recency, and the soundness of what
  \<open>get\<close> returns over any history of operations.
\<close>

section \<open>Stores that may forget\<close>

text \<open>
  A store with operations \<open>step\<close>, each with an intended effect on an unbounded map.  The store
  may forget entries at any time, but never holds anything the map would not hold.
\<close>

locale forgetful_store =
  fixes view :: "'s \<Rightarrow> 'k \<rightharpoonup> 'v"
    and step :: "'op \<Rightarrow> 's \<Rightarrow> 's"
    and effect :: "'op \<Rightarrow> ('k \<rightharpoonup> 'v) \<Rightarrow> ('k \<rightharpoonup> 'v)"
    and ok :: "'s \<Rightarrow> bool"
  assumes step_ok: "ok s \<Longrightarrow> ok (step op s)"
    and step_view: "ok s \<Longrightarrow> view s \<subseteq>\<^sub>m m \<Longrightarrow> view (step op s) \<subseteq>\<^sub>m effect op m"
begin

lemma run_sound: "ok s \<Longrightarrow> view s \<subseteq>\<^sub>m m \<Longrightarrow> view (fold step ops s) \<subseteq>\<^sub>m fold effect ops m"
  by (induction ops arbitrary: s m) (simp_all add: step_ok step_view)

lemma run_ok: "ok s \<Longrightarrow> ok (fold step ops s)"
  by (induction ops arbitrary: s) (simp_all add: step_ok)

end

section \<open>The operations on the abstract cache\<close>

lemma put_steps:
  assumes "cache_ok env c" and "enabled (config c)" and "entry_ttl (config c) r ttl0 = Some ttl"
    and "e = new_entry (config c) now key r ttl"
  defines "c' \<equiv> cache_put env now key r ttl0 c"
  shows "contents c' = e # keep env (config c) (cache_entry_size env e) (without key (contents c))"
    and "cache_ok env c'" and "config c' = config c"
proof -
  define c1 where "c1 = (case cindex c key of None \<Rightarrow> c | Some a \<Rightarrow> drop_entry env key a c)"
  define c2 where "c2 = evict_while env (cache_entry_size env e) c1"
  have ok: "nodes_ok c" "accounted env c"
    using assms(1) by (simp_all add: cache_ok_def)
  have c1: "nodes_ok c1" "accounted env c1" "contents c1 = without key (contents c)" "config c1 = config c"
  proof -
    have "without key (contents c) = contents c" if "cindex c key = None"
      using that index_None_iff [OF ok(1), of key] without_absent [of key "contents c"]
      by (simp add: find_entry_def find_None_iff image_iff) blast
    then show "nodes_ok c1" "accounted env c1" "contents c1 = without key (contents c)" "config c1 = config c"
      using ok drop_entry_ok [OF ok(1), of key] drop_entry_accounted [OF ok, of key]
      by (auto simp: c1_def split: option.split)
  qed
  have c2: "nodes_ok c2" "accounted env c2" "config c2 = config c"
      "contents c2 = keep env (config c) (cache_entry_size env e) (without key (contents c))"
    using evict_while_keep [OF c1(1,2), of "cache_entry_size env e"] c1(3,4) by (simp_all add: c2_def)
  have key: "ce_key e = key"
    by (simp add: assms(4) new_entry_def)
  have c': "c' = sync_stats (insert_entry env e c2)"
    using assms(2,3,4) by (simp add: c'_def cache_put_def c1_def c2_def Let_def)
  obtain m where m: "contents c2 = take m (without key (contents c))"
    using c2(4) keep_prefix by metis
  have "find_entry key (contents c2) = None"
    using find_entry_take [of key m "without key (contents c)"] by (simp add: m find_entry_without)
  then have "cindex c2 (ce_key e) = None"
    using index_None_iff [OF c2(1), of key] key by simp
  note ins = insert_entry_ok [OF c2(1) this, of env]
  show cont: "contents c' = e # keep env (config c) (cache_entry_size env e) (without key (contents c))"
    using ins(2) c2(4) by (simp add: c')
  show conf: "config c' = config c"
    using c2(3) by (simp add: c' insert_entry_def)
  have acc: "accounted env c'"
    using c2(2) ins(2) by (simp add: c' accounted_def insert_entry_def)
  have "within_limits env (config c) (contents c')"
    using keep_fits [of env "config c" "cache_entry_size env e" "without key (contents c)"]
    by (auto simp: cont within_limits_def)
  moreover have "nodes_ok c'"
    using ins(1) by (simp add: c')
  moreover have "current_entries (stats c') = length (contents c')" "current_bytes (stats c') = current_memory c'"
    using index_size_contents [OF ins(1)] by (simp_all add: c' sync_stats_def)
  ultimately show "cache_ok env c'"
    using acc conf by (simp add: cache_ok_def)
qed

lemma put_refused:
  assumes "\<not> enabled (config c) \<or> entry_ttl (config c) r ttl0 = None"
  shows "cache_put env now key r ttl0 c = c"
  using assms by (auto simp: cache_put_def)

lemma removed_ok:
  assumes "cache_ok env c" and "cindex c key = Some a"
  shows "cache_ok env (sync_stats (drop_entry env key a c))"
proof -
  have ok: "nodes_ok c" "accounted env c"
    using assms(1) by (simp_all add: cache_ok_def)
  note d = drop_entry_ok [OF ok(1) assms(2), of env]
  have "within_limits env (config c) (without key (contents c))"
    using assms(1) without_limits by (simp add: cache_ok_def)
  then show ?thesis
    using d drop_entry_accounted [OF ok assms(2)] index_size_contents [OF d(1)]
    by (simp add: cache_ok_def) (simp add: sync_stats_def)
qed

text \<open>A hit moves its entry to the front; only counters and the revalidation flag change.\<close>

lemma move_front_cache_ok:
  assumes "cache_ok env c" and "cindex c key = Some a"
    and "ce_key e = key" and "ce_response e = ce_response (node c a)"
  shows "cache_ok env (move_front a e c)" and "contents (move_front a e c) = e # without key (contents c)"
proof -
  have ok: "nodes_ok c"
    using assms(1) by (simp add: cache_ok_def)
  note mv = move_front_ok [OF ok assms(2,3)]
  show "contents (move_front a e c) = e # without key (contents c)"
    by (rule mv(2))
  have "cache_entry_size env e = cache_entry_size env (node c a)"
    using assms(3,4) index_SomeD(2) [OF ok assms(2)] by (simp add: cache_entry_size_def)
  then have "total_size env (e # without key (contents c)) = total_size env (contents c)"
      "length (e # without key (contents c)) = length (contents c)"
    using find_entry_split [OF distinct_keys [OF ok] index_SomeD(3) [OF ok assms(2)]] by simp_all
  then show "cache_ok env (move_front a e c)"
    using assms(1) mv by (simp add: cache_ok_def accounted_def within_limits_def) (simp add: move_front_def)
qed

lemma cache_ok_counters:
  "cache_ok env (c\<lparr>stats := (stats c)\<lparr>misses := n\<rparr>\<rparr>) = cache_ok env c"
  "cache_ok env (c\<lparr>stats := (stats c)\<lparr>hits := n\<rparr>\<rparr>) = cache_ok env c"
  "cache_ok env (c\<lparr>stats := (stats c)\<lparr>stale_hits := n\<rparr>\<rparr>) = cache_ok env c"
  "cache_ok env (c\<lparr>stats := (stats c)\<lparr>evictions := n, misses := m\<rparr>\<rparr>) = cache_ok env c"
  by (simp_all add: cache_ok_def)

lemma sync_stats_evictions:
  "sync_stats (c\<lparr>stats := (stats c)\<lparr>evictions := n\<rparr>\<rparr>) = (sync_stats c)\<lparr>stats := (stats (sync_stats c))\<lparr>evictions := n\<rparr>\<rparr>"
  by (simp add: sync_stats_def index_size_def)

text \<open>What \<open>get\<close> returns and what it leaves, by cases on the entry found.\<close>

lemma get_cases:
  assumes "cache_ok env c" and "cache_get env now key c = (c', r, fired)"
  shows "cache_ok env c' \<and> config c' = config c
       \<and> (case (if enabled (config c) then find_entry key (contents c) else None) of
            None \<Rightarrow> r = None \<and> contents c' = contents c
          | Some e \<Rightarrow>
              if now < stale_expires e \<or> now < expires e
              then r = Some (ce_response e)
                   \<and> (\<exists>e'. contents c' = e' # without key (contents c) \<and> ce_key e' = key
                        \<and> ce_response e' = ce_response e \<and> expires e' = expires e \<and> stale_expires e' = stale_expires e)
              else r = None \<and> contents c' = without key (contents c))"
proof (cases "enabled (config c) \<and> cindex c key \<noteq> None")
  case False
  have "nodes_ok c"
    using assms(1) by (simp add: cache_ok_def)
  with False assms index_None_iff [of c key] show ?thesis
    by (auto simp: cache_get_def Let_def cache_ok_counters split: if_splits)
next
  case True
  then obtain a where a: "cindex c key = Some a"
    by blast
  have ok: "nodes_ok c"
    using assms(1) by (simp add: cache_ok_def)
  let ?e = "node c a"
  note idx = index_SomeD [OF ok a]
  have mv: "cache_ok env (move_front a e c) \<and> contents (move_front a e c) = e # without key (contents c)
      \<and> config (move_front a e c) = config c"
    if "ce_key e = key" "ce_response e = ce_response ?e" for e
    using move_front_cache_ok [OF assms(1) a that] by (simp add: move_front_def)
  have rm: "cache_ok env (sync_stats (drop_entry env key a c))"
      "contents (drop_entry env key a c) = without key (contents c)" "config (drop_entry env key a c) = config c"
    using removed_ok [OF assms(1) a] drop_entry_ok [OF ok a] by simp_all
  show ?thesis
  proof (cases "now < expires ?e \<or> now < stale_expires ?e")
    case hit: True
    with True a assms(2) idx mv show ?thesis
      by (auto simp: cache_get_def Let_def cache_ok_counters split: if_splits)
  next
    case miss: False
    with True a assms(2) idx rm show ?thesis
      by (auto simp: cache_get_def Let_def cache_ok_counters sync_stats_evictions)
  qed
qed

lemma invalidate_ok:
  assumes "cache_ok env c"
  shows "cache_ok env (cache_invalidate env key c)" and "contents (cache_invalidate env key c) = without key (contents c)"
    and "config (cache_invalidate env key c) = config c"
proof -
  have ok: "nodes_ok c"
    using assms by (simp add: cache_ok_def)
  have "without key (contents c) = contents c" if "cindex c key = None"
    using that index_None_iff [OF ok, of key] without_absent [of key "contents c"]
    by (simp add: find_entry_def find_None_iff image_iff) blast
  then show "cache_ok env (cache_invalidate env key c)"
    "contents (cache_invalidate env key c) = without key (contents c)"
    "config (cache_invalidate env key c) = config c"
    using assms removed_ok [OF assms, of key] drop_entry_ok [OF ok, of key]
    by (auto simp: cache_invalidate_def split: option.split)
qed

lemma clear_ok: "cache_ok env (cache_clear c)" "contents (cache_clear c) = []" "config (cache_clear c) = config c"
  by (simp_all add: cache_clear_def cache_ok_def nodes_ok_def accounted_def contents_def within_limits_def)

section \<open>Histories\<close>

datatype cache_op =
  Put int bytes http_response int
| Get int bytes
| Invalidate bytes
| Clear

fun cache_step :: "string_env \<Rightarrow> cache_op \<Rightarrow> http_cache \<Rightarrow> http_cache" where
  "cache_step env (Put now key r ttl) c = cache_put env now key r ttl c"
| "cache_step env (Get now key) c = fst (cache_get env now key c)"
| "cache_step env (Invalidate key) c = cache_invalidate env key c"
| "cache_step env Clear c = cache_clear c"

text \<open>A stored response with the end of its life; the map that forgets nothing.\<close>

type_synonym stored = "http_response \<times> int \<times> int"

fun cache_effect :: "cache_config \<Rightarrow> cache_op \<Rightarrow> (bytes \<rightharpoonup> stored) \<Rightarrow> (bytes \<rightharpoonup> stored)" where
  "cache_effect conf (Put now key r ttl0) m =
     (if enabled conf
      then case entry_ttl conf r ttl0 of
             None \<Rightarrow> m
           | Some ttl \<Rightarrow> m(key \<mapsto> (r, now + ttl * 10 ^ 9, now + ttl * 10 ^ 9 + stale_while_revalidate conf * 10 ^ 9))
      else m)"
| "cache_effect conf (Get now key) m = m"
| "cache_effect conf (Invalidate key) m = m(key := None)"
| "cache_effect conf Clear m = Map.empty"

definition stored_view :: "http_cache \<Rightarrow> bytes \<rightharpoonup> stored" where
  "stored_view c key =
     map_option (\<lambda>e. (ce_response e, expires e, stale_expires e)) (find_entry key (contents c))"

lemma map_le_pointwise: "(\<And>j. f j \<in> {None, m j}) \<Longrightarrow> f \<subseteq>\<^sub>m m"
  by (auto simp: map_le_def dom_def) (metis option.distinct(1))

lemma map_le_at: "f \<subseteq>\<^sub>m m \<Longrightarrow> f j \<in> {None, m j}"
  by (cases "f j") (auto simp: map_le_def dom_def)

lemma view_put:
  assumes "cache_ok env c" and "stored_view c \<subseteq>\<^sub>m m"
  shows "stored_view (cache_put env now key r ttl0 c) \<subseteq>\<^sub>m cache_effect (config c) (Put now key r ttl0) m"
proof (cases "enabled (config c) \<and> entry_ttl (config c) r ttl0 \<noteq> None")
  case True
  then obtain ttl where ttl: "entry_ttl (config c) r ttl0 = Some ttl"
    by blast
  let ?e = "new_entry (config c) now key r ttl"
  obtain n where n: "contents (cache_put env now key r ttl0 c) = ?e # take n (without key (contents c))"
    using put_steps(1) [OF assms(1) _ ttl refl] True keep_prefix by metis
  have "find_entry j (take n (without key (contents c))) \<in> {None, find_entry j (contents c)}" if "j \<noteq> key" for j
    using find_entry_take [of j n "without key (contents c)"] that by (simp add: find_entry_without)
  then have other: "stored_view (cache_put env now key r ttl0 c) j \<in> {None, stored_view c j}" if "j \<noteq> key" for j
    using that by (force simp: stored_view_def n new_entry_def)
  have "stored_view (cache_put env now key r ttl0 c) j \<in> {None, cache_effect (config c) (Put now key r ttl0) m j}" for j
  proof (cases "j = key")
    case True
    then show ?thesis
      using \<open>enabled (config c) \<and> _\<close> by (simp add: stored_view_def n ttl) (simp add: new_entry_def)
  next
    case False
    then show ?thesis
      using other [OF False] map_le_at [OF assms(2), of j] \<open>enabled (config c) \<and> _\<close> by (auto simp: ttl)
  qed
  then show ?thesis
    by (rule map_le_pointwise)
next
  case False
  then show ?thesis
    using assms(2) put_refused [of c r ttl0] by auto
qed

lemma view_get:
  assumes "cache_ok env c" and "stored_view c \<subseteq>\<^sub>m m"
  shows "stored_view (fst (cache_get env now key c)) \<subseteq>\<^sub>m m"
proof -
  obtain c' r fired where g: "cache_get env now key c = (c', r, fired)"
    by (metis prod_cases3)
  have "stored_view c' j \<in> {None, stored_view c j}" for j
  proof (cases "if enabled (config c) then find_entry key (contents c) else None")
    case None
    with get_cases [OF assms(1) g] show ?thesis
      by (simp add: stored_view_def)
  next
    case (Some e)
    then have e: "find_entry key (contents c) = Some e"
      by (simp split: if_splits)
    show ?thesis
    proof (cases "now < expires e \<or> now < stale_expires e")
      case True
      with get_cases [OF assms(1) g] Some obtain e' where
        "contents c' = e' # without key (contents c)" "ce_key e' = key" "ce_response e' = ce_response e"
        "expires e' = expires e" "stale_expires e' = stale_expires e"
        by auto
      with e show ?thesis
        by (cases "j = key") (simp_all add: stored_view_def find_entry_without)
    next
      case False
      with get_cases [OF assms(1) g] Some have "contents c' = without key (contents c)"
        by auto
      then show ?thesis
        by (simp add: stored_view_def find_entry_without)
    qed
  qed
  then have "stored_view c' j \<in> {None, m j}" for j
    using map_le_at [OF assms(2), of j] by (metis insertE insertI1 insertI2 singletonD)
  then show ?thesis
    using g by (auto intro: map_le_pointwise)
qed

lemma view_invalidate:
  assumes "cache_ok env c" and "stored_view c \<subseteq>\<^sub>m m"
  shows "stored_view (cache_invalidate env key c) \<subseteq>\<^sub>m m(key := None)"
  using assms(2) invalidate_ok(2) [OF assms(1), of key] unfolding map_le_def
  by (auto simp: stored_view_def find_entry_without dom_def split: if_splits)

definition cache_inv :: "string_env \<Rightarrow> cache_config \<Rightarrow> http_cache \<Rightarrow> bool" where
  "cache_inv env conf c = (cache_ok env c \<and> config c = conf)"

lemma cache_step_inv:
  assumes "cache_inv env conf c"
  shows "cache_inv env conf (cache_step env op c)"
proof (cases op)
  case (Put now key r ttl0)
  show ?thesis
  proof (cases "enabled (config c) \<and> entry_ttl (config c) r ttl0 \<noteq> None")
    case True
    then show ?thesis
      using assms put_steps(2,3) [of env c r ttl0] Put by (auto simp: cache_inv_def)
  next
    case False
    then show ?thesis
      using assms put_refused [of c r ttl0] Put by (auto simp: cache_inv_def)
  qed
next
  case (Get now key)
  obtain c' r fired where "cache_get env now key c = (c', r, fired)"
    by (metis prod_cases3)
  with Get assms get_cases [of env c now key c' r fired] show ?thesis
    by (simp add: cache_inv_def)
qed (use assms invalidate_ok [of env c] clear_ok in \<open>simp_all add: cache_inv_def\<close>)

interpretation responses: forgetful_store stored_view "cache_step env" "cache_effect conf" "cache_inv env conf"
proof unfold_locales
  fix c :: http_cache and op
  assume inv: "cache_inv env conf c"
  then show "cache_inv env conf (cache_step env op c)"
    by (rule cache_step_inv)
  fix m assume m: "stored_view c \<subseteq>\<^sub>m m"
  show "stored_view (cache_step env op c) \<subseteq>\<^sub>m cache_effect conf op m"
  proof (cases op)
    case (Put now key r ttl0)
    then show ?thesis
      using view_put [of env c m now key r ttl0] inv m by (auto simp: cache_inv_def)
  qed (use inv m view_get view_invalidate clear_ok in \<open>auto simp: cache_inv_def stored_view_def map_le_def dom_def\<close>)
qed

lemma cache_inv_init: "cache_inv env conf (cache_init conf cb)"
  by (simp add: cache_inv_def cache_ok_def cache_init_def nodes_ok_def accounted_def contents_def within_limits_def)

section \<open>Properties\<close>

text \<open>
  C6. Soundness of the cache.  After any history of operations on a fresh cache, a response
  returned for a key is the one most recently stored under that very key (not invalidated
  or cleared since), and it is still within its time to live or its stale window.
\<close>

theorem cache_get_sound:
  assumes "c = fold (cache_step env) ops (cache_init conf cb)" and "cache_get env now key c = (c', Some r, fired)"
  shows "\<exists>exp stale. fold (cache_effect conf) ops Map.empty key = Some (r, exp, stale) \<and> (now < exp \<or> now < stale)"
proof -
  have inv: "cache_inv env conf c"
    using responses.run_ok [OF cache_inv_init] assms(1) by simp
  have "stored_view (cache_init conf cb) \<subseteq>\<^sub>m Map.empty"
    by (simp add: stored_view_def cache_init_def contents_def map_le_def dom_def)
  then have view: "stored_view c \<subseteq>\<^sub>m fold (cache_effect conf) ops Map.empty"
    using responses.run_sound [OF cache_inv_init] assms(1) by simp
  have "case (if enabled (config c) then find_entry key (contents c) else None) of
      None \<Rightarrow> False | Some e \<Rightarrow> r = ce_response e \<and> (now < stale_expires e \<or> now < expires e)"
    using get_cases [OF _ assms(2)] inv by (auto simp: cache_inv_def split: option.splits if_splits)
  then obtain e where e: "find_entry key (contents c) = Some e" "r = ce_response e"
      "now < stale_expires e \<or> now < expires e"
    by (auto split: option.splits if_splits)
  then have "stored_view c key = Some (r, expires e, stale_expires e)"
    by (simp add: stored_view_def)
  with view e(3) show ?thesis
    by (auto simp: map_le_def dom_def)
qed

definition small_env :: string_env where
  "small_env = \<lparr>capacity = length, entry_overhead = 100\<rparr>"

definition small_config :: cache_config where
  "small_config = \<lparr>max_entries = 2, max_memory_bytes = 1000, default_ttl = 60, stale_while_revalidate = 30, enabled = True\<rparr>"

lemma small_put_ttl: "entry_ttl small_config empty_response 5 = Some 5"
  by (simp add: entry_ttl_def empty_response_def)

lemma small_cache_ok: "cache_ok small_env (cache_init small_config True)"
  using cache_inv_init [of small_env small_config True] by (simp add: cache_inv_def)

lemma small_get:
  "\<exists>c'. cache_get small_env 1 key (cache_put small_env 0 key empty_response 5 (cache_init small_config True))
        = (c', Some empty_response, [])"
proof -
  let ?c = "cache_init small_config True"
  have "cindex ?c key = None" "lru_list ?c = []"
    by (simp_all add: cache_init_def)
  then show ?thesis
    using small_put_ttl
    by (simp add: cache_get_def cache_put_def evict_while.simps insert_entry_def sync_stats_def node_def Let_def
        new_entry_def cache_init_def small_config_def)
qed

theorem cache_get_sound_witness:
  "\<exists>exp stale. fold (cache_effect small_config) [Put 0 (lit ''k'') empty_response 5] Map.empty (lit ''k'')
     = Some (empty_response, exp, stale) \<and> ((1::int) < exp \<or> 1 < stale)"
proof -
  obtain c' where "cache_get small_env 1 (lit ''k'')
      (cache_put small_env 0 (lit ''k'') empty_response 5 (cache_init small_config True)) = (c', Some empty_response, [])"
    using small_get by blast
  then show ?thesis
    by (intro cache_get_sound [of _ small_env _ small_config True]) simp_all
qed

text \<open>
  C22. Invariant of the cache.  After any history the list and the index describe the same
  entries under distinct keys, the memory account is the sum of the entries' sizes, the
  statistics agree with them, and the limits hold: at most \<open>max_entries\<close> entries (one, if that
  is 0) and at most \<open>max_memory_bytes\<close>, unless a single entry is larger than that.
\<close>

theorem cache_invariant:
  assumes "c = fold (cache_step env) ops (cache_init conf cb)"
  shows "(\<forall>k. (cindex c k = None) = (find_entry k (contents c) = None))
       \<and> distinct (map ce_key (contents c))
       \<and> current_memory c = sum_list (map (cache_entry_size env) (contents c))
       \<and> current_entries (stats c) = length (contents c) \<and> current_bytes (stats c) = current_memory c
       \<and> length (contents c) \<le> max 1 (max_entries conf)
       \<and> (current_memory c \<le> max_memory_bytes conf \<or> length (contents c) \<le> 1)"
proof -
  have "cache_inv env conf c"
    using responses.run_ok [OF cache_inv_init] assms by simp
  then have ok: "cache_ok env c" and conf: "config c = conf"
    by (simp_all add: cache_inv_def)
  then show ?thesis
    using index_None_iff [of c] distinct_keys [of c]
    by (auto simp: cache_ok_def accounted_def within_limits_def total_size_def)
qed

theorem cache_invariant_witness:
  "let c = fold (cache_step small_env) [Put 0 (lit ''k'') empty_response 5, Get 1 (lit ''k''), Invalidate (lit ''k'')]
             (cache_init small_config True)
   in length (contents c) \<le> 2 \<and> current_memory c = sum_list (map (cache_entry_size small_env) (contents c))"
  using cache_invariant [OF refl, of small_env "[Put 0 (lit ''k'') empty_response 5, Get 1 (lit ''k''), Invalidate (lit ''k'')]"
      small_config True]
  by (simp only: Let_def small_config_def cache_config.simps) simp

text \<open>
  Least recently used.  Storing a response puts it first and keeps, of the other entries in
  their order of use, the longest run from the front that leaves room for it: what is
  evicted is what was used least recently.
\<close>

theorem cache_put_lru:
  assumes "cache_ok env c" and "enabled (config c)" and "entry_ttl (config c) r ttl0 = Some ttl"
    and "e = new_entry (config c) now key r ttl"
  shows "contents (cache_put env now key r ttl0 c)
         = e # keep env (config c) (cache_entry_size env e) (without key (contents c))"
  by (rule put_steps(1) [OF assms])

theorem cache_put_lru_witness:
  "contents (cache_put small_env 0 (lit ''k'') empty_response 5 (cache_init small_config True))
   = [new_entry small_config 0 (lit ''k'') empty_response 5]"
  using cache_put_lru [OF small_cache_ok, of empty_response 5 5 _ 0 "lit ''k''"] small_put_ttl
  by (simp add: cache_init_def contents_def without_def keep.simps) (simp add: small_config_def)

text \<open>
  What was stored is found: a lookup of the key before the entry expires returns exactly
  the stored response, even if the new entry alone exceeds the memory limit.
\<close>

theorem cache_put_get:
  assumes "cache_ok env c" and "enabled (config c)" and "entry_ttl (config c) r ttl0 = Some ttl"
    and "later < now + ttl * 10 ^ 9"
  shows "fst (snd (cache_get env later key (cache_put env now key r ttl0 c))) = Some r"
proof -
  let ?c = "cache_put env now key r ttl0 c" and ?e = "new_entry (config c) now key r ttl"
  note p = put_steps [OF assms(1-3) refl, of now key]
  obtain c' res fired where g: "cache_get env later key ?c = (c', res, fired)"
    by (metis prod_cases3)
  have "find_entry key (contents ?c) = Some ?e"
    using p(1) by (simp add: new_entry_def)
  with get_cases [OF p(2) g] p(3) assms(2,4) g show ?thesis
    by (auto simp: new_entry_def split: if_splits)
qed

theorem cache_put_get_witness:
  "fst (snd (cache_get small_env 1 (lit ''k'') (cache_put small_env 0 (lit ''k'') empty_response 5
     (cache_init small_config True)))) = Some empty_response"
  using cache_put_get [OF small_cache_ok, of empty_response 5 5 1 0 "lit ''k''"] small_put_ttl
  by (simp add: cache_init_def) (simp add: small_config_def)

text \<open>
  A response with \<open>Cache-Control: max-age=0\<close>, which must be revalidated before every use,
  is stored with the default time to live, since a time of zero means ``not given'' to \<open>put\<close>.
\<close>

theorem cache_max_age_zero:
  assumes "cache_ok env c" and "enabled (config c)" and "later < now + default_ttl (config c) * 10 ^ 9"
  shows "fst (snd (cache_get env later key (cache_put env now key
           (empty_response\<lparr>resp_headers := [(lit ''Cache-Control'', lit ''max-age=0'')]\<rparr>) 0 c)))
         = Some (empty_response\<lparr>resp_headers := [(lit ''Cache-Control'', lit ''max-age=0'')]\<rparr>)"
proof -
  let ?r = "empty_response\<lparr>resp_headers := [(lit ''Cache-Control'', lit ''max-age=0'')]\<rparr>"
  let ?c = "cache_put env now key ?r 0 c"
  have "parse_cache_control (lit ''max-age=0'') = cc_init\<lparr>max_age := 0\<rparr>"
    by code_simp
  then have ttl: "entry_ttl (config c) ?r 0 = Some (default_ttl (config c))"
    by (simp add: entry_ttl_def cc_init_def)
  note p = put_steps [OF assms(1,2) ttl refl, of now key]
  obtain c' res fired where g: "cache_get env later key ?c = (c', res, fired)"
    by (metis prod_cases3)
  have "find_entry key (contents ?c) = Some (new_entry (config c) now key ?r (default_ttl (config c)))"
    using p(1) by (simp add: new_entry_def)
  with get_cases [OF p(2) g] p(3) assms(2,3) g show ?thesis
    by (auto simp: new_entry_def split: if_splits)
qed

theorem cache_max_age_zero_witness:
  "fst (snd (cache_get small_env (59 * 10 ^ 9) (lit ''k'') (cache_put small_env 0 (lit ''k'')
     (empty_response\<lparr>resp_headers := [(lit ''Cache-Control'', lit ''max-age=0'')]\<rparr>) 0 (cache_init small_config True))))
   = Some (empty_response\<lparr>resp_headers := [(lit ''Cache-Control'', lit ''max-age=0'')]\<rparr>)"
  by (rule cache_max_age_zero [OF small_cache_ok]) (simp_all add: cache_init_def small_config_def)

text \<open>
  Requests to different hosts can have the same key: nothing delimits the URI in it, so the
  URI of one request can contain the part the other gets from its \<open>Host\<close> header.
\<close>

theorem cache_key_collision:
  "build_key (empty_request\<lparr>method_str := m, uri := u, req_headers := [(lit ''host'', h)]\<rparr>)
   = build_key (empty_request\<lparr>method_str := m, uri := u @ (if h = [] then [] else lit ''|h:'' @ h)\<rparr>)"
proof -
  have "lower (lit ''Host'') = lit ''host''" "lower (lit ''host'') = lit ''host''" "lower (lit ''X-Forwarded-Proto'') = lit ''x-forwarded-proto''"
    "lower (lit ''Accept-Encoding'') = lit ''accept-encoding''"
    "lit ''host'' \<noteq> lit ''x-forwarded-proto''" "lit ''host'' \<noteq> lit ''accept-encoding''"
    by code_simp+
  then show ?thesis
    by (simp add: build_key_def key_part_def get_header_def empty_request_def)
qed

end
