(* ===== verification/Proxy.thy ===== *)
theory Proxy
  imports Load_Balancer Cache_Refinement Http_Requests Fastcgi
begin

text \<open>
  The reverse proxy (\<open>src/src/proxy.cpp\<close>): routes by the longest prefix, the cache in front of a route,
  the choice of a backend with retries, the rewritten request and the reading of the answer.  It composes
  the load balancer and the cache as the code does; what a backend and the network do to one attempt is
  an argument (\<open>attempt\<close>).  A balancer keeps pointers to the backends of its route, which stay where they are when the
  vector of routes is sorted or moved; the model keeps the backends in the balancer.  \<open>std::sort\<close> leaves the order of routes
  with prefixes of the same length open; the model keeps the order in which they were added, and no statement below depends
  on it.

  Shown: the route with the longest matching prefix is taken and has a balancer; whatever happens to the
  attempts, every connection that is counted is counted out again; a request with a length is
  forwarded so that a server with the same parser reads it back, an answer is read back; and where it goes wrong: the
  body of a chunked request is forwarded without a length, the body of a chunked answer with its
  chunk sizes.
\<close>

section \<open>Data\<close>

record proxy_route =
  rt_prefix :: bytes
  rt_backends :: pool
  rt_algorithm :: lb_algorithm
  rt_connect_timeout :: int
  rt_read_timeout :: int
  rt_write_timeout :: int
  rt_max_retries :: int
  rt_add_headers :: "bytes smap"
  rt_remove_headers :: "bytes list"
  rt_websocket_passthrough :: bool
  rt_grpc_passthrough :: bool
  rt_cache_enabled :: bool
  rt_cache_ttl :: int

record reverse_proxy =
  px_routes :: "proxy_route list"
  px_balancers :: "load_balancer smap"
  px_cache :: http_cache

definition proxy_init :: "http_cache \<Rightarrow> reverse_proxy" where
  "proxy_init cache = \<lparr>px_routes = [], px_balancers = [], px_cache = cache\<rparr>"

text \<open>
  What happens to one attempt: whether the socket could be made, the address of the backend read and the connection
  made in time and without an error, what the calls that send return, and the pieces that arrive until the
  stream ends; and the readings of the clock for the balancer.  The timeouts of a route act through these results.
\<close>

record attempt =
  at_socket :: bool
  at_address :: bool
  at_connect :: bool
  at_poll :: int
  at_error :: int
  at_sends :: results
  at_received :: "bytes list"
  at_select_time :: real
  at_report_time :: real
  at_latency :: int

section \<open>Routes\<close>

definition add_route :: "proxy_route \<Rightarrow> reverse_proxy \<Rightarrow> reverse_proxy" where
  "add_route route px =
     (let routes = sort_key (\<lambda>r. - int (length (rt_prefix r))) (px_routes px @ [route])
      in px\<lparr>px_routes := routes,
            px_balancers :=
              (case find (\<lambda>r. rt_prefix r = rt_prefix route) routes of
                 None \<Rightarrow> px_balancers px
               | Some r \<Rightarrow> hput (rt_prefix route) (lb_create (rt_algorithm r) (rt_backends r)) (px_balancers px))\<rparr>)"

definition find_route :: "reverse_proxy \<Rightarrow> http_request \<Rightarrow> proxy_route option" where
  "find_route px req = find (\<lambda>r. starts_with (path req) (rt_prefix r)) (px_routes px)"

definition matches :: "reverse_proxy \<Rightarrow> http_request \<Rightarrow> bool" where
  "matches px req \<longleftrightarrow> find_route px req \<noteq> None"

section \<open>The request to the backend\<close>

definition hop_by_hop :: "bytes list" where
  "hop_by_hop = map lit [''Connection'', ''Keep-Alive'', ''Proxy-Authenticate'', ''Proxy-Authorization'',
     ''TE'', ''Trailers'', ''Transfer-Encoding'', ''Upgrade'']"

definition build_proxy_request :: "http_request \<Rightarrow> proxy_route \<Rightarrow> backend \<Rightarrow> bytes \<Rightarrow> http_request" where
  "build_proxy_request req route b client_ip =
     (let hs = hput (lit ''Host'') (b_host b @ lit '':'' @ to_dec (unat (b_port b))) (req_headers req);
          hs = foldl (\<lambda>m h. hdel h m) hs hop_by_hop;
          hs = hput (lit ''X-Forwarded-For'') client_ip hs;
          hs = hput (lit ''X-Forwarded-Proto'') (lit ''https'') hs;
          hs = hput (lit ''X-Real-IP'') client_ip hs;
          hs = foldl (\<lambda>m (k, v). hput k v m) hs (rt_add_headers route);
          hs = foldl (\<lambda>m k. hdel k m) hs (rt_remove_headers route)
      in req\<lparr>req_headers := hs\<rparr>)"

definition raw_request :: "http_request \<Rightarrow> bytes" where
  "raw_request req =
     method_str req @ lit '' '' @ uri req @ lit '' HTTP/1.1'' @ crlf
       @ concat (map (\<lambda>(k, v). k @ lit '': '' @ v @ crlf) (req_headers req))
       @ lit ''Connection: close'' @ crlf @ crlf @ req_body req"

section \<open>The answer of the backend\<close>

definition MAX_PROXY_RESPONSE :: nat where "MAX_PROXY_RESPONSE = 64 * 1024 * 1024"

fun recv_all :: "bytes \<Rightarrow> bytes list \<Rightarrow> bytes" where
  "recv_all response_data [] = response_data"
| "recv_all response_data (d # ds) =
     (if d = [] then response_data
      else if MAX_PROXY_RESPONSE < length response_data + length d then response_data
      else recv_all (response_data @ d) ds)"

fun status_digits :: "bytes \<Rightarrow> int \<Rightarrow> int" where
  "status_digits [] code = code"
| "status_digits (c # cs) code =
     (if digit_byte c then (if 99 < code then code else status_digits cs (code * 10 + (uint c - 48)))
      else status_digits cs code)"

definition proxy_header :: "bytes \<Rightarrow> bytes smap \<Rightarrow> bytes smap" where
  "proxy_header line hs =
     (case find_sub [58] line of
        None \<Rightarrow> hs
      | Some colon \<Rightarrow> hput (take colon line) (dropWhile (\<lambda>c. c = 32) (drop (colon + 1) line)) hs)"

text \<open>The loop over the header lines, on the bytes between the status line and the end of the head.\<close>

function proxy_headers :: "bytes \<Rightarrow> bytes smap \<Rightarrow> bytes smap" where
  "proxy_headers section hs =
     (if section = [] then hs
      else let (line, rest) = cut_line section in proxy_headers rest (proxy_header line hs))"
  by pat_completeness auto
termination
  by (relation "measure (\<lambda>(s, r). length s)") (auto dest: cut_line_shorter simp: prod_eq_iff)

declare proxy_headers.simps [simp del]

definition parse_backend_response :: "bytes \<Rightarrow> http_response option" where
  "parse_backend_response data =
     (if data = [] then None
      else case find_sub [13, 10, 13, 10] data of
        None \<Rightarrow> None
      | Some header_end \<Rightarrow>
          (let first_line_end = the (find_sub crlf data); line = take first_line_end data
           in case find_sub [32] line of
                None \<Rightarrow> None
              | Some sp1 \<Rightarrow>
                  (let rest = drop (sp1 + 1) line; sp2 = find_sub [32] rest;
                       code = status_digits (case sp2 of None \<Rightarrow> rest | Some n \<Rightarrow> take n rest) 0;
                       hs = proxy_headers (drop (first_line_end + 2) (take header_end data)) []
                   in if code < 100 \<or> 999 < code then None
                      else Some \<lparr>status_code = code,
                                 status_text = (case sp2 of None \<Rightarrow> status_text empty_response | Some n \<Rightarrow> drop (n + 1) rest),
                                 resp_headers = hdel (lit ''Connection'') (hdel (lit ''Transfer-Encoding'') hs),
                                 resp_body = drop (header_end + 4) data\<rparr>)))"

definition do_http_request :: "attempt \<Rightarrow> http_request \<Rightarrow> http_response option" where
  "do_http_request att req =
     (if \<not> at_socket att \<or> \<not> at_address att \<or> \<not> at_connect att \<or> at_poll att \<le> 0 \<or> at_error att \<noteq> 0 then None
      else if \<not> fst (snd (write_all (at_sends att) (raw_request req))) then None
      else parse_backend_response (recv_all [] (at_received att)))"

definition forward_to_backend :: "attempt \<Rightarrow> http_request \<Rightarrow> backend \<Rightarrow> proxy_route \<Rightarrow> bytes \<Rightarrow> http_response option" where
  "forward_to_backend att req b route client_ip = do_http_request att (build_proxy_request req route b client_ip)"

section \<open>A proxied request\<close>

datatype attempts_result = Answered http_response | No_backends | All_failed

fun attempts :: "nat \<Rightarrow> (nat \<Rightarrow> attempt) \<Rightarrow> http_request \<Rightarrow> proxy_route \<Rightarrow> bytes \<Rightarrow> load_balancer
    \<Rightarrow> load_balancer \<times> attempts_result" where
  "attempts 0 net req route ip lb = (lb, All_failed)"
| "attempts (Suc n) net req route ip lb =
     (case lb_select (at_select_time (net 0)) lb ip of
        (lb, None) \<Rightarrow> (lb, No_backends)
      | (lb, Some i) \<Rightarrow>
          (case forward_to_backend (net 0) req (lb_pool lb ! i) route ip of
             Some resp \<Rightarrow> (lb_report (at_report_time (net 0)) (at_latency (net 0)) True lb (Some i), Answered resp)
           | None \<Rightarrow> attempts n (\<lambda>k. net (Suc k)) req route ip
                       (lb_report (at_report_time (net 0)) (at_latency (net 0)) False lb (Some i))))"

definition proxy_cache_get :: "string_env \<Rightarrow> int \<Rightarrow> proxy_route \<Rightarrow> http_request \<Rightarrow> http_cache
    \<Rightarrow> http_cache \<times> http_response option" where
  "proxy_cache_get env now route req c =
     (if rt_cache_enabled route then (let (c, r, fired) = cache_get env now (build_key req) c in (c, r)) else (c, None))"

definition proxy_cache_put :: "string_env \<Rightarrow> int \<Rightarrow> proxy_route \<Rightarrow> http_request \<Rightarrow> http_response \<Rightarrow> http_cache \<Rightarrow> http_cache" where
  "proxy_cache_put env now route req resp c =
     (if rt_cache_enabled route \<and> is_cacheable req resp then cache_put env now (build_key req) resp (rt_cache_ttl route) c else c)"

definition proxy_request :: "string_env \<Rightarrow> int \<Rightarrow> int \<Rightarrow> (nat \<Rightarrow> attempt) \<Rightarrow> reverse_proxy \<Rightarrow> http_request \<Rightarrow> bytes
    \<Rightarrow> reverse_proxy \<times> http_response option" where
  "proxy_request env now put_now net px req client_ip =
     (case find_route px req of
        None \<Rightarrow> (px, None)
      | Some route \<Rightarrow>
          (let (c, cached) = proxy_cache_get env now route req (px_cache px); px = px\<lparr>px_cache := c\<rparr>
           in case cached of
                Some r \<Rightarrow> (px, Some r)
              | None \<Rightarrow>
                  (case map_of (px_balancers px) (rt_prefix route) of
                     None \<Rightarrow> (px, None)
                   | Some lb \<Rightarrow>
                       (let (lb, res) = attempts (nat (rt_max_retries route + 1)) net req route client_ip lb;
                            px = px\<lparr>px_balancers := hput (rt_prefix route) lb (px_balancers px)\<rparr>
                        in case res of
                             Answered resp \<Rightarrow> (px\<lparr>px_cache := proxy_cache_put env put_now route req resp (px_cache px)\<rparr>, Some resp)
                           | No_backends \<Rightarrow> (px, Some (make_error 502 (lit ''No healthy backends available'')))
                           | All_failed \<Rightarrow> (px, Some (make_error 502 (lit ''All backend attempts failed'')))))))"

section \<open>Routes by the longest prefix\<close>

definition longest_first :: "proxy_route list \<Rightarrow> bool" where
  "longest_first rs \<longleftrightarrow> sorted (map (\<lambda>r. - int (length (rt_prefix r))) rs)"

definition proxy_ok :: "reverse_proxy \<Rightarrow> bool" where
  "proxy_ok px \<longleftrightarrow> longest_first (px_routes px)
     \<and> (\<forall>r \<in> set (px_routes px). \<exists>lb. map_of (px_balancers px) (rt_prefix r) = Some lb \<and> lb_ok lb)"

lemma find_first_longest:
  assumes "longest_first rs" and "find P rs = Some r" and "r' \<in> set rs" and "P r'"
  shows "length (rt_prefix r') \<le> length (rt_prefix r)"
  using assms by (induction rs) (auto simp: longest_first_def split: if_splits)

lemma proxy_ok_init: "proxy_ok (proxy_init c)"
  by (simp add: proxy_ok_def proxy_init_def longest_first_def)

lemma proxy_ok_add_route:
  assumes "proxy_ok px"
  shows "proxy_ok (add_route route px)"
proof -
  let ?rs = "sort_key (\<lambda>r. - int (length (rt_prefix r))) (px_routes px @ [route])"
  obtain r where f: "find (\<lambda>r. rt_prefix r = rt_prefix route) ?rs = Some r"
    by (cases "find (\<lambda>r. rt_prefix r = rt_prefix route) ?rs") (auto simp: find_None_iff)
  show ?thesis
    using assms f unfolding proxy_ok_def longest_first_def by (auto simp: add_route_def Let_def)
qed

text \<open>
  Requests go to the route with the longest matching prefix, whatever the order in which the routes were added; a request
  is passed over only if no prefix matches; and the route has a balancer over the backends.
\<close>

theorem longest_prefix_routed:
  "case find_route (fold add_route rs (proxy_init c)) req of
     None \<Rightarrow> \<forall>r \<in> set rs. \<not> starts_with (path req) (rt_prefix r)
   | Some r \<Rightarrow> r \<in> set rs \<and> starts_with (path req) (rt_prefix r)
       \<and> (\<forall>r' \<in> set rs. starts_with (path req) (rt_prefix r') \<longrightarrow> length (rt_prefix r') \<le> length (rt_prefix r))
       \<and> map_of (px_balancers (fold add_route rs (proxy_init c))) (rt_prefix r) \<noteq> None"
proof -
  let ?px = "fold add_route rs (proxy_init c)"
  have routes: "set (px_routes (fold add_route rs px)) = set (px_routes px) \<union> set rs" for px
    by (induction rs arbitrary: px) (auto simp: add_route_def Let_def)
  have ok: "proxy_ok (fold add_route rs px)" if "proxy_ok px" for px
    using that by (induction rs arbitrary: px) (simp_all add: proxy_ok_add_route)
  have px: "proxy_ok ?px" "set (px_routes ?px) = set rs"
    using ok [OF proxy_ok_init] routes [of "proxy_init c"] by (simp_all add: proxy_init_def)
  show ?thesis
  proof (cases "find_route ?px req")
    case None
    then have "\<forall>r \<in> set rs. \<not> starts_with (path req) (rt_prefix r)"
      using px(2) by (simp add: find_route_def find_None_iff)
    with None show ?thesis by simp
  next
    case (Some r)
    then have r: "r \<in> set rs" "starts_with (path req) (rt_prefix r)"
      using px(2) by (auto simp: find_route_def find_Some_iff)
    moreover have "length (rt_prefix r') \<le> length (rt_prefix r)"
      if "r' \<in> set rs" "starts_with (path req) (rt_prefix r')" for r'
      using find_first_longest [of "px_routes ?px" _ r r'] px Some that
      by (auto simp: proxy_ok_def find_route_def)
    ultimately show ?thesis
      using px Some by (auto simp: proxy_ok_def)
  qed
qed

section \<open>Connections are counted out again\<close>

text \<open>One selection and its report, for any balancer that keeps the contract.\<close>

context balancer
begin

lemma selected_reported:
  assumes "ok s" and "select s k = (s', Some i)"
  shows "ok (report s' (Some i)) \<and> map active_connections (pool_of (report s' (Some i))) = map active_connections (pool_of s)"
proof -
  note sel = selected [OF assms]
  then have i: "i < length (pool_of s')"
    by (simp add: acquire_def)
  have "same_backends (release i (pool_of s')) (pool_of (report s' (Some i)))" and ok: "ok (report s' (Some i))"
    using reported [OF _ i] sel by blast+
  moreover have "map active_connections (release i (acquire i (pool_of s))) = map active_connections (pool_of s)"
    using sel by (auto simp: release_def acquire_def list_eq_iff_nth_eq nth_list_update)
  ultimately show ?thesis
    using sel by (simp add: same_backends_def)
qed

lemma none_counts: "ok s \<Longrightarrow> select s k = (s', None) \<Longrightarrow> ok s' \<and> pool_of s' = pool_of s"
  using none_selected by blast

end

text \<open>Selection and report at different times.\<close>

interpretation px: balancer "lb_select t" "lb_report t' latency success" lb_pool lb_ok "lb_exhausted t"
proof unfold_locales
  fix s s' :: load_balancer and k i j
  assume ok: "lb_ok s"
  show "i < length (lb_pool s) \<and> healthy (lb_pool s ! i) \<and> lb_pool s' = acquire i (lb_pool s) \<and> lb_ok s'"
    if "lb_select t s k = (s', Some i)"
    using lb.selected [OF ok that] .
  show "lb_pool s' = lb_pool s \<and> lb_ok s' \<and> (\<forall>b \<in> set (lb_pool s). healthy b \<longrightarrow> lb_exhausted t s b)"
    if "lb_select t s k = (s', None)"
    using lb.none_selected [OF ok that] .
  show "same_backends (release j (lb_pool s)) (lb_pool (lb_report t' latency success s (Some j)))
      \<and> lb_ok (lb_report t' latency success s (Some j))"
    if "j < length (lb_pool s)"
    using lb.reported [OF ok that] .
qed

definition open_counts :: "load_balancer \<Rightarrow> int list" where
  "open_counts lb = map active_connections (lb_pool lb)"

lemma attempts_counts:
  "lb_ok lb \<Longrightarrow> attempts n net req route ip lb = (lb', res) \<Longrightarrow> lb_ok lb' \<and> open_counts lb' = open_counts lb"
proof (induction n arbitrary: net lb)
  case (Suc n)
  obtain lb1 sel where s: "lb_select (at_select_time (net 0)) lb ip = (lb1, sel)"
    by (cases "lb_select (at_select_time (net 0)) lb ip")
  show ?case
  proof (cases sel)
    case None
    then show ?thesis
      using px.none_counts [OF Suc.prems(1), of "at_select_time (net 0)" ip lb1] s Suc.prems(2)
      by (simp add: open_counts_def)
  next
    case (Some i)
    then have r: "lb_ok (lb_report t l b lb1 (Some i)) \<and> open_counts (lb_report t l b lb1 (Some i)) = open_counts lb" for t l b
      using px.selected_reported [OF Suc.prems(1), of "at_select_time (net 0)" ip lb1 i t l b] s
      by (simp add: open_counts_def)
    show ?thesis
    proof (cases "forward_to_backend (net 0) req (lb_pool lb1 ! i) route ip")
      case None
      with Suc.prems(2) s Some have "attempts n (\<lambda>k. net (Suc k)) req route ip
          (lb_report (at_report_time (net 0)) (at_latency (net 0)) False lb1 (Some i)) = (lb', res)"
        by simp
      from Suc.IH [OF _ this] r show ?thesis by simp
    qed (use Suc.prems(2) s Some r in auto)
  qed
qed simp

text \<open>
  C29. Whatever backends and network do, a proxied request leaves the number of open connections of every backend of every
  route as it was, and the proxy in order; only the route's own balancer changes.
\<close>

theorem proxy_counts_out:
  assumes "proxy_ok px" and "proxy_request env now put_now net px req ip = (px', r)"
  shows "proxy_ok px' \<and> px_routes px' = px_routes px
    \<and> (\<forall>k lb. map_of (px_balancers px) k = Some lb \<longrightarrow>
         (\<exists>lb'. map_of (px_balancers px') k = Some lb' \<and> open_counts lb' = open_counts lb))"
proof (cases "find_route px req")
  case None
  with assms show ?thesis by (simp add: proxy_request_def)
next
  case (Some route)
  obtain c cached where c: "proxy_cache_get env now route req (px_cache px) = (c, cached)"
    by (cases "proxy_cache_get env now route req (px_cache px)")
  have "route \<in> set (px_routes px)"
    using Some by (auto simp: find_route_def find_Some_iff)
  then obtain lb where lb: "map_of (px_balancers px) (rt_prefix route) = Some lb" "lb_ok lb"
    using assms(1) by (auto simp: proxy_ok_def)
  obtain lb' res where a: "attempts (nat (rt_max_retries route + 1)) net req route ip lb = (lb', res)"
    by (cases "attempts (nat (rt_max_retries route + 1)) net req route ip lb")
  have lb': "lb_ok lb'" "open_counts lb' = open_counts lb"
    using attempts_counts [OF lb(2) a] by simp_all
  have "px_routes px' = px_routes px \<and> (px_balancers px' = px_balancers px
      \<or> px_balancers px' = hput (rt_prefix route) lb' (px_balancers px))"
    using assms(2) Some c lb(1) a by (auto simp: proxy_request_def Let_def split: option.splits attempts_result.splits)
  then show ?thesis
    using assms(1) lb lb' by (auto simp: proxy_ok_def)
qed

section \<open>What the backend reads\<close>

lemma raw_request_print:
  "raw_request req = print_request (method_str req) (uri req) (lit ''HTTP/1.1'')
     (req_headers req @ [(lit ''Connection'', lit ''close'')]) (req_body req)"
proof -
  have "lit ''Connection: close'' = lit ''Connection'' @ lit '': '' @ lit ''close''"
    "lit '' HTTP/1.1'' = 32 # lit ''HTTP/1.1''" "lit '' '' = [32]"
    by (simp_all add: lit_def)
  then show ?thesis
    by (simp add: raw_request_def print_request_def request_line_def header_line_def case_prod_unfold comp_def)
qed

lemma connection_close_ok: "header_ok (lit ''Connection'', lit ''close'')" "plain_header (lit ''Connection'', lit ''close'')"
  by (simp_all add: header_ok_def plain_header_def is_ws_def lit_def lower_def tolower_def)

text \<open>The parser on a printed head: what is left is the treatment of the body.\<close>

lemma feed_printed_head:
  assumes "target_ok m" and "target_ok u" and "version_ok v" and "hs \<noteq> []" and "\<forall>h \<in> set hs. header_ok h"
    and "parse_lines (init_parser\<lparr>p_buffer := print_request m u v hs body, p_request := empty_request
           \<lparr>method_str := m, req_method := method_of m, uri := u, version := v\<rparr>\<rparr>) (map header_line hs) = (q, True)"
  shows "\<exists>e. drop e (print_request m u v hs body) = body \<and> e \<le> length (print_request m u v hs body)
    \<and> feed init_parser (print_request m u v hs body)
        = feed_body (parse_uri ((validate_headers q)\<lparr>p_headers_done := True, p_body_start := e\<rparr>))"
proof -
  have init: "\<not> p_headers_done init_parser" "p_buffer init_parser = []" "p_request init_parser = empty_request"
    by (simp_all add: init_parser_def)
  from parse_head_print [OF assms(1-5) refl, of body init_parser] assms(6)
  obtain e where e: "find_sub (crlf @ crlf) (print_request m u v hs body) = Some e"
      "drop (e + 4) (print_request m u v hs body) = body" "e + 4 \<le> length (print_request m u v hs body)"
      "parse_head (init_parser\<lparr>p_buffer := print_request m u v hs body\<rparr>) e =
         (parse_uri ((validate_headers q)\<lparr>p_headers_done := True, p_body_start := e + 4\<rparr>), True)"
    by (auto simp: init)
  then show ?thesis
    using init by (intro exI [of _ "e + 4"]) (simp add: feed_def)
qed

lemma feed_body_at:
  assumes "\<not> p_use_chunked p" and "drop (p_body_start p) (p_buffer p) = body" and "p_body_start p \<le> length (p_buffer p)"
    and "p_content_length p \<le> length body" and "p_body_received p = 0" and "req_body (p_request p) = []"
  shows "\<exists>q. feed_body p = (q, COMPLETE) \<and> p_request q = (p_request p)\<lparr>req_body := take (p_content_length p) body\<rparr>
    \<and> p_buffer q = p_buffer p \<and> p_body_start q = p_body_start p"
  using assms by (auto simp: feed_body_def Let_def)

text \<open>
  A request with a body and its length is forwarded so that a server with the same parser reads back its method, target,
  headers and body, with the closing header added.
\<close>

theorem forwarded_request_read:
  assumes "target_ok (method_str req)" and "target_ok (uri req)"
    and "req_headers req = hs1 @ (lit ''Content-Length'', to_dec (length (req_body req))) # hs2"
    and "\<forall>h \<in> set (hs1 @ hs2). header_ok h \<and> plain_header h"
    and "distinct (map fst (req_headers req))" and "lit ''Connection'' \<notin> fst ` set (req_headers req)"
    and "length (req_body req) < 2 ^ 64"
  shows "\<exists>p. feed init_parser (raw_request req) = (p, COMPLETE)
    \<and> method_str (p_request p) = method_str req \<and> uri (p_request p) = uri req \<and> req_body (p_request p) = req_body req
    \<and> req_headers (p_request p) = req_headers req @ [(lit ''Connection'', lit ''close'')]"
proof -
  let ?cl = "(lit ''Content-Length'', to_dec (length (req_body req)))" and ?cc = "(lit ''Connection'', lit ''close'')"
  let ?hs = "req_headers req @ [?cc]"
  define data where "data = print_request (method_str req) (uri req) (lit ''HTTP/1.1'') ?hs (req_body req)"
  define q0 where "q0 = init_parser\<lparr>p_buffer := data, p_request := empty_request
      \<lparr>method_str := method_str req, req_method := method_of (method_str req), uri := uri req, version := lit ''HTTP/1.1''\<rparr>\<rparr>"
  have cl: "header_ok ?cl" "lower (lit ''Content-Length'') = lit ''content-length''"
    by (rule header_ok_dec, simp add: lit_def) (simp add: lit_def lower_def tolower_def)
  have v: "version_ok (lit ''HTTP/1.1'')"
    by (simp add: version_ok_def)
  define q1 where "q1 = q0\<lparr>p_request := (p_request q0)\<lparr>req_headers := hs1\<rparr>\<rparr>"
  define q2 where "q2 = q1\<lparr>p_cl_count := 1, p_has_content_length := True, p_content_length := length (req_body req),
      p_request := (p_request q1)\<lparr>req_headers := hs1 @ [?cl]\<rparr>\<rparr>"
  have l1: "parse_lines q0 (map header_line hs1) = (q1, True)"
    using parse_plain_lines [of hs1 q0] assms(3-5) by (simp add: q1_def q0_def init_parser_def empty_request_def)
  have l2: "parse_lines q1 (map header_line [?cl]) = (q2, True)"
    using parse_lines_content_length [OF cl assms(7), of q1] assms(3,5)
    by (simp add: q2_def q1_def q0_def init_parser_def)
  have l3: "parse_lines q2 (map header_line (hs2 @ [?cc])) =
      (q2\<lparr>p_request := (p_request q2)\<lparr>req_headers := ?hs\<rparr>\<rparr>, True)"
  proof -
    have "\<forall>h \<in> set (hs2 @ [?cc]). header_ok h \<and> plain_header h"
      using assms(4) connection_close_ok by auto
    moreover have "distinct (map fst (req_headers (p_request q2) @ hs2 @ [?cc]))"
      using assms(3,5,6) by (auto simp: q2_def)
    ultimately show ?thesis
      using parse_plain_lines [of "hs2 @ [?cc]" q2] by (simp add: q2_def assms(3))
  qed
  have "map header_line ?hs = map header_line hs1 @ map header_line [?cl] @ map header_line (hs2 @ [?cc])"
    by (simp add: assms(3))
  then have "parse_lines q0 (map header_line ?hs) = (q2\<lparr>p_request := (p_request q2)\<lparr>req_headers := ?hs\<rparr>\<rparr>, True)"
    by (simp only: parse_lines_append [OF l1] parse_lines_append [OF l2] l3)
  from feed_printed_head [OF assms(1,2) v _ _ this [unfolded q0_def data_def]] assms(3,4) cl(1) connection_close_ok
  obtain e where e: "drop e data = req_body req" "e \<le> length data"
    "feed init_parser data = feed_body (parse_uri ((validate_headers (q2\<lparr>p_request := (p_request q2)\<lparr>req_headers := ?hs\<rparr>\<rparr>))
        \<lparr>p_headers_done := True, p_body_start := e\<rparr>))"
    unfolding data_def by auto
  define p where "p = parse_uri ((validate_headers (q2\<lparr>p_request := (p_request q2)\<lparr>req_headers := ?hs\<rparr>\<rparr>))
        \<lparr>p_headers_done := True, p_body_start := e\<rparr>)"
  have p: "\<not> p_use_chunked p" "p_body_start p = e" "p_buffer p = data" "p_content_length p = length (req_body req)"
    "p_body_received p = 0" "req_body (p_request p) = []" "method_str (p_request p) = method_str req"
    "uri (p_request p) = uri req" "req_headers (p_request p) = ?hs"
    by (simp_all add: p_def parse_uri_split validate_headers_def q2_def q1_def q0_def init_parser_def empty_request_def)
  have "p_content_length p \<le> length (req_body req)"
    using p(4) by simp
  from feed_body_at [OF p(1) _ _ this p(5,6)] e(1,2) p(2,3)
  obtain q where q: "feed_body p = (q, COMPLETE)" "p_request q = (p_request p)\<lparr>req_body := take (p_content_length p) (req_body req)\<rparr>"
    by auto
  show ?thesis
    unfolding raw_request_print data_def [symmetric] e(3) p_def [symmetric]
    using q p(4,7-9) by (intro exI [of _ q]) simp
qed

text \<open>
  C30. A request whose length is not in its headers is forwarded with its body all the same: a server with the same parser
  reads a request without a body and finds the body where it expects the next request.  The parser accepts a chunked
  request, whose body it decodes; the proxy then removes the header \<open>Transfer-Encoding\<close> and adds no length.
\<close>

theorem forwarded_body_smuggled:
  assumes "target_ok (method_str req)" and "target_ok (uri req)"
    and "\<forall>h \<in> set (req_headers req). header_ok h \<and> plain_header h"
    and "distinct (map fst (req_headers req))" and "lit ''Connection'' \<notin> fst ` set (req_headers req)"
  shows "\<exists>p. feed init_parser (raw_request req) = (p, COMPLETE) \<and> req_body (p_request p) = []
    \<and> drop (p_body_start p) (p_buffer p) = req_body req"
proof -
  let ?cc = "(lit ''Connection'', lit ''close'')"
  let ?hs = "req_headers req @ [?cc]"
  define data where "data = print_request (method_str req) (uri req) (lit ''HTTP/1.1'') ?hs (req_body req)"
  define q0 where "q0 = init_parser\<lparr>p_buffer := data, p_request := empty_request
      \<lparr>method_str := method_str req, req_method := method_of (method_str req), uri := uri req, version := lit ''HTTP/1.1''\<rparr>\<rparr>"
  have ok: "\<forall>h \<in> set ?hs. header_ok h \<and> plain_header h"
    using assms(3) connection_close_ok by auto
  have "distinct (map fst (req_headers (p_request q0) @ ?hs))"
    using assms(4,5) by (simp add: q0_def empty_request_def)
  from parse_plain_lines [OF ok this]
  have l: "parse_lines q0 (map header_line ?hs) = (q0\<lparr>p_request := (p_request q0)\<lparr>req_headers := ?hs\<rparr>\<rparr>, True)"
    by (simp add: q0_def empty_request_def)
  have v: "version_ok (lit ''HTTP/1.1'')"
    by (simp add: version_ok_def)
  from feed_printed_head [OF assms(1,2) v _ _ l [unfolded q0_def data_def]] ok
  obtain e where e: "drop e data = req_body req" "e \<le> length data"
    "feed init_parser data = feed_body (parse_uri ((validate_headers (q0\<lparr>p_request := (p_request q0)\<lparr>req_headers := ?hs\<rparr>\<rparr>))
        \<lparr>p_headers_done := True, p_body_start := e\<rparr>))"
    unfolding q0_def data_def by auto
  define p where "p = parse_uri ((validate_headers (q0\<lparr>p_request := (p_request q0)\<lparr>req_headers := ?hs\<rparr>\<rparr>))
        \<lparr>p_headers_done := True, p_body_start := e\<rparr>)"
  have p: "\<not> p_use_chunked p" "p_body_start p = e" "p_buffer p = data" "p_content_length p = 0"
    "p_body_received p = 0" "req_body (p_request p) = []"
    by (simp_all add: p_def parse_uri_split validate_headers_def q0_def init_parser_def empty_request_def)
  have "p_content_length p \<le> length (req_body req)"
    using p(4) by simp
  from feed_body_at [OF p(1) _ _ this p(5,6)] e(1,2) p(2-4) show ?thesis
    unfolding raw_request_print data_def [symmetric] e(3) p_def [symmetric] by auto
qed

section \<open>What the proxy reads\<close>

lemma status_digits_to_dec:
  assumes "100 \<le> n" and "n \<le> 999"
  shows "status_digits (to_dec n) 0 = int n"
proof -
  define a b c where "a = n div 100" and "b = n div 10 mod 10" and "c = n mod 10"
  have n: "n = 100 * a + 10 * b + c" "a < 10" "b < 10" "c < 10" "0 < a"
  proof -
    have "n div 10 = n div 100 * 10 + n div 10 mod 10"
      using div_mult_mod_eq [of "n div 10" 10] by (simp add: div_mult2_eq [symmetric])
    then show "n = 100 * a + 10 * b + c"
      using div_mult_mod_eq [of n 10] unfolding a_def b_def c_def by linarith
    show "a < 10" "b < 10" "c < 10" "0 < a"
      using assms by (simp_all add: a_def b_def c_def div_greater_zero_iff less_mult_imp_div_less)
  qed
  have u: "uint (48 + of_nat k :: byte) = 48 + int k" "digit_byte (48 + of_nat k)" if "k < 10" for k
    using that by (auto simp: digit_byte_def word_le_nat_alt unat_word_ariths uint_nat unat_of_nat)
  have "to_dec n = [48 + of_nat a, 48 + of_nat b, 48 + of_nat c]"
  proof -
    have "\<not> n < 10" "\<not> n div 10 < 10" "n div 10 div 10 < 10"
      using assms by (simp_all add: not_less less_mult_imp_div_less div_mult2_eq [symmetric] less_eq_div_iff_mult_less_eq)
    then show ?thesis
      unfolding a_def b_def c_def
      by (simp add: to_dec.simps [of n] to_dec.simps [of "n div 10"] to_dec.simps [of "n div 100"] div_mult2_eq [symmetric])
  qed
  then show ?thesis
    using n u by simp
qed

definition proxied_plain :: "bytes \<times> bytes \<Rightarrow> bool" where
  "proxied_plain kv \<longleftrightarrow> 58 \<notin> set (fst kv) \<and> 13 \<notin> set (fst kv) \<and> 13 \<notin> set (snd kv) \<and> (snd kv \<noteq> [] \<longrightarrow> hd (snd kv) \<noteq> 32)"

lemma proxy_header_plain: "proxied_plain (k, v) \<Longrightarrow> proxy_header (header_line (k, v)) hs = hput k v hs"
  using find_sub_single_append [of 58 k "32 # v"]
  by (cases v) (auto simp: proxied_plain_def proxy_header_def header_line_def lit_def)

lemma proxy_headers_plain:
  assumes "\<forall>kv \<in> set kvs. proxied_plain kv"
  shows "proxy_headers (joined (map header_line kvs)) hs = put_headers kvs hs"
  using assms
proof (induction kvs arbitrary: hs)
  case Nil
  then show ?case by (simp add: proxy_headers.simps put_headers_def)
next
  case (Cons kv kvs)
  obtain k v where kv: "kv = (k, v)" by (cases kv)
  have l: "13 \<notin> set (header_line (k, v))" "header_line (k, v) \<noteq> []" "proxied_plain (k, v)"
    using Cons.prems by (simp_all add: kv proxied_plain_def header_line_def lit_def)
  have "cut_line (joined (map header_line (kv # kvs))) = (header_line (k, v), joined (map header_line kvs))"
    using cut_line_joined [OF l(1)] by (cases kvs) (simp_all add: kv)
  moreover have "joined (map header_line (kv # kvs)) \<noteq> []"
    using l(2) by (cases kvs) (simp_all add: kv)
  ultimately show ?case
    using Cons.IH Cons.prems l(3) by (subst proxy_headers.simps) (simp add: kv proxy_header_plain put_headers_def)
qed

text \<open>An answer as a server prints it: the status line, the header lines, an empty line, the body.\<close>

definition backend_status_line :: "nat \<Rightarrow> bytes \<Rightarrow> bytes" where
  "backend_status_line code reason = lit ''HTTP/1.1 '' @ to_dec code @ 32 # reason"

definition backend_answer :: "nat \<Rightarrow> bytes \<Rightarrow> bytes smap \<Rightarrow> bytes \<Rightarrow> bytes" where
  "backend_answer code reason hs body =
     concat (map (\<lambda>l. l @ crlf) (backend_status_line code reason # map header_line hs)) @ crlf @ body"

lemma parse_backend_answer:
  assumes "100 \<le> code" and "code \<le> 999" and "13 \<notin> set reason" and "\<forall>kv \<in> set hs. proxied_plain kv"
  shows "parse_backend_response (backend_answer code reason hs body) =
    Some \<lparr>status_code = int code, status_text = reason,
          resp_headers = hdel (lit ''Connection'') (hdel (lit ''Transfer-Encoding'') (put_headers hs [])), resp_body = body\<rparr>"
proof -
  let ?sl = "backend_status_line code reason" and ?ls = "map header_line hs"
  let ?data = "backend_answer code reason hs body"
  have "13 \<notin> set (to_dec code)" "32 \<notin> set (to_dec code)"
    using to_dec_plain [of 13 code] to_dec_plain [of 32 code] by (auto simp: Http_Parser.is_ws_def)
  then have sl: "13 \<notin> set ?sl" "?sl \<noteq> []" and sp: "find_sub [32] (to_dec code @ 32 # reason) = Some (length (to_dec code))"
    using assms(3) by (simp_all add: backend_status_line_def lit_def find_sub_single_append)
  have lines: "\<forall>l \<in> set (?sl # ?ls). l \<noteq> [] \<and> 13 \<notin> set l"
    using sl assms(4) by (auto simp: header_line_def lit_def proxied_plain_def)
  have j: "concat (map (\<lambda>l. l @ crlf) (?sl # ?ls)) = joined (?sl # ?ls) @ crlf"
    by (rule joined_lines) simp
  have data: "?data = joined (?sl # ?ls) @ crlf @ crlf @ body"
    unfolding backend_answer_def j by simp
  have "find_sub [13, 10, 13, 10] ?data = Some (length (concat (map (\<lambda>l. l @ crlf) (?sl # ?ls))) - 2)"
    unfolding backend_answer_def using find_end_of_lines [OF _ lines, of body] by simp
  then have e: "find_sub [13, 10, 13, 10] ?data = Some (length (joined (?sl # ?ls)))"
    unfolding j by simp
  have "\<exists>t. ?data = ?sl @ 13 # 10 # t"
    unfolding backend_answer_def by simp
  then have f: "find_sub crlf ?data = Some (length ?sl)" "take (length ?sl) ?data = ?sl"
    using find_sub_pair_append [OF sl(1), of 10] by auto
  have hd: "take (length (joined (?sl # ?ls))) ?data = joined (?sl # ?ls)"
    "drop (length (joined (?sl # ?ls)) + 4) ?data = body" "?data \<noteq> []"
    unfolding data by simp_all
  have tl: "drop (length ?sl + 2) (joined (?sl # ?ls)) = joined ?ls"
    by (cases hs) simp_all
  have s1: "find_sub [32] ?sl = Some 8" "drop 9 ?sl = to_dec code @ 32 # reason"
    by (simp_all add: backend_status_line_def lit_def)
  have code: "status_digits (to_dec code) 0 = int code"
    by (rule status_digits_to_dec [OF assms(1,2)])
  obtain D J S where D: "D = ?data" "J = joined (?sl # ?ls)" "S = ?sl"
    by simp
  show ?thesis
    using assms(1,2) hd(3) e f hd(1,2) tl s1 sp code proxy_headers_plain [OF assms(4), of "[]"]
    unfolding parse_backend_response_def D [symmetric] by (simp add: Let_def)
qed

lemma recv_all_concat:
  assumes "[] \<notin> set ds" and "length acc + length (concat ds) \<le> MAX_PROXY_RESPONSE"
  shows "recv_all acc ds = acc @ concat ds"
  using assms by (induction ds arbitrary: acc) auto

text \<open>
  The answer of a backend is read back, in whatever pieces it arrives: the status, the reason, the headers and exactly the
  body; the headers that concern the connection are taken out.
\<close>

theorem backend_answer_read:
  assumes "at_socket att" and "at_address att" and "at_connect att" and "0 < at_poll att" and "at_error att = 0"
    and "\<And>i. 0 < at_sends att i"
    and "[] \<notin> set (at_received att)" and "concat (at_received att) = backend_answer code reason hs body"
    and "length (backend_answer code reason hs body) \<le> MAX_PROXY_RESPONSE"
    and "100 \<le> code" and "code \<le> 999" and "13 \<notin> set reason" and "\<forall>kv \<in> set hs. proxied_plain kv"
  shows "do_http_request att req =
    Some \<lparr>status_code = int code, status_text = reason,
          resp_headers = hdel (lit ''Connection'') (hdel (lit ''Transfer-Encoding'') (put_headers hs [])), resp_body = body\<rparr>"
  using assms(1-5) write_all_ok [of "at_sends att" "raw_request req", OF assms(6)] recv_all_concat [OF assms(7), of "[]"] assms(8,9)
    parse_backend_answer [OF assms(10-13)]
  by (simp add: do_http_request_def)

text \<open>
  An answer in chunks is passed on with its chunk sizes and without the header that announces them.
\<close>

theorem chunked_answer_corrupted:
  assumes "\<forall>kv \<in> set hs. proxied_plain kv"
    and "resp = the (parse_backend_response (backend_answer 200 (lit ''OK'') ((lit ''Transfer-Encoding'', lit ''chunked'') # hs)
        (lit ''2'' @ crlf @ lit ''hi'' @ crlf @ lit ''0'' @ crlf @ crlf)))"
  shows "map_of (resp_headers resp) (lit ''Transfer-Encoding'') = None
    \<and> resp_body resp = lit ''2'' @ crlf @ lit ''hi'' @ crlf @ lit ''0'' @ crlf @ crlf"
proof -
  have "proxied_plain (lit ''Transfer-Encoding'', lit ''chunked'')" "13 \<notin> set (lit ''OK'')"
    by (simp_all add: proxied_plain_def lit_def)
  with parse_backend_answer [of 200 "lit ''OK''" "(lit ''Transfer-Encoding'', lit ''chunked'') # hs"] assms show ?thesis
    by simp
qed

section \<open>A small proxy\<close>

definition small_route :: proxy_route where
  "small_route =
     \<lparr>rt_prefix = lit ''/api'', rt_backends = [demo_backend ''a'' True, demo_backend ''b'' True], rt_algorithm = ROUND_ROBIN,
      rt_connect_timeout = 5000, rt_read_timeout = 30000, rt_write_timeout = 30000, rt_max_retries = 1, rt_add_headers = [], rt_remove_headers = [],
      rt_websocket_passthrough = True, rt_grpc_passthrough = True, rt_cache_enabled = True, rt_cache_ttl = 5\<rparr>"

definition small_proxy :: reverse_proxy where
  "small_proxy = add_route small_route (proxy_init (cache_init Cache_Refinement.small_config True))"

definition dead_network :: attempt where
  "dead_network =
     \<lparr>at_socket = True, at_address = True, at_connect = False, at_poll = 0, at_error = 0, at_sends = (\<lambda>i. 100), at_received = [],
      at_select_time = 0, at_report_time = 1, at_latency = 1\<rparr>"

definition live_network :: attempt where
  "live_network = dead_network\<lparr>at_connect := True, at_poll := 1,
     at_received := [lit ''HTTP/1.1 200 OK'' @ [13], 10 # lit ''A: b'' @ crlf @ crlf, lit ''hi'']\<rparr>"

theorem proxy_counts_out_witness:
  "\<exists>lb. map_of (px_balancers (fst (proxy_request small_env 0 1 (\<lambda>k. dead_network) small_proxy
       (empty_request\<lparr>path := lit ''/api/x''\<rparr>) (lit ''c'')))) (lit ''/api'') = Some lb \<and> open_counts lb = [0, 0]"
proof -
  have ok: "proxy_ok small_proxy"
    unfolding small_proxy_def by (intro proxy_ok_add_route proxy_ok_init)
  have lb: "\<exists>lb. map_of (px_balancers small_proxy) (lit ''/api'') = Some lb \<and> open_counts lb = [0, 0]"
    by (simp add: small_proxy_def add_route_def proxy_init_def small_route_def open_counts_def round_robin_init_def
        demo_backend_def Let_def)
  show ?thesis
    using proxy_counts_out [OF ok, of small_env 0 1 "\<lambda>k. dead_network" "empty_request\<lparr>path := lit ''/api/x''\<rparr>" "lit ''c''"] lb
    by (metis prod.collapse)
qed

definition plain_forward :: http_request where
  "plain_forward = empty_request\<lparr>method_str := lit ''POST'', uri := lit ''/a'', req_body := lit ''hi'',
     req_headers := [(lit ''Host'', lit ''b''), (lit ''Content-Length'', lit ''2''), (lit ''X'', lit ''y'')]\<rparr>"

theorem forwarded_request_read_witness:
  "\<exists>p. feed init_parser (raw_request plain_forward) = (p, COMPLETE) \<and> req_body (p_request p) = lit ''hi''"
proof -
  have r: "method_str plain_forward = lit ''POST''" "uri plain_forward = lit ''/a''" "req_body plain_forward = lit ''hi''"
    "req_headers plain_forward = [(lit ''Host'', lit ''b''), (lit ''Content-Length'', lit ''2''), (lit ''X'', lit ''y'')]"
    by (simp_all add: plain_forward_def)
  have dec: "to_dec (length (lit ''hi'')) = lit ''2''"
    by code_simp
  have "target_ok (method_str plain_forward)" "target_ok (uri plain_forward)"
    "req_headers plain_forward = [(lit ''Host'', lit ''b'')]
       @ (lit ''Content-Length'', to_dec (length (req_body plain_forward))) # [(lit ''X'', lit ''y'')]"
    "\<forall>h \<in> set ([(lit ''Host'', lit ''b'')] @ [(lit ''X'', lit ''y'')]). header_ok h \<and> plain_header h"
    "distinct (map fst (req_headers plain_forward))" "lit ''Connection'' \<notin> fst ` set (req_headers plain_forward)"
    "length (req_body plain_forward) < 2 ^ 64"
    unfolding r dec
    by (simp_all add: target_ok_def header_ok_def plain_header_def Http_Parser.is_ws_def lit_def lower_def tolower_def)
  from forwarded_request_read [OF this] show ?thesis
    unfolding r by blast
qed

text \<open>
  A chunked request whose decoded body is itself a request (\<open>chunked_request_parsed\<close> shows that the parser decodes it):
  the backend finds it behind the first one.
\<close>

definition chunked_post :: http_request where
  "chunked_post = empty_request\<lparr>method_str := lit ''POST'', uri := lit ''/a'', req_headers := [te_chunked],
     req_body := lit ''GET /admin HTTP/1.1'' @ crlf @ crlf\<rparr>"

definition smuggled_forward :: http_request where
  "smuggled_forward = build_proxy_request chunked_post small_route (demo_backend ''a'' True) (lit ''c'')"

theorem forwarded_body_smuggled_witness:
  "\<exists>p. feed init_parser (raw_request smuggled_forward) = (p, COMPLETE) \<and> req_body (p_request p) = []
     \<and> drop (p_body_start p) (p_buffer p) = lit ''GET /admin HTTP/1.1'' @ crlf @ crlf"
proof -
  have r: "method_str smuggled_forward = lit ''POST''" "uri smuggled_forward = lit ''/a''"
    "req_body smuggled_forward = lit ''GET /admin HTTP/1.1'' @ crlf @ crlf"
    "req_headers smuggled_forward = [(lit ''Host'', lit ''a:80''), (lit ''X-Forwarded-For'', lit ''c''),
       (lit ''X-Forwarded-Proto'', lit ''https''), (lit ''X-Real-IP'', lit ''c'')]"
    by code_simp+
  have "target_ok (method_str smuggled_forward)" "target_ok (uri smuggled_forward)"
    "\<forall>h \<in> set (req_headers smuggled_forward). header_ok h \<and> plain_header h"
    "distinct (map fst (req_headers smuggled_forward))" "lit ''Connection'' \<notin> fst ` set (req_headers smuggled_forward)"
    unfolding r by (simp_all add: target_ok_def header_ok_def plain_header_def Http_Parser.is_ws_def lit_def lower_def tolower_def)
  from forwarded_body_smuggled [OF this] show ?thesis
    unfolding r .
qed

theorem backend_answer_read_witness:
  "\<exists>resp. do_http_request live_network empty_request = Some resp \<and> resp_body resp = lit ''hi''"
proof -
  have dec: "to_dec 200 = lit ''200''"
    by code_simp
  have ans: "backend_answer 200 (lit ''OK'') [(lit ''A'', lit ''b'')] (lit ''hi'')
      = lit ''HTTP/1.1 200 OK'' @ crlf @ lit ''A: b'' @ crlf @ crlf @ lit ''hi''"
    by (simp add: backend_answer_def backend_status_line_def header_line_def dec lit_def)
  have "concat (at_received live_network) = backend_answer 200 (lit ''OK'') [(lit ''A'', lit ''b'')] (lit ''hi'')"
    "length (backend_answer 200 (lit ''OK'') [(lit ''A'', lit ''b'')] (lit ''hi'')) \<le> MAX_PROXY_RESPONSE"
    "[] \<notin> set (at_received live_network)" "13 \<notin> set (lit ''OK'')" "\<forall>kv \<in> set [(lit ''A'', lit ''b'')]. proxied_plain kv"
    unfolding ans by (simp_all add: live_network_def dead_network_def MAX_PROXY_RESPONSE_def proxied_plain_def lit_def)
  with backend_answer_read [of live_network 200 "lit ''OK''" "[(lit ''A'', lit ''b'')]" "lit ''hi''" empty_request] show ?thesis
    by (simp add: live_network_def dead_network_def)
qed

end
