(* ===== verification/Arena.thy ===== *)
theory Arena
  imports Prelude
begin

text \<open>
  The arena (\<open>src/include/arena_allocator.hpp\<close>) hands out aligned pieces of large blocks and frees them at once.
  Addresses are words of 64 bits, so that the arithmetic on pointers wraps as it does on the machine.  The result of each
  call of \<open>malloc\<close> is an argument, and what is relied on is \<open>malloc_ok\<close>: a block in the lower half of the address
  space (as on every system the server is built for) apart from the blocks in use.

  Shown: what an arena hands out is aligned, inside its blocks and disjoint from all it handed out since the last reset; copies
  of strings; and where the arithmetic fails: a size near \<open>2 ^ 64\<close> wraps, and memory is handed out twice.  The
  locale \<open>region_source\<close> is the contract that the arena shares with the slab.
\<close>

unbundle bit_operations_syntax

type_synonym addr = "64 word"

datatype alloc_error = Bad_alloc

section \<open>The arena\<close>

record arena =
  ar_blocks :: "addr list"
  ar_current :: addr
  ar_end :: addr
  ar_block_size :: u64
  ar_total :: u64

definition DEFAULT_BLOCK_SIZE :: u64 where "DEFAULT_BLOCK_SIZE = 64 * 1024"

definition allocate_block :: "addr \<Rightarrow> u64 \<Rightarrow> arena \<Rightarrow> alloc_error + arena" where
  "allocate_block block sz a =
     (if block = 0 then Inl Bad_alloc
      else Inr (a\<lparr>ar_blocks := ar_blocks a @ [block], ar_current := block, ar_end := block + sz,
                  ar_total := ar_total a + sz\<rparr>))"

definition arena_init :: "addr \<Rightarrow> u64 \<Rightarrow> alloc_error + arena" where
  "arena_init block block_size =
     allocate_block block block_size
       \<lparr>ar_blocks = [], ar_current = 0, ar_end = 0, ar_block_size = block_size, ar_total = 0\<rparr>"

text \<open>The move constructor: the new arena and what is left of the old one.\<close>

definition arena_move :: "arena \<Rightarrow> arena \<times> arena" where
  "arena_move other = (other, other\<lparr>ar_blocks := [], ar_current := 0, ar_end := 0, ar_total := 0\<rparr>)"

definition align_up :: "addr \<Rightarrow> u64 \<Rightarrow> addr" where
  "align_up p alignment = (p + alignment - 1) AND NOT (alignment - 1)"

definition needs_block :: "u64 \<Rightarrow> u64 \<Rightarrow> arena \<Rightarrow> bool" where
  "needs_block sz alignment a \<longleftrightarrow> ar_end a < align_up (ar_current a) alignment + sz"

definition alloc_size :: "u64 \<Rightarrow> u64 \<Rightarrow> arena \<Rightarrow> u64" where
  "alloc_size sz alignment a = (if ar_block_size a < sz + alignment then sz + alignment else ar_block_size a)"

definition allocate :: "addr \<Rightarrow> u64 \<Rightarrow> u64 \<Rightarrow> arena \<Rightarrow> alloc_error + arena \<times> addr" where
  "allocate block sz alignment a =
     (case (if needs_block sz alignment a then allocate_block block (alloc_size sz alignment a) a else Inr a) of
        Inl e \<Rightarrow> Inl e
      | Inr a \<Rightarrow> (let aligned = align_up (ar_current a) alignment in Inr (a\<lparr>ar_current := aligned + sz\<rparr>, aligned)))"

definition allocate_array :: "addr \<Rightarrow> u64 \<Rightarrow> u64 \<Rightarrow> u64 \<Rightarrow> arena \<Rightarrow> alloc_error + arena \<times> addr" where
  "allocate_array block size_of align_of count a = allocate block (size_of * count) align_of a"

definition arena_construct :: "addr \<Rightarrow> u64 \<Rightarrow> u64 \<Rightarrow> arena \<Rightarrow> alloc_error + arena \<times> addr" where
  "arena_construct block size_of align_of a = allocate block size_of align_of a"

text \<open>The memory is a function from addresses to bytes; \<open>memcpy\<close> writes one byte after the other.\<close>

fun write_bytes :: "addr \<Rightarrow> bytes \<Rightarrow> (addr \<Rightarrow> byte) \<Rightarrow> addr \<Rightarrow> byte" where
  "write_bytes p [] mem = mem"
| "write_bytes p (b # bs) mem = write_bytes (p + 1) bs (mem(p := b))"

definition arena_strdup :: "addr \<Rightarrow> bytes \<Rightarrow> arena \<Rightarrow> (addr \<Rightarrow> byte) \<Rightarrow> alloc_error + arena \<times> (addr \<Rightarrow> byte) \<times> addr" where
  "arena_strdup block str a mem =
     (case allocate_array block 1 1 (of_nat (length str) + 1) a of
        Inl e \<Rightarrow> Inl e
      | Inr (a, dst) \<Rightarrow> (let mem = write_bytes dst str mem in Inr (a, mem(dst + of_nat (length str) := 0), dst)))"

text \<open>The blocks that are freed, and the arena afterwards.\<close>

definition arena_reset :: "arena \<Rightarrow> addr list \<times> arena" where
  "arena_reset a =
     (case ar_blocks a of
        [] \<Rightarrow> ([], a)
      | b # bs \<Rightarrow> (bs, a\<lparr>ar_blocks := [b], ar_current := b, ar_end := b + ar_block_size a, ar_total := ar_block_size a\<rparr>))"

definition arena_destroy :: "arena \<Rightarrow> addr list" where
  "arena_destroy a = ar_blocks a"

definition bytes_used :: "arena \<Rightarrow> u64" where
  "bytes_used a =
     (if ar_blocks a = [] then 0
      else of_nat (length (ar_blocks a) - 1) * ar_block_size a
           + (if ar_current a \<noteq> 0 then ar_current a - last (ar_blocks a) else 0))"

section \<open>Alignment\<close>

lemma unat_clear_low:
  fixes x :: addr
  shows "unat (x AND NOT (2 ^ k - 1)) = unat x - unat x mod 2 ^ k"
proof -
  have "x AND NOT (2 ^ k - 1) = x AND NOT (take_bit k x)"
    unfolding mask_eq_exp_minus_1 [symmetric] by (auto simp: bit_eq_iff bit_simps)
  also have "\<dots> = x - take_bit k x"
    by (rule disjunctive_diff_eq_and_not [symmetric]) (auto simp: bit_eq_iff bit_simps)
  finally have e: "x AND NOT (2 ^ k - 1) = x - take_bit k x" .
  have t: "unat (take_bit k x) = unat x mod 2 ^ k"
    by (simp only: unsigned_take_bit_eq) (simp add: take_bit_eq_mod)
  then have "take_bit k x \<le> x"
    by (simp add: word_le_nat_alt)
  with e t show ?thesis
    by (simp add: unat_sub)
qed

lemma unat_exp: "k < 64 \<Longrightarrow> unat (2 ^ k :: u64) = 2 ^ k"
  by (simp add: unsigned_of_nat [of "2 ^ k", simplified] take_bit_eq_mod)

lemma align_up_exact:
  assumes "k < 64" and "unat p + 2 ^ k \<le> 2 ^ 64"
  shows "2 ^ k dvd unat (align_up p (2 ^ k))" and "unat p \<le> unat (align_up p (2 ^ k))"
    and "unat (align_up p (2 ^ k)) < unat p + 2 ^ k"
proof -
  let ?x = "p + 2 ^ k - 1"
  have m: "unat (2 ^ k - 1 :: u64) = 2 ^ k - 1"
    using unat_exp [OF assms(1)] unat_minus_one [of "2 ^ k :: u64"] by fastforce
  have "unat p + unat (2 ^ k - 1 :: u64) < 2 ^ LENGTH(64)"
    using assms(2) zero_less_power [of "2 :: nat" k] unfolding m by (simp del: zero_less_power)
  then have "unat (p + (2 ^ k - 1)) = unat p + (2 ^ k - 1)"
    using m by (simp only: unat_add_lem [THEN iffD1])
  then have x: "unat ?x = unat p + (2 ^ k - 1)"
    by (simp only: add_diff_eq)
  have a: "unat (align_up p (2 ^ k)) = unat ?x - unat ?x mod 2 ^ k"
    by (simp add: align_up_def unat_clear_low)
  have r: "unat ?x mod 2 ^ k < 2 ^ k" "unat ?x mod 2 ^ k \<le> unat ?x" "0 < (2::nat) ^ k"
    by simp_all
  show "unat p \<le> unat (align_up p (2 ^ k))"
    unfolding a using r x by linarith
  show "unat (align_up p (2 ^ k)) < unat p + 2 ^ k"
    unfolding a using r x by linarith
  show "2 ^ k dvd unat (align_up p (2 ^ k))"
    unfolding a by (simp add: dvd_minus_mod)
qed


section \<open>Regions of memory\<close>

definition region :: "addr \<Rightarrow> nat \<Rightarrow> nat set" where
  "region p n = {unat p ..< unat p + n}"

definition regions :: "addr list \<Rightarrow> nat list \<Rightarrow> nat set" where
  "regions bs ns = (\<Union>(b, n) \<in> set (zip bs ns). region b n)"

lemma regions_snoc: "length bs = length ns \<Longrightarrow> regions (bs @ [b]) (ns @ [n]) = regions bs ns \<union> region b n"
  by (auto simp: regions_def)

text \<open>What \<open>malloc\<close> promises about a block that it returns while others are in use.\<close>

definition malloc_ok :: "nat set \<Rightarrow> addr \<Rightarrow> u64 \<Rightarrow> bool" where
  "malloc_ok live block sz \<longleftrightarrow> block \<noteq> 0 \<and> unat block + unat sz < 2 ^ 63 \<and> region block (unat sz) \<inter> live = {}"

text \<open>
  The contract that the two allocators share: every step hands out an area that was not taken, and what is taken stays
  taken.
\<close>

inductive runs :: "('s \<Rightarrow> 'l \<Rightarrow> 's \<Rightarrow> bool) \<Rightarrow> 's \<Rightarrow> 'l list \<Rightarrow> 's \<Rightarrow> bool" for step where
  runs_nil: "runs step s [] s"
| runs_cons: "step s l s' \<Longrightarrow> runs step s' ls s'' \<Longrightarrow> runs step s (l # ls) s''"

locale region_source =
  fixes ok :: "'s \<Rightarrow> bool" and taken :: "'s \<Rightarrow> nat set" and step :: "'s \<Rightarrow> 'l \<Rightarrow> 's \<Rightarrow> bool" and area :: "'l \<Rightarrow> nat set"
  assumes step_ok: "ok s \<Longrightarrow> step s l s' \<Longrightarrow> ok s'"
    and step_fresh: "ok s \<Longrightarrow> step s l s' \<Longrightarrow> area l \<inter> taken s = {} \<and> taken s \<union> area l \<subseteq> taken s'"
begin

lemma runs_ok: "runs step s ls s' \<Longrightarrow> ok s \<Longrightarrow> ok s'"
  by (induction rule: runs.induct) (auto dest: step_ok)

lemma runs_fresh:
  assumes "runs step s ls s'" and "ok s"
  shows "taken s \<subseteq> taken s' \<and> (\<forall>l \<in> set ls. area l \<inter> taken s = {} \<and> area l \<subseteq> taken s')"
  using assms
proof (induction rule: runs.induct)
  case (runs_cons s l s' ls s'')
  from step_fresh [OF runs_cons.prems runs_cons.hyps(1)]
  have "area l \<inter> taken s = {}" "taken s \<subseteq> taken s'" "area l \<subseteq> taken s'"
    by auto
  moreover have "taken s' \<subseteq> taken s''" "\<forall>l \<in> set ls. area l \<inter> taken s' = {} \<and> area l \<subseteq> taken s''"
    using runs_cons.IH [OF step_ok [OF runs_cons.prems runs_cons.hyps(1)]] by auto
  ultimately show ?case
    by (simp, blast)
qed simp

lemma runs_disjoint:
  assumes "runs step s ls s'" and "ok s"
  shows "sorted_wrt (\<lambda>l l'. area l \<inter> area l' = {}) ls"
  using assms
proof (induction rule: runs.induct)
  case (runs_cons s l s' ls s'')
  have "area l \<subseteq> taken s'" "ok s'"
    using step_fresh [OF runs_cons.prems runs_cons.hyps(1)] step_ok [OF runs_cons.prems runs_cons.hyps(1)] by auto
  then show ?case
    using runs_fresh [OF runs_cons.hyps(2)] runs_cons.IH by auto
qed simp

end

section \<open>What an arena hands out\<close>

text \<open>The sizes of the blocks are not stored in the arena; the statements carry them along.\<close>

definition arena_ok :: "nat list \<times> arena \<Rightarrow> bool" where
  "arena_ok = (\<lambda>(ns, a). ar_blocks a \<noteq> [] \<and> length ns = length (ar_blocks a) \<and> hd ns = unat (ar_block_size a)
     \<and> (\<forall>(b, n) \<in> set (zip (ar_blocks a) ns). b \<noteq> 0 \<and> unat b + n < 2 ^ 63)
     \<and> unat (ar_end a) = unat (last (ar_blocks a)) + last ns
     \<and> last (ar_blocks a) \<le> ar_current a \<and> ar_current a \<le> ar_end a)"

definition arena_regions :: "nat list \<times> arena \<Rightarrow> nat set" where
  "arena_regions = (\<lambda>(ns, a). regions (ar_blocks a) ns)"

definition arena_taken :: "nat list \<times> arena \<Rightarrow> nat set" where
  "arena_taken = (\<lambda>(ns, a). regions (ar_blocks a) ns - {unat (ar_current a) ..< unat (ar_end a)})"

text \<open>Requests that are not absurdly large: size and alignment below half of the address space.\<close>

definition request_fits :: "u64 \<Rightarrow> nat \<Rightarrow> bool" where
  "request_fits sz k \<longleftrightarrow> unat sz + 2 ^ k < 2 ^ 63"

definition arena_step :: "nat list \<times> arena \<Rightarrow> addr \<times> u64 \<times> nat \<Rightarrow> nat list \<times> arena \<Rightarrow> bool" where
  "arena_step = (\<lambda>(ns, a) (p, sz, k) (ns', a').
     \<exists>block. request_fits sz k \<and> allocate block sz (2 ^ k) a = Inr (a', p)
       \<and> (if needs_block sz (2 ^ k) a
          then malloc_ok (regions (ar_blocks a) ns) block (alloc_size sz (2 ^ k) a) \<and> ns' = ns @ [unat (alloc_size sz (2 ^ k) a)]
          else ns' = ns))"

lemma last_block: "arena_ok (ns, a) \<Longrightarrow> (last (ar_blocks a), last ns) \<in> set (zip (ar_blocks a) ns)"
  using last_in_set [of "zip (ar_blocks a) ns"] by (cases ns) (auto simp: arena_ok_def last_zip)

lemma last_region: "arena_ok (ns, a) \<Longrightarrow> {unat (last (ar_blocks a)) ..< unat (ar_end a)} \<subseteq> regions (ar_blocks a) ns"
  using last_block [of ns a] by (fastforce simp: arena_ok_def regions_def region_def)

lemma request_fits_exp:
  assumes "request_fits sz k"
  shows "k < 63" and "unat (sz + 2 ^ k) = unat sz + 2 ^ k"
proof -
  have "(2::nat) ^ k < 2 ^ 63"
    using assms by (simp add: request_fits_def)
  then show k: "k < 63"
    by (rule power_less_imp_less_exp [rotated]) simp
  then show "unat (sz + 2 ^ k) = unat sz + 2 ^ k"
    using assms unat_exp [of k] by (simp add: request_fits_def unat_add_lem [THEN iffD1])
qed


lemma aligned_end:
  assumes "request_fits sz k" and "unat c < 2 ^ 63"
  shows "unat (align_up c (2 ^ k) + sz) = unat (align_up c (2 ^ k)) + unat sz"
    and "2 ^ k dvd unat (align_up c (2 ^ k))" and "unat c \<le> unat (align_up c (2 ^ k))"
    and "unat (align_up c (2 ^ k)) < unat c + 2 ^ k"
proof -
  have "k < 64" "unat c + 2 ^ k \<le> 2 ^ 64"
    using request_fits_exp(1) [OF assms(1)] assms by (simp_all add: request_fits_def)
  note exact = align_up_exact [OF this]
  then show "2 ^ k dvd unat (align_up c (2 ^ k))" "unat c \<le> unat (align_up c (2 ^ k))"
    "unat (align_up c (2 ^ k)) < unat c + 2 ^ k"
    by simp_all
  have "unat (align_up c (2 ^ k)) + unat sz < 2 ^ 64"
    using exact(3) assms by (simp add: request_fits_def)
  then show "unat (align_up c (2 ^ k) + sz) = unat (align_up c (2 ^ k)) + unat sz"
    by (simp add: unat_add_lem [THEN iffD1])
qed

text \<open>An allocation in the current block, and one that opens a new block.\<close>

lemma allocate_here:
  assumes "arena_ok (ns, a)" and "request_fits sz k" and "\<not> needs_block sz (2 ^ k) a" and "allocate block sz (2 ^ k) a = Inr (a', p)"
  shows "2 ^ k dvd unat p" and "unat (ar_current a) \<le> unat p" and "unat p + unat sz \<le> unat (ar_end a)"
    and "a' = a\<lparr>ar_current := p + sz\<rparr>" and "unat (p + sz) = unat p + unat sz"
proof -
  have "unat (ar_end a) < 2 ^ 63"
    using last_block [OF assms(1)] assms(1) by (auto simp: arena_ok_def)
  then have c: "unat (ar_current a) < 2 ^ 63"
    using assms(1) by (auto simp: arena_ok_def word_le_nat_alt)
  have p: "p = align_up (ar_current a) (2 ^ k)" "a' = a\<lparr>ar_current := p + sz\<rparr>"
    using assms(3,4) by (auto simp: allocate_def Let_def)
  then show "2 ^ k dvd unat p" "unat (ar_current a) \<le> unat p" "a' = a\<lparr>ar_current := p + sz\<rparr>" "unat (p + sz) = unat p + unat sz"
    using aligned_end [OF assms(2) c] by simp_all
  then show "unat p + unat sz \<le> unat (ar_end a)"
    using assms(3) p by (simp add: needs_block_def word_less_nat_alt)
qed

lemma allocate_new:
  assumes "request_fits sz k" and "needs_block sz (2 ^ k) a" and "allocate block sz (2 ^ k) a = Inr (a', p)"
    and "malloc_ok live block (alloc_size sz (2 ^ k) a)"
  defines "n \<equiv> unat (alloc_size sz (2 ^ k) a)"
  shows "2 ^ k dvd unat p" and "unat block \<le> unat p" and "unat p + unat sz \<le> unat block + n"
    and "a' = a\<lparr>ar_blocks := ar_blocks a @ [block], ar_current := p + sz, ar_end := block + alloc_size sz (2 ^ k) a,
                ar_total := ar_total a + alloc_size sz (2 ^ k) a\<rparr>"
    and "unat (p + sz) = unat p + unat sz" and "unat (block + alloc_size sz (2 ^ k) a) = unat block + n"
proof -
  have b: "block \<noteq> 0" "unat block + n < 2 ^ 63"
    using assms(4) by (simp_all add: malloc_ok_def n_def)
  then have c: "unat block < 2 ^ 63"
    by simp
  have p: "p = align_up block (2 ^ k)"
    "a' = a\<lparr>ar_blocks := ar_blocks a @ [block], ar_current := p + sz, ar_end := block + alloc_size sz (2 ^ k) a,
            ar_total := ar_total a + alloc_size sz (2 ^ k) a\<rparr>"
    using assms(2,3) b by (auto simp: allocate_def allocate_block_def Let_def)
  have "unat sz + 2 ^ k \<le> n"
    using request_fits_exp(2) [OF assms(1)] by (auto simp: n_def alloc_size_def word_less_nat_alt)
  with p(1) show "2 ^ k dvd unat p" "unat block \<le> unat p" "unat (p + sz) = unat p + unat sz" "unat p + unat sz \<le> unat block + n"
    using aligned_end [OF assms(1) c] by simp_all
  show "unat (block + alloc_size sz (2 ^ k) a) = unat block + n"
    using b(2) by (simp add: n_def unat_add_lem [THEN iffD1])
  show "a' = a\<lparr>ar_blocks := ar_blocks a @ [block], ar_current := p + sz, ar_end := block + alloc_size sz (2 ^ k) a,
            ar_total := ar_total a + alloc_size sz (2 ^ k) a\<rparr>"
    by (rule p(2))
qed

lemma arena_step_facts:
  assumes "arena_ok (ns, a)" and "arena_step (ns, a) (p, sz, k) (ns', a')"
  shows "arena_ok (ns', a')" and "2 ^ k dvd unat p"
    and "region p (unat sz) \<inter> arena_taken (ns, a) = {}"
    and "arena_taken (ns, a) \<union> region p (unat sz) \<subseteq> arena_taken (ns', a')"
proof -
  from assms(2) obtain block where fits: "request_fits sz k" and run: "allocate block sz (2 ^ k) a = Inr (a', p)"
    and mal: "if needs_block sz (2 ^ k) a
      then malloc_ok (regions (ar_blocks a) ns) block (alloc_size sz (2 ^ k) a) \<and> ns' = ns @ [unat (alloc_size sz (2 ^ k) a)]
      else ns' = ns"
    by (auto simp: arena_step_def)
  have "arena_ok (ns', a') \<and> 2 ^ k dvd unat p \<and> region p (unat sz) \<inter> arena_taken (ns, a) = {}
    \<and> arena_taken (ns, a) \<union> region p (unat sz) \<subseteq> arena_taken (ns', a')"
  proof (cases "needs_block sz (2 ^ k) a")
    case False
    note here = allocate_here [OF assms(1) fits False run]
    have "unat (last (ar_blocks a)) \<le> unat (ar_current a)"
      using assms(1) by (simp add: arena_ok_def word_le_nat_alt)
    then have "region p (unat sz) \<subseteq> regions (ar_blocks a) ns"
      using last_region [OF assms(1)] here(2,3) by (fastforce simp: region_def)
    then show ?thesis
      using False mal here assms(1) by (auto simp: arena_ok_def arena_taken_def region_def word_le_nat_alt)
  next
    case True
    with mal have m: "malloc_ok (regions (ar_blocks a) ns) block (alloc_size sz (2 ^ k) a)"
      "ns' = ns @ [unat (alloc_size sz (2 ^ k) a)]"
      by simp_all
    note new = allocate_new [OF fits True run m(1)]
    have len: "length (ar_blocks a) = length ns" "ns \<noteq> []"
      using assms(1) by (auto simp: arena_ok_def)
    have "arena_ok (ns', a')"
      using assms(1) new m len by (auto simp: arena_ok_def malloc_ok_def word_le_nat_alt)
    moreover have "region p (unat sz) \<subseteq> region block (unat (alloc_size sz (2 ^ k) a))"
      using new(2,3) by (auto simp: region_def)
    moreover have "region block (unat (alloc_size sz (2 ^ k) a)) \<inter> regions (ar_blocks a) ns = {}"
      using m(1) by (simp add: malloc_ok_def)
    moreover have "{unat (p + sz) ..< unat block + unat (alloc_size sz (2 ^ k) a)} \<subseteq> region block (unat (alloc_size sz (2 ^ k) a))"
      "region p (unat sz) \<inter> {unat (p + sz) ..< unat block + unat (alloc_size sz (2 ^ k) a)} = {}"
      using new(2,5) by (auto simp: region_def)
    moreover have "regions (ar_blocks a') ns' = regions (ar_blocks a) ns \<union> region block (unat (alloc_size sz (2 ^ k) a))"
      "ar_current a' = p + sz" "unat (ar_end a') = unat block + unat (alloc_size sz (2 ^ k) a)"
      using new(4,6) m(2) len by (simp_all add: regions_snoc)
    ultimately show ?thesis
      using new(1) unfolding arena_taken_def by (simp, blast)
  qed
  then show "arena_ok (ns', a')" "2 ^ k dvd unat p" "region p (unat sz) \<inter> arena_taken (ns, a) = {}"
    "arena_taken (ns, a) \<union> region p (unat sz) \<subseteq> arena_taken (ns', a')"
    by simp_all
qed

interpretation ar: region_source arena_ok arena_taken arena_step "\<lambda>(p, sz, k). region p (unat sz)"
proof unfold_locales
  fix s s' :: "nat list \<times> arena" and l :: "addr \<times> u64 \<times> nat"
  assume s: "arena_ok s" and step: "arena_step s l s'"
  obtain ns a p sz k ns' a' where e: "s = (ns, a)" "l = (p, sz, k)" "s' = (ns', a')"
    by (cases s, cases l, cases s')
  note facts = arena_step_facts [of ns a p sz k ns' a']
  show "arena_ok s'"
    using facts(1) s step unfolding e by simp
  show "(case l of (p, sz, k) \<Rightarrow> region p (unat sz)) \<inter> arena_taken s = {}
    \<and> arena_taken s \<union> (case l of (p, sz, k) \<Rightarrow> region p (unat sz)) \<subseteq> arena_taken s'"
    using facts(3,4) s step unfolding e by simp
qed


text \<open>
  C33. As long as the size and the alignment of every request together are below half of the address space (\<open>request_fits\<close>), what an arena hands
  out between its creation and a reset is aligned as requested, lies in the blocks that \<open>malloc\<close> returned, and no two pieces overlap.
\<close>

theorem arena_pieces_disjoint:
  assumes "arena_init block bs = Inr a" and "malloc_ok {} block bs" and "runs arena_step ([unat bs], a) ls (ns, a')"
  shows "(\<forall>(p, sz, k) \<in> set ls. 2 ^ k dvd unat p \<and> region p (unat sz) \<subseteq> regions (ar_blocks a') ns)
    \<and> sorted_wrt (\<lambda>(p, sz, k) (p', sz', k'). region p (unat sz) \<inter> region p' (unat sz') = {}) ls"
proof -
  have ok: "arena_ok ([unat bs], a)"
    using assms(1,2) unat_add_lem [of block bs]
    by (auto simp: arena_init_def allocate_block_def arena_ok_def malloc_ok_def word_le_nat_alt split: if_splits)
  have "\<forall>(p, sz, k) \<in> set ls. 2 ^ k dvd unat p" if "runs arena_step s ls s'" "arena_ok s" for s s' ls
    using that
  proof (induction rule: runs.induct)
    case (runs_cons s l s' ls s'')
    obtain ns a p sz k ns' a' where e: "s = (ns, a)" "l = (p, sz, k)" "s' = (ns', a')"
      by (cases s, cases l, cases s')
    show ?case
      using arena_step_facts(1,2) [of ns a p sz k ns' a'] runs_cons unfolding e by simp
  qed simp
  with ok assms(3) have "\<forall>(p, sz, k) \<in> set ls. 2 ^ k dvd unat p"
    by blast
  moreover have "arena_taken (ns, a') \<subseteq> regions (ar_blocks a') ns"
    by (auto simp: arena_taken_def)
  ultimately show ?thesis
    using ar.runs_fresh [OF assms(3) ok] ar.runs_disjoint [OF assms(3) ok] by (fastforce simp: case_prod_unfold)
qed

text \<open>A reset frees every block but the first and starts again with an arena in order, of which nothing is taken.\<close>

theorem arena_reset_empty:
  assumes "arena_ok (ns, a)" and "arena_reset a = (freed, a')"
  shows "arena_ok ([hd ns], a') \<and> arena_taken ([hd ns], a') = {} \<and> ar_blocks a = ar_blocks a' @ freed"
proof -
  obtain b bs where b: "ar_blocks a = b # bs"
    using assms(1) by (cases "ar_blocks a") (auto simp: arena_ok_def)
  then obtain n ms where n: "ns = n # ms"
    using assms(1) by (cases ns) (auto simp: arena_ok_def)
  have "unat b + unat (ar_block_size a) < 2 ^ LENGTH(64)" "b \<noteq> 0" "unat b + n < 2 ^ 63" "n = unat (ar_block_size a)"
    using assms(1) b n by (auto simp: arena_ok_def)
  then show ?thesis
    using assms b n unat_add_lem [THEN iffD1, of b "ar_block_size a"]
    by (auto simp: arena_reset_def arena_ok_def arena_taken_def regions_def region_def word_le_nat_alt)
qed

text \<open>
  A size near \<open>2 ^ 64\<close> passes the test: the end of the piece wraps around to an address in front of it.  The
  arena returns the piece and moves its position backwards, and hands out memory again that has an owner.
\<close>

theorem arena_size_wraps:
  assumes "k < 63" and "2 ^ k dvd unat (ar_current a)" and "unat n \<le> unat (ar_current a)" and "2 ^ k dvd unat n"
    and "unat (ar_current a) < 2 ^ 63" and "ar_current a \<le> ar_end a"
  shows "\<exists>a'. allocate block (- n) (2 ^ k) a = Inr (a', ar_current a)
    \<and> allocate block' n (2 ^ k) a' = Inr (a, ar_current a - n)"
proof -
  have al: "align_up p (2 ^ k) = p" if d: "2 ^ k dvd unat p" "unat p < 2 ^ 63" for p :: addr
  proof -
    have "(2::nat) ^ k \<le> 2 ^ 63"
      using assms(1) by (intro power_increasing) simp_all
    then have "unat p + 2 ^ k \<le> 2 ^ 64"
      using d(2) by simp
    note e = align_up_exact [OF _ this]
    obtain i where i: "unat p = 2 ^ k * i"
      using d(1) by (rule dvdE)
    obtain j where j: "unat (align_up p (2 ^ k)) = 2 ^ k * j"
      using e(1) assms(1) by (auto elim: dvdE)
    have "2 ^ k * i \<le> 2 ^ k * j" "2 ^ k * j < 2 ^ k * Suc i"
      using e(2,3) assms(1) i j by simp_all
    then have "i \<le> j" "j < Suc i"
      by (simp_all del: mult_Suc_right)
    then show ?thesis
      using i j by (simp add: word_unat_eq_iff)
  qed
  have le: "n \<le> ar_current a" "unat (ar_current a - n) = unat (ar_current a) - unat n"
    using assms(3) by (simp_all add: word_le_nat_alt unat_sub)
  have "align_up (ar_current a) (2 ^ k) = ar_current a" "align_up (ar_current a - n) (2 ^ k) = ar_current a - n"
    using al [of "ar_current a"] al [of "ar_current a - n"] assms(2,4,5) le(2) by (simp_all add: dvd_diff_nat)
  moreover have "\<not> ar_end a < ar_current a - n"
    using le assms(6) by (simp add: word_less_nat_alt word_le_nat_alt)
  moreover have "\<not> ar_end a < ar_current a"
    using assms(6) by (simp add: not_less)
  ultimately show ?thesis
    by (intro exI [of _ "a\<lparr>ar_current := ar_current a - n\<rparr>"]) (simp add: allocate_def needs_block_def Let_def)
qed


section \<open>Copies of strings\<close>

lemma write_bytes_at:
  assumes "unat p + length bs < 2 ^ 64"
  shows "i < length bs \<Longrightarrow> write_bytes p bs mem (p + of_nat i) = bs ! i"
    and "unat q \<notin> region p (length bs) \<Longrightarrow> write_bytes p bs mem q = mem q"
proof -
  have "(\<forall>i < length bs. write_bytes p bs mem (p + of_nat i) = bs ! i)
    \<and> (\<forall>q. unat q \<notin> region p (length bs) \<longrightarrow> write_bytes p bs mem q = mem q)"
    using assms
  proof (induction bs arbitrary: p mem)
    case (Cons b bs)
    have p1: "unat (p + 1) = unat p + 1"
      using Cons.prems unat_add_lem [of p 1] by simp
    then have IH: "\<forall>i < length bs. write_bytes (p + 1) bs (mem(p := b)) (p + 1 + of_nat i) = bs ! i"
      "\<forall>q. unat q \<notin> region (p + 1) (length bs) \<longrightarrow> write_bytes (p + 1) bs (mem(p := b)) q = (mem(p := b)) q"
      using Cons.IH [of "p + 1" "mem(p := b)"] Cons.prems by (simp_all del: fun_upd_apply)
    have "unat p \<notin> region (p + 1) (length bs)"
      using p1 by (simp add: region_def)
    with IH(2) have first: "write_bytes (p + 1) bs (mem(p := b)) p = b"
      by simp
    have "write_bytes (p + 1) bs (mem(p := b)) (p + of_nat i) = (b # bs) ! i" if "i < Suc (length bs)" for i
      using that first IH(1) by (cases i) (simp_all add: ac_simps)
    moreover have "write_bytes (p + 1) bs (mem(p := b)) q = mem q" if "unat q \<notin> region p (Suc (length bs))" for q
    proof -
      have "unat q \<notin> region (p + 1) (length bs)" "q \<noteq> p"
        using that p1 by (auto simp: region_def)
      with IH(2) show ?thesis
        by (simp add: fun_upd_def)
    qed
    ultimately show ?case
      by simp
  qed simp
  then show "i < length bs \<Longrightarrow> write_bytes p bs mem (p + of_nat i) = bs ! i"
    "unat q \<notin> region p (length bs) \<Longrightarrow> write_bytes p bs mem q = mem q"
    by blast+
qed

text \<open>A copy has the bytes of the string and a NUL behind them; all other memory is as it was.\<close>

theorem arena_strdup_copies:
  assumes "arena_strdup block str a mem = Inr (a', mem', dst)" and "unat dst + length str < 2 ^ 64 - 1"
  shows "(\<forall>i < length str. mem' (dst + of_nat i) = str ! i) \<and> mem' (dst + of_nat (length str)) = 0
    \<and> (\<forall>q. unat q \<notin> region dst (length str + 1) \<longrightarrow> mem' q = mem q)"
proof -
  have m: "mem' = (write_bytes dst str mem)(dst + of_nat (length str) := 0)"
    using assms(1) by (auto simp: arena_strdup_def Let_def split: sum.splits prod.splits)
  have u: "unat (dst + of_nat i) = unat dst + i" if "i \<le> length str" for i
  proof -
    have "unat (of_nat i :: addr) = i"
      using that assms(2) by (simp add: unat_of_nat)
    then show ?thesis
      using that assms(2) unat_add_lem [of dst "of_nat i"] by simp
  qed
  have "dst + of_nat i \<noteq> dst + of_nat (length str)" if "i < length str" for i
  proof
    assume "dst + of_nat i = dst + of_nat (length str)"
    then have "unat dst + i = unat dst + length str"
      using u [of i] u [of "length str"] that by simp
    with that show False
      by simp
  qed
  then have "\<forall>i < length str. mem' (dst + of_nat i) = str ! i"
    using write_bytes_at(1) [of dst str] assms(2) unfolding m by simp
  moreover have "mem' q = mem q" if "unat q \<notin> region dst (length str + 1)" for q
  proof -
    have "unat q \<notin> region dst (length str)" "q \<noteq> dst + of_nat (length str)"
      using that u [of "length str"] by (auto simp: region_def)
    then show ?thesis
      using write_bytes_at(2) [of dst str q mem] assms(2) unfolding m by simp
  qed
  ultimately show ?thesis
    by (simp add: m)
qed


section \<open>A small arena\<close>

definition small_arena :: arena where
  "small_arena = \<lparr>ar_blocks = [4096], ar_current = 4096, ar_end = 4160, ar_block_size = 64, ar_total = 64\<rparr>"

definition grown_arena :: arena where
  "grown_arena = \<lparr>ar_blocks = [4096, 8200], ar_current = 8308, ar_end = 8316, ar_block_size = 64, ar_total = 180\<rparr>"

lemma small_arena_run: "runs arena_step ([64], small_arena) [(4096, 10, 3), (8208, 100, 4)] ([64, 116], grown_arena)"
proof (intro runs.intros)
  have e: "allocate 0 10 (2 ^ 3) small_arena = Inr (small_arena\<lparr>ar_current := 4106\<rparr>, 4096)"
    "\<not> needs_block 10 (2 ^ 3) small_arena"
    by code_simp+
  then show "arena_step ([64], small_arena) (4096, 10, 3) ([64], small_arena\<lparr>ar_current := 4106\<rparr>)"
    by (auto simp: arena_step_def request_fits_def)
  have f: "allocate 8200 100 (2 ^ 4) (small_arena\<lparr>ar_current := 4106\<rparr>) = Inr (grown_arena, 8208)"
    "needs_block 100 (2 ^ 4) (small_arena\<lparr>ar_current := 4106\<rparr>)" "alloc_size 100 (2 ^ 4) (small_arena\<lparr>ar_current := 4106\<rparr>) = 116"
    by code_simp+
  then show "arena_step ([64], small_arena\<lparr>ar_current := 4106\<rparr>) (8208, 100, 4) ([64, 116], grown_arena)"
    by (auto simp: arena_step_def request_fits_def malloc_ok_def regions_def region_def small_arena_def intro!: exI [of _ 8200])
qed (rule runs_nil)

theorem arena_pieces_disjoint_witness:
  "region 4096 10 \<union> region 8208 100 \<subseteq> regions (ar_blocks grown_arena) [64, 116] \<and> region 4096 10 \<inter> region 8208 100 = {}"
proof -
  have "arena_init 4096 64 = Inr small_arena" "malloc_ok {} 4096 64"
    by (simp_all add: arena_init_def allocate_block_def small_arena_def malloc_ok_def)
  from arena_pieces_disjoint [OF this, of "[(4096, 10, 3), (8208, 100, 4)]" "[64, 116]" grown_arena] show ?thesis
    using small_arena_run by simp
qed

theorem arena_reset_empty_witness:
  "fst (arena_reset grown_arena) = [8200] \<and> arena_taken ([64], snd (arena_reset grown_arena)) = {}"
proof -
  have "arena_ok ([64, 116], grown_arena)"
    by (simp add: arena_ok_def grown_arena_def)
  from arena_reset_empty [OF this, of "fst (arena_reset grown_arena)" "snd (arena_reset grown_arena)"] show ?thesis
    by (simp add: arena_reset_def grown_arena_def)
qed

theorem arena_size_wraps_witness:
  "\<exists>a'. allocate 0 (- 16) 16 (small_arena\<lparr>ar_current := 4112\<rparr>) = Inr (a', 4112)
    \<and> allocate 0 16 16 a' = Inr (small_arena\<lparr>ar_current := 4112\<rparr>, 4096)"
  using arena_size_wraps [of 4 "small_arena\<lparr>ar_current := 4112\<rparr>" 16 0 0] by (simp add: small_arena_def)

theorem arena_strdup_copies_witness:
  "\<exists>a' mem'. arena_strdup 0 (lit ''hi'') small_arena (\<lambda>p. 7) = Inr (a', mem', 4096)
     \<and> mem' 4096 = 104 \<and> mem' 4098 = 0 \<and> mem' 4099 = 7"
proof -
  have "allocate 0 3 1 small_arena = Inr (small_arena\<lparr>ar_current := 4099\<rparr>, 4096)"
    by code_simp
  then obtain a' mem' where r: "arena_strdup 0 (lit ''hi'') small_arena (\<lambda>p. 7) = Inr (a', mem', 4096)"
    by (simp add: arena_strdup_def allocate_array_def lit_def)
  have len: "length (lit ''hi'') = 2" "2 + 1 = (3 :: nat)"
    by (simp_all add: lit_def)
  have c: "\<forall>i < 2. mem' (4096 + of_nat i) = lit ''hi'' ! i" "mem' (4096 + of_nat 2) = 0" "\<forall>q. unat q \<notin> region 4096 3 \<longrightarrow> mem' q = 7"
    using arena_strdup_copies [OF r] unfolding len by simp_all
  have "mem' 4096 = 104" "mem' 4098 = 0" "mem' 4099 = 7"
    using spec [OF c(1), of 0] c(2) spec [OF c(3), of 4099] by (simp_all add: lit_def region_def)
  with r show ?thesis
    by blast
qed

end
