(* ===== verification/Slab.thy ===== *)
theory Slab
  imports Arena
begin

text \<open>
  The slab (\<open>SlabAllocator\<close> of \<open>src/include/arena_allocator.hpp\<close>): slots of one size in blocks from \<open>malloc\<close>, with a
  free list that lives in the slots themselves.  Shown: a slot has one owner, whatever the owners write into their slots and in
  whatever order they take and return them, and the counters are exact; a slot that is returned twice is handed out twice.
\<close>

section \<open>The slab\<close>

text \<open>
  The slots of a slab and their links.  \<open>sizeof(FreeNode)\<close> and the capacity are parameters of the template; the memory
  holds at the address of a slot the pointer \<open>next\<close> or whatever the owner of the slot has written there.
\<close>

record slab =
  sl_slabs :: "addr list"
  sl_free_head :: addr
  sl_count :: u64
  sl_mem :: "addr \<Rightarrow> addr"

definition slot :: "u64 \<Rightarrow> addr \<Rightarrow> nat \<Rightarrow> addr" where
  "slot node base i = base + of_nat i * node"

definition link_nodes :: "u64 \<Rightarrow> addr \<Rightarrow> nat \<Rightarrow> (addr \<Rightarrow> addr) \<Rightarrow> addr \<Rightarrow> addr" where
  "link_nodes node base n mem = fold (\<lambda>i mem. mem(slot node base i := slot node base (Suc i))) [0..<n] mem"

definition slab_grow :: "addr \<Rightarrow> u64 \<Rightarrow> nat \<Rightarrow> slab \<Rightarrow> alloc_error + slab" where
  "slab_grow block node cap s =
     (if block = 0 then Inl Bad_alloc
      else Inr (s\<lparr>sl_slabs := sl_slabs s @ [block],
                  sl_mem := (link_nodes node block (cap - 1) (sl_mem s))(slot node block (cap - 1) := sl_free_head s),
                  sl_free_head := block\<rparr>))"

definition slab_init :: "(addr \<Rightarrow> addr) \<Rightarrow> addr \<Rightarrow> u64 \<Rightarrow> nat \<Rightarrow> alloc_error + slab" where
  "slab_init mem block node cap = slab_grow block node cap \<lparr>sl_slabs = [], sl_free_head = 0, sl_count = 0, sl_mem = mem\<rparr>"

definition slab_allocate :: "addr \<Rightarrow> u64 \<Rightarrow> nat \<Rightarrow> slab \<Rightarrow> alloc_error + slab \<times> addr" where
  "slab_allocate block node cap s =
     (case (if sl_free_head s = 0 then slab_grow block node cap s else Inr s) of
        Inl e \<Rightarrow> Inl e
      | Inr s \<Rightarrow> Inr (s\<lparr>sl_free_head := sl_mem s (sl_free_head s), sl_count := sl_count s + 1\<rparr>, sl_free_head s))"

definition slab_deallocate :: "addr \<Rightarrow> slab \<Rightarrow> slab" where
  "slab_deallocate p s =
     (if p = 0 then s
      else s\<lparr>sl_mem := (sl_mem s)(p := sl_free_head s), sl_free_head := p, sl_count := sl_count s - 1\<rparr>)"

text \<open>An object made in a slot writes its value there; the destructor of an object is the business of its type.\<close>

definition slab_construct :: "addr \<Rightarrow> u64 \<Rightarrow> nat \<Rightarrow> addr \<Rightarrow> slab \<Rightarrow> alloc_error + slab \<times> addr" where
  "slab_construct block node cap v s =
     (case slab_allocate block node cap s of
        Inl e \<Rightarrow> Inl e
      | Inr (s, p) \<Rightarrow> Inr (s\<lparr>sl_mem := (sl_mem s)(p := v)\<rparr>, p))"

definition slab_destroy_object :: "addr \<Rightarrow> slab \<Rightarrow> slab" where
  "slab_destroy_object p s = (if p = 0 then s else slab_deallocate p s)"

definition slab_capacity :: "nat \<Rightarrow> slab \<Rightarrow> nat" where
  "slab_capacity cap s = length (sl_slabs s) * cap"

definition slab_destroy :: "slab \<Rightarrow> addr list" where
  "slab_destroy s = sl_slabs s"

section \<open>Slots have one owner\<close>

fun chain :: "(addr \<Rightarrow> addr) \<Rightarrow> addr \<Rightarrow> addr list \<Rightarrow> bool" where
  "chain nx p [] \<longleftrightarrow> p = 0"
| "chain nx p (q # qs) \<longleftrightarrow> p = q \<and> q \<noteq> 0 \<and> chain nx (nx q) qs"

lemma chain_other: "q \<notin> set qs \<Longrightarrow> chain (nx(q := v)) p qs = chain nx p qs"
  by (induction qs arbitrary: p) auto

definition slots_of :: "u64 \<Rightarrow> nat \<Rightarrow> addr \<Rightarrow> addr set" where
  "slots_of node cap b = slot node b ` {0..<cap}"

definition slab_slots :: "u64 \<Rightarrow> nat \<Rightarrow> slab \<Rightarrow> addr set" where
  "slab_slots node cap s = (\<Union>b \<in> set (sl_slabs s). slots_of node cap b)"

definition slab_regions :: "u64 \<Rightarrow> nat \<Rightarrow> slab \<Rightarrow> nat set" where
  "slab_regions node cap s = (\<Union>b \<in> set (sl_slabs s). region b (unat node * cap))"

definition separate :: "u64 \<Rightarrow> addr set \<Rightarrow> bool" where
  "separate node ps \<longleftrightarrow> (\<forall>p \<in> ps. \<forall>q \<in> ps. p \<noteq> q \<longrightarrow> region p (unat node) \<inter> region q (unat node) = {})"

definition slab_ok :: "u64 \<Rightarrow> nat \<Rightarrow> addr set \<times> slab \<Rightarrow> bool" where
  "slab_ok node cap = (\<lambda>(own, s).
     (\<exists>free. chain (sl_mem s) (sl_free_head s) free \<and> distinct free \<and> own \<inter> set free = {} \<and> own \<union> set free = slab_slots node cap s)
     \<and> sl_count s = of_nat (card own) \<and> 0 \<notin> slab_slots node cap s
     \<and> separate node (slab_slots node cap s) \<and> (\<Union>p \<in> slab_slots node cap s. region p (unat node)) \<subseteq> slab_regions node cap s)"

lemma slab_okI:
  assumes "chain (sl_mem s) (sl_free_head s) free" and "distinct free" and "own \<inter> set free = {}" and "own \<union> set free = slab_slots node cap s"
    and "sl_count s = of_nat (card own)" and "0 \<notin> slab_slots node cap s" and "separate node (slab_slots node cap s)"
    and "(\<Union>p \<in> slab_slots node cap s. region p (unat node)) \<subseteq> slab_regions node cap s"
  shows "slab_ok node cap (own, s)"
  using assms unfolding slab_ok_def by (simp, blast)

lemma slab_okE:
  assumes "slab_ok node cap (own, s)"
  obtains free where "chain (sl_mem s) (sl_free_head s) free" "distinct free" "own \<inter> set free = {}" "own \<union> set free = slab_slots node cap s"
  using assms unfolding slab_ok_def by auto

lemma slab_okD:
  assumes "slab_ok node cap (own, s)"
  shows "sl_count s = of_nat (card own)" and "0 \<notin> slab_slots node cap s" and "separate node (slab_slots node cap s)"
    and "(\<Union>p \<in> slab_slots node cap s. region p (unat node)) \<subseteq> slab_regions node cap s"
  using assms unfolding slab_ok_def by simp_all

lemma unat_slot:
  assumes "unat b + unat node * cap < 2 ^ 63" and "i < cap"
  shows "unat (slot node b i) = unat b + i * unat node"
proof -
  have "i * unat node + unat node \<le> unat node * cap"
    using assms(2) by (metis Suc_leI add.commute mult.commute mult_Suc mult_le_mono2)
  then have "unat b + i * unat node < 2 ^ LENGTH(64)"
    using assms(1) by simp
  then have "unat (of_nat (unat b + i * unat node) :: addr) = unat b + i * unat node"
    by (simp only: unat_of_nat mod_less)
  then show ?thesis
    by (simp add: slot_def)
qed


text \<open>What \<open>malloc\<close> promises for a slab of \<open>cap\<close> nodes.\<close>

definition slab_malloc_ok :: "u64 \<Rightarrow> nat \<Rightarrow> nat set \<Rightarrow> addr \<Rightarrow> bool" where
  "slab_malloc_ok node cap live block \<longleftrightarrow>
     block \<noteq> 0 \<and> unat block + unat node * cap < 2 ^ 63 \<and> region block (unat node * cap) \<inter> live = {}"

lemma slot_region:
  assumes "unat b + unat node * cap < 2 ^ 63" and "i < cap"
  shows "region (slot node b i) (unat node) \<subseteq> region b (unat node * cap)"
proof -
  have "Suc i * unat node \<le> cap * unat node"
    using assms(2) by (intro mult_le_mono1) simp
  then show ?thesis
    unfolding region_def unat_slot [OF assms] by (auto simp: mult.commute)
qed

lemma slots_apart:
  assumes "unat b + unat node * cap < 2 ^ 63" and "i < j" and "j < cap"
  shows "region (slot node b i) (unat node) \<inter> region (slot node b j) (unat node) = {}"
proof -
  have "Suc i * unat node \<le> j * unat node"
    using assms(2) by (intro mult_le_mono1) simp
  then show ?thesis
    using unat_slot [OF assms(1), of i] unat_slot [OF assms(1,3)] assms(2,3) by (auto simp: region_def)
qed

lemma slots_separate:
  assumes "unat b + unat node * cap < 2 ^ 63"
  shows "separate node (slots_of node cap b)"
proof -
  have "region (slot node b i) (unat node) \<inter> region (slot node b j) (unat node) = {}" if "i < cap" "j < cap" "i \<noteq> j" for i j
    using slots_apart [OF assms, of i j] slots_apart [OF assms, of j i] that by (cases i j rule: linorder_cases) auto
  then show ?thesis
    unfolding separate_def slots_of_def by (metis atLeastLessThan_iff imageE)
qed

lemma slot_inj:
  assumes "unat b + unat node * cap < 2 ^ 63" and "0 < node"
  shows "inj_on (slot node b) {0..<cap}"
proof (rule inj_onI)
  fix i j assume "i \<in> {0..<cap}" "j \<in> {0..<cap}" "slot node b i = slot node b j"
  then have "unat b + i * unat node = unat b + j * unat node"
    by (metis assms(1) atLeastLessThan_iff unat_slot)
  moreover have "0 < unat node"
    using assms(2) by (simp add: word_less_nat_alt)
  ultimately show "i = j"
    by simp
qed

lemma link_nodes_at:
  assumes "inj_on (slot node b) {0..<n}"
  shows "i < n \<Longrightarrow> link_nodes node b n mem (slot node b i) = slot node b (Suc i)"
    and "q \<notin> slot node b ` {0..<n} \<Longrightarrow> link_nodes node b n mem q = mem q"
proof -
  have "(\<forall>i < n. link_nodes node b n mem (slot node b i) = slot node b (Suc i))
    \<and> (\<forall>q. q \<notin> slot node b ` {0..<n} \<longrightarrow> link_nodes node b n mem q = mem q)"
    using assms
  proof (induction n)
    case (Suc n)
    then have IH: "\<forall>i < n. link_nodes node b n mem (slot node b i) = slot node b (Suc i)"
      "\<forall>q. q \<notin> slot node b ` {0..<n} \<longrightarrow> link_nodes node b n mem q = mem q"
      by (simp_all add: atLeastLessThanSuc)
    have new: "link_nodes node b (Suc n) mem = (link_nodes node b n mem)(slot node b n := slot node b (Suc n))"
      by (simp add: link_nodes_def)
    have "slot node b i \<noteq> slot node b n" if "i < n" for i
      using Suc.prems that by (auto dest: inj_onD)
    then show ?case
      using IH unfolding new by (auto simp: less_Suc_eq atLeastLessThanSuc)
  qed (simp add: link_nodes_def)
  then show "i < n \<Longrightarrow> link_nodes node b n mem (slot node b i) = slot node b (Suc i)"
    "q \<notin> slot node b ` {0..<n} \<Longrightarrow> link_nodes node b n mem q = mem q"
    by blast+
qed

lemma chain_steps:
  assumes "\<forall>i < n. nx (f i) = f (Suc i)" and "\<forall>i \<le> n. f i \<noteq> 0" and "nx (f n) = 0" and "j \<le> n"
  shows "chain nx (f j) (map f [j..<Suc n])"
  using assms(4)
proof (induction rule: inc_induct)
  case (step j)
  then have "[j..<Suc n] = j # [Suc j..<Suc n]"
    by (simp add: upt_conv_Cons)
  then show ?case
    using step assms(1,2) by simp
qed (use assms in simp)

lemma grow_chain:
  assumes "slab_malloc_ok node cap live block" and "0 < node" and "0 < cap" and "sl_free_head s = 0" and "slab_grow block node cap s = Inr s'"
  shows "chain (sl_mem s') (sl_free_head s') (map (slot node block) [0..<cap])" and "distinct (map (slot node block) [0..<cap])"
proof -
  obtain n where n: "cap = Suc n"
    using assms(3) by (cases cap) auto
  have b: "unat block + unat node * cap < 2 ^ 63" "block \<noteq> 0"
    using assms(1) by (simp_all add: slab_malloc_ok_def)
  note inj = slot_inj [OF b(1) assms(2)]
  then show "distinct (map (slot node block) [0..<cap])"
    by (simp add: distinct_map)
  let ?m = "(link_nodes node block n (sl_mem s))(slot node block n := 0)"
  have s': "sl_mem s' = ?m" "sl_free_head s' = slot node block 0"
    using assms(4,5) b(2) n by (auto simp: slab_grow_def slot_def)
  have "inj_on (slot node block) {0..<n}"
    using inj unfolding n by (rule inj_on_subset) simp
  moreover have "slot node block i \<noteq> slot node block n" if "i < n" for i
    using inj that unfolding n by (auto dest: inj_onD)
  ultimately have "\<forall>i < n. ?m (slot node block i) = slot node block (Suc i)"
    using link_nodes_at(1) by auto
  moreover have "\<forall>i \<le> n. slot node block i \<noteq> 0"
    using unat_slot [OF b(1)] b(2) n by (metis add_is_0 le_imp_less_Suc unat_0_iff)
  ultimately show "chain (sl_mem s') (sl_free_head s') (map (slot node block) [0..<cap])"
    unfolding s' n by (intro chain_steps) simp_all
qed


lemma slab_grow_ok:
  assumes "slab_ok node cap (own, s)" and "slab_malloc_ok node cap (slab_regions node cap s) block" and "0 < node" and "0 < cap"
    and "sl_free_head s = 0" and "slab_grow block node cap s = Inr s'"
  shows "slab_ok node cap (own, s')" and "sl_free_head s' \<noteq> 0"
proof -
  have b: "unat block + unat node * cap < 2 ^ 63" "block \<noteq> 0" "region block (unat node * cap) \<inter> slab_regions node cap s = {}"
    using assms(2) by (simp_all add: slab_malloc_ok_def)
  have s': "sl_slabs s' = sl_slabs s @ [block]" "sl_count s' = sl_count s" "sl_free_head s' = block"
    using assms(6) b(2) by (auto simp: slab_grow_def)
  then show "sl_free_head s' \<noteq> 0"
    using b(2) by simp
  note old = slab_okD [OF assms(1)]
  obtain free where free: "chain (sl_mem s) 0 free" "own \<union> set free = slab_slots node cap s"
    using assms(1,5) by (auto elim!: slab_okE)
  have own: "own = slab_slots node cap s"
    using free by (cases free) auto
  let ?new = "slots_of node cap block"
  have slots: "slab_slots node cap s' = own \<union> ?new" "slab_regions node cap s' = slab_regions node cap s \<union> region block (unat node * cap)"
    by (auto simp: slab_slots_def slab_regions_def s' own)
  have in_new: "(\<Union>p \<in> ?new. region p (unat node)) \<subseteq> region block (unat node * cap)"
    using slot_region [OF b(1)] by (fastforce simp: slots_of_def)
  have in_old: "(\<Union>p \<in> own. region p (unat node)) \<subseteq> slab_regions node cap s"
    using old(4) by (simp add: own)
  have pos: "0 < unat node"
    using assms(3) by (simp add: word_less_nat_alt)
  have cross: "region p (unat node) \<inter> region q (unat node) = {}" if "p \<in> own" "q \<in> ?new" for p q
    using that in_new in_old b(3) by blast
  moreover have "region p (unat node) \<noteq> {}" for p
    using pos by (simp add: region_def)
  ultimately have "own \<inter> ?new = {}"
    by blast
  moreover have sep: "separate node (own \<union> ?new)"
    unfolding separate_def
  proof (intro ballI impI)
    fix p q assume pq: "p \<in> own \<union> ?new" "q \<in> own \<union> ?new" "p \<noteq> q"
    have "separate node own" "separate node ?new"
      using old(3) slots_separate [OF b(1)] by (simp_all add: own)
    then show "region p (unat node) \<inter> region q (unat node) = {}"
      using pq cross [of p q] cross [of q p] unfolding separate_def by blast
  qed
  moreover have zero: "0 \<notin> own \<union> ?new"
  proof -
    have "slot node block i \<noteq> 0" if "i < cap" for i
      using unat_slot [OF b(1) that] b(2) by (metis add_is_0 unat_0 unat_0_iff)
    then show ?thesis
      using old(2) by (auto simp: own slots_of_def)
  qed
  moreover have "set (map (slot node block) [0..<cap]) = ?new"
    by (simp add: slots_of_def)
  moreover have "(\<Union>p \<in> own \<union> ?new. region p (unat node)) \<subseteq> slab_regions node cap s'"
    using in_new in_old unfolding slots by blast
  ultimately show "slab_ok node cap (own, s')"
    using grow_chain [OF assms(2-6)] old(1) by (intro slab_okI [of s' "map (slot node block) [0..<cap]"]) (simp_all add: slots(1) s'(2))
qed

text \<open>The steps of the owners and of the slab; a slot is returned by its owner, who may write into it before.\<close>

inductive slab_step :: "u64 \<Rightarrow> nat \<Rightarrow> addr set \<times> slab \<Rightarrow> addr set \<times> slab \<Rightarrow> bool" for node cap where
  slab_alloc: "slab_allocate block node cap s = Inr (s', p)
     \<Longrightarrow> (sl_free_head s = 0 \<Longrightarrow> slab_malloc_ok node cap (slab_regions node cap s) block)
     \<Longrightarrow> slab_step node cap (own, s) (insert p own, s')"
| slab_free: "p \<in> own \<Longrightarrow> slab_step node cap (own, s) (own - {p}, slab_deallocate p s)"
| slab_write: "p \<in> own \<Longrightarrow> slab_step node cap (own, s) (own, s\<lparr>sl_mem := (sl_mem s)(p := v)\<rparr>)"

lemma slab_allocate_ok:
  assumes "slab_ok node cap (own, s)" and "0 < node" and "0 < cap" and "slab_allocate block node cap s = Inr (s', p)"
    and "sl_free_head s = 0 \<Longrightarrow> slab_malloc_ok node cap (slab_regions node cap s) block"
  shows "slab_ok node cap (insert p own, s')" and "p \<notin> own" and "p \<in> slab_slots node cap s'"
proof -
  obtain g where g: "slab_ok node cap (own, g)" "sl_free_head g \<noteq> 0" "p = sl_free_head g"
    "s' = g\<lparr>sl_free_head := sl_mem g p, sl_count := sl_count g + 1\<rparr>"
  proof (cases "sl_free_head s = 0")
    case True
    then obtain g where "slab_grow block node cap s = Inr g"
      using assms(4) by (cases "slab_grow block node cap s") (simp_all add: slab_allocate_def)
    with slab_grow_ok [OF assms(1) assms(5) [OF True] assms(2,3) True this] True assms(4) that show ?thesis
      by (auto simp: slab_allocate_def)
  next
    case False
    with assms(1,4) that show ?thesis
      by (auto simp: slab_allocate_def)
  qed
  then obtain qs where qs: "chain (sl_mem g) p qs" "distinct qs" "own \<inter> set qs = {}" "own \<union> set qs = slab_slots node cap g"
    by (auto elim: slab_okE)
  with g(2,3) obtain free where "qs = p # free"
    by (cases qs) simp_all
  note free = qs [unfolded this]
  have sl: "slab_slots node cap s' = slab_slots node cap g" "slab_regions node cap s' = slab_regions node cap g"
    by (simp_all add: g(4) slab_slots_def slab_regions_def)
  show "p \<notin> own" "p \<in> slab_slots node cap s'"
    using free by (auto simp: sl)
  have "finite own"
    by simp
  then have "sl_count s' = of_nat (card (insert p own))"
    using slab_okD(1) [OF g(1)] free(3) by (simp add: g(4))
  moreover have "chain (sl_mem s') (sl_free_head s') free" "distinct free" "insert p own \<inter> set free = {}"
    "insert p own \<union> set free = slab_slots node cap s'"
    using free unfolding sl by (simp_all add: g(4))
  ultimately show "slab_ok node cap (insert p own, s')"
    using slab_okD [OF g(1)] by (intro slab_okI [of s' free]) (simp_all only: sl not_False_eq_True)
qed

lemma slab_deallocate_ok:
  assumes "slab_ok node cap (own, s)" and "p \<in> own"
  shows "slab_ok node cap (own - {p}, slab_deallocate p s)"
proof -
  obtain free where free: "chain (sl_mem s) (sl_free_head s) free" "distinct free" "own \<inter> set free = {}"
    "own \<union> set free = slab_slots node cap s"
    using assms(1) by (rule slab_okE)
  have p: "p \<noteq> 0"
    using free(4) slab_okD(2) [OF assms(1)] assms(2) by auto
  then have s: "slab_deallocate p s = s\<lparr>sl_mem := (sl_mem s)(p := sl_free_head s), sl_free_head := p, sl_count := sl_count s - 1\<rparr>"
    by (simp add: slab_deallocate_def)
  have sl: "slab_slots node cap (slab_deallocate p s) = slab_slots node cap s"
    "slab_regions node cap (slab_deallocate p s) = slab_regions node cap s"
    by (simp_all add: s slab_slots_def slab_regions_def)
  have "card own = Suc (card (own - {p}))"
    using assms(2) by (intro card.remove) simp_all
  then have "sl_count (slab_deallocate p s) = of_nat (card (own - {p}))"
    using slab_okD(1) [OF assms(1)] by (simp add: s)
  moreover have "p \<notin> set free"
    using free(3) assms(2) by auto
  then have "chain (sl_mem (slab_deallocate p s)) (sl_free_head (slab_deallocate p s)) (p # free)" "distinct (p # free)"
    "(own - {p}) \<inter> set (p # free) = {}" "(own - {p}) \<union> set (p # free) = slab_slots node cap (slab_deallocate p s)"
    using free assms(2) p unfolding sl by (auto simp: s chain_other)
  ultimately show ?thesis
    using slab_okD [OF assms(1)] by (intro slab_okI [of "slab_deallocate p s" "p # free"]) (simp_all only: sl not_False_eq_True)
qed

lemma slab_step_ok: "slab_step node cap st st' \<Longrightarrow> 0 < node \<Longrightarrow> 0 < cap \<Longrightarrow> slab_ok node cap st \<Longrightarrow> slab_ok node cap st'"
proof (induction rule: slab_step.induct)
  case (slab_write p own s v)
  let ?s = "s\<lparr>sl_mem := (sl_mem s)(p := v)\<rparr>"
  from slab_write.prems(3) obtain free where free: "chain (sl_mem s) (sl_free_head s) free" "distinct free" "own \<inter> set free = {}"
    "own \<union> set free = slab_slots node cap s"
    by (rule slab_okE)
  have "p \<notin> set free"
    using free(3) slab_write.hyps by auto
  moreover have "slab_slots node cap ?s = slab_slots node cap s" "slab_regions node cap ?s = slab_regions node cap s"
    by (simp_all add: slab_slots_def slab_regions_def)
  ultimately show ?case
    using free slab_okD [OF slab_write.prems(3)] by (intro slab_okI [of ?s free]) (simp_all add: chain_other)
next
  case (slab_alloc block s s' p own)
  then show ?case
    by (intro slab_allocate_ok(1))
next
  case (slab_free p own s)
  then show ?case
    by (intro slab_deallocate_ok)
qed


lemma slab_init_ok:
  assumes "slab_init mem block node cap = Inr s" and "slab_malloc_ok node cap {} block" and "0 < node" and "0 < cap"
  shows "slab_ok node cap ({}, s)"
proof (rule slab_grow_ok(1))
  show "slab_ok node cap ({}, \<lparr>sl_slabs = [], sl_free_head = 0, sl_count = 0, sl_mem = mem\<rparr>)"
    by (rule slab_okI [of _ "[]"]) (simp_all add: slab_slots_def separate_def)
qed (use assms in \<open>simp_all add: slab_init_def slab_regions_def\<close>)

lemma slab_reachable_ok:
  assumes "(slab_step node cap)\<^sup>*\<^sup>* st st'" and "0 < node" and "0 < cap" and "slab_ok node cap st"
  shows "slab_ok node cap st'"
  using assms by (induction rule: rtranclp_induct) (auto intro: slab_step_ok)

definition slab_take :: "u64 \<Rightarrow> nat \<Rightarrow> addr set \<times> slab \<Rightarrow> addr \<Rightarrow> addr set \<times> slab \<Rightarrow> bool" where
  "slab_take node cap = (\<lambda>(own, s) p (own', s'). \<exists>block. slab_allocate block node cap s = Inr (s', p) \<and> own' = insert p own
     \<and> (sl_free_head s = 0 \<longrightarrow> slab_malloc_ok node cap (slab_regions node cap s) block))"

lemma slab_allocate_fresh:
  assumes "slab_ok node cap (own, s)" and "0 < node" and "0 < cap" and "slab_allocate block node cap s = Inr (s', p)"
    and "sl_free_head s = 0 \<Longrightarrow> slab_malloc_ok node cap (slab_regions node cap s) block" and "q \<in> own"
  shows "region p (unat node) \<inter> region q (unat node) = {}"
proof -
  note ok = slab_allocate_ok [OF assms(1-5)]
  have "q \<in> slab_slots node cap s'" "p \<noteq> q"
    using ok(1,2) assms(6) by (auto elim!: slab_okE)
  then show ?thesis
    using slab_okD(3) [OF ok(1)] ok(3) unfolding separate_def by blast
qed

interpretation sl: region_source "\<lambda>st. slab_ok node cap st \<and> 0 < node \<and> 0 < cap" "\<lambda>(own, s). \<Union>p \<in> own. region p (unat node)"
  "slab_take node cap" "\<lambda>p. region p (unat node)"
  for node cap
proof unfold_locales
  fix st st' p
  assume st: "slab_ok node cap st \<and> 0 < node \<and> 0 < cap" and step: "slab_take node cap st p st'"
  obtain own s own' s' where e: "st = (own, s)" "st' = (own', s')"
    by (cases st, cases st')
  from step obtain block where b: "slab_allocate block node cap s = Inr (s', p)" "own' = insert p own"
    "sl_free_head s = 0 \<Longrightarrow> slab_malloc_ok node cap (slab_regions node cap s) block"
    unfolding e slab_take_def by auto
  note facts = st [unfolded e] b
  show "slab_ok node cap st' \<and> 0 < node \<and> 0 < cap"
    using slab_allocate_ok(1) [OF _ _ _ facts(2,4)] facts(1) unfolding e facts(3) by blast
  have "region p (unat node) \<inter> region q (unat node) = {}" if "q \<in> own" for q
    using slab_allocate_fresh [OF _ _ _ facts(2,4) that] facts(1) by blast
  then show "region p (unat node) \<inter> (case st of (own, s) \<Rightarrow> \<Union>p \<in> own. region p (unat node)) = {} \<and>
    (case st of (own, s) \<Rightarrow> \<Union>p \<in> own. region p (unat node)) \<union> region p (unat node)
      \<subseteq> (case st' of (own, s) \<Rightarrow> \<Union>p \<in> own. region p (unat node))"
    unfolding e facts(3) by auto
qed

text \<open>
  Slots that are taken one after the other do not overlap; the facts of the interface hold for the slab as for the arena.
\<close>

lemma slab_takes_disjoint:
  assumes "runs (slab_take node cap) st ps st'" and "slab_ok node cap st" and "0 < node" and "0 < cap"
  shows "sorted_wrt (\<lambda>p q. region p (unat node) \<inter> region q (unat node) = {}) ps"
  using sl.runs_disjoint [OF assms(1)] assms(2-4) by blast

text \<open>
  C32. Whatever the owners do (take slots, write into them, return them), the next slot has no owner and does not overlap a slot that has
  one, and the counters are exact.
\<close>

theorem slab_slot_one_owner:
  assumes "slab_init mem b node cap = Inr s0" and "slab_malloc_ok node cap {} b" and "0 < node" and "0 < cap"
    and "(slab_step node cap)\<^sup>*\<^sup>* ({}, s0) (own, s)" and "slab_allocate block node cap s = Inr (s', p)"
    and "sl_free_head s = 0 \<Longrightarrow> slab_malloc_ok node cap (slab_regions node cap s) block"
  shows "p \<notin> own \<and> (\<forall>q \<in> own. region p (unat node) \<inter> region q (unat node) = {})
    \<and> region p (unat node) \<subseteq> slab_regions node cap s'
    \<and> sl_count s = of_nat (card own) \<and> card own \<le> slab_capacity cap s"
proof -
  have ok: "slab_ok node cap (own, s)"
    using slab_reachable_ok [OF assms(5,3,4) slab_init_ok [OF assms(1-4)]] .
  note new = slab_allocate_ok [OF ok assms(3,4,6,7)]
  have "own \<subseteq> slab_slots node cap s"
    using ok by (auto elim!: slab_okE)
  then have "card own \<le> card (slab_slots node cap s)"
    by (intro card_mono) simp_all
  also have "\<dots> \<le> (\<Sum>b \<in> set (sl_slabs s). card (slots_of node cap b))"
    unfolding slab_slots_def by (rule card_UN_le) simp
  also have "\<dots> \<le> (\<Sum>b \<in> set (sl_slabs s). cap)"
    by (rule sum_mono) (use card_image_le [of "{0..<cap}"] in \<open>simp add: slots_of_def\<close>)
  also have "\<dots> \<le> slab_capacity cap s"
    by (simp add: slab_capacity_def card_length)
  finally have "card own \<le> slab_capacity cap s" .
  moreover have "region p (unat node) \<subseteq> slab_regions node cap s'"
    using slab_okD(4) [OF new(1)] new(3) by blast
  ultimately show ?thesis
    using slab_allocate_fresh [OF ok assms(3,4,6,7)] new(2) slab_okD(1) [OF ok] by blast
qed

text \<open>A slot that is returned twice is handed out twice in a row.\<close>

theorem slab_double_free:
  assumes "p \<noteq> 0"
  shows "\<exists>s1 s2. slab_allocate b node cap (slab_deallocate p (slab_deallocate p s)) = Inr (s1, p)
    \<and> slab_allocate b' node cap s1 = Inr (s2, p)"
  using assms by (simp add: slab_deallocate_def slab_allocate_def)

section \<open>A small slab\<close>

definition small_slab :: slab where
  "small_slab = \<lparr>sl_slabs = [4096], sl_free_head = 4096, sl_count = 0, sl_mem = (\<lambda>p. 0)(4096 := 4104)\<rparr>"

definition used_slab :: slab where
  "used_slab = small_slab\<lparr>sl_free_head := 4104, sl_count := 1\<rparr>"

theorem slab_slot_one_owner_witness:
  "\<exists>s'. slab_allocate 0 8 2 used_slab = Inr (s', 4104) \<and> region 4104 8 \<inter> region 4096 8 = {}
     \<and> region 4104 8 \<subseteq> slab_regions 8 2 s' \<and> sl_count used_slab = 1"
proof -
  have init: "slab_init (\<lambda>p. 0) 4096 8 2 = Inr small_slab" "slab_malloc_ok 8 2 {} 4096"
    by (simp_all add: slab_init_def slab_grow_def link_nodes_def slot_def small_slab_def slab_malloc_ok_def fun_eq_iff)
  have "slab_allocate 0 8 2 small_slab = Inr (used_slab, 4096)"
    by (simp add: slab_allocate_def small_slab_def used_slab_def)
  then have "slab_step 8 2 ({}, small_slab) (insert 4096 {}, used_slab)"
    by (rule slab_alloc) (simp add: small_slab_def)
  then have run: "(slab_step 8 2)\<^sup>*\<^sup>* ({}, small_slab) ({4096}, used_slab)"
    by (rule r_into_rtranclp)
  have "slab_allocate 0 8 2 used_slab = Inr (used_slab\<lparr>sl_free_head := 0, sl_count := 2\<rparr>, 4104)"
    by (simp add: slab_allocate_def small_slab_def used_slab_def)
  then show ?thesis
    using slab_slot_one_owner [OF init _ _ run] by (simp add: used_slab_def)
qed

theorem slab_double_free_witness:
  "\<exists>s1 s2. slab_allocate 0 8 2 (slab_deallocate 4096 (slab_deallocate 4096 small_slab)) = Inr (s1, 4096)
    \<and> slab_allocate 0 8 2 s1 = Inr (s2, 4096)"
  by (rule slab_double_free) simp

end
