(* ===== verification/Http3.thy ===== *)
theory Http3
  imports Http2
begin

text \<open>
  HTTP/3 (\<open>src/src/http3.cpp\<close>): the connection with its per-stream requests as the callbacks of the QUIC and HTTP/3
  libraries fill them, the header list of a response, and the dispatcher that routes datagrams to connections by
  connection identifier.  What ngtcp2 and nghttp3 do (which callbacks they make, what they return, what they write)
  is an argument of the definitions; nothing is assumed about them.  The two pointers \<open>quic_conn_\<close> and \<open>h3_conn_\<close> that the code
  tests are flags of the model (\<open>h3_quic\<close>, \<open>h3_http\<close>).  No line of the code ever sets them, so no definition here does: in the program as it is
  every connection keeps both flags false, and what is shown under the assumption that a flag is set says what the callbacks are
  written to do, not what a client of this version sees.

  Shown: equal identifiers have equal hashes; the callbacks of the streams of a connection, if it had a session, do not interfere, and a
  request that they collect is the one that HTTP/2 would have built; the dispatcher keeps its limit.  And where the code
  is not finished: the pointers to the first header of every response dangle, no connection ever answers a
  packet or ends, so a full dispatcher stays full.
\<close>

unbundle bit_operations_syntax

section \<open>Connection identifiers\<close>

record quic_cid =
  cid_data :: bytes
  cid_len :: nat

definition CID_SIZE :: nat where "CID_SIZE = 20"

definition cid_zero :: quic_cid where
  "cid_zero = \<lparr>cid_data = replicate CID_SIZE 0, cid_len = 0\<rparr>"

text \<open>Bytes copied to the front of the array.\<close>

definition cid_of :: "bytes \<Rightarrow> quic_cid" where
  "cid_of bs = \<lparr>cid_data = bs @ drop (length bs) (replicate CID_SIZE 0), cid_len = length bs\<rparr>"

definition cid_eq :: "quic_cid \<Rightarrow> quic_cid \<Rightarrow> bool" where
  "cid_eq a b \<longleftrightarrow> cid_len a = cid_len b \<and> take (cid_len a) (cid_data a) = take (cid_len a) (cid_data b)"

definition hex_digit :: "nat \<Rightarrow> byte" where
  "hex_digit n = (if n < 10 then of_nat (48 + n) else of_nat (87 + n))"

definition cid_hex :: "quic_cid \<Rightarrow> bytes" where
  "cid_hex c = concat (map (\<lambda>b. [hex_digit (unat b div 16), hex_digit (unat b mod 16)]) (take (cid_len c) (cid_data c)))"

text \<open>The random bytes are an argument.\<close>

definition cid_generate :: "nat \<Rightarrow> bytes \<Rightarrow> quic_cid" where
  "cid_generate n random = cid_of (take (if CID_SIZE < n then CID_SIZE else n) random)"

definition cid_hash :: "quic_cid \<Rightarrow> u64" where
  "cid_hash c = foldl (\<lambda>h b. (h XOR ucast b) * 1099511628211) 14695981039346656037 (take (cid_len c) (cid_data c))"

definition from_ngtcp2_cid :: "bytes \<Rightarrow> nat \<Rightarrow> quic_cid" where
  "from_ngtcp2_cid data datalen = cid_of (take (if CID_SIZE < datalen then CID_SIZE else datalen) data)"

definition get_timestamp_ns :: "u64 \<Rightarrow> u64 \<Rightarrow> u64" where
  "get_timestamp_ns tv_sec tv_nsec = tv_sec * 1000000000 + tv_nsec"

section \<open>The header list of a response\<close>

text \<open>
  The vector \<open>storage\<close> of strings: its capacity doubles when it is full, and then its strings move to a new buffer.  A string of
  at most 15 characters lives inside its element of the vector, a longer one on the heap, where a move leaves it.  A
  pointer to a character array is therefore a place in one of the buffers, or the heap with its content.
\<close>

datatype str_ptr = Inline nat nat | On_heap bytes

record string_vector =
  sv_items :: "bytes list"
  sv_capacity :: nat
  sv_buffer :: nat

definition emplace_back :: "bytes \<Rightarrow> string_vector \<Rightarrow> string_vector" where
  "emplace_back x v =
     (if length (sv_items v) < sv_capacity v then v\<lparr>sv_items := sv_items v @ [x]\<rparr>
      else v\<lparr>sv_items := sv_items v @ [x], sv_capacity := max 1 (2 * sv_capacity v), sv_buffer := sv_buffer v + 1\<rparr>)"

definition data_ptr :: "string_vector \<Rightarrow> nat \<Rightarrow> str_ptr" where
  "data_ptr v i = (if length (sv_items v ! i) \<le> 15 then Inline (sv_buffer v) i else On_heap (sv_items v ! i))"

text \<open>What is at a pointer while the vector is as it is; nothing in a buffer that has been freed.\<close>

fun deref :: "string_vector \<Rightarrow> str_ptr \<Rightarrow> bytes option" where
  "deref v (Inline b i) = (if b = sv_buffer v \<and> i < length (sv_items v) then Some (sv_items v ! i) else None)"
| "deref v (On_heap s) = Some s"

record header_data =
  hd_nvs :: "(str_ptr \<times> nat \<times> str_ptr \<times> nat) list"
  hd_storage :: string_vector

definition h3_add_header :: "bytes \<times> bytes \<Rightarrow> header_data \<Rightarrow> header_data" where
  "h3_add_header h d =
     (let v = emplace_back (snd h) (emplace_back (fst h) (hd_storage d)); idx = length (sv_items v)
      in \<lparr>hd_nvs = hd_nvs d @ [(data_ptr v (idx - 2), length (fst h), data_ptr v (idx - 1), length (snd h))], hd_storage = v\<rparr>)"

definition h3_response_headers :: "http_response \<Rightarrow> (bytes \<times> bytes) list" where
  "h3_response_headers resp =
     (lit '':status'', to_string (status_code resp)) # resp_headers resp
       @ (if map_of (resp_headers resp) (lit ''Content-Length'') = None
          then [(lit ''content-length'', to_dec (length (resp_body resp)))] else [])"

definition h3_header_data :: "http_response \<Rightarrow> header_data" where
  "h3_header_data resp =
     fold h3_add_header (h3_response_headers resp)
       \<lparr>hd_nvs = [], hd_storage = \<lparr>sv_items = [], sv_capacity = 0, sv_buffer = 0\<rparr>\<rparr>"

text \<open>The reader of the body: the pieces it gives, whether the body ends there, and its new position.\<close>

definition read_data :: "nat \<Rightarrow> bytes \<Rightarrow> nat \<Rightarrow> bytes list \<times> bool \<times> nat" where
  "read_data veccnt data offset =
     (if length data \<le> offset then ([], True, offset)
      else if veccnt = 0 then ([], False, offset)
      else ([drop offset data], True, length data))"

section \<open>A connection\<close>

record quic_transport_params =
  max_idle_timeout_ms :: u64
  initial_max_data :: u64
  initial_max_stream_data_bidi_local :: u64
  initial_max_stream_data_bidi_remote :: u64
  initial_max_stream_data_uni :: u64
  initial_max_streams_bidi :: u64
  initial_max_streams_uni :: u64
  max_udp_payload_size :: u64
  disable_active_migration :: bool

definition default_transport_params :: quic_transport_params where
  "default_transport_params =
     \<lparr>max_idle_timeout_ms = 30000, initial_max_data = 1048576, initial_max_stream_data_bidi_local = 262144,
      initial_max_stream_data_bidi_remote = 262144, initial_max_stream_data_uni = 262144, initial_max_streams_bidi = 100,
      initial_max_streams_uni = 3, max_udp_payload_size = 1350, disable_active_migration = True\<rparr>"

record stream_context =
  sc_request :: http_request
  sc_headers_complete :: bool
  sc_data_complete :: bool

record h3_submission =
  sub_stream :: int
  sub_headers :: header_data
  sub_body :: "bytes option"

record h3_connection =
  h3_params :: quic_transport_params
  h3_scid :: quic_cid
  h3_dcid :: quic_cid
  h3_quic :: bool
  h3_http :: bool
  h3_streams :: "(int \<times> stream_context) list"
  h3_alive :: bool
  h3_handshake_complete :: bool
  h3_bytes_sent :: u64
  h3_bytes_received :: u64
  h3_streams_opened :: u64
  h3_submitted :: "h3_submission list"

definition h3_init :: "quic_transport_params \<Rightarrow> bytes \<Rightarrow> bytes \<Rightarrow> h3_connection" where
  "h3_init params random1 random2 =
     \<lparr>h3_params = params, h3_scid = cid_generate 16 random1, h3_dcid = cid_generate 16 random2, h3_quic = False, h3_http = False, h3_streams = [],
      h3_alive = True, h3_handshake_complete = False, h3_bytes_sent = 0, h3_bytes_received = 0, h3_streams_opened = 0,
      h3_submitted = []\<rparr>"

definition h3_send_response :: "int \<Rightarrow> http_response \<Rightarrow> h3_connection \<Rightarrow> h3_connection" where
  "h3_send_response sid resp c =
     (if \<not> h3_http c then c
      else c\<lparr>h3_submitted := h3_submitted c
               @ [\<lparr>sub_stream = sid, sub_headers = h3_header_data resp,
                   sub_body = (if resp_body resp = [] then None else Some (resp_body resp))\<rparr>]\<rparr>)"

definition on_stream_open :: "int \<Rightarrow> h3_connection \<Rightarrow> h3_connection" where
  "on_stream_open sid c =
     c\<lparr>h3_streams := hput sid \<lparr>sc_request = empty_request, sc_headers_complete = False, sc_data_complete = False\<rparr> (h3_streams c),
       h3_streams_opened := h3_streams_opened c + 1\<rparr>"

definition on_stream_close :: "int \<Rightarrow> h3_connection \<Rightarrow> h3_connection" where
  "on_stream_close sid c = c\<lparr>h3_streams := hdel sid (h3_streams c)\<rparr>"

definition h3_method :: "bytes \<Rightarrow> http_method \<Rightarrow> http_method" where
  "h3_method v m =
     (if v = lit ''GET'' then GET else if v = lit ''POST'' then POST else if v = lit ''PUT'' then PUT
      else if v = lit ''DELETE'' then DELETE else if v = lit ''HEAD'' then HEAD else if v = lit ''OPTIONS'' then OPTIONS
      else if v = lit ''PATCH'' then PATCH else m)"

definition h3_apply_header :: "bytes \<times> bytes \<Rightarrow> http_request \<Rightarrow> http_request" where
  "h3_apply_header h r =
     (let name = fst h; val = snd h
      in if name = lit '':method'' then r\<lparr>method_str := val, req_method := h3_method val (req_method r)\<rparr>
         else if name = lit '':path'' then
           (case find_sub [63] val of
              None \<Rightarrow> r\<lparr>uri := val, path := val\<rparr>
            | Some q \<Rightarrow> r\<lparr>uri := val, path := take q val, query_string := drop (q + 1) val\<rparr>)
         else if name = lit '':scheme'' then r
         else if name = lit '':authority'' then r\<lparr>req_headers := hput (lit ''Host'') val (req_headers r)\<rparr>
         else r\<lparr>req_headers := hput name val (req_headers r)\<rparr>)"

definition update_stream :: "int \<Rightarrow> (stream_context \<Rightarrow> stream_context) \<Rightarrow> h3_connection \<Rightarrow> h3_connection" where
  "update_stream sid f c =
     (case map_of (h3_streams c) sid of
        None \<Rightarrow> c
      | Some sc \<Rightarrow> c\<lparr>h3_streams := hput sid (f sc) (h3_streams c)\<rparr>)"

definition on_h3_recv_header :: "int \<Rightarrow> bytes \<times> bytes \<Rightarrow> h3_connection \<Rightarrow> h3_connection" where
  "on_h3_recv_header sid h = update_stream sid (\<lambda>sc. sc\<lparr>sc_request := h3_apply_header h (sc_request sc)\<rparr>)"

definition on_h3_end_headers :: "int \<Rightarrow> h3_connection \<Rightarrow> h3_connection" where
  "on_h3_end_headers sid =
     update_stream sid (\<lambda>sc. sc\<lparr>sc_headers_complete := True, sc_request := (sc_request sc)\<lparr>version := lit ''HTTP/3''\<rparr>\<rparr>)"

definition on_h3_recv_data :: "int \<Rightarrow> bytes \<Rightarrow> h3_connection \<Rightarrow> h3_connection" where
  "on_h3_recv_data sid data =
     update_stream sid (\<lambda>sc. sc\<lparr>sc_request := (sc_request sc)\<lparr>req_body := req_body (sc_request sc) @ data\<rparr>\<rparr>)"

definition on_h3_end_stream :: "(http_request \<Rightarrow> http_response) \<Rightarrow> int \<Rightarrow> h3_connection \<Rightarrow> h3_connection" where
  "on_h3_end_stream handler sid c =
     (case map_of (h3_streams c) sid of
        None \<Rightarrow> c
      | Some sc \<Rightarrow>
          h3_send_response sid (handler (sc_request sc)) (update_stream sid (\<lambda>sc. sc\<lparr>sc_data_complete := True\<rparr>) c))"

text \<open>The callbacks of nghttp3, and those of ngtcp2, which pass the bytes of a stream on to nghttp3.\<close>

datatype h3_callback =
    Recv_header int "bytes \<times> bytes"
  | End_headers int
  | Recv_data int bytes
  | End_stream int

fun h3_callback_run :: "(http_request \<Rightarrow> http_response) \<Rightarrow> h3_callback \<Rightarrow> h3_connection \<Rightarrow> h3_connection" where
  "h3_callback_run handler (Recv_header sid h) c = on_h3_recv_header sid h c"
| "h3_callback_run handler (End_headers sid) c = on_h3_end_headers sid c"
| "h3_callback_run handler (Recv_data sid d) c = on_h3_recv_data sid d c"
| "h3_callback_run handler (End_stream sid) c = on_h3_end_stream handler sid c"

datatype quic_callback =
    Stream_data int "h3_callback list" int
  | Stream_open int
  | Stream_close int
  | Acked_data int

text \<open>The result: whether the callback failed.\<close>

definition on_recv_stream_data :: "(http_request \<Rightarrow> http_response) \<Rightarrow> h3_callback list \<Rightarrow> int \<Rightarrow> h3_connection \<Rightarrow> h3_connection \<times> bool" where
  "on_recv_stream_data handler cbs nconsumed c =
     (if \<not> h3_http c then (c, True) else (fold (h3_callback_run handler) cbs c, 0 \<le> nconsumed))"

fun quic_callback_run :: "(http_request \<Rightarrow> http_response) \<Rightarrow> quic_callback \<Rightarrow> h3_connection \<Rightarrow> h3_connection" where
  "quic_callback_run handler (Stream_data sid cbs n) c = fst (on_recv_stream_data handler cbs n c)"
| "quic_callback_run handler (Stream_open sid) c = on_stream_open sid c"
| "quic_callback_run handler (Stream_close sid) c = on_stream_close sid c"
| "quic_callback_run handler (Acked_data sid) c = c"


text \<open>
  What the loop that writes packets meets: a packet, the request to go on with more data, an error, or nothing to write.  The end
  of the list means that there is nothing more to write.
\<close>

datatype packet_write = Packet bytes | Write_more | Write_error | Nothing

fun write_loop :: "packet_write list \<Rightarrow> bytes list" where
  "write_loop [] = []"
| "write_loop (w # ws) =
     (case w of
        Packet p \<Rightarrow> p # write_loop ws
      | Write_more \<Rightarrow> write_loop ws
      | Write_error \<Rightarrow> []
      | Nothing \<Rightarrow> [])"

definition write_packets :: "packet_write list \<Rightarrow> h3_connection \<Rightarrow> h3_connection \<times> bytes list" where
  "write_packets ws c =
     (if \<not> h3_quic c then (c, [])
      else let packets = write_loop ws
           in (c\<lparr>h3_bytes_sent := h3_bytes_sent c + of_nat (length (concat packets))\<rparr>, packets))"

datatype read_result = Read_ok | Read_draining | Read_closing | Read_error

text \<open>What ngtcp2 does with one datagram: the callbacks that it makes, its result, the state of the handshake, and what it has to write.\<close>

record quic_effect =
  qe_callbacks :: "quic_callback list"
  qe_result :: read_result
  qe_handshake :: bool
  qe_writes :: "packet_write list"

definition process_input :: "(http_request \<Rightarrow> http_response) \<Rightarrow> quic_effect \<Rightarrow> bytes \<Rightarrow> h3_connection \<Rightarrow> h3_connection \<times> bytes list" where
  "process_input handler qe data c =
     (if \<not> h3_quic c then (c, [])
      else let c = c\<lparr>h3_bytes_received := h3_bytes_received c + of_nat (length data)\<rparr>;
               c = fold (quic_callback_run handler) (qe_callbacks qe) c;
               c = (if qe_result qe = Read_draining \<or> qe_result qe = Read_closing then c\<lparr>h3_alive := False\<rparr> else c);
               c = (if \<not> h3_handshake_complete c \<and> qe_handshake qe then c\<lparr>h3_handshake_complete := True\<rparr> else c)
           in write_packets (qe_writes qe) c)"

definition on_timer :: "bool \<Rightarrow> packet_write list \<Rightarrow> h3_connection \<Rightarrow> h3_connection \<times> bytes list" where
  "on_timer expiry_ok ws c =
     (if \<not> h3_quic c then (c, [])
      else if \<not> expiry_ok then (c\<lparr>h3_alive := False\<rparr>, [])
      else write_packets ws c)"

text \<open>In milliseconds.\<close>

definition next_timeout :: "u64 \<Rightarrow> u64 \<Rightarrow> h3_connection \<Rightarrow> u64" where
  "next_timeout expiry now c =
     (if \<not> h3_quic c then 100 else if expiry \<le> now then 0 else (expiry - now) div 1000000)"

section \<open>The dispatcher\<close>

record quic_dispatcher =
  qd_transport_params :: quic_transport_params
  qd_max_connections :: nat
  qd_udp_fd :: int
  qd_connections :: "(quic_cid \<times> h3_connection) list"
  qd_total_rx :: u64
  qd_total_tx :: u64

definition qd_create :: "nat \<Rightarrow> quic_dispatcher" where
  "qd_create max_connections =
     \<lparr>qd_transport_params = default_transport_params, qd_max_connections = max_connections, qd_udp_fd = -1, qd_connections = [], qd_total_rx = 0, qd_total_tx = 0\<rparr>"

text \<open>The results of \<open>socket\<close>, \<open>inet_pton\<close> and \<open>bind\<close> are arguments.\<close>

definition qd_init :: "int \<Rightarrow> bool \<Rightarrow> bool \<Rightarrow> quic_dispatcher \<Rightarrow> quic_dispatcher \<times> bool" where
  "qd_init fd address_ok bind_ok d =
     (if fd < 0 then (d\<lparr>qd_udp_fd := fd\<rparr>, False)
      else if \<not> address_ok \<or> \<not> bind_ok then (d\<lparr>qd_udp_fd := -1\<rparr>, False)
      else (d\<lparr>qd_udp_fd := fd\<rparr>, True))"

definition long_header :: "bytes \<Rightarrow> bool" where
  "long_header pkt \<longleftrightarrow> hd pkt AND 0x80 \<noteq> 0"

definition packet_dcid :: "bytes \<Rightarrow> quic_cid" where
  "packet_dcid pkt =
     (if long_header pkt \<and> 6 \<le> length pkt then
        (let dcid_len = min 20 (unat (pkt ! 5))
         in if 6 + dcid_len \<le> length pkt then cid_of (take dcid_len (drop 6 pkt)) else cid_zero)
      else if 17 \<le> length pkt then cid_of (take 16 (drop 1 pkt))
      else cid_zero\<lparr>cid_len := 16\<rparr>)"

text \<open>The source identifier only goes to the log.\<close>

definition packet_scid :: "bytes \<Rightarrow> quic_cid" where
  "packet_scid pkt =
     (if 6 \<le> length pkt \<and> unat (pkt ! 5) \<le> 20 \<and> 6 + unat (pkt ! 5) + 1 \<le> length pkt then
        (let dcid_len = unat (pkt ! 5); scid_len = unat (pkt ! (6 + dcid_len))
         in if scid_len \<le> 20 \<and> 7 + dcid_len + scid_len \<le> length pkt then cid_of (take scid_len (drop (7 + dcid_len) pkt)) else cid_zero)
      else cid_zero)"

fun cid_lookup :: "quic_cid \<Rightarrow> (quic_cid \<times> 'v) list \<Rightarrow> 'v option" where
  "cid_lookup k [] = None"
| "cid_lookup k ((a, v) # m) = (if cid_eq a k then Some v else cid_lookup k m)"

fun cid_update :: "quic_cid \<Rightarrow> 'v \<Rightarrow> (quic_cid \<times> 'v) list \<Rightarrow> (quic_cid \<times> 'v) list" where
  "cid_update k v [] = [(k, v)]"
| "cid_update k v ((a, w) # m) = (if cid_eq a k then (a, v) # m else (a, w) # cid_update k v m)"

definition find_connection :: "quic_cid \<Rightarrow> quic_dispatcher \<Rightarrow> h3_connection option" where
  "find_connection k d = cid_lookup k (qd_connections d)"

definition create_connection :: "bytes \<Rightarrow> bytes \<Rightarrow> quic_cid \<Rightarrow> quic_dispatcher \<Rightarrow> quic_dispatcher \<times> h3_connection option" where
  "create_connection random1 random2 dcid d =
     (if qd_max_connections d \<le> length (qd_connections d) then (d, None)
      else let c = h3_init (qd_transport_params d) random1 random2 in (d\<lparr>qd_connections := cid_update dcid c (qd_connections d)\<rparr>, Some c))"

definition remove_connection :: "quic_cid \<Rightarrow> quic_dispatcher \<Rightarrow> quic_dispatcher" where
  "remove_connection k d = d\<lparr>qd_connections := filter (\<lambda>(a, c). \<not> cid_eq a k) (qd_connections d)\<rparr>"

definition cleanup_idle :: "quic_dispatcher \<Rightarrow> quic_dispatcher" where
  "cleanup_idle d = d\<lparr>qd_connections := filter (\<lambda>(a, c). h3_alive c) (qd_connections d)\<rparr>"

definition tick :: "quic_dispatcher \<Rightarrow> quic_dispatcher" where
  "tick d = cleanup_idle d"

text \<open>A datagram with the random bytes for a new connection and what ngtcp2 makes of it.\<close>

record datagram =
  dg_data :: bytes
  dg_random1 :: bytes
  dg_random2 :: bytes
  dg_effect :: quic_effect

definition packet_connection :: "datagram \<Rightarrow> quic_dispatcher \<Rightarrow> quic_dispatcher \<times> h3_connection option" where
  "packet_connection g d =
     (let dcid = packet_dcid (dg_data g)
      in case find_connection dcid d of
           Some c \<Rightarrow> (d, Some c)
         | None \<Rightarrow> if long_header (dg_data g) then create_connection (dg_random1 g) (dg_random2 g) dcid d else (d, None))"

definition process_packet :: "(http_request \<Rightarrow> http_response) \<Rightarrow> datagram \<Rightarrow> quic_dispatcher \<Rightarrow> quic_dispatcher \<times> bytes list" where
  "process_packet handler g d =
     (let d = d\<lparr>qd_total_rx := qd_total_rx d + 1\<rparr>
      in if dg_data g = [] then (d, [])
         else case packet_connection g d of
                (d, None) \<Rightarrow> (d, [])
              | (d, Some c) \<Rightarrow>
                  (let (c, replies) = process_input handler (dg_effect g) (dg_data g) c
                   in (d\<lparr>qd_connections := cid_update (packet_dcid (dg_data g)) c (qd_connections d),
                         qd_total_tx := qd_total_tx d + of_nat (length replies)\<rparr>, replies)))"

text \<open>Up to 64 datagrams, until \<open>recvfrom\<close> has no more; the result is their number and what is sent.\<close>

fun process_batch :: "nat \<Rightarrow> (http_request \<Rightarrow> http_response) \<Rightarrow> datagram list \<Rightarrow> quic_dispatcher \<Rightarrow> quic_dispatcher \<times> nat \<times> bytes list" where
  "process_batch 0 handler gs d = (d, 0, [])"
| "process_batch (Suc i) handler [] d = (d, 0, [])"
| "process_batch (Suc i) handler (g # gs) d =
     (let (d, out) = process_packet handler g d; (d, count, rest) = process_batch i handler gs d
      in (d, count + 1, out @ rest))"

definition process_packets :: "(http_request \<Rightarrow> http_response) \<Rightarrow> datagram list \<Rightarrow> quic_dispatcher \<Rightarrow> quic_dispatcher \<times> nat \<times> bytes list" where
  "process_packets handler gs d = (if qd_udp_fd d < 0 then (d, 0, []) else process_batch 64 handler gs d)"

text \<open>The timers of all connections; what they write is counted and dropped.\<close>

definition flush_output :: "(quic_cid \<Rightarrow> bool \<times> packet_write list) \<Rightarrow> quic_dispatcher \<Rightarrow> quic_dispatcher \<times> nat" where
  "flush_output env d =
     (let rs = map (\<lambda>(k, c). (k, on_timer (fst (env k)) (snd (env k)) c)) (qd_connections d)
      in (d\<lparr>qd_connections := map (\<lambda>(k, c, ps). (k, c)) rs\<rparr>, sum_list (map (\<lambda>(k, c, ps). length ps) rs)))"


section \<open>Identifiers as keys\<close>

definition cid_key :: "quic_cid \<Rightarrow> nat \<times> bytes" where
  "cid_key c = (cid_len c, take (cid_len c) (cid_data c))"

lemma cid_eq_iff: "cid_eq a b \<longleftrightarrow> cid_key a = cid_key b"
  by (auto simp: cid_eq_def cid_key_def)

text \<open>The hash respects the equality, which looks only at the bytes in use; the map of connections relies on it.\<close>

lemma cid_hash_respects: "cid_eq a b \<Longrightarrow> cid_hash a = cid_hash b"
  by (auto simp: cid_eq_iff cid_hash_def cid_key_def)

lemma cid_lookup_update: "cid_lookup k (cid_update k' v m) = (if cid_eq k' k then Some v else cid_lookup k m)"
  by (induction m) (auto simp: cid_eq_iff)

section \<open>Streams do not interfere\<close>

fun cb_stream :: "h3_callback \<Rightarrow> int" where
  "cb_stream (Recv_header sid h) = sid"
| "cb_stream (End_headers sid) = sid"
| "cb_stream (Recv_data sid d) = sid"
| "cb_stream (End_stream sid) = sid"

text \<open>What one stream sees of a connection.\<close>

definition stream_view :: "int \<Rightarrow> h3_connection \<Rightarrow> bool \<times> stream_context option \<times> h3_submission list" where
  "stream_view sid c = (h3_http c, map_of (h3_streams c) sid, filter (\<lambda>s. sub_stream s = sid) (h3_submitted c))"

lemmas h3_callback_defs = on_h3_recv_header_def on_h3_end_headers_def on_h3_recv_data_def on_h3_end_stream_def
  update_stream_def h3_send_response_def

lemma callback_other_stream: "cb_stream cb \<noteq> sid \<Longrightarrow> stream_view sid (h3_callback_run handler cb c) = stream_view sid c"
  by (cases cb) (auto simp: stream_view_def h3_callback_defs split: option.splits)

lemma callback_same_view:
  "cb_stream cb = sid \<Longrightarrow> stream_view sid c = stream_view sid c'
    \<Longrightarrow> stream_view sid (h3_callback_run handler cb c) = stream_view sid (h3_callback_run handler cb c')"
  by (cases cb) (auto simp: stream_view_def h3_callback_defs split: option.splits)

lemma callbacks_of_stream:
  assumes "stream_view sid c = stream_view sid c'"
  shows "stream_view sid (fold (h3_callback_run handler) cbs c)
    = stream_view sid (fold (h3_callback_run handler) (filter (\<lambda>cb. cb_stream cb = sid) cbs) c')"
  using assms
proof (induction cbs arbitrary: c c')
  case (Cons cb cbs)
  show ?case
  proof (cases "cb_stream cb = sid")
    case True
    then show ?thesis
      using Cons.IH [OF callback_same_view [OF True Cons.prems]] by simp
  next
    case False
    have "stream_view sid (h3_callback_run handler cb c) = stream_view sid c'"
      using callback_other_stream [OF False] Cons.prems by simp
    from Cons.IH [OF this] False show ?thesis
      by simp
  qed
qed simp

definition h3_request :: "(bytes \<times> bytes) list \<Rightarrow> bytes list \<Rightarrow> http_request" where
  "h3_request hs ds = (fold h3_apply_header hs empty_request)\<lparr>version := lit ''HTTP/3'', req_body := concat ds\<rparr>"

lemma headers_received:
  "map_of (h3_streams c) sid = Some sc \<Longrightarrow>
    map_of (h3_streams (fold (\<lambda>h. on_h3_recv_header sid h) hs c)) sid = Some (sc\<lparr>sc_request := fold h3_apply_header hs (sc_request sc)\<rparr>)
    \<and> h3_http (fold (\<lambda>h. on_h3_recv_header sid h) hs c) = h3_http c
    \<and> h3_submitted (fold (\<lambda>h. on_h3_recv_header sid h) hs c) = h3_submitted c"
proof (induction hs arbitrary: c sc)
  case (Cons h hs)
  then show ?case
    using Cons.IH [of "on_h3_recv_header sid h c" "sc\<lparr>sc_request := h3_apply_header h (sc_request sc)\<rparr>"]
    by (simp add: on_h3_recv_header_def update_stream_def)
qed simp

lemma data_received:
  "map_of (h3_streams c) sid = Some sc \<Longrightarrow>
    map_of (h3_streams (fold (\<lambda>d. on_h3_recv_data sid d) ds c)) sid
      = Some (sc\<lparr>sc_request := (sc_request sc)\<lparr>req_body := req_body (sc_request sc) @ concat ds\<rparr>\<rparr>)
    \<and> h3_http (fold (\<lambda>d. on_h3_recv_data sid d) ds c) = h3_http c
    \<and> h3_submitted (fold (\<lambda>d. on_h3_recv_data sid d) ds c) = h3_submitted c"
proof (induction ds arbitrary: c sc)
  case (Cons d ds)
  then show ?case
    using Cons.IH [of "on_h3_recv_data sid d c" "sc\<lparr>sc_request := (sc_request sc)\<lparr>req_body := req_body (sc_request sc) @ d\<rparr>\<rparr>"]
    by (simp add: on_h3_recv_data_def update_stream_def)
qed simp

lemma h3_apply_header_body: "req_body (fold h3_apply_header hs r) = req_body r"
  by (induction hs arbitrary: r) (auto simp: h3_apply_header_def Let_def split: option.splits)

text \<open>
  On a connection with an HTTP/3 session (which no code creates yet): however the callbacks of its streams are interleaved, the handler gets for each stream
  the request that its header fields and data make up, once, and its response is submitted on that stream.
\<close>

theorem h3_request_served:
  assumes "h3_http c" and "map_of (h3_streams c) sid = Some \<lparr>sc_request = empty_request, sc_headers_complete = False, sc_data_complete = False\<rparr>"
    and "filter (\<lambda>cb. cb_stream cb = sid) cbs
       = map (Recv_header sid) hs @ End_headers sid # map (Recv_data sid) ds @ [End_stream sid]"
    and "resp = handler (h3_request hs ds)"
  shows "filter (\<lambda>s. sub_stream s = sid) (h3_submitted (fold (h3_callback_run handler) cbs c))
    = filter (\<lambda>s. sub_stream s = sid) (h3_submitted c)
      @ [\<lparr>sub_stream = sid, sub_headers = h3_header_data resp, sub_body = (if resp_body resp = [] then None else Some (resp_body resp))\<rparr>]"
proof -
  define c1 where "c1 = fold (\<lambda>h. on_h3_recv_header sid h) hs c"
  define c2 where "c2 = on_h3_end_headers sid c1"
  define c3 where "c3 = fold (\<lambda>d. on_h3_recv_data sid d) ds c2"
  have run: "fold (h3_callback_run handler) (map (Recv_header sid) hs @ End_headers sid # map (Recv_data sid) ds @ [End_stream sid]) c
      = on_h3_end_stream handler sid c3"
  proof -
    have "h3_callback_run handler \<circ> Recv_header sid = on_h3_recv_header sid" "h3_callback_run handler \<circ> Recv_data sid = on_h3_recv_data sid"
      by (simp_all add: fun_eq_iff)
    then show ?thesis
      by (simp add: c1_def c2_def c3_def fold_map)
  qed
  let ?r = "fold h3_apply_header hs empty_request"
  have 1: "map_of (h3_streams c1) sid = Some \<lparr>sc_request = ?r, sc_headers_complete = False, sc_data_complete = False\<rparr>"
    "h3_http c1" "h3_submitted c1 = h3_submitted c"
    using headers_received [OF assms(2), of hs] assms(1) by (simp_all add: c1_def)
  then have 2: "map_of (h3_streams c2) sid = Some \<lparr>sc_request = ?r\<lparr>version := lit ''HTTP/3''\<rparr>, sc_headers_complete = True, sc_data_complete = False\<rparr>"
    "h3_http c2" "h3_submitted c2 = h3_submitted c"
    by (simp_all add: c2_def on_h3_end_headers_def update_stream_def)
  have 3: "map_of (h3_streams c3) sid = Some \<lparr>sc_request = h3_request hs ds, sc_headers_complete = True, sc_data_complete = False\<rparr>"
    "h3_http c3" "h3_submitted c3 = h3_submitted c"
    using data_received [OF 2(1), of ds] 2 by (simp_all add: c3_def h3_request_def h3_apply_header_body empty_request_def)
  have "snd (snd (stream_view sid (fold (h3_callback_run handler) cbs c))) = snd (snd (stream_view sid (on_h3_end_stream handler sid c3)))"
    using callbacks_of_stream [OF refl, of sid handler cbs c] assms(3) run by simp
  then show ?thesis
    using 3 assms(4) by (simp add: stream_view_def on_h3_end_stream_def update_stream_def h3_send_response_def)
qed

section \<open>The same request as over HTTP/2\<close>

text \<open>Header fields with the four pseudo-header names that both front ends know, or with an ordinary name.\<close>

definition known_field :: "bytes \<times> bytes \<Rightarrow> bool" where
  "known_field h \<longleftrightarrow> fst h \<in> set (map lit ['':method'', '':path'', '':scheme'', '':authority'']) \<or> fst h \<noteq> [] \<and> hd (fst h) \<noteq> 58"

lemma pseudo_names:
  "lit '':path'' \<noteq> lit '':method''" "lit '':scheme'' \<noteq> lit '':method''" "lit '':authority'' \<noteq> lit '':method''"
  "lit '':scheme'' \<noteq> lit '':path''" "lit '':authority'' \<noteq> lit '':path''" "lit '':authority'' \<noteq> lit '':scheme''"
  by (simp_all add: lit_def)

lemma h3_apply_known:
  assumes "known_field h"
  shows "h3_apply_header h (r\<lparr>req_method := m\<rparr>)
    = (apply_header h r)\<lparr>req_method := (if fst h = lit '':method'' then h3_method (snd h) m else m)\<rparr>"
proof -
  consider "fst h = lit '':method''" | "fst h = lit '':path''" | "fst h = lit '':scheme''" | "fst h = lit '':authority''"
    | "fst h \<noteq> []" "hd (fst h) \<noteq> 58"
    using assms by (auto simp: known_field_def)
  then show ?thesis
  proof cases
    case 5
    then have "fst h \<noteq> lit '':method''" "fst h \<noteq> lit '':path''" "fst h \<noteq> lit '':scheme''" "fst h \<noteq> lit '':authority''"
      by (auto simp: lit_def)
    with 5 show ?thesis
      by (simp add: h3_apply_header_def apply_header_def)
  qed (simp_all add: h3_apply_header_def apply_header_def Let_def pseudo_names pseudo_names [symmetric] split: option.splits)
qed

lemma h3_apply_headers_known:
  "\<forall>h \<in> set hs. known_field h \<Longrightarrow> fold h3_apply_header hs (r\<lparr>req_method := m\<rparr>)
    = (fold apply_header hs r)\<lparr>req_method := fold (\<lambda>h m. if fst h = lit '':method'' then h3_method (snd h) m else m) hs m\<rparr>"
  by (induction hs arbitrary: r m) (simp_all add: h3_apply_known)


lemma no_method_fields:
  "\<forall>h \<in> set hs. fst h \<noteq> lit '':method'' \<Longrightarrow>
     fold (\<lambda>h m. if fst h = lit '':method'' then h3_method (snd h) m else m) hs m = m \<and> method_str (fold apply_header hs r) = method_str r"
proof (induction hs arbitrary: r)
  case (Cons h hs)
  have "method_str (apply_header h r) = method_str r"
    using Cons.prems by (auto simp: apply_header_def Let_def split: option.splits)
  then show ?case
    using Cons by simp
qed simp

text \<open>
  The request that the callbacks build from a list of header fields with one method other than PATCH is the request that
  HTTP/2 builds from the same list, apart from the version.
\<close>

theorem h3_request_as_h2:
  assumes "hs = hs1 @ (lit '':method'', m) # hs2" and "\<forall>h \<in> set (hs1 @ hs2). known_field h \<and> fst h \<noteq> lit '':method''"
    and "m \<noteq> lit ''PATCH''"
  shows "h3_request hs ds = (build_request hs empty_request)\<lparr>version := lit ''HTTP/3'', req_body := concat ds\<rparr>"
proof -
  have known: "\<forall>h \<in> set hs. known_field h"
    using assms(1,2) by (auto simp: known_field_def)
  define r where "r = fold apply_header hs empty_request"
  define r1 where "r1 = apply_header (lit '':method'', m) (fold apply_header hs1 empty_request)"
  have "r = fold apply_header hs2 r1"
    by (simp add: r_def r1_def assms(1))
  moreover have "method_str r1 = m"
    by (simp add: r1_def apply_header_def)
  ultimately have m: "method_str r = m"
    using no_method_fields [of hs2 UNKNOWN r1] assms(2) by simp
  have "fold h3_apply_header hs empty_request = r\<lparr>req_method := h3_method m UNKNOWN\<rparr>"
    using h3_apply_headers_known [OF known, where r = empty_request and m = UNKNOWN] no_method_fields [of hs1 UNKNOWN] no_method_fields [of hs2 "h3_method m UNKNOWN"]
      assms(1,2) by (simp add: r_def empty_request_def)
  moreover have "h3_method m UNKNOWN = h2_method m"
    using assms(3) by (simp add: h3_method_def h2_method_def lit_def)
  ultimately show ?thesis
    by (simp add: h3_request_def build_request_def r_def [symmetric] m)
qed

section \<open>The headers of a response\<close>

lemma buffer_grows: "sv_buffer v \<le> sv_buffer (emplace_back x v)"
  by (simp add: emplace_back_def)

lemma add_headers_keep:
  "sv_buffer (hd_storage d) \<le> sv_buffer (hd_storage (fold h3_add_header hs d))
    \<and> (\<exists>nvs. hd_nvs (fold h3_add_header hs d) = hd_nvs d @ nvs)"
proof (induction hs arbitrary: d)
  case (Cons h hs)
  have "sv_buffer (hd_storage d) \<le> sv_buffer (hd_storage (h3_add_header h d))"
    using buffer_grows [of "hd_storage d" "fst h"] buffer_grows [of "emplace_back (fst h) (hd_storage d)" "snd h"]
    by (simp add: h3_add_header_def Let_def)
  moreover have "\<exists>nv. hd_nvs (h3_add_header h d) = hd_nvs d @ [nv]"
    by (simp add: h3_add_header_def Let_def)
  ultimately show ?case
    using Cons.IH [of "h3_add_header h d"] by auto
qed simp

text \<open>
  The pointer to the name of the first header of every response points into a buffer that has been freed before the
  response is submitted: adding the second header moves the strings.
\<close>

theorem h3_status_dangles:
  "\<exists>p n q m nvs. hd_nvs (h3_header_data resp) = (p, n, q, m) # nvs \<and> deref (hd_storage (h3_header_data resp)) p = None"
proof -
  obtain h hs where hs: "h3_response_headers resp = (lit '':status'', to_string (status_code resp)) # h # hs"
    unfolding h3_response_headers_def by (cases "resp_headers resp") auto
  let ?d0 = "\<lparr>hd_nvs = [], hd_storage = \<lparr>sv_items = [], sv_capacity = 0, sv_buffer = 0\<rparr>\<rparr>"
  define d1 where "d1 = h3_add_header (lit '':status'', to_string (status_code resp)) ?d0"
  have d1: "sv_capacity (hd_storage d1) = 2" "length (sv_items (hd_storage d1)) = 2" "sv_buffer (hd_storage d1) = 2"
    "\<exists>n q m. hd_nvs d1 = [(Inline 2 0, n, q, m)]"
    by (simp_all add: d1_def h3_add_header_def emplace_back_def data_ptr_def Let_def lit_def)
  define d2 where "d2 = h3_add_header h d1"
  have d2: "2 < sv_buffer (hd_storage d2)" "\<exists>nv. hd_nvs d2 = hd_nvs d1 @ [nv]"
    using d1(1-3) buffer_grows [of "emplace_back (fst h) (hd_storage d1)" "snd h"]
    by (simp_all add: d2_def h3_add_header_def Let_def emplace_back_def)
  have "h3_header_data resp = fold h3_add_header hs d2"
    by (simp add: h3_header_data_def hs d1_def d2_def)
  then show ?thesis
    using add_headers_keep [of d2 hs] d1(4) d2 by auto
qed


section \<open>The dispatcher over time\<close>

text \<open>What a server does with the dispatcher, in any order: packets, timers, maintenance.\<close>

inductive qd_step :: "(http_request \<Rightarrow> http_response) \<Rightarrow> quic_dispatcher \<Rightarrow> quic_dispatcher \<Rightarrow> bool" for handler where
  qd_packets: "process_packets handler gs d = (d', n, out) \<Longrightarrow> qd_step handler d d'"
| qd_flush: "flush_output env d = (d', n) \<Longrightarrow> qd_step handler d d'"
| qd_tick: "qd_step handler d (tick d)"

definition conn_keys :: "(quic_cid \<times> 'v) list \<Rightarrow> (nat \<times> bytes) list" where
  "conn_keys m = map (\<lambda>e. cid_key (fst e)) m"

definition qd_ok :: "quic_dispatcher \<Rightarrow> bool" where
  "qd_ok d \<longleftrightarrow> length (qd_connections d) \<le> qd_max_connections d \<and> distinct (conn_keys (qd_connections d))"

text \<open>No connection has a QUIC state, so none answers or ends.\<close>

definition qd_mute :: "quic_dispatcher \<Rightarrow> bool" where
  "qd_mute d \<longleftrightarrow> (\<forall>(k, c) \<in> set (qd_connections d). \<not> h3_quic c \<and> h3_alive c) \<and> qd_total_tx d = 0"

lemma conn_keys_simps [simp]: "conn_keys [] = []" "conn_keys ((a, v) # m) = cid_key a # conn_keys m"
  by (simp_all add: conn_keys_def)

lemma cid_update_keys: "conn_keys (cid_update k v m) = (if cid_key k \<in> set (conn_keys m) then conn_keys m else conn_keys m @ [cid_key k])"
  by (induction k v m rule: cid_update.induct) (auto simp: cid_eq_iff)

lemma cid_update_length: "length (cid_update k v m) = (if cid_key k \<in> set (conn_keys m) then length m else length m + 1)"
  by (induction k v m rule: cid_update.induct) (auto simp: cid_eq_iff)

lemma cid_update_entries: "(a, w) \<in> set (cid_update k v m) \<Longrightarrow> (a, w) \<in> set m \<or> w = v"
  by (induction k v m rule: cid_update.induct) (auto split: if_splits)

lemma cid_lookup_None: "cid_lookup k m = None \<longleftrightarrow> cid_key k \<notin> set (conn_keys m)"
  by (induction k m rule: cid_lookup.induct) (auto simp: cid_eq_iff)

lemma cid_lookup_Some: "cid_lookup k m = Some v \<Longrightarrow> \<exists>a. (a, v) \<in> set m \<and> cid_key a = cid_key k"
  by (induction k m rule: cid_lookup.induct) (auto simp: cid_eq_iff split: if_splits)

lemma packet_connection_cases:
  assumes "packet_connection g d = (d', oc)"
  obtains (found) c a where "d' = d" "oc = Some c" "(a, c) \<in> set (qd_connections d)" "cid_key (packet_dcid (dg_data g)) \<in> set (conn_keys (qd_connections d))"
    | (created) "length (qd_connections d) < qd_max_connections d" "oc = Some (h3_init (qd_transport_params d) (dg_random1 g) (dg_random2 g))"
        "d' = d\<lparr>qd_connections := cid_update (packet_dcid (dg_data g)) (h3_init (qd_transport_params d) (dg_random1 g) (dg_random2 g)) (qd_connections d)\<rparr>"
        "cid_key (packet_dcid (dg_data g)) \<notin> set (conn_keys (qd_connections d))"
    | (ignored) "d' = d" "oc = None"
proof (cases "find_connection (packet_dcid (dg_data g)) d")
  case None
  then have "cid_key (packet_dcid (dg_data g)) \<notin> set (conn_keys (qd_connections d))"
    by (simp add: find_connection_def cid_lookup_None)
  moreover have "packet_connection g d = (if long_header (dg_data g)
      then create_connection (dg_random1 g) (dg_random2 g) (packet_dcid (dg_data g)) d else (d, None))"
    using None by (simp add: packet_connection_def)
  ultimately show ?thesis
    using assms created ignored by (simp add: create_connection_def Let_def split: if_splits)
next
  case (Some c)
  then obtain a where a: "(a, c) \<in> set (qd_connections d)" "cid_key a = cid_key (packet_dcid (dg_data g))"
    unfolding find_connection_def using cid_lookup_Some [of _ _ c] by blast
  have "d' = d" "oc = Some c"
    using assms Some by (simp_all add: packet_connection_def)
  moreover have "cid_key (packet_dcid (dg_data g)) \<in> set (conn_keys (qd_connections d))"
    using a by (force simp: conn_keys_def)
  ultimately show ?thesis
    using found a(1) by blast
qed


lemma mute_connection: "\<not> h3_quic c \<Longrightarrow> process_input handler qe data c = (c, []) \<and> on_timer e ws c = (c, [])"
  by (simp add: process_input_def on_timer_def)

lemma process_packet_ok:
  assumes "process_packet handler g d = (d', out)" and "qd_ok d"
  shows "qd_ok d' \<and> qd_max_connections d' = qd_max_connections d \<and> set (conn_keys (qd_connections d)) \<subseteq> set (conn_keys (qd_connections d'))"
proof (cases "dg_data g = []")
  case True
  then show ?thesis
    using assms by (auto simp: process_packet_def qd_ok_def)
next
  case False
  define d0 where "d0 = d\<lparr>qd_total_rx := qd_total_rx d + 1\<rparr>"
  obtain d1 oc where p: "packet_connection g d0 = (d1, oc)"
    by (cases "packet_connection g d0")
  have d0: "qd_connections d0 = qd_connections d" "qd_max_connections d0 = qd_max_connections d" "qd_ok d0"
    using assms(2) by (simp_all add: d0_def qd_ok_def)
  have ok: "qd_ok d1 \<and> qd_max_connections d1 = qd_max_connections d \<and> set (conn_keys (qd_connections d)) \<subseteq> set (conn_keys (qd_connections d1))
    \<and> (oc \<noteq> None \<longrightarrow> cid_key (packet_dcid (dg_data g)) \<in> set (conn_keys (qd_connections d1)))"
    using p
  proof (cases rule: packet_connection_cases)
    case created
    then show ?thesis
      using d0 by (auto simp: qd_ok_def cid_update_keys cid_update_length)
  qed (use d0 in simp_all)
  show ?thesis
  proof (cases oc)
    case None
    then show ?thesis
      using assms(1) False p ok by (simp add: process_packet_def d0_def [symmetric])
  next
    case (Some c)
    obtain c' out' where "process_input handler (dg_effect g) (dg_data g) c = (c', out')"
      by (cases "process_input handler (dg_effect g) (dg_data g) c")
    then have "qd_connections d' = cid_update (packet_dcid (dg_data g)) c' (qd_connections d1)" "qd_max_connections d' = qd_max_connections d1"
      using assms(1) False p Some by (auto simp: process_packet_def d0_def [symmetric])
    then show ?thesis
      using ok Some by (auto simp: qd_ok_def cid_update_keys cid_update_length)
  qed
qed

lemma process_packet_mute:
  assumes "process_packet handler g d = (d', out)" and "qd_mute d"
  shows "qd_mute d' \<and> out = []"
proof (cases "dg_data g = []")
  case True
  then show ?thesis
    using assms by (auto simp: process_packet_def qd_mute_def)
next
  case False
  define d0 where "d0 = d\<lparr>qd_total_rx := qd_total_rx d + 1\<rparr>"
  obtain d1 oc where p: "packet_connection g d0 = (d1, oc)"
    by (cases "packet_connection g d0")
  have d0: "qd_mute d0"
    using assms(2) by (simp add: d0_def qd_mute_def)
  have init: "\<not> h3_quic (h3_init ps r1 r2)" "h3_alive (h3_init ps r1 r2)" for ps r1 r2
    by (simp_all add: h3_init_def)
  have m: "qd_mute d1 \<and> (\<forall>c. oc = Some c \<longrightarrow> \<not> h3_quic c \<and> h3_alive c)"
    using p
  proof (cases rule: packet_connection_cases)
    case (found c a)
    then show ?thesis
      using d0 by (auto simp: qd_mute_def)
  next
    case created
    then show ?thesis
      using d0 init by (auto simp: qd_mute_def dest!: cid_update_entries)
  qed (use d0 in simp)
  show ?thesis
  proof (cases oc)
    case None
    then show ?thesis
      using assms(1) False p m by (simp add: process_packet_def d0_def [symmetric])
  next
    case (Some c)
    then have "process_input handler (dg_effect g) (dg_data g) c = (c, [])"
      using m by (simp add: mute_connection)
    then have "d' = d1\<lparr>qd_connections := cid_update (packet_dcid (dg_data g)) c (qd_connections d1)\<rparr>" "out = []"
      using assms(1) False p Some by (auto simp: process_packet_def d0_def [symmetric])
    then show ?thesis
      using m Some by (auto simp: qd_mute_def dest!: cid_update_entries)
  qed
qed

lemma process_batch_ok:
  assumes "process_batch n handler gs d = (d', count, out)" and "qd_ok d"
  shows "qd_ok d' \<and> qd_max_connections d' = qd_max_connections d \<and> set (conn_keys (qd_connections d)) \<subseteq> set (conn_keys (qd_connections d'))"
    and "qd_mute d \<Longrightarrow> qd_mute d' \<and> out = []"
  using assms
proof (induction n handler gs d arbitrary: d' count out rule: process_batch.induct)
  case (3 i handler g gs d)
  obtain d1 o1 where p: "process_packet handler g d = (d1, o1)"
    by (cases "process_packet handler g d")
  obtain d2 n2 o2 where b: "process_batch i handler gs d1 = (d2, n2, o2)"
    by (cases "process_batch i handler gs d1")
  { case 1
    then show ?case
      using "3.IH"(1) [OF p [symmetric] refl b] process_packet_ok [OF p] p b by auto
  next
    case 2
    then show ?case
      using "3.IH"(2) [OF p [symmetric] refl _ b] process_packet_ok [OF p] process_packet_mute [OF p] p b by auto }
qed simp_all


lemma flush_mute:
  assumes "flush_output env d = (d', n)"
  shows "qd_ok d \<Longrightarrow> qd_ok d'" and "qd_max_connections d' = qd_max_connections d" and "qd_mute d \<Longrightarrow> d' = d"
    and "qd_total_tx d' = qd_total_tx d"
proof -
  have d': "d' = d\<lparr>qd_connections := map (\<lambda>(k, c, ps). (k, c)) (map (\<lambda>(k, c). (k, on_timer (fst (env k)) (snd (env k)) c)) (qd_connections d))\<rparr>"
    using assms by (simp add: flush_output_def Let_def)
  show "qd_max_connections d' = qd_max_connections d" "qd_total_tx d' = qd_total_tx d"
    by (simp_all add: d')
  have "conn_keys (qd_connections d') = conn_keys (qd_connections d)" "length (qd_connections d') = length (qd_connections d)"
    by (simp_all add: d' conn_keys_def comp_def case_prod_unfold)
  then show "qd_ok d \<Longrightarrow> qd_ok d'"
    using \<open>qd_max_connections d' = qd_max_connections d\<close> by (simp add: qd_ok_def)
  assume "qd_mute d"
  then have "map (\<lambda>(k, c, ps). (k, c)) (map (\<lambda>(k, c). (k, on_timer (fst (env k)) (snd (env k)) c)) (qd_connections d)) = qd_connections d"
    by (auto simp: qd_mute_def mute_connection intro!: map_idI)
  then show "d' = d"
    by (simp add: d')
qed

lemma tick_ok: "qd_ok d \<Longrightarrow> qd_ok (tick d)"
  by (auto simp: tick_def cleanup_idle_def qd_ok_def conn_keys_def distinct_map filter_map
      intro: le_trans [OF length_filter_le] inj_on_subset)

lemma tick_mute: "qd_mute d \<Longrightarrow> tick d = d"
proof -
  assume "qd_mute d"
  then have "filter (\<lambda>(a, c). h3_alive c) (qd_connections d) = qd_connections d"
    by (auto simp: qd_mute_def filter_id_conv)
  then show ?thesis
    by (simp add: tick_def cleanup_idle_def)
qed

lemma qd_step_ok:
  assumes "qd_step handler d d'" and "qd_ok d"
  shows "qd_ok d' \<and> qd_max_connections d' = qd_max_connections d"
    and "qd_mute d \<Longrightarrow> qd_mute d' \<and> set (conn_keys (qd_connections d)) \<subseteq> set (conn_keys (qd_connections d'))"
  using assms
proof (induction rule: qd_step.induct)
  case (qd_packets gs d d' n out)
  { case 1
    then show ?case
      using qd_packets process_batch_ok(1) [of 64 handler gs d] by (auto simp: process_packets_def split: if_splits)
  next
    case 2
    then show ?case
      using qd_packets process_batch_ok [of 64 handler gs d] by (auto simp: process_packets_def split: if_splits) }
next
  case (qd_flush env d d' n)
  { case 1
    then show ?case
      using flush_mute(1,2) [OF qd_flush] by simp
  next
    case 2
    then show ?case
      using flush_mute(3) [OF qd_flush] by simp }
next
  case (qd_tick d)
  { case 1
    then show ?case
      using tick_ok [of d] by (simp add: tick_def cleanup_idle_def)
  next
    case 2
    then show ?case
      using tick_mute [of d] by simp }
qed

lemma qd_create_ok: "qd_ok (qd_create m)" "qd_mute (qd_create m)" "qd_max_connections (qd_create m) = m"
  by (simp_all add: qd_create_def qd_ok_def qd_mute_def conn_keys_def)

lemma qd_init_ok: "qd_ok d \<Longrightarrow> qd_ok (fst (qd_init fd a b d))" "qd_mute d \<Longrightarrow> qd_mute (fst (qd_init fd a b d))"
  "qd_max_connections (fst (qd_init fd a b d)) = qd_max_connections d"
  by (simp_all add: qd_init_def qd_ok_def qd_mute_def)

lemma qd_reachable:
  assumes "(qd_step handler)\<^sup>*\<^sup>* d d'" and "qd_ok d" and "qd_mute d"
  shows "qd_ok d' \<and> qd_mute d' \<and> qd_max_connections d' = qd_max_connections d
    \<and> set (conn_keys (qd_connections d)) \<subseteq> set (conn_keys (qd_connections d'))"
  using assms
proof (induction rule: rtranclp_induct)
  case (step d1 d2)
  then show ?case
    using qd_step_ok [OF step.hyps(2)] by auto
qed simp

text \<open>
  Whatever datagrams arrive and in whatever order the dispatcher is run, it keeps within its limit and has one connection per
  identifier; and a datagram for the identifier of a connection goes to that connection.
\<close>

theorem dispatcher_routes:
  assumes "(qd_step handler)\<^sup>*\<^sup>* (fst (qd_init fd a b (qd_create m))) d"
  shows "length (qd_connections d) \<le> m \<and> distinct (conn_keys (qd_connections d))
    \<and> (\<forall>(k, c) \<in> set (qd_connections d). \<forall>k'. cid_eq k k' \<longrightarrow> find_connection k' d = Some c)"
proof -
  have d: "qd_ok d" "qd_max_connections d = m"
    using qd_reachable [OF assms] qd_create_ok qd_init_ok by simp_all
  have "cid_lookup k' m = Some c" if "(k, c) \<in> set m" "distinct (conn_keys m)" "cid_eq k k'" for k c k' and m :: "(quic_cid \<times> h3_connection) list"
    using that by (induction k' m rule: cid_lookup.induct) (auto simp: cid_eq_iff conn_keys_def image_iff)
  then show ?thesis
    using d by (auto simp: qd_ok_def find_connection_def)
qed

text \<open>
  No datagram is ever answered, and no connection is ever given up: once as many identifiers have been seen as there may be
  connections, the dispatcher turns everybody else away for good.
\<close>

theorem dispatcher_full_for_good:
  assumes "(qd_step handler)\<^sup>*\<^sup>* (fst (qd_init fd a b (qd_create m))) d" and "length (qd_connections d) = m"
    and "(qd_step handler)\<^sup>*\<^sup>* d d'"
  shows "qd_total_tx d' = 0 \<and> set (conn_keys (qd_connections d')) = set (conn_keys (qd_connections d))"
proof -
  have d: "qd_ok d" "qd_mute d" "qd_max_connections d = m"
    using qd_reachable [OF assms(1)] qd_create_ok qd_init_ok by simp_all
  from qd_reachable [OF assms(3) this(1,2)] d(3)
  have d': "qd_ok d'" "qd_mute d'" "qd_max_connections d' = m" "set (conn_keys (qd_connections d)) \<subseteq> set (conn_keys (qd_connections d'))"
    by auto
  have card: "card (set (conn_keys (qd_connections e))) = length (qd_connections e)" if "qd_ok e" for e
    using that distinct_card [of "conn_keys (qd_connections e)"] by (simp add: qd_ok_def conn_keys_def)
  have "card (set (conn_keys (qd_connections d'))) \<le> card (set (conn_keys (qd_connections d)))"
    using card [OF d(1)] card [OF d'(1)] d'(1,3) assms(2) by (simp add: qd_ok_def)
  then have "set (conn_keys (qd_connections d)) = set (conn_keys (qd_connections d'))"
    using d'(4) by (intro card_seteq) simp_all
  then show ?thesis
    using d'(2) by (simp add: qd_mute_def)
qed

section \<open>A small dispatcher\<close>

definition small_effect :: quic_effect where
  "small_effect = \<lparr>qe_callbacks = [], qe_result = Read_ok, qe_handshake = True, qe_writes = [Packet [1]]\<rparr>"

definition initial_datagram :: "byte \<Rightarrow> datagram" where
  "initial_datagram i = \<lparr>dg_data = [0xC0, 0, 0, 0, 1, 1, i, 0], dg_random1 = [], dg_random2 = [], dg_effect = small_effect\<rparr>"

definition small_dispatcher :: quic_dispatcher where
  "small_dispatcher = fst (qd_init 3 True True (qd_create 1))"

definition full_dispatcher :: quic_dispatcher where
  "full_dispatcher = fst (process_packets (\<lambda>r. make_error 404 []) [initial_datagram 7] small_dispatcher)"

lemma small_dispatcher_run:
  "(qd_step (\<lambda>r. make_error 404 []))\<^sup>*\<^sup>* (fst (qd_init 3 True True (qd_create 1))) full_dispatcher"
  using qd_packets [of "\<lambda>r. make_error 404 []" "[initial_datagram 7]" small_dispatcher full_dispatcher]
  by (intro r_into_rtranclp) (metis full_dispatcher_def small_dispatcher_def prod.collapse)

lemma full_dispatcher_connections: "qd_connections full_dispatcher = [(cid_of [7], h3_init default_transport_params [] [])]"
  by code_simp

theorem dispatcher_routes_witness:
  "find_connection (packet_dcid [0xC0, 0, 0, 0, 1, 1, 7, 0, 9]) full_dispatcher = Some (h3_init default_transport_params [] [])"
proof -
  have "cid_eq (cid_of [7]) (packet_dcid [0xC0, 0, 0, 0, 1, 1, 7, 0, 9])"
    by code_simp
  then show ?thesis
    using dispatcher_routes [OF small_dispatcher_run] full_dispatcher_connections by auto
qed

theorem dispatcher_full_for_good_witness:
  "set (conn_keys (qd_connections (fst (process_packets (\<lambda>r. make_error 404 []) [initial_datagram 8] full_dispatcher)))) = {(1, [7])}"
proof -
  have "(qd_step (\<lambda>r. make_error 404 []))\<^sup>*\<^sup>* full_dispatcher (fst (process_packets (\<lambda>r. make_error 404 []) [initial_datagram 8] full_dispatcher))"
    using qd_packets [of "\<lambda>r. make_error 404 []" "[initial_datagram 8]" full_dispatcher] by (intro r_into_rtranclp) (metis prod.collapse)
  then show ?thesis
    using dispatcher_full_for_good [OF small_dispatcher_run] full_dispatcher_connections by (simp add: conn_keys_def cid_key_def cid_of_def)
qed

definition open_connection :: h3_connection where
  "open_connection = on_stream_open 4 (on_stream_open 0 ((h3_init default_transport_params [] [])\<lparr>h3_quic := True, h3_http := True\<rparr>))"

theorem h3_request_served_witness:
  "map sub_body (filter (\<lambda>s. sub_stream s = 4) (h3_submitted (fold (h3_callback_run (\<lambda>r. (make_error 200 [])\<lparr>resp_body := req_body r\<rparr>))
     [Recv_header 4 (lit '':method'', lit ''POST''), Recv_header 0 (lit ''a'', lit ''b''), End_headers 4, Recv_data 4 (lit ''h''), End_stream 0,
      Recv_data 4 (lit ''i''), End_stream 4] open_connection))) = [Some (lit ''hi'')]"
proof -
  have c: "h3_http open_connection" "h3_submitted open_connection = []"
    "map_of (h3_streams open_connection) 4 = Some \<lparr>sc_request = empty_request, sc_headers_complete = False, sc_data_complete = False\<rparr>"
    by (simp_all add: open_connection_def on_stream_open_def h3_init_def)
  show ?thesis
    using h3_request_served [OF c(1,3), of "[Recv_header 4 (lit '':method'', lit ''POST''), Recv_header 0 (lit ''a'', lit ''b''), End_headers 4,
        Recv_data 4 (lit ''h''), End_stream 0, Recv_data 4 (lit ''i''), End_stream 4]" "[(lit '':method'', lit ''POST'')]" "[lit ''h'', lit ''i'']" _
        "\<lambda>r. (make_error 200 [])\<lparr>resp_body := req_body r\<rparr>", OF _ refl] c(2)
    by (simp add: h3_request_def lit_def)
qed

theorem h3_request_as_h2_witness:
  "req_method (h3_request [(lit '':method'', lit ''GET''), (lit '':path'', lit ''/a?b'')] []) = GET"
  using h3_request_as_h2 [of "[(lit '':method'', lit ''GET''), (lit '':path'', lit ''/a?b'')]" "[]" "lit ''GET''" "[(lit '':path'', lit ''/a?b'')]" "[]"]
  by (simp add: known_field_def lit_def build_request_def h2_method_def apply_header_def split: option.splits)

end
