(* ===== verification/Compression.thy ===== *)
theory Compression
  imports Runtime Complex_Main
begin

text \<open>
  Compression (\<open>src/src/compression.cpp\<close>): which content is compressed, the negotiation of the encoding, the calls of the Brotli and
  Zstandard libraries and the streaming compressor.  The libraries and \<open>std::stof\<close> are arguments of the
  definitions; qualities are real numbers, without the rounding of \<open>float\<close> and without \<open>NaN\<close>.

  Shown: the encoding that is chosen is one that the client listed, with the best quality and the server's preference among equals, and
  a printed list is read back; what was compressed is decompressed, if the library keeps its promise; the streaming
  compressor returns if every call of the library makes progress.  And where the code falls short: gzip is negotiated and not
  done, a streaming compressor without a library drops its input, and waits for ever when the library fails.
\<close>

section \<open>Content and encodings\<close>

datatype compression_algo = NONE | ZSTD | BROTLI | GZIP

definition encoding_name :: "compression_algo \<Rightarrow> bytes" where
  "encoding_name algo = (case algo of BROTLI \<Rightarrow> lit ''br'' | ZSTD \<Rightarrow> lit ''zstd'' | GZIP \<Rightarrow> lit ''gzip'' | NONE \<Rightarrow> [])"

definition BROTLI_FAST_QUALITY :: int where "BROTLI_FAST_QUALITY = 4"

definition ZSTD_FAST_LEVEL :: int where "ZSTD_FAST_LEVEL = 3"

definition compressible_types :: "bytes list" where
  "compressible_types = map lit [''application/json'', ''application/xml'', ''application/javascript'', ''application/x-javascript'',
     ''application/wasm'', ''image/svg+xml'', ''application/xhtml+xml'', ''application/rss+xml'', ''application/atom+xml'', ''font/ttf'',
     ''font/otf'', ''application/vnd.ms-fontobject'']"

definition should_compress :: "bytes \<Rightarrow> bool" where
  "should_compress content_type =
     (let mime = takeWhile (\<lambda>c. c \<noteq> 59) content_type in starts_with mime (lit ''text/'') \<or> mime \<in> set compressible_types)"

section \<open>Negotiation\<close>

definition trim_spaces :: "bytes \<Rightarrow> bytes" where
  "trim_spaces s = dropWhile (\<lambda>c. c = 32) (rev (dropWhile (\<lambda>c. c = 32) (rev s)))"

definition token_quality :: "(bytes \<Rightarrow> real option) \<Rightarrow> bytes \<Rightarrow> real" where
  "token_quality stof token =
     (case find_sub [59] token of
        None \<Rightarrow> 1
      | Some semi \<Rightarrow>
          (let qpart = drop (semi + 1) token
           in case find_sub [61] qpart of
                None \<Rightarrow> 1
              | Some eq \<Rightarrow>
                  (case stof (dropWhile (\<lambda>c. c = 32) (drop (eq + 1) qpart)) of None \<Rightarrow> 1 | Some q \<Rightarrow> q)))"

definition token_name :: "bytes \<Rightarrow> bytes" where
  "token_name token = trim_spaces (takeWhile (\<lambda>c. c \<noteq> 59) token)"

definition algo_of :: "bytes \<Rightarrow> compression_algo option" where
  "algo_of name =
     (if name = lit ''zstd'' then Some ZSTD else if name = lit ''br'' then Some BROTLI else if name = lit ''gzip'' then Some GZIP else None)"

definition token_encoding :: "(bytes \<Rightarrow> real option) \<Rightarrow> bytes \<Rightarrow> (compression_algo \<times> real) list" where
  "token_encoding stof token =
     (let q = token_quality stof token
      in if q \<le> 0 then [] else case algo_of (token_name token) of None \<Rightarrow> [] | Some a \<Rightarrow> [(a, q)])"

text \<open>The loop over the header, on the bytes that are left.\<close>

function supported_encodings :: "(bytes \<Rightarrow> real option) \<Rightarrow> bytes \<Rightarrow> (compression_algo \<times> real) list" where
  "supported_encodings stof s =
     (if s = [] then []
      else let t = dropWhile (\<lambda>c. c = 32) s; token = takeWhile (\<lambda>c. c \<noteq> 44) t
           in token_encoding stof token @ supported_encodings stof (tl (dropWhile (\<lambda>c. c \<noteq> 44) t)))"
  by pat_completeness auto
termination
proof (relation "measure (\<lambda>(f, s). length s)")
  fix s t token :: bytes and stof :: "bytes \<Rightarrow> real option"
  assume "s \<noteq> []" "t = dropWhile (\<lambda>c. c = 32) s"
  then have "length (dropWhile (\<lambda>c. c \<noteq> 44) t) \<le> length s" "0 < length s"
    using length_dropWhile_le [of "\<lambda>c. c \<noteq> 44" t] length_dropWhile_le [of "\<lambda>c. c = 32" s] by auto
  then have "length (dropWhile (\<lambda>c. c \<noteq> 44) t) - 1 < length s"
    by linarith
  then show "((stof, tl (dropWhile (\<lambda>c. c \<noteq> 44) t)), (stof, s)) \<in> measure (\<lambda>(f, s). length s)"
    by simp
qed simp

declare supported_encodings.simps [simp del]

definition algo_rank :: "compression_algo \<Rightarrow> nat" where
  "algo_rank a = (case a of NONE \<Rightarrow> 0 | ZSTD \<Rightarrow> 1 | BROTLI \<Rightarrow> 2 | GZIP \<Rightarrow> 3)"

definition encoding_before :: "compression_algo \<times> real \<Rightarrow> compression_algo \<times> real \<Rightarrow> bool" where
  "encoding_before a b = (if snd a \<noteq> snd b then snd b < snd a else algo_rank (fst a) < algo_rank (fst b))"

text \<open>\<open>std::sort\<close> with that comparison; entries that it does not tell apart are equal, so the order is determined.\<close>

fun insert_encoding :: "compression_algo \<times> real \<Rightarrow> (compression_algo \<times> real) list \<Rightarrow> (compression_algo \<times> real) list" where
  "insert_encoding e [] = [e]"
| "insert_encoding e (x # xs) = (if encoding_before e x then e # x # xs else x # insert_encoding e xs)"

definition sort_encodings :: "(compression_algo \<times> real) list \<Rightarrow> (compression_algo \<times> real) list" where
  "sort_encodings es = foldr insert_encoding es []"

definition negotiate :: "(bytes \<Rightarrow> real option) \<Rightarrow> bytes \<Rightarrow> compression_algo" where
  "negotiate stof accept_encoding =
     (let supported = supported_encodings stof accept_encoding
      in if supported = [] then NONE else fst (hd (sort_encodings supported)))"

section \<open>The best of a list\<close>

lemma encoding_before_total: "encoding_before a b \<or> encoding_before b a \<or> a = b"
  by (cases a; cases b; cases "fst a"; cases "fst b") (auto simp: encoding_before_def algo_rank_def)

lemma encoding_before_trans: "\<not> encoding_before b a \<Longrightarrow> \<not> encoding_before c b \<Longrightarrow> \<not> encoding_before c a"
  by (auto simp: encoding_before_def split: if_splits)

lemma set_insert_encoding: "set (insert_encoding e xs) = insert e (set xs)"
  by (induction xs) auto

lemma insert_encoding_best:
  "sorted_wrt (\<lambda>a b. \<not> encoding_before b a) xs \<Longrightarrow> sorted_wrt (\<lambda>a b. \<not> encoding_before b a) (insert_encoding e xs)"
proof (induction xs)
  case (Cons x xs)
  show ?case
  proof (cases "encoding_before e x")
    case True
    then have "\<not> encoding_before x e"
      by (auto simp: encoding_before_def split: if_splits)
    then show ?thesis
      using Cons.prems True encoding_before_trans [of x e] by auto
  next
    case False
    then show ?thesis
      using Cons by (auto simp: set_insert_encoding)
  qed
qed simp

lemma sort_encodings_sorted:
  "sorted_wrt (\<lambda>a b. \<not> encoding_before b a) (sort_encodings es)" "set (sort_encodings es) = set es"
  unfolding sort_encodings_def by (induction es) (simp_all add: insert_encoding_best set_insert_encoding)

lemma sort_encodings_hd:
  assumes "es \<noteq> []"
  shows "hd (sort_encodings es) \<in> set es" and "e \<in> set es \<Longrightarrow> \<not> encoding_before e (hd (sort_encodings es))"
proof -
  obtain x xs where x: "sort_encodings es = x # xs"
    using assms sort_encodings_sorted(2) [of es] by (cases "sort_encodings es") auto
  then show "hd (sort_encodings es) \<in> set es"
    using sort_encodings_sorted(2) [of es] by auto
  assume "e \<in> set es"
  then have "e = x \<or> e \<in> set xs"
    using sort_encodings_sorted(2) [of es] x by auto
  then show "\<not> encoding_before e (hd (sort_encodings es))"
    using sort_encodings_sorted(1) [of es] x by (auto simp: encoding_before_def)
qed

text \<open>The choice: an entry of the list, and every other entry has a lower quality, or the same and no lower number of its algorithm.\<close>

lemma negotiate_choice:
  assumes "supported_encodings stof s \<noteq> []"
  shows "\<exists>q. (negotiate stof s, q) \<in> set (supported_encodings stof s)
     \<and> (\<forall>(a, q') \<in> set (supported_encodings stof s). q' < q \<or> q' = q \<and> algo_rank (negotiate stof s) \<le> algo_rank a)"
proof -
  define h where "h = hd (sort_encodings (supported_encodings stof s))"
  have n: "negotiate stof s = fst h"
    using assms by (simp add: negotiate_def h_def)
  show ?thesis
    using sort_encodings_hd [OF assms] unfolding n h_def [symmetric]
    by (intro exI [of _ "snd h"]) (fastforce simp: encoding_before_def split: if_splits)
qed

section \<open>Printed lists are read back\<close>

definition print_encoding :: "bytes \<times> bytes option \<Rightarrow> bytes" where
  "print_encoding e = fst e @ (case snd e of None \<Rightarrow> [] | Some t \<Rightarrow> lit '';q='' @ t)"

fun print_encodings :: "(bytes \<times> bytes option) list \<Rightarrow> bytes" where
  "print_encodings [] = []"
| "print_encodings [e] = print_encoding e"
| "print_encodings (e # es) = print_encoding e @ lit '', '' @ print_encodings es"

definition encoding_plain :: "bytes \<times> bytes option \<Rightarrow> bool" where
  "encoding_plain e \<longleftrightarrow> fst e \<noteq> [] \<and> set (fst e) \<inter> {32, 44, 59} = {}
     \<and> (case snd e of None \<Rightarrow> True | Some t \<Rightarrow> 44 \<notin> set t \<and> t \<noteq> [] \<and> hd t \<noteq> 32)"

definition listed :: "(bytes \<Rightarrow> real option) \<Rightarrow> bytes \<times> bytes option \<Rightarrow> (compression_algo \<times> real) list" where
  "listed stof e =
     (let q = (case snd e of None \<Rightarrow> 1 | Some t \<Rightarrow> (case stof t of None \<Rightarrow> 1 | Some q \<Rightarrow> q))
      in if q \<le> 0 then [] else case algo_of (fst e) of None \<Rightarrow> [] | Some a \<Rightarrow> [(a, q)])"

lemma dropWhile_id: "s = [] \<or> \<not> P (hd s) \<Longrightarrow> dropWhile P s = s"
  by (cases s) auto

lemma token_printed:
  assumes "encoding_plain e"
  shows "token_encoding stof (print_encoding e) = listed stof e" and "44 \<notin> set (print_encoding e)"
    and "print_encoding e \<noteq> []" and "hd (print_encoding e) \<noteq> 32"
proof -
  obtain n qt where e: "e = (n, qt)"
    by (cases e)
  have n: "n \<noteq> []" "32 \<notin> set n" "44 \<notin> set n" "59 \<notin> set n" "hd n \<noteq> 32" "last n \<noteq> 32"
    using assms hd_in_set [of n] last_in_set [of n] by (auto simp: encoding_plain_def e simp del: hd_in_set last_in_set)
  then show "44 \<notin> set (print_encoding e)" "print_encoding e \<noteq> []" "hd (print_encoding e) \<noteq> 32"
    using assms by (auto simp: encoding_plain_def print_encoding_def e lit_def split: option.splits)
  have trim: "trim_spaces n = n"
  proof -
    have "dropWhile (\<lambda>c. c = 32) n = n" "dropWhile (\<lambda>c. c = 32) (rev n) = rev n"
      using n by (auto intro!: dropWhile_id simp: hd_rev)
    then show ?thesis
      by (simp add: trim_spaces_def)
  qed
  have "takeWhile (\<lambda>c. c \<noteq> 59) (print_encoding e) = n"
    using n(4) by (cases qt) (auto simp: print_encoding_def e lit_def takeWhile_append)
  then have name: "token_name (print_encoding e) = n"
    by (simp add: token_name_def trim)
  have "token_quality stof (print_encoding e) = (case qt of None \<Rightarrow> 1 | Some t \<Rightarrow> (case stof t of None \<Rightarrow> 1 | Some q \<Rightarrow> q))"
  proof (cases qt)
    case None
    then show ?thesis
      using n(4) find_sub_single_None [of 59 n] by (simp add: token_quality_def print_encoding_def e)
  next
    case (Some t)
    have "find_sub [59] (print_encoding e) = Some (length n)" "drop (length n + 1) (print_encoding e) = [113, 61] @ t"
      using n(4) find_sub_single_append [of 59 n] by (simp_all add: print_encoding_def e Some lit_def)
    moreover have "find_sub [61] ([113, 61] @ t) = Some 1"
      using find_sub_single_append [of 61 "[113]" t] by simp
    moreover have "dropWhile (\<lambda>c. c = 32) t = t"
      using assms by (intro dropWhile_id) (auto simp: encoding_plain_def e Some)
    ultimately show ?thesis
      by (simp add: token_quality_def Some)
  qed
  with name show "token_encoding stof (print_encoding e) = listed stof e"
    by (simp add: token_encoding_def listed_def e Let_def)
qed

text \<open>A list of encodings with their qualities is read back, entry by entry.\<close>

theorem accept_encoding_read:
  assumes "\<forall>e \<in> set es. encoding_plain e"
  shows "supported_encodings stof (print_encodings es) = concat (map (listed stof) es)"
  using assms
proof (induction es rule: print_encodings.induct)
  case (2 e)
  note t = token_printed(1) [of e stof] token_printed(2-4) [of e]
  have tw: "takeWhile (\<lambda>c. c \<noteq> 44) (print_encoding e) = print_encoding e" "dropWhile (\<lambda>c. c \<noteq> 44) (print_encoding e) = []"
    using t(2) "2.prems" by (auto simp: takeWhile_eq_all_conv)
  have dw: "dropWhile (\<lambda>c. c = 32) (print_encoding e) = print_encoding e"
    using t(4) "2.prems" by (intro dropWhile_id) simp
  have "supported_encodings stof (print_encoding e) = token_encoding stof (print_encoding e) @ supported_encodings stof []"
    using t(3) "2.prems" by (subst supported_encodings.simps) (simp add: Let_def tw dw)
  then show ?case
    using t(1) "2.prems" by (simp add: supported_encodings.simps [of stof "[]"])
next
  case (3 e f es)
  note t = token_printed(1) [of e stof] token_printed(2-4) [of e]
  let ?rest = "print_encodings (f # es)"
  let ?s = "print_encoding e @ 44 # 32 # ?rest"
  have ne: "?rest \<noteq> []" "hd ?rest \<noteq> 32"
    using token_printed(3,4) [of f] "3.prems" by (cases es; simp)+
  have "dropWhile (\<lambda>c. c = 32) ?s = ?s"
    using t(3,4) "3.prems" by (intro dropWhile_id) simp
  moreover have "takeWhile (\<lambda>c. c \<noteq> 44) ?s = print_encoding e" "dropWhile (\<lambda>c. c \<noteq> 44) ?s = 44 # 32 # ?rest"
    using t(2) "3.prems" by (auto simp: takeWhile_append dropWhile_append)
  ultimately have "supported_encodings stof ?s = listed stof e @ supported_encodings stof (32 # ?rest)"
    using t "3.prems" by (simp add: supported_encodings.simps [of stof ?s] Let_def)
  moreover have "supported_encodings stof (32 # ?rest) = supported_encodings stof ?rest"
    using ne dropWhile_id [of ?rest "\<lambda>c. c = 32"] by (simp add: supported_encodings.simps [of stof "32 # ?rest"] supported_encodings.simps [of stof ?rest])
  ultimately show ?case
    using "3.IH" "3.prems" by (simp add: lit_def)
qed (simp add: supported_encodings.simps)

text \<open>The qualities that a list of encodings gives to the one with a name: those that are positive, and one where none is written or what is written is no number.\<close>

definition offers :: "(bytes \<Rightarrow> real option) \<Rightarrow> (bytes \<times> bytes option) list \<Rightarrow> string \<Rightarrow> real set" where
  "offers stof es name =
     {q. 0 < q \<and> (\<exists>e \<in> set es. fst e = lit name \<and> q = (case snd e of None \<Rightarrow> 1 | Some t \<Rightarrow> (case stof t of None \<Rightarrow> 1 | Some q \<Rightarrow> q)))}"

lemma listed_offers:
  "(a, q) \<in> set (concat (map (listed stof) es)) \<longleftrightarrow>
     (case a of ZSTD \<Rightarrow> q \<in> offers stof es ''zstd'' | BROTLI \<Rightarrow> q \<in> offers stof es ''br''
      | GZIP \<Rightarrow> q \<in> offers stof es ''gzip'' | NONE \<Rightarrow> False)"
proof -
  have "(a, q) \<in> set (listed stof e) \<longleftrightarrow> 0 < q \<and> algo_of (fst e) = Some a
      \<and> q = (case snd e of None \<Rightarrow> 1 | Some t \<Rightarrow> (case stof t of None \<Rightarrow> 1 | Some q \<Rightarrow> q))" for e
    by (auto simp: listed_def Let_def split: option.splits)
  moreover have "algo_of n = Some a \<longleftrightarrow>
      (case a of ZSTD \<Rightarrow> n = lit ''zstd'' | BROTLI \<Rightarrow> n = lit ''br'' | GZIP \<Rightarrow> n = lit ''gzip'' | NONE \<Rightarrow> False)" for n
    by (cases a) (auto simp: algo_of_def lit_eq_iff)
  ultimately show ?thesis
    by (cases a) (auto simp: offers_def)
qed

text \<open>
  C37. What is chosen for a client that lists encodings with qualities: zstd if it is offered with a quality that neither br nor
  gzip exceeds, br if it is offered with one that zstd does not reach and gzip does not exceed, gzip if it is offered with
  one that neither of the others reaches, and none if none of the three is offered.
\<close>

theorem negotiate_best:
  assumes "\<forall>e \<in> set es. encoding_plain e"
  shows "(negotiate stof (print_encodings es) = ZSTD \<longleftrightarrow>
      (\<exists>q \<in> offers stof es ''zstd''. \<forall>q' \<in> offers stof es ''br'' \<union> offers stof es ''gzip''. q' \<le> q))
    \<and> (negotiate stof (print_encodings es) = BROTLI \<longleftrightarrow>
      (\<exists>q \<in> offers stof es ''br''. (\<forall>q' \<in> offers stof es ''zstd''. q' < q) \<and> (\<forall>q' \<in> offers stof es ''gzip''. q' \<le> q)))
    \<and> (negotiate stof (print_encodings es) = GZIP \<longleftrightarrow>
      (\<exists>q \<in> offers stof es ''gzip''. \<forall>q' \<in> offers stof es ''zstd'' \<union> offers stof es ''br''. q' < q))
    \<and> (negotiate stof (print_encodings es) = NONE \<longleftrightarrow>
      offers stof es ''zstd'' = {} \<and> offers stof es ''br'' = {} \<and> offers stof es ''gzip'' = {})"
proof -
  let ?n = "negotiate stof (print_encodings es)" and ?s = "supported_encodings stof (print_encodings es)"
  define Z where "Z = offers stof es ''zstd''"
  define B where "B = offers stof es ''br''"
  define G where "G = offers stof es ''gzip''"
  have mem: "(a, q) \<in> set ?s \<longleftrightarrow> (case a of ZSTD \<Rightarrow> q \<in> Z | BROTLI \<Rightarrow> q \<in> B | GZIP \<Rightarrow> q \<in> G | NONE \<Rightarrow> False)" for a q
    unfolding accept_encoding_read [OF assms] Z_def B_def G_def by (rule listed_offers)
  define zstd where "zstd \<longleftrightarrow> (\<exists>q\<in>Z. \<forall>q'\<in>B \<union> G. q' \<le> q)"
  define br where "br \<longleftrightarrow> (\<exists>q\<in>B. (\<forall>q'\<in>Z. q' < q) \<and> (\<forall>q'\<in>G. q' \<le> q))"
  define gzip where "gzip \<longleftrightarrow> (\<exists>q\<in>G. \<forall>q'\<in>Z \<union> B. q' < q)"
  have "(?n = ZSTD \<longleftrightarrow> (\<exists>q\<in>Z. \<forall>q'\<in>B \<union> G. q' \<le> q)) \<and> (?n = BROTLI \<longleftrightarrow> (\<exists>q\<in>B. (\<forall>q'\<in>Z. q' < q) \<and> (\<forall>q'\<in>G. q' \<le> q)))
    \<and> (?n = GZIP \<longleftrightarrow> (\<exists>q\<in>G. \<forall>q'\<in>Z \<union> B. q' < q)) \<and> (?n = NONE \<longleftrightarrow> Z = {} \<and> B = {} \<and> G = {})"
  proof (cases "?s = []")
    case True
    then have "?n = NONE" "Z = {}" "B = {}" "G = {}"
      using mem [of ZSTD] mem [of BROTLI] mem [of GZIP] by (auto simp: negotiate_def)
    then show ?thesis by simp
  next
    case False
    then obtain q where q: "(?n, q) \<in> set ?s" and best: "\<And>a q'. (a, q') \<in> set ?s \<Longrightarrow> q' < q \<or> q' = q \<and> algo_rank ?n \<le> algo_rank a"
      using negotiate_choice by fastforce
    have "\<forall>q'\<in>Z. q' < q \<or> q' = q \<and> algo_rank ?n \<le> 1" "\<forall>q'\<in>B. q' < q \<or> q' = q \<and> algo_rank ?n \<le> 2"
      "\<forall>q'\<in>G. q' < q \<or> q' = q \<and> algo_rank ?n \<le> 3"
      using best [of ZSTD] best [of BROTLI] best [of GZIP] mem by (auto simp: algo_rank_def)
    then have "case ?n of ZSTD \<Rightarrow> zstd | BROTLI \<Rightarrow> br | GZIP \<Rightarrow> gzip | NONE \<Rightarrow> False"
      using q unfolding mem zstd_def br_def gzip_def
      by (cases ?n) (auto simp: algo_rank_def less_imp_le intro!: bexI [of _ q])
    moreover have "\<not> (zstd \<and> br)" "\<not> (zstd \<and> gzip)" "\<not> (br \<and> gzip)" "zstd \<or> br \<or> gzip \<longrightarrow> \<not> (Z = {} \<and> B = {} \<and> G = {})"
      unfolding zstd_def br_def gzip_def by (meson UnI1 UnI2 linorder_not_less, meson UnI1 UnI2 linorder_not_less,
        meson UnI1 UnI2 linorder_not_less, blast)
    ultimately show ?thesis
      unfolding zstd_def [symmetric] br_def [symmetric] gzip_def [symmetric] by (cases ?n) auto
  qed
  then show ?thesis
    by (simp only: Z_def B_def G_def)
qed


section \<open>The libraries\<close>

text \<open>
  What the libraries offer: Brotli's one-shot encoder and its decoder (the whole output, or failure), and the same for
  Zstandard with the content size that a frame announces.
\<close>

datatype content_size = Size_unknown | Size_error | Size nat

record codecs =
  brotli_encode :: "int \<Rightarrow> bytes \<Rightarrow> bytes option"
  brotli_decode :: "bytes \<Rightarrow> bytes option"
  zstd_encode :: "int \<Rightarrow> bytes \<Rightarrow> bytes option"
  zstd_content_size :: "bytes \<Rightarrow> content_size"
  zstd_decode :: "bytes \<Rightarrow> bytes option"

definition brotli_compress :: "codecs \<Rightarrow> bytes \<Rightarrow> int \<Rightarrow> bytes" where
  "brotli_compress lib input quality =
     (let quality = (if quality < 0 then BROTLI_FAST_QUALITY else quality)
      in case brotli_encode lib quality input of None \<Rightarrow> input | Some out \<Rightarrow> out)"

text \<open>
  The loop around the decoder: it asks for more room until the output fits.  The room doubles, so from no room at all it never
  gets any; not returning is \<open>None\<close>.
\<close>

partial_function (option) grow_output :: "nat \<Rightarrow> nat \<Rightarrow> nat option" where
  "grow_output need room = (if need \<le> room then Some room else grow_output need (room * 2))"

definition brotli_decompress :: "codecs \<Rightarrow> bytes \<Rightarrow> bytes option option" where
  "brotli_decompress lib input =
     (case brotli_decode lib input of
        None \<Rightarrow> Some None
      | Some out \<Rightarrow> Option.bind (grow_output (length out) (length input * 4)) (\<lambda>room. Some (Some out)))"

definition zstd_compress :: "codecs \<Rightarrow> bytes \<Rightarrow> int \<Rightarrow> bytes" where
  "zstd_compress lib input level =
     (let level = (if level < 0 then ZSTD_FAST_LEVEL else level)
      in case zstd_encode lib level input of None \<Rightarrow> input | Some out \<Rightarrow> out)"

text \<open>\<open>ZSTD_decompress\<close> into a buffer: an error if the output does not fit.\<close>

definition zstd_into :: "codecs \<Rightarrow> nat \<Rightarrow> bytes \<Rightarrow> bytes option" where
  "zstd_into lib room input = (case zstd_decode lib input of None \<Rightarrow> None | Some out \<Rightarrow> if length out \<le> room then Some out else None)"

definition zstd_decompress :: "codecs \<Rightarrow> bytes \<Rightarrow> bytes option" where
  "zstd_decompress lib input =
     (case zstd_content_size lib input of
        Size_unknown \<Rightarrow> zstd_into lib (length input * 4) input
      | Size_error \<Rightarrow> None
      | Size n \<Rightarrow> zstd_into lib n input)"

definition compress :: "codecs \<Rightarrow> bytes \<Rightarrow> compression_algo \<Rightarrow> int \<Rightarrow> bytes" where
  "compress lib input algo quality =
     (case algo of
        BROTLI \<Rightarrow> brotli_compress lib input quality
      | ZSTD \<Rightarrow> zstd_compress lib input quality
      | GZIP \<Rightarrow> input
      | NONE \<Rightarrow> input)"

definition decompress :: "codecs \<Rightarrow> bytes \<Rightarrow> compression_algo \<Rightarrow> bytes option option" where
  "decompress lib input algo =
     (case algo of
        BROTLI \<Rightarrow> brotli_decompress lib input
      | ZSTD \<Rightarrow> Some (zstd_decompress lib input)
      | GZIP \<Rightarrow> Some (Some input)
      | NONE \<Rightarrow> Some (Some input))"

lemma grow_output_ends: "0 < room \<Longrightarrow> \<exists>r. grow_output need room = Some r \<and> need \<le> r"
proof (induction "need - room" arbitrary: room rule: less_induct)
  case less
  show ?case
  proof (cases "need \<le> room")
    case True
    then show ?thesis
      by (simp add: grow_output.simps [of need room])
  next
    case False
    then have "need - room * 2 < need - room"
      using less.prems by simp
    from less.hyps [OF this] less.prems False show ?thesis
      by (simp add: grow_output.simps [of need room])
  qed
qed

text \<open>
  What is compressed is decompressed again, for every algorithm and quality, if the libraries keep their promise: the encoder
  succeeds with some bytes, the decoder inverts it, and a frame made in one call announces its size.
\<close>

theorem compress_roundtrip:
  assumes "\<And>q x. \<exists>out. brotli_encode lib q x = Some out \<and> out \<noteq> [] \<and> brotli_decode lib out = Some x"
    and "\<And>l x. \<exists>out. zstd_encode lib l x = Some out \<and> zstd_decode lib out = Some x \<and> zstd_content_size lib out = Size (length x)"
  shows "decompress lib (compress lib input algo quality) algo = Some (Some input)"
proof (cases algo)
  case BROTLI
  obtain out where out: "brotli_encode lib (if quality < 0 then BROTLI_FAST_QUALITY else quality) input = Some out" "out \<noteq> []"
    "brotli_decode lib out = Some input"
    using assms(1) by blast
  moreover obtain r where "grow_output (length input) (length out * 4) = Some r"
    using grow_output_ends [of "length out * 4" "length input"] out(2) by auto
  ultimately show ?thesis
    using BROTLI by (simp add: compress_def decompress_def brotli_compress_def brotli_decompress_def)
next
  case ZSTD
  obtain out where "zstd_encode lib (if quality < 0 then ZSTD_FAST_LEVEL else quality) input = Some out" "zstd_decode lib out = Some input"
    "zstd_content_size lib out = Size (length input)"
    using assms(2) by blast
  then show ?thesis
    using ZSTD by (simp add: compress_def decompress_def zstd_compress_def zstd_decompress_def zstd_into_def)
qed (simp_all add: compress_def decompress_def)

text \<open>
  A client that accepts gzip and nothing else gets the body as it is under the name gzip.
\<close>

theorem gzip_not_compressed:
  "negotiate stof (lit ''gzip'') = GZIP \<and> encoding_name GZIP = lit ''gzip'' \<and> compress lib input GZIP quality = input"
proof -
  have "encoding_plain (lit ''gzip'', None)" "algo_of (lit ''gzip'') = Some GZIP"
    by (simp_all add: encoding_plain_def algo_of_def lit_def)
  then have "supported_encodings stof (lit ''gzip'') = [(GZIP, 1)]"
    using accept_encoding_read [of "[(lit ''gzip'', None)]" stof] by (simp add: print_encoding_def listed_def)
  then show ?thesis
    by (simp add: negotiate_def sort_encodings_def encoding_name_def compress_def)
qed

text \<open>A frame that does not announce its size and holds more than four times its own length is refused.\<close>

theorem zstd_unannounced_refused:
  assumes "zstd_content_size lib input = Size_unknown" and "zstd_decode lib input = Some out" and "length input * 4 < length out"
  shows "decompress lib input ZSTD = Some None"
  using assms by (simp add: decompress_def zstd_decompress_def zstd_into_def)


section \<open>The streaming compressor\<close>

text \<open>
  One call of a streaming encoder on the rest of the input gives a new state, the number of bytes it took and its output; one call that
  ends the stream gives the output and what remains to be flushed.
\<close>

record 'st stream_library =
  enc_create :: "compression_algo \<Rightarrow> int \<Rightarrow> 'st option"
  enc_process :: "'st \<Rightarrow> bytes \<Rightarrow> 'st \<times> nat \<times> bytes"
  enc_is_finished :: "'st \<Rightarrow> bool"
  enc_finish :: "'st \<Rightarrow> 'st \<times> nat \<times> bytes"

record 'st streaming_compressor =
  st_algo :: compression_algo
  st_ctx :: "'st option"

definition streaming_init :: "'st stream_library \<Rightarrow> compression_algo \<Rightarrow> int \<Rightarrow> 'st streaming_compressor" where
  "streaming_init lib algo quality =
     \<lparr>st_algo = algo,
      st_ctx = (case algo of
                  BROTLI \<Rightarrow> enc_create lib BROTLI (if quality < 0 then BROTLI_FAST_QUALITY else quality)
                | ZSTD \<Rightarrow> enc_create lib ZSTD (if quality < 0 then ZSTD_FAST_LEVEL else quality)
                | _ \<Rightarrow> None)\<rparr>"

partial_function (option) feed_loop :: "('st \<Rightarrow> bytes \<Rightarrow> 'st \<times> nat \<times> bytes) \<Rightarrow> 'st \<Rightarrow> bytes \<Rightarrow> bytes \<Rightarrow> ('st \<times> bytes) option" where
  "feed_loop call st input out =
     (if input = [] then Some (st, out)
      else feed_loop call (fst (call st input)) (drop (fst (snd (call st input))) input) (out @ snd (snd (call st input))))"

definition stream_feed :: "'st stream_library \<Rightarrow> bytes \<Rightarrow> 'st streaming_compressor \<Rightarrow> ('st streaming_compressor \<times> bytes) option" where
  "stream_feed lib input c =
     (case st_ctx c of
        None \<Rightarrow> Some (c, [])
      | Some st \<Rightarrow>
          if input = [] then Some (c, [])
          else if st_algo c = BROTLI \<or> st_algo c = ZSTD then
            Option.bind (feed_loop (enc_process lib) st input []) (\<lambda>(st, out). Some (c\<lparr>st_ctx := Some st\<rparr>, out))
          else Some (c, input))"

text \<open>Brotli asks whether it has finished before each call, Zstandard goes on while a call leaves something to flush.\<close>

partial_function (option) finish_brotli :: "('st \<Rightarrow> bool) \<Rightarrow> ('st \<Rightarrow> 'st \<times> nat \<times> bytes) \<Rightarrow> 'st \<Rightarrow> bytes \<Rightarrow> ('st \<times> bytes) option" where
  "finish_brotli finished call st out =
     (if finished st then Some (st, out) else finish_brotli finished call (fst (call st)) (out @ snd (snd (call st))))"

partial_function (option) finish_zstd :: "('st \<Rightarrow> 'st \<times> nat \<times> bytes) \<Rightarrow> 'st \<Rightarrow> bytes \<Rightarrow> ('st \<times> bytes) option" where
  "finish_zstd call st out =
     (if fst (snd (call st)) = 0 then Some (fst (call st), out @ snd (snd (call st)))
      else finish_zstd call (fst (call st)) (out @ snd (snd (call st))))"

definition stream_finish :: "'st stream_library \<Rightarrow> 'st streaming_compressor \<Rightarrow> ('st streaming_compressor \<times> bytes) option" where
  "stream_finish lib c =
     (case st_ctx c of
        None \<Rightarrow> Some (c, [])
      | Some st \<Rightarrow>
          (case st_algo c of
             BROTLI \<Rightarrow> Option.bind (finish_brotli (enc_is_finished lib) (enc_finish lib) st []) (\<lambda>(st, out). Some (c\<lparr>st_ctx := Some st\<rparr>, out))
           | ZSTD \<Rightarrow> Option.bind (finish_zstd (enc_finish lib) st []) (\<lambda>(st, out). Some (c\<lparr>st_ctx := Some st\<rparr>, out))
           | _ \<Rightarrow> Some (c, [])))"

lemma feed_loop_ends:
  assumes "\<And>st input. input \<noteq> [] \<Longrightarrow> 0 < fst (snd (call st input))"
  shows "\<exists>r. feed_loop call st input out = Some r"
proof (induction "length input" arbitrary: st input out rule: less_induct)
  case less
  show ?case
  proof (cases "input = []")
    case False
    then have "length (drop (fst (snd (call st input))) input) < length input"
      using assms [of input st] by simp
    from less.hyps [OF this] False show ?thesis
      by (simp add: feed_loop.simps [of call st input out])
  next
    case True
    then show ?thesis
      by (simp add: feed_loop.simps [of call st "[]" out])
  qed
qed

text \<open>Feeding returns, whatever is fed, if every call of the library takes at least one byte.\<close>

theorem stream_feed_returns:
  assumes "\<And>st input. input \<noteq> [] \<Longrightarrow> 0 < fst (snd (enc_process lib st input))"
  shows "\<exists>c' out. stream_feed lib input c = Some (c', out)"
proof (cases "st_ctx c")
  case (Some st)
  obtain st' out where "feed_loop (enc_process lib) st input [] = Some (st', out)"
    using feed_loop_ends [of "enc_process lib" st input "[]"] assms by auto
  then show ?thesis
    by (simp add: stream_feed_def Some)
qed (simp add: stream_feed_def)

text \<open>
  The results of the library are not checked: after a call that fails (it takes nothing and changes nothing) the loop calls it again, for
  ever.
\<close>

lemma feed_loop_stuck:
  assumes "feed_loop call st input out = Some r"
  shows "input \<noteq> [] \<longrightarrow> call st input \<noteq> (st, 0, [])"
  using assms
  by (induction rule: feed_loop.raw_induct [rotated 1, consumes 1]) (auto split: if_split_asm)

theorem stream_feed_hangs:
  assumes "st_ctx c = Some st" and "st_algo c = BROTLI \<or> st_algo c = ZSTD" and "input \<noteq> []" and "enc_process lib st input = (st, 0, [])"
  shows "stream_feed lib input c = None"
proof -
  have "feed_loop (enc_process lib) st input [] = None"
    using feed_loop_stuck [of "enc_process lib" st input "[]"] assms(3,4) by (cases "feed_loop (enc_process lib) st input []") auto
  then show ?thesis
    using assms(1-3) by (simp add: stream_feed_def)
qed

text \<open>A streaming compressor for gzip, or for no compression, gives nothing back of what it is fed.\<close>

theorem stream_without_library_drops:
  assumes "algo = GZIP \<or> algo = NONE" and "c = streaming_init lib algo quality"
  shows "stream_feed lib input c = Some (c, []) \<and> stream_finish lib c = Some (c, [])"
  using assms by (auto simp: streaming_init_def stream_feed_def stream_finish_def)


section \<open>Small examples\<close>

definition small_stof :: "bytes \<Rightarrow> real option" where
  "small_stof s = (if s = lit ''0.5'' then Some (1 / 2) else if s = lit ''0'' then Some 0 else None)"

theorem accept_encoding_read_witness:
  "supported_encodings small_stof (print_encodings [(lit ''br'', Some (lit ''0.5'')), (lit ''x'', None), (lit ''zstd'', Some (lit ''0'')), (lit ''gzip'', None)])
     = [(BROTLI, 1 / 2), (GZIP, 1)]"
proof -
  have "\<forall>e \<in> set [(lit ''br'', Some (lit ''0.5'')), (lit ''x'', None), (lit ''zstd'', Some (lit ''0'')), (lit ''gzip'', None)]. encoding_plain e"
    by (simp add: encoding_plain_def lit_def)
  from accept_encoding_read [OF this] show ?thesis
    by (simp add: listed_def small_stof_def algo_of_def lit_def)
qed

theorem negotiate_best_witness:
  "negotiate small_stof (print_encodings [(lit ''zstd'', Some (lit ''0.5'')), (lit ''gzip'', None), (lit ''br'', None)]) = BROTLI"
proof -
  let ?es = "[(lit ''zstd'', Some (lit ''0.5'')), (lit ''gzip'', None), (lit ''br'', None)]"
  have "\<forall>e \<in> set ?es. encoding_plain e"
    by (simp add: encoding_plain_def lit_def)
  from negotiate_best [OF this, of small_stof] show ?thesis
    by (auto simp: offers_def small_stof_def lit_eq_iff)
qed

text \<open>Codecs that put a byte in front of their input.\<close>

definition small_codecs :: codecs where
  "small_codecs =
     \<lparr>brotli_encode = (\<lambda>q x. Some (1 # x)), brotli_decode = (\<lambda>y. case y of [] \<Rightarrow> None | b # x \<Rightarrow> Some x),
      zstd_encode = (\<lambda>l x. Some (2 # x)),
      zstd_content_size = (\<lambda>y. if y = [3] then Size_unknown else Size (length y - 1)),
      zstd_decode = (\<lambda>y. if y = [3] then Some [0, 0, 0, 0, 0] else case y of [] \<Rightarrow> None | b # x \<Rightarrow> Some x)\<rparr>"

theorem compress_roundtrip_witness:
  "decompress small_codecs (compress small_codecs (lit ''hi'') BROTLI (-1)) BROTLI = Some (Some (lit ''hi''))"
  by (rule compress_roundtrip) (auto simp: small_codecs_def)

theorem zstd_unannounced_refused_witness: "decompress small_codecs [3] ZSTD = Some None"
  by (rule zstd_unannounced_refused [of _ _ "[0, 0, 0, 0, 0]"]) (simp_all add: small_codecs_def)

text \<open>A streaming library that copies one byte with each call, and one whose calls fail.\<close>

definition copying_library :: "unit stream_library" where
  "copying_library =
     \<lparr>enc_create = (\<lambda>a q. Some ()), enc_process = (\<lambda>st input. (st, 1, take 1 input)), enc_is_finished = (\<lambda>st. True),
      enc_finish = (\<lambda>st. (st, 0, []))\<rparr>"

theorem stream_feed_returns_witness:
  "\<exists>c out. stream_feed copying_library (lit ''hi'') (streaming_init copying_library BROTLI 5) = Some (c, out)"
  by (rule stream_feed_returns) (simp add: copying_library_def)

theorem stream_feed_hangs_witness:
  "stream_feed (copying_library\<lparr>enc_process := (\<lambda>st input. (st, 0, []))\<rparr>) (lit ''hi'') (streaming_init copying_library ZSTD 5) = None"
  by (rule stream_feed_hangs [where st = "()"]) (simp_all add: copying_library_def streaming_init_def lit_def)

theorem stream_without_library_drops_witness:
  "stream_feed copying_library (lit ''hi'') (streaming_init copying_library GZIP 5) = Some (streaming_init copying_library GZIP 5, [])"
  using stream_without_library_drops [of GZIP "streaming_init copying_library GZIP 5" copying_library 5 "lit ''hi''"] by simp

end
