(* ===== verification/Streams.thy ===== *)
theory Streams
  imports Prelude
begin

text \<open>
  The streams (\<open>src/include/stream.hpp\<close>, \<open>src/src/stream.cpp\<close>): the interface \<open>IStream\<close> with its loop that writes a
  whole buffer, and its implementations over TCP, TLS, a stream of HTTP/2 and (as a placeholder) of QUIC.  The results of
  the calls of the system and of OpenSSL are arguments; the calls that end something are recorded.

  Shown: what is fed into a stream of HTTP/2 is read in order, whatever the sizes of the reads, and all of it if the reader goes
  on (locale \<open>byte_queue\<close>); the descriptor of a TCP or TLS stream is closed once, also when the stream is moved; and a TLS write that
  would block makes the loop give up.
\<close>

section \<open>The interface\<close>

text \<open>The loop of \<open>write_all\<close>: a call takes what is left and returns how much of it was written.\<close>

function stream_write_all :: "('s \<Rightarrow> bytes \<Rightarrow> 's \<times> int) \<Rightarrow> 's \<Rightarrow> bytes \<Rightarrow> 's \<times> bool" where
  "stream_write_all wr s data =
     (if data = [] then (s, True)
      else if snd (wr s data) \<le> 0 then (fst (wr s data), False)
      else stream_write_all wr (fst (wr s data)) (drop (nat (snd (wr s data))) data))"
  by pat_completeness auto
termination
  by (relation "measure (\<lambda>(w, s, data). length data)") auto

declare stream_write_all.simps [simp del]

section \<open>TCP\<close>

datatype end_call = Close_fd int | Shutdown_fd int | SSL_shutdown_call | SSL_free_call

record tcp_stream =
  tcp_fd :: int
  tcp_peer_addr :: bytes

definition tcp_open :: "tcp_stream \<Rightarrow> bool" where
  "tcp_open s \<longleftrightarrow> 0 \<le> tcp_fd s"

text \<open>The result of \<open>recv\<close> or \<open>send\<close> is an argument.\<close>

definition tcp_read :: "int \<Rightarrow> tcp_stream \<Rightarrow> int" where
  "tcp_read result s = (if tcp_fd s < 0 then -1 else result)"

definition tcp_write :: "int \<Rightarrow> tcp_stream \<Rightarrow> int" where
  "tcp_write result s = (if tcp_fd s < 0 then -1 else result)"

definition tcp_shutdown :: "tcp_stream \<Rightarrow> tcp_stream \<times> end_call list" where
  "tcp_shutdown s = (s, if 0 \<le> tcp_fd s then [Shutdown_fd (tcp_fd s)] else [])"

definition tcp_close :: "tcp_stream \<Rightarrow> tcp_stream \<times> end_call list" where
  "tcp_close s = (if 0 \<le> tcp_fd s then (s\<lparr>tcp_fd := -1\<rparr>, [Close_fd (tcp_fd s)]) else (s, []))"

text \<open>The move constructor: the new stream and what is left of the old one.\<close>

definition tcp_move :: "tcp_stream \<Rightarrow> tcp_stream \<times> tcp_stream" where
  "tcp_move other = (other, other\<lparr>tcp_fd := -1\<rparr>)"

section \<open>TLS\<close>

record tls_stream =
  tls_ssl :: bool
  tls_fd :: int
  tls_peer_addr :: bytes

definition tls_open :: "tls_stream \<Rightarrow> bool" where
  "tls_open s \<longleftrightarrow> tls_ssl s"

text \<open>What \<open>SSL_read\<close> and \<open>SSL_write\<close> give: a number of bytes, or after \<open>SSL_get_error\<close> that they would block, or another failure.\<close>

datatype ssl_result = SSL_bytes int | SSL_want | SSL_failed

definition tls_read :: "ssl_result \<Rightarrow> tls_stream \<Rightarrow> int" where
  "tls_read r s = (if \<not> tls_ssl s then -1 else case r of SSL_bytes n \<Rightarrow> n | SSL_want \<Rightarrow> 0 | SSL_failed \<Rightarrow> -1)"

definition tls_write :: "ssl_result \<Rightarrow> tls_stream \<Rightarrow> int" where
  "tls_write r s = (if \<not> tls_ssl s then -1 else case r of SSL_bytes n \<Rightarrow> n | SSL_want \<Rightarrow> 0 | SSL_failed \<Rightarrow> -1)"

definition tls_shutdown :: "tls_stream \<Rightarrow> tls_stream \<times> end_call list" where
  "tls_shutdown s = (s, if tls_ssl s then [SSL_shutdown_call] else [])"

definition tls_close :: "tls_stream \<Rightarrow> tls_stream \<times> end_call list" where
  "tls_close s =
     (s\<lparr>tls_ssl := False, tls_fd := (if 0 \<le> tls_fd s then -1 else tls_fd s)\<rparr>,
      (if tls_ssl s then [SSL_shutdown_call, SSL_free_call] else []) @ (if 0 \<le> tls_fd s then [Close_fd (tls_fd s)] else []))"

section \<open>A stream of HTTP/2\<close>

record h2_virtual_stream =
  h2s_id :: u32
  h2s_write_fn :: "(u32 \<Rightarrow> bytes \<Rightarrow> bool) option"
  h2s_read_buffer :: bytes
  h2s_read_offset :: nat
  h2s_open :: bool

definition h2s_init :: "u32 \<Rightarrow> (u32 \<Rightarrow> bytes \<Rightarrow> bool) option \<Rightarrow> h2_virtual_stream" where
  "h2s_init sid fn = \<lparr>h2s_id = sid, h2s_write_fn = fn, h2s_read_buffer = [], h2s_read_offset = 0, h2s_open = True\<rparr>"

definition h2s_read :: "nat \<Rightarrow> h2_virtual_stream \<Rightarrow> h2_virtual_stream \<times> bytes" where
  "h2s_read max_bytes s =
     (if \<not> h2s_open s \<or> length (h2s_read_buffer s) \<le> h2s_read_offset s then (s, [])
      else let available = length (h2s_read_buffer s) - h2s_read_offset s;
               to_copy = (if max_bytes < available then max_bytes else available);
               offset = h2s_read_offset s + to_copy;
               data = take to_copy (drop (h2s_read_offset s) (h2s_read_buffer s))
           in if offset = length (h2s_read_buffer s) then (s\<lparr>h2s_read_buffer := [], h2s_read_offset := 0\<rparr>, data)
              else (s\<lparr>h2s_read_offset := offset\<rparr>, data))"

definition h2s_write :: "h2_virtual_stream \<Rightarrow> bytes \<Rightarrow> h2_virtual_stream \<times> int" where
  "h2s_write s data =
     (case h2s_write_fn s of
        None \<Rightarrow> (s, -1)
      | Some fn \<Rightarrow> (s, if h2s_open s \<and> fn (h2s_id s) data then int (length data) else -1))"

definition h2s_feed_data :: "bytes \<Rightarrow> h2_virtual_stream \<Rightarrow> h2_virtual_stream" where
  "h2s_feed_data data s = s\<lparr>h2s_read_buffer := h2s_read_buffer s @ data\<rparr>"

definition h2s_close :: "h2_virtual_stream \<Rightarrow> h2_virtual_stream" where
  "h2s_close s = s\<lparr>h2s_open := False\<rparr>"

section \<open>A stream of QUIC\<close>

record quic_stream =
  qs_id :: u64
  qs_conn :: bool
  qs_open :: bool

definition qs_read :: "nat \<Rightarrow> quic_stream \<Rightarrow> int" where
  "qs_read max_bytes s = -1"

definition qs_write :: "bytes \<Rightarrow> quic_stream \<Rightarrow> int" where
  "qs_write data s = -1"

definition qs_shutdown :: "quic_stream \<Rightarrow> quic_stream" where
  "qs_shutdown s = s\<lparr>qs_open := False\<rparr>"

definition qs_close :: "quic_stream \<Rightarrow> quic_stream" where
  "qs_close s = s\<lparr>qs_open := False, qs_conn := False\<rparr>"

section \<open>Queues of bytes\<close>

datatype queue_op = Feed bytes | Read nat

fun queue_run :: "(bytes \<Rightarrow> 's \<Rightarrow> 's) \<Rightarrow> (nat \<Rightarrow> 's \<Rightarrow> 's \<times> bytes) \<Rightarrow> queue_op list \<Rightarrow> 's \<Rightarrow> 's \<times> bytes list" where
  "queue_run fd rd [] s = (s, [])"
| "queue_run fd rd (Feed d # ops) s = queue_run fd rd ops (fd d s)"
| "queue_run fd rd (Read n # ops) s = (let (s', out) = rd n s; (s'', outs) = queue_run fd rd ops s' in (s'', out # outs))"

fun fed :: "queue_op list \<Rightarrow> bytes" where
  "fed [] = []"
| "fed (Feed d # ops) = d @ fed ops"
| "fed (Read n # ops) = fed ops"

locale byte_queue =
  fixes ok :: "'s \<Rightarrow> bool" and contents :: "'s \<Rightarrow> bytes" and fd :: "bytes \<Rightarrow> 's \<Rightarrow> 's" and rd :: "nat \<Rightarrow> 's \<Rightarrow> 's \<times> bytes"
  assumes feed_law: "ok s \<Longrightarrow> ok (fd d s) \<and> contents (fd d s) = contents s @ d"
    and read_law: "ok s \<Longrightarrow> rd n s = (s', out) \<Longrightarrow> ok s' \<and> out = take n (contents s) \<and> contents s' = drop n (contents s)"
begin

lemma run_fifo: "ok s \<Longrightarrow> queue_run fd rd ops s = (s', outs) \<Longrightarrow> ok s' \<and> contents s @ fed ops = concat outs @ contents s'"
proof (induction ops arbitrary: s outs rule: fed.induct)
  case (2 d ops)
  then show ?case
    using feed_law [of s d] "2.IH" [of "fd d s" outs] by simp
next
  case (3 n ops)
  obtain s1 out where r: "rd n s = (s1, out)"
    by (cases "rd n s")
  obtain rest where q: "queue_run fd rd ops s1 = (s', rest)" "outs = out # rest"
    using "3.prems"(2) r by (cases "queue_run fd rd ops s1") auto
  from read_law [OF "3.prems"(1) r] have s1: "ok s1" "out @ contents s1 = contents s"
    by auto
  then show ?case
    using "3.IH" [OF s1(1) q(1)] q(2) by (metis append.assoc concat.simps(2) fed.simps(3))
qed simp

text \<open>A reader that goes on gets everything.\<close>

lemma drained: "ok s \<Longrightarrow> 0 < n \<Longrightarrow> length (contents s) \<le> k \<Longrightarrow> queue_run fd rd (replicate k (Read n)) s = (s', outs) \<Longrightarrow> contents s' = []"
proof (induction k arbitrary: s outs)
  case (Suc k)
  obtain s1 out where r: "rd n s = (s1, out)"
    by (cases "rd n s")
  obtain rest where q: "queue_run fd rd (replicate k (Read n)) s1 = (s', rest)"
    using Suc.prems(4) r by (cases "queue_run fd rd (replicate k (Read n)) s1") auto
  have "ok s1" "length (contents s1) \<le> k"
    using read_law [OF Suc.prems(1) r] Suc.prems(2,3) by auto
  then show ?case
    using Suc.IH [OF _ Suc.prems(2) _ q] by simp
qed simp

end

definition h2s_ok :: "h2_virtual_stream \<Rightarrow> bool" where
  "h2s_ok s \<longleftrightarrow> h2s_open s \<and> h2s_read_offset s \<le> length (h2s_read_buffer s)"

definition h2s_contents :: "h2_virtual_stream \<Rightarrow> bytes" where
  "h2s_contents s = drop (h2s_read_offset s) (h2s_read_buffer s)"

interpretation h2s: byte_queue h2s_ok h2s_contents h2s_feed_data h2s_read
proof unfold_locales
  fix s s' :: h2_virtual_stream and n out
  assume ok: "h2s_ok s" and r: "h2s_read n s = (s', out)"
  show "h2s_ok s' \<and> out = take n (h2s_contents s) \<and> h2s_contents s' = drop n (h2s_contents s)"
  proof (cases "length (h2s_read_buffer s) \<le> h2s_read_offset s")
    case True
    then show ?thesis
      using ok r by (auto simp: h2s_read_def h2s_ok_def h2s_contents_def)
  next
    case False
    let ?avail = "length (h2s_read_buffer s) - h2s_read_offset s"
    have t: "take (if n < ?avail then n else ?avail) (h2s_contents s) = take n (h2s_contents s)"
      by (simp add: h2s_contents_def)
    have d: "h2s_read_offset s + n \<noteq> length (h2s_read_buffer s)" if "n < ?avail"
      using that by linarith
    show ?thesis
      using ok r False t d
      by (auto simp: h2s_read_def h2s_ok_def h2s_contents_def Let_def add.commute split: if_splits)
  qed
qed (auto simp: h2s_ok_def h2s_contents_def h2s_feed_data_def)

lemma fed_reads: "fed (replicate k (Read n)) = []"
  by (induction k) simp_all

text \<open>
  C35. Whatever is fed into a stream of HTTP/2 and in whatever pieces it is read, what has been read is what was fed, in order; and reads of at least
  one byte bring out all of it.
\<close>

theorem h2_stream_in_order:
  assumes "queue_run h2s_feed_data h2s_read ops (h2s_init sid fn) = (s', outs)" and "0 < n"
    and "queue_run h2s_feed_data h2s_read (replicate (length (fed ops)) (Read n)) s' = (s'', rest)"
  shows "fed ops = concat outs @ h2s_contents s' \<and> h2s_contents s' = concat rest"
proof -
  have init: "h2s_ok (h2s_init sid fn)" "h2s_contents (h2s_init sid fn) = []"
    by (simp_all add: h2s_ok_def h2s_contents_def h2s_init_def)
  from h2s.run_fifo [OF init(1) assms(1)] have s': "h2s_ok s'" "fed ops = concat outs @ h2s_contents s'"
    using init(2) by simp_all
  have "h2s_contents s' = concat rest @ h2s_contents s''"
    using h2s.run_fifo [OF s'(1) assms(3)] by (simp add: fed_reads)
  moreover have "h2s_contents s'' = []"
    using s' by (intro h2s.drained [OF s'(1) assms(2) _ assms(3)]) simp
  ultimately show ?thesis
    using s'(2) by simp
qed

section \<open>Descriptors\<close>

datatype stream_op = Op_shutdown | Op_close

text \<open>The calls that a sequence of operations makes on a TCP stream, with the destructor at the end.\<close>

fun tcp_life :: "stream_op list \<Rightarrow> tcp_stream \<Rightarrow> end_call list" where
  "tcp_life [] s = snd (tcp_close s)"
| "tcp_life (Op_shutdown # ops) s = snd (tcp_shutdown s) @ tcp_life ops (fst (tcp_shutdown s))"
| "tcp_life (Op_close # ops) s = snd (tcp_close s) @ tcp_life ops (fst (tcp_close s))"

fun tls_life :: "stream_op list \<Rightarrow> tls_stream \<Rightarrow> end_call list" where
  "tls_life [] s = snd (tls_close s)"
| "tls_life (Op_shutdown # ops) s = snd (tls_shutdown s) @ tls_life ops (fst (tls_shutdown s))"
| "tls_life (Op_close # ops) s = snd (tls_close s) @ tls_life ops (fst (tls_close s))"

lemma tcp_closed: "tcp_fd s < 0 \<Longrightarrow> tcp_life ops s = []"
  by (induction ops s rule: tcp_life.induct) (simp_all add: tcp_close_def tcp_shutdown_def)

lemma tls_closed: "\<not> tls_ssl s \<Longrightarrow> tls_fd s < 0 \<Longrightarrow> tls_life ops s = []"
  by (induction ops s rule: tls_life.induct) (simp_all add: tls_close_def tls_shutdown_def)

lemma tcp_life_once:
  assumes "0 \<le> tcp_fd s"
  shows "filter (\<lambda>c. \<exists>fd. c = Close_fd fd) (tcp_life ops s) = [Close_fd (tcp_fd s)]"
  using assms
proof (induction ops s rule: tcp_life.induct)
  case (3 ops s)
  then show ?case
    using tcp_closed [of "s\<lparr>tcp_fd := -1\<rparr>" ops] by (simp add: tcp_close_def)
qed (simp_all add: tcp_close_def tcp_shutdown_def)

lemma tls_life_once:
  assumes "0 \<le> tls_fd s" and "tls_ssl s"
  shows "filter (\<lambda>c. \<exists>fd. c = Close_fd fd) (tls_life ops s) = [Close_fd (tls_fd s)]" and "count_list (tls_life ops s) SSL_free_call = 1"
  using assms
proof (induction ops s rule: tls_life.induct)
  case (3 ops s)
  { case 1
    then show ?case
      using tls_closed [of "s\<lparr>tls_ssl := False, tls_fd := -1\<rparr>" ops] by (simp add: tls_close_def)
  next
    case 2
    then show ?case
      using tls_closed [of "s\<lparr>tls_ssl := False, tls_fd := -1\<rparr>" ops] by (simp add: tls_close_def) }
qed (simp_all add: tls_close_def tls_shutdown_def)

text \<open>
  Whatever is done to a stream, its descriptor is closed exactly once by the time it is destroyed, its TLS handle is freed once, and nothing
  else is closed; a TCP stream that has been moved leaves the descriptor to the new one.
\<close>

theorem descriptor_closed_once:
  assumes "0 \<le> tcp_fd s" and "tcp_move s = (new, old)" and "0 \<le> tls_fd t" and "tls_ssl t"
  shows "filter (\<lambda>c. \<exists>fd. c = Close_fd fd) (tcp_life ops new @ tcp_life ops' old) = [Close_fd (tcp_fd s)]
    \<and> filter (\<lambda>c. \<exists>fd. c = Close_fd fd) (tls_life ops t) = [Close_fd (tls_fd t)] \<and> count_list (tls_life ops t) SSL_free_call = 1"
  using assms tcp_life_once [of s ops] tcp_closed [of old ops'] tls_life_once [OF assms(3,4), of ops] by (auto simp: tcp_move_def)

section \<open>Writing everything\<close>

lemma stream_write_all_step:
  "data \<noteq> [] \<Longrightarrow> 0 < snd (wr s data) \<Longrightarrow> stream_write_all wr s data = stream_write_all wr (fst (wr s data)) (drop (nat (snd (wr s data))) data)"
  by (simp add: stream_write_all.simps [of wr s data])

text \<open>Over HTTP/2 the loop succeeds if the connection takes the data, and with one call.\<close>

theorem h2_write_all:
  assumes "h2s_open s" and "h2s_write_fn s = Some fn"
  shows "stream_write_all h2s_write s data = (s, data = [] \<or> fn (h2s_id s) data)"
  using assms by (auto simp: stream_write_all.simps [of h2s_write] h2s_write_def)

text \<open>
  A TLS write that would block counts as nothing written, which the loop takes for a failure: it gives up in the
  middle of the data, and the caller cannot tell how much was written.
\<close>

theorem tls_write_all_gives_up:
  assumes "tls_ssl s" and "n < length data" and "r 0 = SSL_bytes (int n)" and "0 < n" and "r (1::nat) = SSL_want"
  shows "snd (stream_write_all (\<lambda>i d. (Suc i, tls_write (r i) s)) 0 data) = False"
proof -
  let ?w = "\<lambda>i d. (Suc i, tls_write (r i) s)"
  have w: "tls_write (r 0) s = int n" "tls_write (r 1) s = 0"
    using assms(1,3,5) by (simp_all add: tls_write_def)
  have "data \<noteq> []"
    using assms(2) by auto
  then have "stream_write_all ?w 0 data = stream_write_all ?w 1 (drop n data)"
    using assms(4) w(1) stream_write_all_step [of data ?w 0] by simp
  also have "\<dots> = (2, False)"
    using assms(2) w(2) by (subst stream_write_all.simps) auto
  finally show ?thesis
    by simp
qed

section \<open>Small streams\<close>

definition small_ops :: "queue_op list" where
  "small_ops = [Feed (lit ''abc''), Read 2, Feed (lit ''d'')]"

theorem h2_stream_in_order_witness:
  "concat (snd (queue_run h2s_feed_data h2s_read (replicate 4 (Read 1)) (fst (queue_run h2s_feed_data h2s_read small_ops (h2s_init 1 None)))))
     = lit ''cd''"
proof -
  let ?q = "queue_run h2s_feed_data h2s_read small_ops (h2s_init 1 None)"
  have q: "snd ?q = [lit ''ab'']" "fed small_ops = lit ''abcd''" "length (fed small_ops) = 4"
    by (simp_all add: small_ops_def h2s_feed_data_def h2s_read_def h2s_init_def lit_def)
  have "fed small_ops = concat (snd ?q) @ h2s_contents (fst ?q)
    \<and> h2s_contents (fst ?q) = concat (snd (queue_run h2s_feed_data h2s_read (replicate (length (fed small_ops)) (Read 1)) (fst ?q)))"
    by (rule h2_stream_in_order [OF surjective_pairing zero_less_one surjective_pairing])
  note this [unfolded q(3)]
  then show ?thesis
    unfolding q(1,2) by (simp add: lit_def)
qed

definition small_tcp :: tcp_stream where
  "small_tcp = \<lparr>tcp_fd = 5, tcp_peer_addr = []\<rparr>"

definition small_tls :: tls_stream where
  "small_tls = \<lparr>tls_ssl = True, tls_fd = 6, tls_peer_addr = []\<rparr>"

theorem descriptor_closed_once_witness:
  "filter (\<lambda>c. \<exists>fd. c = Close_fd fd) (tcp_life [Op_shutdown, Op_close, Op_close] (fst (tcp_move small_tcp)) @ tcp_life [Op_close] (snd (tcp_move small_tcp)))
     = [Close_fd 5]"
  using descriptor_closed_once [of small_tcp "fst (tcp_move small_tcp)" "snd (tcp_move small_tcp)" small_tls "[Op_shutdown, Op_close, Op_close]" "[Op_close]"]
  by (simp add: small_tcp_def small_tls_def del: tcp_life.simps tls_life.simps)

theorem h2_write_all_witness:
  "stream_write_all h2s_write (h2s_init 3 (Some (\<lambda>i d. i = 3))) (lit ''hi'') = (h2s_init 3 (Some (\<lambda>i d. i = 3)), True)"
  using h2_write_all [of "h2s_init 3 (Some (\<lambda>i d. i = 3))" "\<lambda>i d. i = 3" "lit ''hi''"] by (simp add: h2s_init_def)

theorem tls_write_all_gives_up_witness:
  "snd (stream_write_all (\<lambda>i d. (Suc i, tls_write (if i = 0 then SSL_bytes 1 else SSL_want) small_tls)) 0 (lit ''hi'')) = False"
  using tls_write_all_gives_up [of small_tls 1 "lit ''hi''" "\<lambda>i. if i = 0 then SSL_bytes 1 else SSL_want"]
  by (simp add: small_tls_def lit_def)

end
