(* ===== verification/Json.thy ===== *)
theory Json
  imports Wire Unicode Runtime
begin

text \<open>
  The JSON reader of the token validator (\<open>src/src/jwt_validator.cpp\<close>): strings with their
  escapes, the skipping of values and the search for a member of the top-level object.  The
  code carries a position in a \<open>string_view\<close> by reference; here the position is the rest of
  the input, and a reader returns what it read and the rest behind it.  A failure is \<open>None\<close>:
  every caller returns at once then, so the position it leaves behind is never used.

  What is shown: the string reader inverts the usual way of quoting (an instance of the codec
  interface), values of any nesting are skipped exactly, and the search in a printed object
  returns its first member with that key and never anything inside a value.
\<close>

section \<open>Strings\<close>

text \<open>The four digits behind \<open>\u\<close>, shifted into \<open>cp\<close> one by one.\<close>

fun hex_digits :: "u32 \<Rightarrow> bytes \<Rightarrow> u32 option" where
  "hex_digits cp [] = Some cp"
| "hex_digits cp (h # hs) =
     (if 48 \<le> h \<and> h \<le> 57 then hex_digits (push_bit 4 cp OR ucast (h - 48)) hs
      else if 97 \<le> h \<and> h \<le> 102 then hex_digits (push_bit 4 cp OR ucast (h - 97 + 10)) hs
      else if 65 \<le> h \<and> h \<le> 70 then hex_digits (push_bit 4 cp OR ucast (h - 65 + 10)) hs
      else None)"

text \<open>The bytes appended for it.\<close>

definition utf8_of :: "u32 \<Rightarrow> bytes" where
  "utf8_of cp =
     (if cp < 0x80 then [ucast cp]
      else if cp < 0x800 then
        [ucast (0xC0 OR drop_bit 6 cp), ucast (0x80 OR (cp AND 0x3F))]
      else
        [ucast (0xE0 OR drop_bit 12 cp), ucast (0x80 OR (drop_bit 6 cp AND 0x3F)),
         ucast (0x80 OR (cp AND 0x3F))])"

text \<open>The escapes of one letter: quote, backslash, slash, and b, f, n, r, t.\<close>

definition escaped_char :: "byte \<Rightarrow> byte option" where
  "escaped_char esc =
     (if esc = 34 then Some 34
      else if esc = 92 then Some 92
      else if esc = 47 then Some 47
      else if esc = 98 then Some 8
      else if esc = 102 then Some 12
      else if esc = 110 then Some 10
      else if esc = 114 then Some 13
      else if esc = 116 then Some 9
      else None)"

text \<open>The loop behind the opening quote.\<close>

fun string_chars :: "bytes \<Rightarrow> bytes \<Rightarrow> (bytes \<times> bytes) option" where
  "string_chars result [] = None"
| "string_chars result (c # cs) =
     (if c = 34 then Some (result, cs)
      else if c = 92 then
        (case cs of
           [] \<Rightarrow> None
         | esc # rest \<Rightarrow>
             if esc = 117 then
               (if length rest < 4 then None
                else case hex_digits 0 (take 4 rest) of
                       None \<Rightarrow> None
                     | Some cp \<Rightarrow> string_chars (result @ utf8_of cp) (drop 4 rest))
             else case escaped_char esc of
                    None \<Rightarrow> None
                  | Some e \<Rightarrow> string_chars (result @ [e]) rest)
      else if c < 0x20 then None
      else string_chars (result @ [c]) cs)"

definition parse_json_string :: "bytes \<Rightarrow> (bytes \<times> bytes) option" where
  "parse_json_string json =
     (case json of
        [] \<Rightarrow> None
      | c # cs \<Rightarrow> if c \<noteq> 34 then None else string_chars [] cs)"

lemma string_chars_shorter: "string_chars acc s = Some (r, rest) \<Longrightarrow> length rest < length s"
proof (induction acc s rule: string_chars.induct)
  case (1 acc)
  then show ?case by simp
next
  case (2 acc c cs)
  consider "c = 34" | "c \<noteq> 34" "c \<noteq> 92" | esc t where "c = 92" "cs = esc # t"
    using "2.prems" by (cases cs) (auto split: if_splits)
  then show ?case
  proof cases
    case 1
    with "2.prems" show ?thesis by simp
  next
    case 2
    with "2.IH"(3) [OF 2] "2.prems" show ?thesis by (simp split: if_splits)
  next
    case 3
    show ?thesis
    proof (cases "esc = 117")
      case True
      with "2.prems" 3 obtain cp where "hex_digits 0 (take 4 t) = Some cp"
        "string_chars (acc @ utf8_of cp) (drop 4 t) = Some (r, rest)" "\<not> length t < 4"
        by (auto split: if_splits option.splits)
      with "2.IH"(1) [of esc t cp] 3 True show ?thesis by simp
    next
      case False
      with "2.prems" 3 obtain e where "escaped_char esc = Some e"
        "string_chars (acc @ [e]) t = Some (r, rest)"
        by (auto split: option.splits)
      with "2.IH"(2) [of esc t e] 3 False show ?thesis by simp
    qed
  qed
qed

lemma parse_json_string_shorter [termination_simp]:
  "parse_json_string s = Some (r, rest) \<Longrightarrow> length rest < length s"
  by (auto simp: parse_json_string_def split: list.splits if_splits dest: string_chars_shorter)

section \<open>Values\<close>

definition json_ws :: "byte \<Rightarrow> bool" where
  "json_ws c \<longleftrightarrow> c = 32 \<or> c = 9 \<or> c = 10 \<or> c = 13"

definition skip_ws :: "bytes \<Rightarrow> bytes" where
  "skip_ws json = dropWhile json_ws json"

text \<open>
  Objects and arrays: only the brackets of their own kind are counted.  The counter is an
  \<open>int\<close> that is at most the number of bytes of the text, which a request header holds.
\<close>

function skip_nested :: "byte \<Rightarrow> byte \<Rightarrow> nat \<Rightarrow> bytes \<Rightarrow> bytes option" where
  "skip_nested opening closing depth json =
     (if depth = 0 then Some json
      else case json of
             [] \<Rightarrow> None
           | c # cs \<Rightarrow>
               if c = 34 then
                 (case parse_json_string json of
                    None \<Rightarrow> None
                  | Some (s, rest) \<Rightarrow> skip_nested opening closing depth rest)
               else skip_nested opening closing
                      (if c = opening then depth + 1 else if c = closing then depth - 1 else depth) cs)"
  by pat_completeness auto
termination
  by (relation "measure (\<lambda>(op, cl, depth, json). length json)")
    (auto dest: parse_json_string_shorter)

declare skip_nested.simps [simp del]

definition skip_fraction :: "bytes \<Rightarrow> bytes" where
  "skip_fraction json =
     (if json \<noteq> [] \<and> hd json = 46 then dropWhile digit_byte (tl json) else json)"

definition skip_exponent :: "bytes \<Rightarrow> bytes" where
  "skip_exponent json =
     (if json \<noteq> [] \<and> (hd json = 101 \<or> hd json = 69) then
        let r = tl json
        in dropWhile digit_byte (if r \<noteq> [] \<and> (hd r = 43 \<or> hd r = 45) then tl r else r)
      else json)"

definition skip_number :: "bytes \<Rightarrow> bytes option" where
  "skip_number json =
     (let r = (if hd json = 45 then tl json else json)
      in if r = [] then None
         else Some (skip_exponent (skip_fraction (dropWhile digit_byte r))))"

definition skip_json_value :: "bytes \<Rightarrow> bytes option" where
  "skip_json_value json =
     (let r = skip_ws json
      in case r of
           [] \<Rightarrow> None
         | c # cs \<Rightarrow>
             if c = 34 then map_option snd (parse_json_string r)
             else if c = 123 then skip_nested 123 125 1 cs
             else if c = 91 then skip_nested 91 93 1 cs
             else if c = 45 \<or> digit_byte c then skip_number r
             else if starts_with r (lit ''true'') then Some (drop 4 r)
             else if starts_with r (lit ''false'') then Some (drop 5 r)
             else if starts_with r (lit ''null'') then Some (drop 4 r)
             else None)"

lemma dropWhile_le: "length (dropWhile P xs) \<le> length xs"
  by (induction xs) auto

lemma skip_ws_le: "length (skip_ws s) \<le> length s"
  by (simp add: skip_ws_def dropWhile_le)

lemma skip_nested_simps [simp]:
  "skip_nested op cl 0 s = Some s"
  "0 < depth \<Longrightarrow> skip_nested op cl depth [] = None"
  "0 < depth \<Longrightarrow> skip_nested op cl depth (34 # cs) =
     (case parse_json_string (34 # cs) of
        None \<Rightarrow> None | Some (t, rest) \<Rightarrow> skip_nested op cl depth rest)"
  "0 < depth \<Longrightarrow> c \<noteq> 34 \<Longrightarrow> skip_nested op cl depth (c # cs) =
     skip_nested op cl (if c = op then depth + 1 else if c = cl then depth - 1 else depth) cs"
  by (subst skip_nested.simps, simp)+

lemma skip_nested_le: "skip_nested op cl depth s = Some r \<Longrightarrow> length r \<le> length s"
proof (induction op cl depth s rule: skip_nested.induct)
  case (1 op cl depth s)
  consider "depth = 0" | cs where "0 < depth" "s = 34 # cs" | c cs where "0 < depth" "s = c # cs" "c \<noteq> 34"
    using "1.prems" by (cases "depth = 0"; cases s) auto
  then show ?case
  proof cases
    case 1
    with "1.prems" show ?thesis by simp
  next
    case 2
    with "1.prems" obtain t rest
      where p: "parse_json_string s = Some (t, rest)" "skip_nested op cl depth rest = Some r"
      by (auto split: option.splits)
    then have "length r \<le> length rest"
      using "1.IH"(1) [of 34 cs "(t, rest)" t rest] 2 by simp
    with parse_json_string_shorter [OF p(1)] show ?thesis by simp
  next
    case 3
    with "1.prems" "1.IH"(2) [of c cs] show ?thesis by simp
  qed
qed

lemma tl_le: "length (tl xs) \<le> length xs"
  by simp

lemma skip_number_le: "skip_number s = Some r \<Longrightarrow> length r \<le> length s"
proof -
  assume a: "skip_number s = Some r"
  define t where "t = dropWhile digit_byte (if hd s = 45 then tl s else s)"
  have "length t \<le> length s"
    using dropWhile_le [of digit_byte s] dropWhile_le [of digit_byte "tl s"] by (auto simp: t_def)
  moreover have "length (skip_fraction t) \<le> length t"
    using dropWhile_le [of digit_byte "tl t"] by (auto simp: skip_fraction_def)
  moreover have "length (skip_exponent u) \<le> length u" for u
    using dropWhile_le [of digit_byte "tl u"] dropWhile_le [of digit_byte "tl (tl u)"]
    by (auto simp: skip_exponent_def Let_def)
  moreover have "r = skip_exponent (skip_fraction t)"
    using a by (simp add: skip_number_def Let_def t_def split: if_splits)
  ultimately show ?thesis
    by (metis order_trans)
qed

lemma skip_json_value_le: "skip_json_value s = Some r \<Longrightarrow> length r \<le> length s"
proof -
  assume a: "skip_json_value s = Some r"
  then obtain c cs where s: "skip_ws s = c # cs"
    by (cases "skip_ws s") (simp_all add: skip_json_value_def)
  have "length r \<le> length (skip_ws s)"
    using a by (auto simp: skip_json_value_def s Let_def split: if_splits
        dest!: parse_json_string_shorter skip_number_le skip_nested_le)
  with skip_ws_le [of s] show ?thesis by simp
qed

section \<open>Members\<close>

text \<open>
  The loop of \<open>json_get_string\<close> behind the opening brace.  A string is returned unescaped, any
  other value as its text.
\<close>

function find_member :: "bytes \<Rightarrow> bytes \<Rightarrow> bytes option" where
  "find_member key json =
     (if skip_ws json = [] \<or> hd (skip_ws json) = 125 then None
      else case parse_json_string (skip_ws json) of
        None \<Rightarrow> None
      | Some (parsed_key, r1) \<Rightarrow>
          if skip_ws r1 = [] \<or> hd (skip_ws r1) \<noteq> 58 then None
          else (let r2 = skip_ws (tl (skip_ws r1))
            in if parsed_key = key then
                 (if r2 = [] then None
                  else if hd r2 = 34 then map_option fst (parse_json_string r2)
                  else case skip_json_value r2 of
                         None \<Rightarrow> None
                       | Some r3 \<Rightarrow> Some (take (length r2 - length r3) r2))
               else case skip_json_value r2 of
                      None \<Rightarrow> None
                    | Some r3 \<Rightarrow>
                        if skip_ws r3 \<noteq> [] \<and> hd (skip_ws r3) = 44
                        then find_member key (tl (skip_ws r3)) else None))"
  by pat_completeness auto
termination
proof (relation "measure (\<lambda>(key, json). length json)", goal_cases)
  case (2 key json x parsed_key r1 r2 r3)
  have "length (tl (skip_ws r3)) \<le> length r3"
    using skip_ws_le [of r3] by simp
  also have "\<dots> \<le> length r2"
    using skip_json_value_le [OF 2(7)] .
  also have "\<dots> \<le> length r1"
    unfolding 2(5) by (metis skip_ws_le tl_le order_trans)
  also have "length r1 < length (skip_ws json)"
    using parse_json_string_shorter [of "skip_ws json" parsed_key r1] 2(2,3) by simp
  also have "\<dots> \<le> length json"
    by (rule skip_ws_le)
  finally show ?case by simp
qed simp

declare find_member.simps [simp del]

definition json_get_string :: "bytes \<Rightarrow> bytes \<Rightarrow> bytes option" where
  "json_get_string json key =
     (let r = skip_ws json
      in if r = [] \<or> hd r \<noteq> 123 then None else find_member key (tl r))"

definition trim_blanks :: "bytes \<Rightarrow> bytes" where
  "trim_blanks s = rev (dropWhile (\<lambda>c. c = 32) (rev (dropWhile (\<lambda>c. c = 32) s)))"

definition json_get_number :: "bytes \<Rightarrow> bytes \<Rightarrow> int option" where
  "json_get_number json key =
     (case json_get_string json key of
        None \<Rightarrow> None
      | Some str \<Rightarrow> (case stoll (trim_blanks str) of Inl e \<Rightarrow> None | Inr v \<Rightarrow> Some v))"

section \<open>Printing\<close>

text \<open>
  The text of a JSON value, as any serializer writes it without blanks: a quote and a backslash
  are escaped by a backslash, control characters by \<open>\u00\<close> and two digits.
\<close>

datatype json =
    JString bytes | JNumber int | JBool bool | JNull | JArray "json list" | JObject "(bytes \<times> json) list"

definition escape_char :: "byte \<Rightarrow> bytes" where
  "escape_char b =
     (if b = 34 \<or> b = 92 then [92, b]
      else if b < 0x20 then [92, 117, 48, 48, hex_char (unat b div 16), hex_char (unat b mod 16)]
      else [b])"

definition json_quote :: "bytes \<Rightarrow> bytes" where
  "json_quote s = 34 # concat (map escape_char s) @ [34]"

fun commas :: "bytes list \<Rightarrow> bytes" where
  "commas [] = []"
| "commas [t] = t"
| "commas (t # u # ts) = t @ 44 # commas (u # ts)"

fun print_json :: "json \<Rightarrow> bytes" where
  "print_json (JString s) = json_quote s"
| "print_json (JNumber i) = to_string i"
| "print_json (JBool b) = (if b then lit ''true'' else lit ''false'')"
| "print_json JNull = lit ''null''"
| "print_json (JArray vs) = 91 # commas (map print_json vs) @ [93]"
| "print_json (JObject ms) = 123 # commas (map (\<lambda>(k, v). json_quote k @ 58 # print_json v) ms) @ [125]"

text \<open>What a member is read as: a string as its content, any other value as its text.\<close>

fun json_text :: "json \<Rightarrow> bytes" where
  "json_text (JString s) = s"
| "json_text v = print_json v"

section \<open>Strings are read back\<close>

lemma control_escape:
  assumes "b < 0x20"
  shows "hex_digits 0 [48, 48, hex_char (unat b div 16), hex_char (unat b mod 16)] = Some (ucast b)"
    and "utf8_of (ucast b) = [b]"
proof -
  have all: "\<forall>n \<in> set [0..<32]. let b = (of_nat n :: byte) in
      hex_digits 0 [48, 48, hex_char (unat b div 16), hex_char (unat b mod 16)] = Some (ucast b)
      \<and> utf8_of (ucast b) = [b]"
    by code_simp
  have "unat b \<in> set [0..<32]"
    using assms by (simp add: word_less_nat_alt)
  from bspec [OF all this]
  show "hex_digits 0 [48, 48, hex_char (unat b div 16), hex_char (unat b mod 16)] = Some (ucast b)"
    and "utf8_of (ucast b) = [b]"
    by (simp_all add: Let_def)
qed

lemma string_chars_escape: "string_chars acc (escape_char b @ t) = string_chars (acc @ [b]) t"
proof (cases "b = 34 \<or> b = 92")
  case True
  then show ?thesis by (auto simp: escape_char_def escaped_char_def)
next
  case False
  show ?thesis
  proof (cases "b < 0x20")
    case True
    with False show ?thesis
      by (simp add: escape_char_def control_escape del: hex_digits.simps)
  next
    case ge: False
    with False show ?thesis by (simp add: escape_char_def)
  qed
qed

lemma string_chars_quoted:
  "string_chars acc (concat (map escape_char s) @ 34 # rest) = Some (acc @ s, rest)"
  by (induction s arbitrary: acc) (simp_all add: string_chars_escape)

lemma parse_json_quote [simp]: "parse_json_string (json_quote s @ rest) = Some (s, rest)"
  by (simp add: parse_json_string_def json_quote_def string_chars_quoted)

interpretation json_str: codec json_quote parse_json_string "\<lambda>_. True"
  by unfold_locales simp

section \<open>Values are skipped\<close>

text \<open>A text that leaves the count of brackets as it found it.\<close>

definition passes :: "byte \<Rightarrow> byte \<Rightarrow> bytes \<Rightarrow> bool" where
  "passes op cl t \<longleftrightarrow>
     (\<forall>d rest. skip_nested op cl (Suc d) (t @ rest) = skip_nested op cl (Suc d) rest)"

definition bracket_pair :: "byte \<Rightarrow> byte \<Rightarrow> bool" where
  "bracket_pair op cl \<longleftrightarrow> op = 123 \<and> cl = 125 \<or> op = 91 \<and> cl = 93"

named_theorems passing \<open>texts that do not change the bracket count\<close>

lemma passes_Nil [passing]: "passes op cl []"
  by (simp add: passes_def)

lemma passes_append [passing]: "passes op cl s \<Longrightarrow> passes op cl t \<Longrightarrow> passes op cl (s @ t)"
  by (simp add: passes_def)

lemma passes_char: "c \<noteq> 34 \<Longrightarrow> c \<noteq> op \<Longrightarrow> c \<noteq> cl \<Longrightarrow> passes op cl t \<Longrightarrow> passes op cl (c # t)"
  by (simp add: passes_def)

lemma passes_quote [passing]: "passes op cl (json_quote s)"
  unfolding passes_def
proof (intro allI)
  fix d rest
  obtain t where q: "json_quote s @ rest = 34 # t"
    by (simp add: json_quote_def)
  have "parse_json_string (34 # t) = Some (s, rest)"
    by (simp add: q [symmetric])
  then show "skip_nested op cl (Suc d) (json_quote s @ rest) = skip_nested op cl (Suc d) rest"
    by (simp add: q)
qed

lemma passes_bracketed:
  assumes "bracket_pair a b" and "bracket_pair op cl" and "passes op cl t"
  shows "passes op cl (a # t @ [b])"
proof (cases "a = op")
  case True
  with assms show ?thesis
    by (auto simp: passes_def bracket_pair_def)
next
  case False
  with assms have "a \<noteq> 34 \<and> a \<noteq> op \<and> a \<noteq> cl \<and> b \<noteq> 34 \<and> b \<noteq> op \<and> b \<noteq> cl"
    by (auto simp: bracket_pair_def)
  with assms(3) show ?thesis
    by (simp add: passes_char passes_append passes_Nil)
qed

lemma passes_commas:
  "bracket_pair op cl \<Longrightarrow> \<forall>t \<in> set ts. passes op cl t \<Longrightarrow> passes op cl (commas ts)"
proof (induction ts rule: commas.induct)
  case (3 t u ts)
  then show ?case
    by (auto intro!: passes_append passes_char simp: bracket_pair_def)
qed (simp_all add: passes_Nil)

lemma passes_plain:
  "bracket_pair op cl \<Longrightarrow> \<forall>c \<in> set t. c \<notin> {34, 123, 125, 91, 93} \<Longrightarrow> passes op cl t"
  by (induction t) (auto intro!: passes_char passes_Nil simp: bracket_pair_def)

lemma passes_print: "bracket_pair op cl \<Longrightarrow> passes op cl (print_json v)"
proof (induction v rule: print_json.induct)
  case (2 i)
  have "c \<notin> {34, 123, 125, 91, 93}" if "c \<in> set (to_string i)" for c
    using to_string_chars [OF that] by (auto simp: digit_byte_def)
  with 2 show ?case by (simp add: passes_plain)
next
  case (3 b)
  then show ?case by (simp add: passes_plain lit_def)
next
  case 4
  then show ?case by (simp add: passes_plain lit_def)
next
  case (5 vs)
  have "passes op cl (commas (map print_json vs))"
    using 5 by (intro passes_commas) auto
  with 5 show ?case
    by (simp add: passes_bracketed bracket_pair_def)
next
  case (6 ms)
  have "passes op cl (json_quote k @ 58 # print_json v)" if "(k, v) \<in> set ms" for k v
    using "6.IH" [OF that] "6.prems"
    by (auto intro!: passes_append passes_char simp: passes_quote bracket_pair_def)
  then have "passes op cl (commas (map (\<lambda>(k, v). json_quote k @ 58 # print_json v) ms))"
    using "6.prems" by (intro passes_commas) auto
  with 6 show ?case
    by (simp add: passes_bracketed bracket_pair_def)
qed (simp add: passes_quote)

text \<open>What may follow a number so that its end is found: none of its own characters.\<close>

definition value_end :: "bytes \<Rightarrow> bool" where
  "value_end rest \<longleftrightarrow> rest = [] \<or> \<not> digit_byte (hd rest) \<and> hd rest \<notin> {46, 101, 69}"

lemma dropWhile_to_dec: "value_end rest \<Longrightarrow> dropWhile digit_byte (to_dec n @ rest) = rest"
  by (subst dropWhile_append2) (auto simp: to_dec_digit_byte value_end_def dropWhile_eq_self_iff)

lemma skip_number_tail: "value_end rest \<Longrightarrow> skip_exponent (skip_fraction rest) = rest"
  by (auto simp: value_end_def skip_fraction_def skip_exponent_def)

lemma skip_number_to_string: "value_end rest \<Longrightarrow> skip_number (to_string i @ rest) = Some rest"
proof -
  assume r: "value_end rest"
  have "hd (to_dec n @ rest) \<noteq> 45" for n
    using to_dec_digit_byte [of "hd (to_dec n)" n] by (auto simp: digit_byte_def)
  with r show ?thesis
    by (simp add: skip_number_def to_string_def dropWhile_to_dec skip_number_tail)
qed

text \<open>How the text of a value begins.\<close>

lemma print_json_hd:
  obtains c cs where "print_json v = c # cs" and "\<not> json_ws c" and "c = 34 \<longleftrightarrow> (\<exists>s. v = JString s)"
proof (cases v)
  case (JNumber i)
  with to_string_hd [of i] that show ?thesis
    by (fastforce simp: json_ws_def digit_byte_def)
next
  case (JBool b)
  with that show ?thesis
    by (cases b) (simp_all add: lit_def json_ws_def)
qed (use that in \<open>simp_all add: json_quote_def json_ws_def lit_def\<close>)

lemma skip_ws_Cons [simp]: "\<not> json_ws c \<Longrightarrow> skip_ws (c # cs) = c # cs"
  by (simp add: skip_ws_def)

lemma skip_ws_print [simp]: "skip_ws (print_json v @ rest) = print_json v @ rest"
  by (rule print_json_hd [of v]) simp

lemma skip_ws_quote [simp]: "skip_ws (json_quote k @ rest) = json_quote k @ rest"
  by (simp add: json_quote_def json_ws_def)

lemma skip_nested_closed:
  assumes "bracket_pair op cl" and "passes op cl t"
  shows "skip_nested op cl 1 (t @ cl # rest) = Some rest"
  using assms by (auto simp: passes_def bracket_pair_def)

lemma skip_json_value_hd:
  assumes "\<not> json_ws c"
  shows "skip_json_value (c # cs) =
    (if c = 34 then map_option snd (parse_json_string (c # cs))
     else if c = 123 then skip_nested 123 125 1 cs
     else if c = 91 then skip_nested 91 93 1 cs
     else if c = 45 \<or> digit_byte c then skip_number (c # cs)
     else if starts_with (c # cs) (lit ''true'') then Some (drop 4 (c # cs))
     else if starts_with (c # cs) (lit ''false'') then Some (drop 5 (c # cs))
     else if starts_with (c # cs) (lit ''null'') then Some (drop 4 (c # cs))
     else None)"
  using assms by (simp add: skip_json_value_def)

lemma skip_json_value_print:
  assumes "value_end rest"
  shows "skip_json_value (print_json v @ rest) = Some rest"
proof (cases v)
  case (JString s)
  have "skip_json_value (34 # t) = map_option snd (parse_json_string (34 # t))" for t
    by (simp add: skip_json_value_hd json_ws_def)
  moreover obtain t where "json_quote s @ rest = 34 # t"
    by (simp add: json_quote_def)
  ultimately show ?thesis
    using parse_json_quote [of s rest] by (simp add: JString)
next
  case (JNumber i)
  obtain c cs where c: "to_string i = c # cs" "c = 45 \<or> digit_byte c"
    using to_string_hd by blast
  then have "\<not> json_ws c \<and> c \<noteq> 34 \<and> c \<noteq> 123 \<and> c \<noteq> 91"
    by (auto simp: json_ws_def digit_byte_def)
  with c skip_number_to_string [OF assms, of i] show ?thesis
    by (simp add: JNumber skip_json_value_hd)
next
  case (JArray vs)
  have "passes 91 93 (commas (map print_json vs))"
    by (intro passes_commas) (auto simp: bracket_pair_def passes_print)
  with skip_nested_closed [of 91 93] show ?thesis
    by (simp add: JArray skip_json_value_hd json_ws_def bracket_pair_def)
next
  case (JObject ms)
  have "passes 123 125 (commas (map (\<lambda>(k, v). json_quote k @ 58 # print_json v) ms))"
    by (intro passes_commas)
      (auto simp: bracket_pair_def intro!: passes_append passes_quote passes_char passes_print)
  with skip_nested_closed [of 123 125] show ?thesis
    by (simp add: JObject skip_json_value_hd json_ws_def bracket_pair_def)
qed (auto simp: skip_json_value_hd json_ws_def digit_byte_def lit_def starts_with_def)

section \<open>Members are found\<close>

text \<open>One member of the loop: the key and the value are read, and what follows decides.\<close>

definition member_text :: "bytes \<times> json \<Rightarrow> bytes" where
  "member_text kv = json_quote (fst kv) @ 58 # print_json (snd kv)"

lemma find_member_step:
  assumes "value_end rest"
  shows "find_member key (member_text (k, v) @ rest) =
    (if k = key then Some (json_text v)
     else if skip_ws rest \<noteq> [] \<and> hd (skip_ws rest) = 44 then find_member key (tl (skip_ws rest))
     else None)"
proof -
  have start: "skip_ws (member_text (k, v) @ rest) = json_quote k @ 58 # print_json v @ rest"
    by (simp add: member_text_def)
  have quote: "json_quote k @ t \<noteq> []" "hd (json_quote k @ t) = 34" for t
    by (simp_all add: json_quote_def)
  have content: "map_option fst (parse_json_string (print_json v @ rest)) = Some (json_text v)"
    if quoted: "hd (print_json v @ rest) = 34"
  proof -
    obtain s where "v = JString s"
      by (rule print_json_hd [of v]) (use quoted in auto)
    then show ?thesis by simp
  qed
  have raw: "json_text v = print_json v" if "hd (print_json v @ rest) \<noteq> 34"
    using that by (cases v) (auto simp: json_quote_def)
  have nonempty: "print_json v \<noteq> []"
    by (rule print_json_hd [of v]) simp
  show ?thesis
    by (subst find_member.simps)
      (simp add: start quote json_ws_def skip_json_value_print [OF assms] content raw nonempty Let_def)
qed

lemma value_end_comma [simp]: "value_end (44 # t)" and value_end_brace [simp]: "value_end (125 # t)"
  by (simp_all add: value_end_def digit_byte_def)

lemma find_member_print:
  "find_member key (commas (map member_text ms) @ 125 # rest) = map_option json_text (map_of ms key)"
proof (induction "map member_text ms" arbitrary: ms rule: commas.induct)
  case 1
  then show ?case
    by (subst find_member.simps) (simp add: json_ws_def)
next
  case (2 t)
  then obtain k v where "ms = [(k, v)]"
    by (cases ms) auto
  then show ?case
    by (simp add: find_member_step json_ws_def)
next
  case (3 t u ts)
  then obtain k v ms' where ms: "ms = (k, v) # ms'" "u # ts = map member_text ms'"
    by (cases ms) auto
  have "commas (map member_text ms) @ 125 # rest =
      member_text (k, v) @ 44 # commas (map member_text ms') @ 125 # rest"
    by (simp add: ms(1) ms(2) [symmetric])
  with "3.hyps"(1) [OF ms(2)] ms(1) show ?case
    by (simp add: find_member_step json_ws_def)
qed

lemma print_json_object: "print_json (JObject ms) = 123 # commas (map member_text ms) @ [125]"
  by (simp add: member_text_def case_prod_unfold cong: map_cong)

text \<open>
  C27. The search in the text of an object returns its first member with the key: a string by its
  content, any other value by its text.  Neither a key or a value inside another value, nor text
  inside a string, is ever taken for a member.
\<close>

theorem json_get_member:
  "json_get_string (print_json (JObject ms) @ rest) key = map_option json_text (map_of ms key)"
  unfolding print_json_object
  by (simp add: json_get_string_def json_ws_def find_member_print)

section \<open>Numbers\<close>

lemma dropWhile_absent: "c \<notin> set s \<Longrightarrow> dropWhile (\<lambda>x. x = c) s = s"
  by (cases s) auto

lemma trim_blanks_to_string [simp]: "trim_blanks (to_string i) = to_string i"
proof -
  have "32 \<notin> set (to_string i)"
    using to_string_chars [of 32 i] by (auto simp: digit_byte_def)
  then show ?thesis by (simp add: trim_blanks_def dropWhile_absent)
qed

lemma json_get_number_member:
  assumes "map_of ms key = Some (JNumber i)" and "- (2 ^ 63) \<le> i" and "i < 2 ^ 63"
  shows "json_get_number (print_json (JObject ms) @ rest) key = Some i"
  using assms json_get_member [of ms rest key] by (simp add: json_get_number_def stoll_def sto_int_to_string)

text \<open>
  A code point outside the basic plane is written in JSON as two escapes, a surrogate pair.  The
  reader encodes each half by itself, which is not UTF-8.
\<close>

theorem surrogate_pair_not_utf8:
  "parse_json_string (34 # 92 # lit ''ud83d'' @ 92 # lit ''ude00'' @ [34]) =
     Some ([0xED, 0xA0, 0xBD, 0xED, 0xB8, 0x80], [])
   \<and> \<not> is_valid_utf8 [0xED, 0xA0, 0xBD, 0xED, 0xB8, 0x80]"
  by code_simp

end
