(* ===== verification/Jwt.thy ===== *)
theory Jwt
  imports Json
begin

text \<open>
  The token validator (\<open>src/src/jwt_validator.cpp\<close>, \<open>src/include/jwt_validator.hpp\<close>): splitting
  a token, base64url, the three signature checks, and the checks of the claims in their order.

  OpenSSL is a parameter (\<open>jwt_crypto\<close>): \<open>EVP_DecodeBlock\<close> gives the bytes it wrote or fails,
  \<open>HMAC\<close> gives a digest or fails, reading a public key may fail, the verification of a
  digest says yes or no (every failure to set it up is a no), and the conversion of a raw
  signature to DER may fail.  Clocks are integers of seconds.
\<close>

section \<open>Data\<close>

record 'k jwt_crypto =
  EVP_DecodeBlock :: "bytes \<Rightarrow> bytes option"
  HMAC_sha256 :: "bytes \<Rightarrow> bytes \<Rightarrow> bytes option"
  read_PUBKEY :: "bytes \<Rightarrow> 'k option"
  DigestVerify_sha256 :: "'k \<Rightarrow> bytes \<Rightarrow> bytes \<Rightarrow> bool"
  ECDSA_der :: "bytes \<Rightarrow> bytes \<Rightarrow> bytes option"

record jwt_claims =
  subject :: bytes
  issuer :: bytes
  audience :: bytes
  issued_at :: int
  expires_at :: int
  not_before :: int
  jti :: bytes
  custom :: "bytes smap"

definition no_claims :: jwt_claims where
  "no_claims =
     \<lparr>subject = [], issuer = [], audience = [], issued_at = 0, expires_at = 0, not_before = 0,
      jti = [], custom = []\<rparr>"

record validation_result =
  valid :: bool
  jwt_error :: bytes
  claims :: jwt_claims

definition result_init :: validation_result where
  "result_init = \<lparr>valid = False, jwt_error = [], claims = no_claims\<rparr>"

record jwt_config =
  hmac_secret :: bytes
  public_key_pem :: bytes
  required_issuer :: bytes
  required_audience :: bytes
  clock_skew :: int
  allowed_algorithms :: "bytes list"

definition jwt_config_default :: jwt_config where
  "jwt_config_default =
     \<lparr>hmac_secret = [], public_key_pem = [], required_issuer = [], required_audience = [],
      clock_skew = 60, allowed_algorithms = [lit ''HS256'', lit ''RS256'', lit ''ES256'']\<rparr>"

section \<open>The parts of a token\<close>

definition extract_bearer_token :: "bytes \<Rightarrow> bytes option" where
  "extract_bearer_token auth_header =
     (let prefix = lit ''Bearer ''
      in if length prefix < length auth_header \<and> take (length prefix) auth_header = prefix
         then Some (drop (length prefix) auth_header) else None)"

definition split_token :: "bytes \<Rightarrow> (bytes \<times> bytes \<times> bytes) option" where
  "split_token token =
     (case find_sub [46] token of
        None \<Rightarrow> None
      | Some dot1 \<Rightarrow>
          (case find_from [46] (dot1 + 1) token of
             None \<Rightarrow> None
           | Some dot2 \<Rightarrow>
               if find_from [46] (dot2 + 1) token \<noteq> None then None
               else Some (take dot1 token, take (dot2 - dot1 - 1) (drop (dot1 + 1) token),
                          drop (dot2 + 1) token)))"

text \<open>
  Base64url to base64: the two characters that differ, padding up to a multiple of four, and
  the padding bytes cut from what \<open>EVP_DecodeBlock\<close> wrote.  It writes three bytes for four
  characters, so there is something to cut whenever the text ends in a padding character.
\<close>

definition b64_char :: "byte \<Rightarrow> byte" where
  "b64_char c = (if c = 45 then 43 else if c = 95 then 47 else c)"

definition add_padding :: "bytes \<Rightarrow> bytes" where
  "add_padding b64 = b64 @ replicate ((4 - length b64 mod 4) mod 4) 61"

definition padding_of :: "bytes \<Rightarrow> nat" where
  "padding_of b64 =
     (if 2 \<le> length b64 \<and> b64 ! (length b64 - 1) = 61 then 1 else 0)
     + (if 2 \<le> length b64 \<and> b64 ! (length b64 - 2) = 61 then 1 else 0)"

definition base64url_decode :: "'k jwt_crypto \<Rightarrow> bytes \<Rightarrow> bytes option" where
  "base64url_decode ssl input =
     (let b64 = add_padding (map b64_char input)
      in case EVP_DecodeBlock ssl b64 of
           None \<Rightarrow> None
         | Some output \<Rightarrow> Some (take (length output - padding_of b64) output))"

section \<open>Signatures\<close>

text \<open>A failed \<open>HMAC\<close> leaves \<open>mac_len\<close> at zero.\<close>

definition verify_hs256 :: "'k jwt_crypto \<Rightarrow> jwt_config \<Rightarrow> bytes \<Rightarrow> bytes \<Rightarrow> bool" where
  "verify_hs256 ssl cfg signing_input signature =
     (if hmac_secret cfg = [] then False
      else let mac = (case HMAC_sha256 ssl (hmac_secret cfg) signing_input of None \<Rightarrow> [] | Some m \<Rightarrow> m)
           in case base64url_decode ssl signature of
                None \<Rightarrow> False
              | Some decoded_sig \<Rightarrow> if length decoded_sig \<noteq> length mac then False else mac = decoded_sig)"

definition verify_rs256 :: "'k jwt_crypto \<Rightarrow> jwt_config \<Rightarrow> bytes \<Rightarrow> bytes \<Rightarrow> bool" where
  "verify_rs256 ssl cfg signing_input signature =
     (if public_key_pem cfg = [] then False
      else case base64url_decode ssl signature of
             None \<Rightarrow> False
           | Some decoded_sig \<Rightarrow>
               (case read_PUBKEY ssl (public_key_pem cfg) of
                  None \<Rightarrow> False
                | Some pkey \<Rightarrow> DigestVerify_sha256 ssl pkey signing_input decoded_sig))"

definition verify_es256 :: "'k jwt_crypto \<Rightarrow> jwt_config \<Rightarrow> bytes \<Rightarrow> bytes \<Rightarrow> bool" where
  "verify_es256 ssl cfg signing_input signature =
     (if public_key_pem cfg = [] then False
      else case base64url_decode ssl signature of
             None \<Rightarrow> False
           | Some decoded_sig \<Rightarrow>
               if length decoded_sig \<noteq> 64 then False
               else (case read_PUBKEY ssl (public_key_pem cfg) of
                       None \<Rightarrow> False
                     | Some pkey \<Rightarrow>
                         (case ECDSA_der ssl (take 32 decoded_sig) (drop 32 decoded_sig) of
                            None \<Rightarrow> False
                          | Some der_sig \<Rightarrow> DigestVerify_sha256 ssl pkey signing_input der_sig)))"

definition signature_valid :: "'k jwt_crypto \<Rightarrow> jwt_config \<Rightarrow> bytes \<Rightarrow> bytes \<Rightarrow> bytes \<Rightarrow> bool" where
  "signature_valid ssl cfg alg signing_input signature =
     (if alg = lit ''HS256'' then verify_hs256 ssl cfg signing_input signature
      else if alg = lit ''RS256'' then verify_rs256 ssl cfg signing_input signature
      else if alg = lit ''ES256'' then verify_es256 ssl cfg signing_input signature
      else False)"

section \<open>Validation\<close>

text \<open>
  Times are \<open>int64_t\<close>.  Their sum with the skew is taken modulo \<open>2^64\<close>, as the machine adds
  them; the language leaves an overflow undefined.
\<close>

definition int64 :: "int \<Rightarrow> int" where
  "int64 i = (i + 2 ^ 63) mod 2 ^ 64 - 2 ^ 63"

definition or_default :: "'a \<Rightarrow> 'a option \<Rightarrow> 'a" where
  "or_default d x = (case x of None \<Rightarrow> d | Some v \<Rightarrow> v)"

definition parse_claims :: "bytes \<Rightarrow> jwt_claims" where
  "parse_claims payload_json =
     \<lparr>subject = or_default [] (json_get_string payload_json (lit ''sub'')),
      issuer = or_default [] (json_get_string payload_json (lit ''iss'')),
      audience = or_default [] (json_get_string payload_json (lit ''aud'')),
      issued_at = or_default 0 (json_get_number payload_json (lit ''iat'')),
      expires_at = or_default 0 (json_get_number payload_json (lit ''exp'')),
      not_before = or_default 0 (json_get_number payload_json (lit ''nbf'')),
      jti = or_default [] (json_get_string payload_json (lit ''jti'')),
      custom = []\<rparr>"

definition check_claims :: "jwt_config \<Rightarrow> int \<Rightarrow> jwt_claims \<Rightarrow> validation_result" where
  "check_claims cfg now_ts cl =
     (let result = result_init\<lparr>claims := cl\<rparr>
      in if 0 < expires_at cl \<and> int64 (expires_at cl + clock_skew cfg) < now_ts
         then result\<lparr>jwt_error := lit ''Token expired''\<rparr>
         else if 0 < not_before cl \<and> now_ts < int64 (not_before cl - clock_skew cfg)
         then result\<lparr>jwt_error := lit ''Token not yet valid''\<rparr>
         else if required_issuer cfg \<noteq> [] \<and> issuer cl \<noteq> required_issuer cfg
         then result\<lparr>jwt_error := lit ''Invalid issuer: '' @ issuer cl\<rparr>
         else if required_audience cfg \<noteq> [] \<and> audience cl \<noteq> required_audience cfg
         then result\<lparr>jwt_error := lit ''Invalid audience: '' @ audience cl\<rparr>
         else result\<lparr>valid := True\<rparr>)"

definition validate :: "'k jwt_crypto \<Rightarrow> jwt_config \<Rightarrow> int \<Rightarrow> bytes \<Rightarrow> validation_result" where
  "validate ssl cfg now_ts token =
     (case split_token token of
        None \<Rightarrow> result_init\<lparr>jwt_error := lit ''Invalid token format''\<rparr>
      | Some (header_b64, payload_b64, signature_b64) \<Rightarrow>
          (case base64url_decode ssl header_b64 of
             None \<Rightarrow> result_init\<lparr>jwt_error := lit ''Invalid header encoding''\<rparr>
           | Some header_json \<Rightarrow>
               (case json_get_string header_json (lit ''alg'') of
                  None \<Rightarrow> result_init\<lparr>jwt_error := lit ''Missing algorithm''\<rparr>
                | Some alg \<Rightarrow>
                    if alg \<notin> set (allowed_algorithms cfg)
                    then result_init\<lparr>jwt_error := lit ''Algorithm not allowed: '' @ alg\<rparr>
                    else if \<not> signature_valid ssl cfg alg (header_b64 @ 46 # payload_b64) signature_b64
                    then result_init\<lparr>jwt_error := lit ''Invalid signature''\<rparr>
                    else (case base64url_decode ssl payload_b64 of
                            None \<Rightarrow> result_init\<lparr>jwt_error := lit ''Invalid payload encoding''\<rparr>
                          | Some payload_json \<Rightarrow>
                              check_claims cfg now_ts (parse_claims payload_json)))))"

section \<open>Splitting\<close>

lemma split_token_joined:
  assumes "46 \<notin> set h" and "46 \<notin> set p" and "46 \<notin> set s"
  shows "split_token (h @ 46 # p @ 46 # s) = Some (h, p, s)"
proof -
  have "find_from [46] (length h + 1) (h @ 46 # p @ 46 # s) = Some (length h + 1 + length p)"
    using assms(2) by (simp add: find_from_def find_sub_single_append)
  moreover have "find_from [46] (length h + 1 + length p + 1) (h @ 46 # p @ 46 # s) = None"
    using assms(3) by (simp add: find_from_def find_sub_single_None)
  ultimately show ?thesis
    using assms(1) by (simp add: split_token_def find_sub_single_append)
qed

lemma find_single_split:
  assumes "find_sub [c] s = Some i"
  shows "s = take i s @ c # drop (i + 1) s"
proof -
  have "i < length s" "s ! i = c"
    using find_sub_SomeD [OF assms] by (auto simp: hd_drop_conv_nth)
  then show ?thesis
    by (metis Suc_eq_plus1 id_take_nth_drop)
qed

lemma split_token_SomeD:
  assumes "split_token token = Some (h, p, s)"
  shows "token = h @ 46 # p @ 46 # s"
proof -
  from assms obtain d1 d2 where d: "find_sub [46] token = Some d1"
    "find_from [46] (d1 + 1) token = Some d2"
    "h = take d1 token" "p = take (d2 - d1 - 1) (drop (d1 + 1) token)" "s = drop (d2 + 1) token"
    by (auto simp: split_token_def split: option.splits if_splits)
  from d(2) obtain e where e: "find_sub [46] (drop (d1 + 1) token) = Some e" "d2 = d1 + 1 + e"
    by (auto simp: find_from_def split: if_splits)
  have "drop (d1 + 1) token = p @ 46 # s"
    using find_single_split [OF e(1)] by (simp add: d e(2) add.commute)
  with find_single_split [OF d(1)] d(3) show ?thesis by simp
qed

section \<open>What an accepted token guarantees\<close>

text \<open>The claims a request may be served under, with the times as they are meant.\<close>

definition in_force :: "jwt_config \<Rightarrow> int \<Rightarrow> jwt_claims \<Rightarrow> bool" where
  "in_force cfg now cl \<longleftrightarrow>
     (expires_at cl \<le> 0 \<or> now \<le> expires_at cl + clock_skew cfg)
     \<and> (not_before cl \<le> 0 \<or> not_before cl - clock_skew cfg \<le> now)
     \<and> (required_issuer cfg = [] \<or> issuer cl = required_issuer cfg)
     \<and> (required_audience cfg = [] \<or> audience cl = required_audience cfg)"

lemma int64_id: "- (2 ^ 63) \<le> i \<Longrightarrow> i < 2 ^ 63 \<Longrightarrow> int64 i = i"
  by (simp add: int64_def)

lemma int64_le: "- (2 ^ 63) \<le> i \<Longrightarrow> int64 i \<le> i"
proof -
  assume "- (2 ^ 63) \<le> i"
  then have "0 \<le> i + 2 ^ 63" by simp
  then have "(i + 2 ^ 63) mod 2 ^ 64 \<le> i + 2 ^ 63"
    by (rule zmod_le_nonneg_dividend)
  then show ?thesis by (simp add: int64_def)
qed

definition valid_skew :: "jwt_config \<Rightarrow> bool" where
  "valid_skew cfg \<longleftrightarrow> 0 \<le> clock_skew cfg \<and> clock_skew cfg < 2 ^ 63"

definition int64_times :: "jwt_claims \<Rightarrow> bool" where
  "int64_times cl \<longleftrightarrow> - (2 ^ 63) \<le> expires_at cl \<and> expires_at cl < 2 ^ 63
     \<and> - (2 ^ 63) \<le> not_before cl \<and> not_before cl < 2 ^ 63"

lemma parse_claims_times: "int64_times (parse_claims json)"
  by (auto simp: int64_times_def parse_claims_def or_default_def json_get_number_def stoll_def
      split: option.splits sum.splits dest: sto_int_range)

lemma check_claims_cases:
  "claims (check_claims cfg now cl) = cl"
  "valid (check_claims cfg now cl) \<longleftrightarrow>
     \<not> (0 < expires_at cl \<and> int64 (expires_at cl + clock_skew cfg) < now)
     \<and> \<not> (0 < not_before cl \<and> now < int64 (not_before cl - clock_skew cfg))
     \<and> (required_issuer cfg = [] \<or> issuer cl = required_issuer cfg)
     \<and> (required_audience cfg = [] \<or> audience cl = required_audience cfg)"
  by (simp_all add: check_claims_def result_init_def Let_def)

lemma check_claims_sound:
  assumes "valid_skew cfg" and "int64_times cl" and "valid (check_claims cfg now cl)"
  shows "in_force cfg now cl"
proof -
  have "int64 (expires_at cl + clock_skew cfg) \<le> expires_at cl + clock_skew cfg"
    using assms(1,2) by (intro int64_le) (simp add: valid_skew_def int64_times_def)
  moreover have "int64 (not_before cl - clock_skew cfg) = not_before cl - clock_skew cfg"
    if "0 < not_before cl"
    using assms(1,2) that by (intro int64_id) (simp_all add: valid_skew_def int64_times_def)
  ultimately show ?thesis
    using assms(3) by (auto simp: check_claims_cases in_force_def)
qed

lemma check_claims_complete:
  assumes "valid_skew cfg" and "int64_times cl" and "expires_at cl + clock_skew cfg < 2 ^ 63"
    and "in_force cfg now cl"
  shows "valid (check_claims cfg now cl)"
proof -
  have "int64 (expires_at cl + clock_skew cfg) = expires_at cl + clock_skew cfg"
    using assms(1-3) by (intro int64_id) (simp_all add: valid_skew_def int64_times_def)
  moreover have "int64 (not_before cl - clock_skew cfg) = not_before cl - clock_skew cfg"
    if "0 < not_before cl"
    using assms(1,2) that by (intro int64_id) (simp_all add: valid_skew_def int64_times_def)
  ultimately show ?thesis
    using assms(4) by (auto simp: check_claims_cases in_force_def)
qed

lemma not_valid_init [simp]: "\<not> valid (result_init\<lparr>jwt_error := e\<rparr>)"
  by (simp add: result_init_def)

text \<open>
  C4. A token that is accepted has three parts; its header names an allowed algorithm that the
  validator implements; its signature was verified over exactly the first two parts; and the
  claims that are returned are those of the signed payload and are in force.
\<close>

theorem jwt_accepted:
  assumes "valid (validate ssl cfg now token)" and "valid_skew cfg"
  shows "\<exists>h p s header alg payload.
    token = h @ 46 # p @ 46 # s
    \<and> base64url_decode ssl h = Some header \<and> json_get_string header (lit ''alg'') = Some alg
    \<and> alg \<in> set (allowed_algorithms cfg) \<and> alg \<in> {lit ''HS256'', lit ''RS256'', lit ''ES256''}
    \<and> signature_valid ssl cfg alg (h @ 46 # p) s
    \<and> base64url_decode ssl p = Some payload
    \<and> claims (validate ssl cfg now token) = parse_claims payload
    \<and> in_force cfg now (parse_claims payload)"
proof -
  from assms(1) obtain h p s header alg payload where
    v: "split_token token = Some (h, p, s)" "base64url_decode ssl h = Some header"
      "json_get_string header (lit ''alg'') = Some alg" "alg \<in> set (allowed_algorithms cfg)"
      "signature_valid ssl cfg alg (h @ 46 # p) s" "base64url_decode ssl p = Some payload"
    by (auto simp: validate_def split: option.splits if_splits)
  then have r: "validate ssl cfg now token = check_claims cfg now (parse_claims payload)"
    by (simp add: validate_def)
  have "alg \<in> {lit ''HS256'', lit ''RS256'', lit ''ES256''}"
    using v(5) by (auto simp: signature_valid_def split: if_splits)
  moreover have "in_force cfg now (parse_claims payload)"
    using check_claims_sound [OF assms(2) parse_claims_times] assms(1) r by simp
  ultimately show ?thesis
    using split_token_SomeD [OF v(1)] v r check_claims_cases(1) by metis
qed

section \<open>Base64\<close>

text \<open>
  Base64url as RFC 4648 defines it, and what the manual of OpenSSL promises of
  \<open>EVP_DecodeBlock\<close>: on padded base64 it gives the data, with zero bytes in place of the
  padding.
\<close>

definition b64url_digit :: "nat \<Rightarrow> byte" where
  "b64url_digit d =
     (if d < 26 then of_nat (65 + d) else if d < 52 then of_nat (71 + d)
      else if d < 62 then of_nat (d - 4) else if d = 62 then 45 else 95)"

definition sextets :: "byte \<Rightarrow> byte \<Rightarrow> byte \<Rightarrow> nat list" where
  "sextets a b c =
     (let n = unat a * 65536 + unat b * 256 + unat c
      in [n div 262144, n div 4096 mod 64, n div 64 mod 64, n mod 64])"

fun b64url_encode :: "bytes \<Rightarrow> bytes" where
  "b64url_encode [] = []"
| "b64url_encode [a] = map b64url_digit (take 2 (sextets a 0 0))"
| "b64url_encode [a, b] = map b64url_digit (take 3 (sextets a b 0))"
| "b64url_encode (a # b # c # data) = map b64url_digit (sextets a b c) @ b64url_encode data"

fun b64_encode :: "bytes \<Rightarrow> bytes" where
  "b64_encode [] = []"
| "b64_encode [a] = map (b64_char \<circ> b64url_digit) (take 2 (sextets a 0 0)) @ [61, 61]"
| "b64_encode [a, b] = map (b64_char \<circ> b64url_digit) (take 3 (sextets a b 0)) @ [61]"
| "b64_encode (a # b # c # data) = map (b64_char \<circ> b64url_digit) (sextets a b c) @ b64_encode data"

definition pad_count :: "bytes \<Rightarrow> nat" where
  "pad_count data = (3 - length data mod 3) mod 3"

definition decodes_base64 :: "'k jwt_crypto \<Rightarrow> bool" where
  "decodes_base64 ssl \<longleftrightarrow>
     (\<forall>data. EVP_DecodeBlock ssl (b64_encode data) = Some (data @ replicate (pad_count data) 0))"

lemma length_sextets [simp]: "length (sextets a b c) = 4"
  by (simp add: sextets_def Let_def)

lemma sextets_less: "d \<in> set (sextets a b c) \<Longrightarrow> d < 64"
proof -
  have "unat a * 65536 + unat b * 256 + unat c < 64 * 262144"
    using unat_byte_less [of a] unat_byte_less [of b] unat_byte_less [of c] by simp
  then have "(unat a * 65536 + unat b * 256 + unat c) div 262144 < 64"
    by (simp only: div_less_iff_less_mult)
  then show "d \<in> set (sextets a b c) \<Longrightarrow> d < 64"
    by (auto simp: sextets_def Let_def)
qed

lemma b64url_digit_facts: "d < 64 \<Longrightarrow> b64url_digit d \<noteq> 46 \<and> b64_char (b64url_digit d) \<noteq> 61"
proof -
  have all: "\<forall>d \<in> set [0..<64]. b64url_digit d \<noteq> 46 \<and> b64_char (b64url_digit d) \<noteq> 61"
    by code_simp
  show "d < 64 \<Longrightarrow> b64url_digit d \<noteq> 46 \<and> b64_char (b64url_digit d) \<noteq> 61"
    using bspec [OF all, of d] by simp
qed

lemma no_dot_in_b64url: "46 \<notin> set (b64url_encode data)"
proof (induction data rule: b64url_encode.induct)
  case (2 a)
  then show ?case
    using b64url_digit_facts sextets_less [of _ a 0 0] by (force dest!: in_set_takeD)
next
  case (3 a b)
  then show ?case
    using b64url_digit_facts sextets_less [of _ a b 0] by (force dest!: in_set_takeD)
next
  case (4 a b c data)
  then show ?case
    using b64url_digit_facts sextets_less [of _ a b c] by force
qed simp

lemma add_padding_quad: "length q = 4 \<Longrightarrow> add_padding (q @ s) = q @ add_padding s"
  by (simp add: add_padding_def)

lemma add_padding_b64url: "add_padding (map b64_char (b64url_encode data)) = b64_encode data"
proof (induction data rule: b64url_encode.induct)
  case (4 a b c data)
  then show ?case
    by (simp add: add_padding_quad)
qed (simp_all add: add_padding_def numeral_2_eq_2)

lemma padding_of_quad: "2 \<le> length s \<Longrightarrow> padding_of (q @ s) = padding_of s"
proof -
  assume s: "2 \<le> length s"
  have "(q @ s) ! (length (q @ s) - k) = s ! (length s - k)" if "0 < k" "k \<le> 2" for k
  proof -
    have "length (q @ s) - k = length q + (length s - k)"
      using s that by simp
    then show ?thesis by (simp only: nth_append_length_plus)
  qed
  from this [of 1] this [of 2] s show ?thesis
    by (simp add: padding_of_def)
qed

lemma sextets_last:
  "b64_char (b64url_digit (sextets a b c ! 3)) \<noteq> 61" "b64_char (b64url_digit (sextets a b c ! 2)) \<noteq> 61"
  "b64_char (b64url_digit (sextets a b c ! 1)) \<noteq> 61"
  using b64url_digit_facts [OF sextets_less [OF nth_mem]] by simp_all

lemma pad_count_quad: "pad_count (a # b # c # data) = pad_count data"
proof -
  have "length (a # b # c # data) mod 3 = length data mod 3"
    using mod_add_self2 [of "length data" 3] by (simp add: add.commute)
  then show ?thesis by (simp only: pad_count_def)
qed

lemma padding_of_b64: "padding_of (b64_encode data) = pad_count data"
proof (induction data rule: b64_encode.induct)
  case 1
  then show ?case by (simp add: padding_of_def pad_count_def)
next
  case (2 a)
  then show ?case by (simp add: padding_of_def pad_count_def nth_append)
next
  case (3 a b)
  then show ?case
    by (simp add: padding_of_def pad_count_def nth_append sextets_last)
next
  case (4 a b c data)
  show ?case
  proof (cases "data = []")
    case True
    then show ?thesis
      by (simp add: padding_of_def pad_count_def sextets_last)
  next
    case False
    then have "2 \<le> length (b64_encode data)"
      by (cases data rule: b64_encode.cases) simp_all
    with 4 show ?thesis
      by (simp add: padding_of_quad pad_count_quad)
  qed
qed

lemma base64url_decode_encode:
  assumes "decodes_base64 ssl"
  shows "base64url_decode ssl (b64url_encode data) = Some data"
  using assms
  by (simp add: base64url_decode_def add_padding_b64url decodes_base64_def padding_of_b64)

section \<open>Tokens that were issued\<close>

text \<open>A token as an issuer builds it: printed header and payload, encoded, and a signature.\<close>

definition signing_input :: "(bytes \<times> json) list \<Rightarrow> (bytes \<times> json) list \<Rightarrow> bytes" where
  "signing_input header payload =
     b64url_encode (print_json (JObject header)) @ 46 # b64url_encode (print_json (JObject payload))"

definition text_claim :: "(bytes \<times> json) list \<Rightarrow> string \<Rightarrow> bytes" where
  "text_claim ms key = or_default [] (map_option json_text (map_of ms (lit key)))"

definition time_claim :: "(bytes \<times> json) list \<Rightarrow> string \<Rightarrow> int" where
  "time_claim ms key = (case map_of ms (lit key) of Some (JNumber i) \<Rightarrow> i | _ \<Rightarrow> 0)"

definition claims_of :: "(bytes \<times> json) list \<Rightarrow> jwt_claims" where
  "claims_of ms =
     \<lparr>subject = text_claim ms ''sub'', issuer = text_claim ms ''iss'', audience = text_claim ms ''aud'',
      issued_at = time_claim ms ''iat'', expires_at = time_claim ms ''exp'',
      not_before = time_claim ms ''nbf'', jti = text_claim ms ''jti'', custom = []\<rparr>"

definition time_ok :: "(bytes \<times> json) list \<Rightarrow> string \<Rightarrow> bool" where
  "time_ok ms key =
     (case map_of ms (lit key) of
        None \<Rightarrow> True
      | Some (JNumber i) \<Rightarrow> - (2 ^ 63) \<le> i \<and> i < 2 ^ 63
      | _ \<Rightarrow> False)"

lemma json_get_text_claim:
  "or_default [] (json_get_string (print_json (JObject ms)) (lit key)) = text_claim ms key"
  using json_get_member [of ms "[]" "lit key"] by (simp add: text_claim_def)

lemma json_get_time_claim:
  assumes "time_ok ms key"
  shows "or_default 0 (json_get_number (print_json (JObject ms)) (lit key)) = time_claim ms key"
proof (cases "map_of ms (lit key)")
  case None
  then show ?thesis
    using json_get_member [of ms "[]" "lit key"]
    by (simp add: json_get_number_def or_default_def time_claim_def)
next
  case (Some v)
  with assms obtain i where "v = JNumber i" "- (2 ^ 63) \<le> i" "i < 2 ^ 63"
    by (cases v) (auto simp: time_ok_def)
  with Some json_get_number_member [of ms "lit key" i "[]"] show ?thesis
    by (simp add: or_default_def time_claim_def)
qed

lemma parse_claims_print:
  assumes "time_ok ms ''iat''" and "time_ok ms ''exp''" and "time_ok ms ''nbf''"
  shows "parse_claims (print_json (JObject ms)) = claims_of ms"
  unfolding parse_claims_def claims_of_def json_get_text_claim
  by (simp only: json_get_time_claim [OF assms(1)] json_get_time_claim [OF assms(2)]
      json_get_time_claim [OF assms(3)])

lemma verify_hs256_issued:
  assumes "decodes_base64 ssl" and "hmac_secret cfg \<noteq> []"
    and "HMAC_sha256 ssl (hmac_secret cfg) input = Some mac"
  shows "verify_hs256 ssl cfg input (b64url_encode mac)"
  using assms by (simp add: verify_hs256_def base64url_decode_encode)

lemma validate_issued:
  assumes "decodes_base64 ssl" and "hmac_secret cfg \<noteq> []"
    and "lit ''HS256'' \<in> set (allowed_algorithms cfg)"
    and "map_of header (lit ''alg'') = Some (JString (lit ''HS256''))"
    and "HMAC_sha256 ssl (hmac_secret cfg) (signing_input header payload) = Some mac"
    and "time_ok payload ''iat''" and "time_ok payload ''exp''" and "time_ok payload ''nbf''"
  shows "validate ssl cfg now (signing_input header payload @ 46 # b64url_encode mac)
      = check_claims cfg now (claims_of payload)"
proof -
  define h where "h = b64url_encode (print_json (JObject header))"
  define p where "p = b64url_encode (print_json (JObject payload))"
  have split: "split_token (signing_input header payload @ 46 # b64url_encode mac) = Some (h, p, b64url_encode mac)"
    unfolding signing_input_def h_def p_def append_assoc append_Cons
    by (rule split_token_joined) (rule no_dot_in_b64url)+
  have dec: "base64url_decode ssl h = Some (print_json (JObject header))"
    "base64url_decode ssl p = Some (print_json (JObject payload))"
    unfolding h_def p_def by (rule base64url_decode_encode [OF assms(1)])+
  have alg: "json_get_string (print_json (JObject header)) (lit ''alg'') = Some (lit ''HS256'')"
    using json_get_member [of header "[]" "lit ''alg''"] assms(4) by simp
  have "signature_valid ssl cfg (lit ''HS256'') (h @ 46 # p) (b64url_encode mac)"
    using verify_hs256_issued [OF assms(1,2,5)]
    by (simp add: signature_valid_def signing_input_def h_def p_def)
  then show ?thesis
    unfolding validate_def split
    by (simp add: dec alg assms(3) parse_claims_print [OF assms(6-8)] del: print_json.simps)
qed

text \<open>
  C26. A token that is signed with the shared secret is read back: the claims are those of the
  payload, whatever other members it has and in whatever order, and the token is accepted
  exactly as long as they are in force.  (The times of the payload are numbers of the range of the code's integers, and the expiry with the
  allowed skew is below \<open>2^63\<close>.)
\<close>

theorem jwt_issued:
  assumes "decodes_base64 ssl" and "hmac_secret cfg \<noteq> []"
    and "lit ''HS256'' \<in> set (allowed_algorithms cfg)"
    and "map_of header (lit ''alg'') = Some (JString (lit ''HS256''))"
    and "HMAC_sha256 ssl (hmac_secret cfg) (signing_input header payload) = Some mac"
    and "time_ok payload ''iat''" and "time_ok payload ''exp''" and "time_ok payload ''nbf''"
    and "valid_skew cfg" and "time_claim payload ''exp'' + clock_skew cfg < 2 ^ 63"
  shows "claims (validate ssl cfg now (signing_input header payload @ 46 # b64url_encode mac)) = claims_of payload
    \<and> (valid (validate ssl cfg now (signing_input header payload @ 46 # b64url_encode mac))
        \<longleftrightarrow> in_force cfg now (claims_of payload))"
proof -
  have times: "int64_times (claims_of payload)"
    using parse_claims_times [of "print_json (JObject payload)"] parse_claims_print [OF assms(6-8)] by simp
  have e: "expires_at (claims_of payload) + clock_skew cfg < 2 ^ 63"
    using assms(10) by (simp add: claims_of_def)
  show ?thesis
    unfolding validate_issued [OF assms(1-8)]
    using check_claims_sound [OF assms(9) times] check_claims_complete [OF assms(9) times e]
    by (auto simp: check_claims_cases(1))
qed

section \<open>A concrete decoder\<close>

text \<open>A base64 decoder and a stand-in for the digest, to run the validator on concrete tokens.\<close>

definition b64_value :: "byte \<Rightarrow> nat option" where
  "b64_value c =
     (if c = 61 then Some 0
      else if 65 \<le> c \<and> c \<le> 90 then Some (unat c - 65)
      else if 97 \<le> c \<and> c \<le> 122 then Some (unat c - 71)
      else if 48 \<le> c \<and> c \<le> 57 then Some (unat c + 4)
      else if c = 43 then Some 62 else if c = 47 then Some 63 else None)"

fun decode_quads :: "bytes \<Rightarrow> bytes option" where
  "decode_quads [] = Some []"
| "decode_quads (w # x # y # z # rest) =
     (case (b64_value w, b64_value x, b64_value y, b64_value z) of
        (Some a, Some b, Some c, Some d) \<Rightarrow>
          (let n = a * 262144 + b * 4096 + c * 64 + d
           in map_option (\<lambda>r. of_nat (n div 65536) # of_nat (n div 256 mod 256) # of_nat (n mod 256) # r)
                (decode_quads rest))
      | _ \<Rightarrow> None)"
| "decode_quads _ = None"

definition sample_crypto :: "unit jwt_crypto" where
  "sample_crypto =
     \<lparr>EVP_DecodeBlock = decode_quads, HMAC_sha256 = (\<lambda>key data. Some (key @ take 2 (rev data))),
      read_PUBKEY = (\<lambda>pem. None), DigestVerify_sha256 = (\<lambda>k i s. False), ECDSA_der = (\<lambda>r s. None)\<rparr>"

lemma b64_value_digit: "d < 64 \<Longrightarrow> b64_value (b64_char (b64url_digit d)) = Some d"
proof -
  have all: "\<forall>d \<in> set [0..<64]. b64_value (b64_char (b64url_digit d)) = Some d"
    by code_simp
  show "d < 64 \<Longrightarrow> b64_value (b64_char (b64url_digit d)) = Some d"
    using bspec [OF all, of d] by simp
qed

lemma sextets_value:
  fixes n :: nat
  shows "n div 262144 * 262144 + n div 4096 mod 64 * 4096 + n div 64 mod 64 * 64 + n mod 64 = n"
proof -
  have "n mod 64 + n div 64 mod 64 * 64 = n mod 4096"
    using mod_mult2_eq [of n 64 64] by simp
  moreover have "n mod 4096 + n div 4096 mod 64 * 4096 = n mod 262144"
    using mod_mult2_eq [of n 4096 64] by simp
  ultimately show ?thesis
    using div_mult_mod_eq [of n 262144] by linarith
qed

lemma decode_quads_step:
  assumes "b64_value w = Some d1" and "b64_value x = Some d2" and "b64_value y = Some d3"
    and "b64_value z = Some d4" and "sextets a b c = [d1, d2, d3, d4]"
  shows "decode_quads (w # x # y # z # s) = map_option (\<lambda>r. a # b # c # r) (decode_quads s)"
proof -
  define n where "n = unat a * 65536 + unat b * 256 + unat c"
  have n: "d1 * 262144 + d2 * 4096 + d3 * 64 + d4 = n"
    using assms(5) sextets_value [of n] by (simp add: sextets_def n_def Let_def)
  have n': "n = (unat a * 256 + unat b) * 256 + unat c"
    by (simp add: n_def)
  have low: "n div 256 = unat a * 256 + unat b" "n mod 256 = unat c"
    unfolding n' using unat_byte_less [of c] by (simp_all only: mod_mult_self3 mod_less) simp
  have parts: "n div 65536 = unat a" "n div 256 mod 256 = unat b" "n mod 256 = unat c"
    using div_mult2_eq [of n 256 256] unat_byte_less [of b] by (simp_all add: low)
  show ?thesis
    unfolding decode_quads.simps assms(1-4) option.case prod.case Let_def n parts by simp
qed

lemma sextets_zero: "sextets a 0 0 ! 2 = 0" "sextets a 0 0 ! 3 = 0" "sextets a b 0 ! 3 = 0"
proof -
  have "unat a * 65536 = unat a * 1024 * 64" "unat a * 65536 + unat b * 256 = (unat a * 1024 + unat b * 4) * 64"
    by simp_all
  then show "sextets a 0 0 ! 2 = 0" "sextets a 0 0 ! 3 = 0" "sextets a b 0 ! 3 = 0"
    by (simp_all add: sextets_def Let_def)
qed

lemma b64_value_pad: "b64_value 61 = Some 0"
  by (simp add: b64_value_def)

lemma sextets_list: "sextets a b c = [sextets a b c ! 0, sextets a b c ! 1, sextets a b c ! 2, sextets a b c ! 3]"
  by (simp add: sextets_def Let_def)

lemma b64_value_sextet: "i < 4 \<Longrightarrow> b64_value (b64_char (b64url_digit (sextets a b c ! i))) = Some (sextets a b c ! i)"
  by (rule b64_value_digit, rule sextets_less, rule nth_mem) simp

lemma sample_decodes: "decodes_base64 sample_crypto"
proof -
  have "decode_quads (b64_encode data) = Some (data @ replicate (pad_count data) 0)" for data
  proof (induction data rule: b64_encode.induct)
    case (2 a)
    have e: "b64_encode [a] =
        [b64_char (b64url_digit (sextets a 0 0 ! 0)), b64_char (b64url_digit (sextets a 0 0 ! 1)), 61, 61]"
      by (simp add: sextets_def Let_def)
    have "decode_quads (b64_encode [a]) = map_option (\<lambda>r. a # 0 # 0 # r) (decode_quads [])"
      unfolding e
      by (rule decode_quads_step [OF b64_value_sextet b64_value_sextet _ _ sextets_list])
        (simp_all add: sextets_zero b64_value_pad)
    then show ?case
      by (simp add: pad_count_def numeral_2_eq_2)
  next
    case (3 a b)
    have e: "b64_encode [a, b] =
        [b64_char (b64url_digit (sextets a b 0 ! 0)), b64_char (b64url_digit (sextets a b 0 ! 1)),
         b64_char (b64url_digit (sextets a b 0 ! 2)), 61]"
      by (simp add: sextets_def Let_def)
    have "decode_quads (b64_encode [a, b]) = map_option (\<lambda>r. a # b # 0 # r) (decode_quads [])"
      unfolding e
      by (rule decode_quads_step [OF b64_value_sextet b64_value_sextet b64_value_sextet _ sextets_list])
        (simp_all add: sextets_zero b64_value_pad)
    then show ?case
      by (simp add: pad_count_def)
  next
    case (4 a b c data)
    have "b64_encode (a # b # c # data) = b64_char (b64url_digit (sextets a b c ! 0))
        # b64_char (b64url_digit (sextets a b c ! 1)) # b64_char (b64url_digit (sextets a b c ! 2))
        # b64_char (b64url_digit (sextets a b c ! 3)) # b64_encode data"
      by (simp add: sextets_def Let_def)
    with 4 show ?case
      using pad_count_quad [of a b c data] decode_quads_step [OF b64_value_sextet b64_value_sextet b64_value_sextet b64_value_sextet sextets_list [of a b c]]
      by simp
  qed (simp add: pad_count_def)
  then show ?thesis
    by (simp add: decodes_base64_def sample_crypto_def)
qed

definition sample_jwt_config :: jwt_config where
  "sample_jwt_config = jwt_config_default\<lparr>hmac_secret := lit ''key'', required_issuer := lit ''me''\<rparr>"

definition sample_header :: "(bytes \<times> json) list" where
  "sample_header = [(lit ''alg'', JString (lit ''HS256''))]"

definition sample_payload :: "(bytes \<times> json) list" where
  "sample_payload =
     [(lit ''x'', JObject [(lit ''iss'', JArray [JNull, JString [34, 125]])]),
      (lit ''iss'', JString (lit ''me'')), (lit ''exp'', JNumber 100)]"

definition sample_token :: bytes where
  "sample_token = signing_input sample_header sample_payload @ 46 # b64url_encode (lit ''key'' @ take 2 (rev (signing_input sample_header sample_payload)))"

lemma sample_jwt_config_facts:
  "hmac_secret sample_jwt_config \<noteq> []" "lit ''HS256'' \<in> set (allowed_algorithms sample_jwt_config)"
  "map_of sample_header (lit ''alg'') = Some (JString (lit ''HS256''))"
  "HMAC_sha256 sample_crypto (hmac_secret sample_jwt_config) (signing_input sample_header sample_payload)
      = Some (lit ''key'' @ take 2 (rev (signing_input sample_header sample_payload)))"
  "time_ok sample_payload ''iat''" "time_ok sample_payload ''exp''" "time_ok sample_payload ''nbf''"
  "valid_skew sample_jwt_config" "time_claim sample_payload ''exp'' + clock_skew sample_jwt_config < 2 ^ 63"
  by (simp_all add: sample_jwt_config_def jwt_config_default_def sample_header_def sample_payload_def
      sample_crypto_def valid_skew_def time_ok_def time_claim_def lit_def)

lemma sample_token_valid: "valid (validate sample_crypto sample_jwt_config 90 sample_token)"
proof -
  have "valid (check_claims sample_jwt_config 90 (claims_of sample_payload))"
    by code_simp
  with validate_issued [OF sample_decodes sample_jwt_config_facts(1-7), of 90] show ?thesis
    by (simp add: sample_token_def)
qed

theorem jwt_accepted_witness:
  "valid (validate sample_crypto sample_jwt_config 90 sample_token)
   \<and> (\<exists>payload. claims (validate sample_crypto sample_jwt_config 90 sample_token) = parse_claims payload
        \<and> in_force sample_jwt_config 90 (parse_claims payload))"
  using jwt_accepted [OF sample_token_valid sample_jwt_config_facts(8)] sample_token_valid by blast

theorem jwt_issued_witness:
  "claims (validate sample_crypto sample_jwt_config 90 sample_token) = claims_of sample_payload
   \<and> (valid (validate sample_crypto sample_jwt_config 90 sample_token) \<longleftrightarrow> in_force sample_jwt_config 90 (claims_of sample_payload))
   \<and> in_force sample_jwt_config 90 (claims_of sample_payload)
   \<and> \<not> in_force sample_jwt_config 200 (claims_of sample_payload)"
proof -
  have "in_force sample_jwt_config 90 (claims_of sample_payload)"
    "\<not> in_force sample_jwt_config 200 (claims_of sample_payload)"
    by code_simp+
  with jwt_issued [OF sample_decodes sample_jwt_config_facts, of 90] show ?thesis
    by (simp add: sample_token_def)
qed

section \<open>Limits of the validator\<close>

text \<open>
  The time of expiry is only looked at when it is positive: a token whose \<open>exp\<close> is missing, zero
  or negative does not expire.
\<close>

theorem jwt_nonpositive_exp_never_expires:
  assumes "expires_at cl \<le> 0" and "not_before cl \<le> 0"
  shows "check_claims cfg now cl = check_claims cfg now' cl"
  using assms by (simp add: check_claims_def)

text \<open>A time written with an exponent is cut at the \<open>e\<close>.\<close>

theorem jwt_exponent_cut:
  "json_get_number (123 # json_quote (lit ''exp'') @ lit '':2e9}'') (lit ''exp'') = Some 2"
  by code_simp

text \<open>A time of expiry at the end of the range overflows with the skew, and the token counts as expired.\<close>

theorem jwt_expiry_overflow:
  "jwt_error (check_claims jwt_config_default 0 (no_claims\<lparr>expires_at := 2 ^ 63 - 1\<rparr>)) = lit ''Token expired''"
  by code_simp

text \<open>The result of \<open>HMAC\<close> is not checked: where it fails, an empty signature is accepted.\<close>

theorem jwt_failed_hmac_accepts:
  assumes "decodes_base64 ssl" and "hmac_secret cfg \<noteq> []"
    and "HMAC_sha256 ssl (hmac_secret cfg) input = None"
  shows "verify_hs256 ssl cfg input []"
proof -
  have "base64url_decode ssl [] = Some []"
    using base64url_decode_encode [OF assms(1), of "[]"] by simp
  with assms(2,3) show ?thesis by (simp add: verify_hs256_def)
qed

end
