(* ===== verification/Acme.thy ===== *)
theory Acme
  imports Jwt File_Handler
begin

text \<open>
  The ACME client (\<open>src/src/acme_client.cpp\<close>): the account key and the certificates with their files, the answers to HTTP-01
  challenges, and base64url.  The file system is a map from paths to contents, the keys that OpenSSL makes and the
  time that a certificate expires are arguments.  The steps of the protocol itself are placeholders in the code.

  Shown: the encoder of this component and the decoder of the token validator are inverse, through the reference
  definition of RFC 4648; certificates are read back from their files; a challenge is answered with what was registered for it.  And what
  the placeholders lead to: certificates are never obtained or renewed.
\<close>

unbundle bit_operations_syntax

section \<open>Base64url\<close>

definition base64url_table :: bytes where
  "base64url_table = lit ''ABCDEFGHIJKLMNOPQRSTUVWXYZabcdefghijklmnopqrstuvwxyz0123456789-_''"

definition table_at :: "u32 \<Rightarrow> byte" where
  "table_at n = base64url_table ! unat (n AND 0x3F)"

fun base64url_encode :: "bytes \<Rightarrow> bytes" where
  "base64url_encode (a # b # c # data) =
     (let n = (push_bit 16 (ucast a) OR push_bit 8 (ucast b)) OR ucast c :: u32
      in table_at (drop_bit 18 n) # table_at (drop_bit 12 n) # table_at (drop_bit 6 n) # table_at n # base64url_encode data)"
| "base64url_encode [a] =
     (let n = push_bit 16 (ucast a) :: u32 in [table_at (drop_bit 18 n), table_at (drop_bit 12 n)])"
| "base64url_encode [a, b] =
     (let n = push_bit 16 (ucast a) OR push_bit 8 (ucast b) :: u32
      in [table_at (drop_bit 18 n), table_at (drop_bit 12 n), table_at (drop_bit 6 n)])"
| "base64url_encode [] = []"

lemma table_digit: "d < 64 \<Longrightarrow> base64url_table ! d = b64url_digit d"
proof -
  have "\<forall>d \<in> set [0..<64]. base64url_table ! d = b64url_digit d"
    by code_simp
  then show "d < 64 \<Longrightarrow> base64url_table ! d = b64url_digit d"
    by simp
qed

lemma table_at_digit: "table_at (drop_bit k n) = b64url_digit (unat n div 2 ^ k mod 64)"
proof -
  have "(0x3F :: u32) = mask 6"
    by (simp add: mask_eq_exp_minus_1)
  then have "drop_bit k n AND 0x3F = take_bit 6 (drop_bit k n)"
    by (simp add: take_bit_eq_mask)
  moreover have "unat n < 4294967296"
    using unsigned_less [of n] by simp
  ultimately have "unat (drop_bit k n AND 0x3F) = unat n div 2 ^ k mod 64"
    by (simp only: unsigned_take_bit_eq unsigned_drop_bit_eq) (simp add: take_bit_eq_mod drop_bit_eq_div)
  then show ?thesis
    by (simp add: table_at_def table_digit)
qed

lemma unat_triple: "unat ((push_bit 16 (ucast a) OR push_bit 8 (ucast b)) OR ucast c :: u32) = unat (a :: byte) * 65536 + unat (b :: byte) * 256 + unat (c :: byte)"
proof -
  have b: "unat a < 256" "unat b < 256"
    by (rule unat_byte_less)+
  have a: "unat (ucast a :: u32) = unat a"
    by (simp add: unsigned_ucast_eq take_bit_eq_mod)
  have "(push_bit 16 (ucast a) OR push_bit 8 (ucast b)) OR ucast c = push_bit 8 (push_bit 8 (ucast a) OR ucast b) OR (ucast c :: u32)"
    by (simp add: push_bit_or)
  moreover have ab: "unat (push_bit 8 (ucast a) OR ucast b :: u32) = unat a * 256 + unat b"
    using unat_push_or [of "ucast a :: u32" b] a b(1) by simp
  moreover have "unat a * 256 + unat b < 2 ^ 24"
    using b by simp
  ultimately show ?thesis
    using unat_push_or [of "push_bit 8 (ucast a) OR ucast b :: u32" c] by simp
qed

text \<open>The encoder is base64url as RFC 4648 has it.\<close>

lemma encode_reference: "base64url_encode data = b64url_encode data"
proof (induction data rule: base64url_encode.induct)
  case (1 a b c data)
  define n :: u32 where "n = (push_bit 16 (ucast a) OR push_bit 8 (ucast b)) OR ucast c"
  have n: "unat n = unat a * 65536 + unat b * 256 + unat c"
    unfolding n_def by (rule unat_triple)
  moreover have "unat n div 262144 < 64"
    using sextets_less [of "unat n div 262144" a b c] by (simp add: sextets_def n Let_def)
  moreover have "base64url_encode (a # b # c # data)
      = table_at (drop_bit 18 n) # table_at (drop_bit 12 n) # table_at (drop_bit 6 n) # table_at (drop_bit 0 n) # base64url_encode data"
    by (simp add: n_def Let_def)
  ultimately show ?case
    using 1 [OF n_def] by (simp only: table_at_digit) (simp add: sextets_def Let_def)
next
  case (2 a)
  define n :: u32 where "n = push_bit 16 (ucast a)"
  have n: "unat n = unat a * 65536"
    using unat_triple [of a 0 0] by (simp add: n_def)
  moreover have "unat n div 262144 < 64"
    using sextets_less [of "unat n div 262144" a 0 0] by (simp add: sextets_def n Let_def)
  moreover have "base64url_encode [a] = [table_at (drop_bit 18 n), table_at (drop_bit 12 n)]"
    by (simp add: n_def Let_def)
  ultimately show ?case
    by (simp only: table_at_digit) (simp add: sextets_def Let_def)
next
  case (3 a b)
  define n :: u32 where "n = push_bit 16 (ucast a) OR push_bit 8 (ucast b)"
  have n: "unat n = unat a * 65536 + unat b * 256"
    using unat_triple [of a b 0] by (simp add: n_def)
  moreover have "unat n div 262144 < 64"
    using sextets_less [of "unat n div 262144" a b 0] by (simp add: sextets_def n Let_def)
  moreover have "base64url_encode [a, b] = [table_at (drop_bit 18 n), table_at (drop_bit 12 n), table_at (drop_bit 6 n)]"
    by (simp add: n_def Let_def)
  ultimately show ?case
    by (simp only: table_at_digit) (simp add: sextets_def Let_def)
qed simp

text \<open>
  What the ACME client encodes, the validator of tokens decodes: the two components agree on base64url, on every input, if OpenSSL decodes
  base64 as documented.
\<close>

theorem base64url_agree:
  assumes "decodes_base64 ssl"
  shows "base64url_decode ssl (base64url_encode data) = Some data"
  using base64url_decode_encode [OF assms] by (simp add: encode_reference)


section \<open>Certificates and their files\<close>

text \<open>Times are nanoseconds of the system clock.\<close>

record cert_info =
  cert_pem :: bytes
  key_pem :: bytes
  cert_domain :: bytes
  cert_not_after :: int
  cert_valid :: bool

record acme_config =
  acme_directory_url :: bytes
  acme_email :: bytes
  acme_domains :: "bytes list"
  acme_storage_path :: bytes
  acme_renew_before_days :: int
  acme_use_staging :: bool

record acme_client =
  acme_config :: acme_config
  acme_account_key :: bytes
  acme_challenges :: "bytes smap"
  acme_certificates :: "cert_info smap"

definition acme_init :: "acme_config \<Rightarrow> acme_client" where
  "acme_init cfg = \<lparr>acme_config = cfg, acme_account_key = [], acme_challenges = [], acme_certificates = []\<rparr>"

type_synonym files = "bytes \<Rightarrow> bytes option"

definition cert_path :: "acme_config \<Rightarrow> bytes \<Rightarrow> bytes" where
  "cert_path cfg domain = path_join (path_join (acme_storage_path cfg) domain) (lit ''cert.pem'')"

definition key_path :: "acme_config \<Rightarrow> bytes \<Rightarrow> bytes" where
  "key_path cfg domain = path_join (path_join (acme_storage_path cfg) domain) (lit ''key.pem'')"

definition account_key_path :: "acme_config \<Rightarrow> bytes" where
  "account_key_path cfg = path_join (acme_storage_path cfg) (lit ''account_key.pem'')"

text \<open>Whether the directory could be made and the two files opened are arguments.\<close>

definition save_cert :: "acme_config \<Rightarrow> bool \<Rightarrow> bool \<Rightarrow> bool \<Rightarrow> bytes \<Rightarrow> cert_info \<Rightarrow> files \<Rightarrow> files \<times> bool" where
  "save_cert cfg dir_ok cert_ok key_ok domain cert fs =
     (if \<not> dir_ok \<or> \<not> cert_ok then (fs, False)
      else let fs = fs(cert_path cfg domain \<mapsto> cert_pem cert)
           in if \<not> key_ok then (fs, False) else (fs(key_path cfg domain \<mapsto> key_pem cert), True))"

text \<open>\<open>expiry\<close> is what OpenSSL and \<open>mktime\<close> make of a certificate, if they can read it.\<close>

definition load_cert :: "acme_config \<Rightarrow> (bytes \<Rightarrow> int option) \<Rightarrow> int \<Rightarrow> files \<Rightarrow> bytes \<Rightarrow> cert_info option" where
  "load_cert cfg expiry now fs domain =
     (case (fs (cert_path cfg domain), fs (key_path cfg domain)) of
        (Some cert, Some key) \<Rightarrow>
          (case expiry cert of
             None \<Rightarrow> Some \<lparr>cert_pem = cert, key_pem = key, cert_domain = domain, cert_not_after = 0, cert_valid = False\<rparr>
           | Some t \<Rightarrow> Some \<lparr>cert_pem = cert, key_pem = key, cert_domain = domain, cert_not_after = t, cert_valid = (now < t)\<rparr>)
      | _ \<Rightarrow> None)"

definition save_account_key :: "acme_config \<Rightarrow> bool \<Rightarrow> bytes \<Rightarrow> files \<Rightarrow> files \<times> bool" where
  "save_account_key cfg open_ok key fs = (if open_ok then (fs(account_key_path cfg \<mapsto> key), True) else (fs, False))"

definition load_account_key :: "acme_config \<Rightarrow> files \<Rightarrow> bytes option" where
  "load_account_key cfg fs = fs (account_key_path cfg)"

definition load_certs :: "acme_config \<Rightarrow> (bytes \<Rightarrow> int option) \<Rightarrow> int \<Rightarrow> files \<Rightarrow> bytes list \<Rightarrow> cert_info smap \<Rightarrow> cert_info smap" where
  "load_certs cfg expiry now fs domains certs =
     fold (\<lambda>domain certs. case load_cert cfg expiry now fs domain of
             None \<Rightarrow> certs | Some c \<Rightarrow> if cert_valid c then hput domain c certs else certs) domains certs"

text \<open>The key that OpenSSL generates is an argument; it is empty when that fails.\<close>

definition acme_initialize :: "bool \<Rightarrow> bool \<Rightarrow> bytes \<Rightarrow> (bytes \<Rightarrow> int option) \<Rightarrow> int \<Rightarrow> files \<Rightarrow> acme_client \<Rightarrow> acme_client \<times> files \<times> bool" where
  "acme_initialize dir_ok open_ok new_key expiry now fs a =
     (let cfg = acme_config a
      in if \<not> dir_ok then (a, fs, False)
         else case load_account_key cfg fs of
                Some key \<Rightarrow>
                  (a\<lparr>acme_account_key := key, acme_certificates := load_certs cfg expiry now fs (acme_domains cfg) (acme_certificates a)\<rparr>, fs, True)
              | None \<Rightarrow>
                  if new_key = [] then (a\<lparr>acme_account_key := []\<rparr>, fs, False)
                  else let fs = fst (save_account_key cfg open_ok new_key fs)
                       in (a\<lparr>acme_account_key := new_key,
                             acme_certificates := load_certs cfg expiry now fs (acme_domains cfg) (acme_certificates a)\<rparr>, fs, True))"

section \<open>Orders and renewal\<close>

text \<open>Whole hours, then whole days, each rounded towards zero.\<close>

definition div_zero :: "int \<Rightarrow> int \<Rightarrow> int" where
  "div_zero a b = (if a < 0 then - (- a div b) else a div b)"

definition days_until_expiry :: "int \<Rightarrow> cert_info \<Rightarrow> int" where
  "days_until_expiry now c = div_zero (div_zero (cert_not_after c - now) 3600000000000) 24"

definition register_account :: "acme_client \<Rightarrow> bool" where
  "register_account a = False"

definition create_order :: "acme_client \<Rightarrow> bytes \<Rightarrow> bool" where
  "create_order a domain = False"

definition finalize_order :: "acme_client \<Rightarrow> bytes \<Rightarrow> bool" where
  "finalize_order a domain = False"

definition download_certificate :: "acme_client \<Rightarrow> bytes \<Rightarrow> bool" where
  "download_certificate a domain = False"

definition still_valid :: "int \<Rightarrow> acme_client \<Rightarrow> bytes \<Rightarrow> bool" where
  "still_valid now a domain =
     (case map_of (acme_certificates a) domain of
        None \<Rightarrow> False
      | Some c \<Rightarrow> cert_valid c \<and> acme_renew_before_days (acme_config a) < days_until_expiry now c)"

fun obtain_loop :: "(bytes \<Rightarrow> int) \<Rightarrow> acme_client \<Rightarrow> bytes list \<Rightarrow> bool" where
  "obtain_loop now a [] = True"
| "obtain_loop now a (domain # domains) =
     (if still_valid (now domain) a domain then obtain_loop now a domains
      else if \<not> create_order a domain then False
      else obtain_loop now a domains)"

definition obtain_certificates :: "(bytes \<Rightarrow> int) \<Rightarrow> acme_client \<Rightarrow> bool" where
  "obtain_certificates now a = obtain_loop now a (acme_domains (acme_config a))"

text \<open>The domains that the log names, the client afterwards and the result.\<close>

definition check_and_renew :: "int \<Rightarrow> acme_client \<Rightarrow> bytes list \<times> acme_client \<times> bool" where
  "check_and_renew now a =
     (map fst (filter (\<lambda>(d, c). days_until_expiry now c \<le> acme_renew_before_days (acme_config a)) (acme_certificates a)), a, True)"

definition get_certificate :: "bytes \<Rightarrow> acme_client \<Rightarrow> cert_info option" where
  "get_certificate domain a = map_of (acme_certificates a) domain"

definition handle_challenge :: "bytes \<Rightarrow> acme_client \<Rightarrow> bytes option" where
  "handle_challenge token a = map_of (acme_challenges a) token"

definition solve_http01_challenge :: "bytes \<Rightarrow> bytes \<Rightarrow> bytes \<Rightarrow> acme_client \<Rightarrow> acme_client \<times> bool" where
  "solve_http01_challenge domain token key_authorization a =
     (a\<lparr>acme_challenges := hput token key_authorization (acme_challenges a)\<rparr>, True)"

section \<open>What holds\<close>

text \<open>A challenge is answered with what was registered last for its token, and other tokens are not touched.\<close>

theorem challenge_answered:
  "handle_challenge t (fst (solve_http01_challenge d token auth a)) = (if t = token then Some auth else handle_challenge t a)"
  by (simp add: handle_challenge_def solve_http01_challenge_def)

lemma path_join_name: "q \<noteq> [] \<Longrightarrow> hd q \<noteq> 47 \<Longrightarrow> q' \<noteq> [] \<Longrightarrow> hd q' \<noteq> 47 \<Longrightarrow> path_join p q = path_join p q' \<longleftrightarrow> q = q'"
  by (auto simp: path_join_def)

text \<open>
  A certificate that was saved is loaded again with its key, valid as long as it has not expired; a restart with its domain in the
  configuration finds it.
\<close>

theorem saved_cert_loaded:
  assumes "save_cert cfg True True True domain c fs = (fs', ok)" and "expiry (cert_pem c) = Some t" and "now < t"
    and "acme_domains cfg = [domain]" and "load_account_key cfg fs' = Some key"
  shows "ok \<and> get_certificate domain (fst (acme_initialize True open_ok new_key expiry now fs' (acme_init cfg)))
    = Some \<lparr>cert_pem = cert_pem c, key_pem = key_pem c, cert_domain = domain, cert_not_after = t, cert_valid = True\<rparr>"
proof -
  have "lit ''cert.pem'' \<noteq> lit ''key.pem''" "lit ''cert.pem'' \<noteq> []" "lit ''key.pem'' \<noteq> []" "hd (lit ''cert.pem'') \<noteq> 47" "hd (lit ''key.pem'') \<noteq> 47"
    by (simp_all add: lit_def)
  then have "cert_path cfg domain \<noteq> key_path cfg domain"
    by (simp add: cert_path_def key_path_def path_join_name)
  then have fs: "fs' (cert_path cfg domain) = Some (cert_pem c)" "fs' (key_path cfg domain) = Some (key_pem c)" "ok"
    using assms(1) by (auto simp: save_cert_def)
  then show ?thesis
    using assms(2-5) by (simp add: acme_initialize_def acme_init_def load_certs_def load_cert_def get_certificate_def)
qed

text \<open>
  Certificates are obtained exactly if nothing is to be obtained: for every domain of the configuration one that is valid for long
  enough is there.  A check for renewal changes nothing and reports success, also when every certificate has expired.
\<close>

theorem certificates_never_obtained:
  "obtain_certificates now a = (\<forall>d \<in> set (acme_domains (acme_config a)). still_valid (now d) a d)
    \<and> fst (snd (check_and_renew t a)) = a \<and> snd (snd (check_and_renew t a))"
proof -
  have "obtain_loop now a ds = (\<forall>d \<in> set ds. still_valid (now d) a d)" for ds
    by (induction ds) (simp_all add: create_order_def)
  then show ?thesis
    by (simp add: obtain_certificates_def check_and_renew_def)
qed

section \<open>Examples\<close>

definition small_acme :: acme_config where
  "small_acme = \<lparr>acme_directory_url = [], acme_email = [], acme_domains = [lit ''a.b''], acme_storage_path = lit ''/s'', acme_renew_before_days = 30, acme_use_staging = True\<rparr>"

definition small_cert :: cert_info where
  "small_cert = \<lparr>cert_pem = [1], key_pem = [2], cert_domain = lit ''a.b'', cert_not_after = 0, cert_valid = False\<rparr>"

theorem base64url_agree_witness: "base64url_decode sample_crypto (base64url_encode (lit ''hi'')) = Some (lit ''hi'')"
  by (rule base64url_agree) (rule sample_decodes)

theorem saved_cert_loaded_witness:
  "\<exists>fs' c. save_cert small_acme True True True (lit ''a.b'') small_cert [lit ''/s/account_key.pem'' \<mapsto> [3]] = (fs', True)
     \<and> get_certificate (lit ''a.b'') (fst (acme_initialize True True [] (\<lambda>p. Some 9) 5 fs' (acme_init small_acme))) = Some c \<and> key_pem c = [2]"
proof -
  define fs' where "fs' = fst (save_cert small_acme True True True (lit ''a.b'') small_cert [lit ''/s/account_key.pem'' \<mapsto> [3]])"
  have s: "save_cert small_acme True True True (lit ''a.b'') small_cert [lit ''/s/account_key.pem'' \<mapsto> [3]] = (fs', True)"
    by (simp add: fs'_def save_cert_def)
  have "load_account_key small_acme fs' = Some [3]"
    by (simp add: fs'_def save_cert_def load_account_key_def account_key_path_def cert_path_def key_path_def small_acme_def path_join_def lit_def)
  with saved_cert_loaded [OF s, of "\<lambda>p. Some 9" 9 5 "[3]" True "[]"] s show ?thesis
    by (simp add: small_acme_def small_cert_def)
qed

theorem certificates_never_obtained_witness: "\<not> obtain_certificates (\<lambda>d. 0) (acme_init small_acme)"
  using certificates_never_obtained [of "\<lambda>d. 0" "acme_init small_acme" 0] by (simp add: still_valid_def acme_init_def small_acme_def)

end
