(* ===== verification/Io_Uring.thy ===== *)
theory Io_Uring
  imports Prelude
begin

text \<open>
  The event loop on io_uring (\<open>src/src/io_uring_loop.cpp\<close>): the table of pending operations with their callbacks, one
  definition per asynchronous operation, the provided buffers, and the handling of completions.  The ring itself belongs to
  liburing: whether a submission entry is free is an argument, an entry that is prepared is recorded, and completions are
  arguments.  Identifiers are natural numbers (the counter has 64 bits and starts at one).  A callback is a name; what it does when it runs is a list of operations that it starts (an argument), and the runs are recorded.

  Shown, for runs in which no callback rehashes the table of pending operations: their identifiers are unique and their gauge is exact; the callback of a
  single-shot operation runs exactly once on the completions that the loop handles.  Buffers of a pool do not overlap.  And where it fails:
  the registration of a buffer pool takes a completion that may belong to another operation, whose callback then never runs, and
  leaves an operation pending for ever.
\<close>

section \<open>Data\<close>

datatype io_op = ACCEPT | READ | WRITE | SEND | RECV | SENDMSG | RECVMSG | TIMEOUT | CANCEL | CLOSE | SPLICE | PROVIDE_BUFFERS
  | POLL_ADD | CONNECT | SHUTDOWN | NOP

record 'cb pending_op =
  po_callback :: "'cb option"
  po_type :: io_op
  po_multishot :: bool

record buffer_pool =
  bp_storage :: nat
  bp_buffer_size :: nat
  bp_buffer_count :: nat

text \<open>
  The runs of callbacks are recorded with the operation they complete, if there is one.  What is put into a submission entry: the kind, a description of the arguments, and the identifier.
\<close>

record sqe =
  sqe_op :: io_op
  sqe_args :: "int list"
  sqe_user_data :: nat

record 'cb uring =
  ur_pending :: "(nat \<times> 'cb pending_op) list"
  ur_running :: bool
  ur_next_id :: nat
  ur_pools :: "(u16 \<times> buffer_pool) list"
  ur_submissions :: u64
  ur_completions :: u64
  ur_pending_ops :: u64
  ur_prepared :: "sqe list"
  ur_calls :: "('cb \<times> nat option \<times> int \<times> u32) list"

definition uring_init :: "'cb uring" where
  "uring_init = \<lparr>ur_pending = [], ur_running = False, ur_next_id = 1, ur_pools = [], ur_submissions = 0, ur_completions = 0,
     ur_pending_ops = 0, ur_prepared = [], ur_calls = []\<rparr>"

definition ENOMEM :: int where "ENOMEM = 12"

definition EINVAL :: int where "EINVAL = 22"

section \<open>Operations\<close>

definition next_user_data :: "'cb uring \<Rightarrow> 'cb uring \<times> nat" where
  "next_user_data s = (s\<lparr>ur_next_id := ur_next_id s + 1\<rparr>, ur_next_id s)"

text \<open>
  What the operations share: an entry, at the second attempt after a submission; otherwise the callback runs with an
  error.  \<open>got\<close> tells whether one of the two attempts gave an entry.
\<close>

definition submit_op :: "bool \<Rightarrow> io_op \<Rightarrow> int list \<Rightarrow> bool \<Rightarrow> 'cb \<Rightarrow> 'cb uring \<Rightarrow> 'cb uring" where
  "submit_op got op args multishot cb s =
     (if \<not> got then s\<lparr>ur_calls := ur_calls s @ [(cb, None, - ENOMEM, 0)]\<rparr>
      else let (s, i) = next_user_data s
           in s\<lparr>ur_prepared := ur_prepared s @ [\<lparr>sqe_op = op, sqe_args = args, sqe_user_data = i\<rparr>],
                ur_pending := hput i \<lparr>po_callback = Some cb, po_type = op, po_multishot = multishot\<rparr> (ur_pending s),
                ur_pending_ops := ur_pending_ops s + 1, ur_submissions := ur_submissions s + 1\<rparr>)"

definition async_accept :: "bool \<Rightarrow> int \<Rightarrow> bool \<Rightarrow> 'cb \<Rightarrow> 'cb uring \<Rightarrow> 'cb uring" where
  "async_accept got listen_fd multishot cb = submit_op got ACCEPT [listen_fd] multishot cb"

definition async_read :: "bool \<Rightarrow> int \<Rightarrow> int \<Rightarrow> int \<Rightarrow> int \<Rightarrow> 'cb \<Rightarrow> 'cb uring \<Rightarrow> 'cb uring" where
  "async_read got fd buf len offset cb = submit_op got READ [fd, buf, len mod 2 ^ 32, offset] False cb"

definition async_write :: "bool \<Rightarrow> int \<Rightarrow> int \<Rightarrow> int \<Rightarrow> int \<Rightarrow> 'cb \<Rightarrow> 'cb uring \<Rightarrow> 'cb uring" where
  "async_write got fd buf len offset cb = submit_op got WRITE [fd, buf, len mod 2 ^ 32, offset] False cb"

definition async_send :: "bool \<Rightarrow> int \<Rightarrow> int \<Rightarrow> int \<Rightarrow> int \<Rightarrow> 'cb \<Rightarrow> 'cb uring \<Rightarrow> 'cb uring" where
  "async_send got fd buf len flags cb = submit_op got SEND [fd, buf, len, flags] False cb"

definition async_recv :: "bool \<Rightarrow> int \<Rightarrow> int \<Rightarrow> int \<Rightarrow> int \<Rightarrow> 'cb \<Rightarrow> 'cb uring \<Rightarrow> 'cb uring" where
  "async_recv got fd buf len flags cb = submit_op got RECV [fd, buf, len, flags] False cb"

definition async_send_zc :: "bool \<Rightarrow> int \<Rightarrow> int \<Rightarrow> int \<Rightarrow> int \<Rightarrow> 'cb \<Rightarrow> 'cb uring \<Rightarrow> 'cb uring" where
  "async_send_zc got fd buf len flags cb = submit_op got SEND [fd, buf, len, flags, 0] False cb"

definition async_splice :: "bool \<Rightarrow> int \<Rightarrow> int \<Rightarrow> int \<Rightarrow> int \<Rightarrow> int \<Rightarrow> int \<Rightarrow> 'cb \<Rightarrow> 'cb uring \<Rightarrow> 'cb uring" where
  "async_splice got fd_in off_in fd_out off_out len flags cb =
     submit_op got SPLICE [fd_in, off_in, fd_out, off_out, len mod 2 ^ 32, flags] False cb"

text \<open>Milliseconds as seconds and nanoseconds.\<close>

definition async_timeout :: "bool \<Rightarrow> nat \<Rightarrow> 'cb \<Rightarrow> 'cb uring \<Rightarrow> 'cb uring" where
  "async_timeout got ms cb = submit_op got TIMEOUT [int (ms div 1000), int (ms mod 1000 * 1000000)] False cb"

definition async_cancel :: "bool \<Rightarrow> nat \<Rightarrow> 'cb \<Rightarrow> 'cb uring \<Rightarrow> 'cb uring" where
  "async_cancel got user_data cb = submit_op got CANCEL [int user_data] False cb"

definition async_close :: "bool \<Rightarrow> int \<Rightarrow> 'cb \<Rightarrow> 'cb uring \<Rightarrow> 'cb uring" where
  "async_close got fd cb = submit_op got CLOSE [fd] False cb"

definition async_poll_add :: "bool \<Rightarrow> int \<Rightarrow> u32 \<Rightarrow> 'cb \<Rightarrow> 'cb uring \<Rightarrow> 'cb uring" where
  "async_poll_add got fd poll_mask cb = submit_op got POLL_ADD [fd, uint poll_mask] False cb"

definition async_connect :: "bool \<Rightarrow> int \<Rightarrow> int \<Rightarrow> int \<Rightarrow> 'cb \<Rightarrow> 'cb uring \<Rightarrow> 'cb uring" where
  "async_connect got fd sockaddr addrlen cb = submit_op got CONNECT [fd, sockaddr, 0, addrlen] False cb"

definition async_shutdown :: "bool \<Rightarrow> int \<Rightarrow> int \<Rightarrow> 'cb \<Rightarrow> 'cb uring \<Rightarrow> 'cb uring" where
  "async_shutdown got fd how cb = submit_op got SHUTDOWN [fd, how] False cb"

section \<open>Provided buffers\<close>

text \<open>For a group that does not exist the entry is left as it is (\<open>stale\<close>) and will be submitted with the others.\<close>

definition async_recv_provided :: "bool \<Rightarrow> sqe \<Rightarrow> int \<Rightarrow> u16 \<Rightarrow> 'cb \<Rightarrow> 'cb uring \<Rightarrow> 'cb uring" where
  "async_recv_provided got stale fd group_id cb s =
     (if \<not> got then s\<lparr>ur_calls := ur_calls s @ [(cb, None, - ENOMEM, 0)]\<rparr>
      else case map_of (ur_pools s) group_id of
             None \<Rightarrow> s\<lparr>ur_prepared := ur_prepared s @ [stale], ur_calls := ur_calls s @ [(cb, None, - EINVAL, 0)]\<rparr>
           | Some pool \<Rightarrow> submit_op True RECV [fd, 0, int (bp_buffer_size pool), 0, uint group_id] False cb s)"

text \<open>An address within the storage of the pool.\<close>

definition get_provided_buffer :: "u16 \<Rightarrow> nat \<Rightarrow> 'cb uring \<Rightarrow> nat option" where
  "get_provided_buffer group_id buffer_id s =
     (case map_of (ur_pools s) group_id of
        None \<Rightarrow> None
      | Some pool \<Rightarrow>
          if bp_buffer_count pool \<le> buffer_id then None else Some (bp_storage pool + buffer_id * bp_buffer_size pool))"

text \<open>Operations without a callback of the caller, and without a count of submissions.\<close>

definition provide_buffers :: "int list \<Rightarrow> 'cb uring \<Rightarrow> 'cb uring" where
  "provide_buffers args s =
     (let (s, i) = next_user_data s
      in s\<lparr>ur_prepared := ur_prepared s @ [\<lparr>sqe_op = PROVIDE_BUFFERS, sqe_args = args, sqe_user_data = i\<rparr>],
           ur_pending := hput i \<lparr>po_callback = None, po_type = PROVIDE_BUFFERS, po_multishot = False\<rparr> (ur_pending s),
           ur_pending_ops := ur_pending_ops s + 1\<rparr>)"

definition return_provided_buffer :: "bool \<Rightarrow> u16 \<Rightarrow> nat \<Rightarrow> 'cb uring \<Rightarrow> 'cb uring" where
  "return_provided_buffer got group_id buffer_id s =
     (case map_of (ur_pools s) group_id of
        None \<Rightarrow> s
      | Some pool \<Rightarrow>
          if \<not> got then s
          else provide_buffers [int (bp_storage pool + buffer_id * bp_buffer_size pool), int (bp_buffer_size pool), 1, uint group_id, int buffer_id] s)"

text \<open>
  The registration waits for a completion, the first that arrives, and takes it off the ring: its identifier and result are arguments.  It
  does not go through the table of pending operations.
\<close>

definition register_buffer_pool :: "bool \<Rightarrow> nat \<Rightarrow> nat \<times> int \<Rightarrow> u16 \<Rightarrow> nat \<Rightarrow> nat \<Rightarrow> 'cb uring \<Rightarrow> 'cb uring \<times> bool" where
  "register_buffer_pool got storage cqe group_id buffer_size buffer_count s =
     (if \<not> got then (s, False)
      else let s = provide_buffers [int storage, int buffer_size, int buffer_count, uint group_id, 0] s
           in if 0 \<le> snd cqe
              then (s\<lparr>ur_pools := hput group_id \<lparr>bp_storage = storage, bp_buffer_size = buffer_size, bp_buffer_count = buffer_count\<rparr> (ur_pools s)\<rparr>, True)
              else (s, False))"

section \<open>Completions\<close>

record cqe =
  cqe_user_data :: nat
  cqe_res :: int
  cqe_flags :: u32

definition cqe_more :: "cqe \<Rightarrow> bool" where
  "cqe_more c \<longleftrightarrow> cqe_flags c AND 2 \<noteq> 0"

text \<open>
  \<open>react\<close> is what a callback does to the loop while it runs.  The code keeps an iterator into the table across the callback and erases
  through it.  If the callback starts an operation, the insertion may rehash the table, which invalidates the iterator, and the behaviour of
  the code is undefined.  The definition is the code for the runs in which no callback rehashes the table, as when it starts nothing, or the
  table has room.
\<close>

definition handle_completion :: "('cb \<Rightarrow> int \<Rightarrow> u32 \<Rightarrow> 'cb uring \<Rightarrow> 'cb uring) \<Rightarrow> cqe \<Rightarrow> 'cb uring \<Rightarrow> 'cb uring" where
  "handle_completion react c s =
     (case map_of (ur_pending s) (cqe_user_data c) of
        None \<Rightarrow> s
      | Some op \<Rightarrow>
          (let s = (case po_callback op of
                      None \<Rightarrow> s
                    | Some cb \<Rightarrow> react cb (cqe_res c) (cqe_flags c) (s\<lparr>ur_calls := ur_calls s @ [(cb, Some (cqe_user_data c), cqe_res c, cqe_flags c)]\<rparr>));
               s = (if \<not> po_multishot op \<or> \<not> cqe_more c
                    then s\<lparr>ur_pending := hdel (cqe_user_data c) (ur_pending s), ur_pending_ops := ur_pending_ops s - 1\<rparr> else s)
           in s\<lparr>ur_completions := ur_completions s + 1\<rparr>))"

definition process_completions :: "('cb \<Rightarrow> int \<Rightarrow> u32 \<Rightarrow> 'cb uring \<Rightarrow> 'cb uring) \<Rightarrow> cqe list \<Rightarrow> 'cb uring \<Rightarrow> 'cb uring \<times> nat" where
  "process_completions react cs s = (fold (handle_completion react) cs s, length cs)"

text \<open>One turn: with no timeout the ring is only looked at, and without a completion nothing is done.\<close>

definition run_once :: "('cb \<Rightarrow> int \<Rightarrow> u32 \<Rightarrow> 'cb uring \<Rightarrow> 'cb uring) \<Rightarrow> int \<Rightarrow> bool \<Rightarrow> cqe list \<Rightarrow> 'cb uring \<Rightarrow> 'cb uring \<times> nat" where
  "run_once react timeout_ms peek_ok cs s = (if timeout_ms = 0 \<and> \<not> peek_ok then (s, 0) else process_completions react cs s)"

datatype wait_result = Wait_ready "cqe list" | Wait_time | Wait_intr | Wait_error

text \<open>The loop, over what its waits give; the end of the list stands for a call of \<open>stop\<close> between two turns.\<close>

fun run_loop :: "('cb \<Rightarrow> int \<Rightarrow> u32 \<Rightarrow> 'cb uring \<Rightarrow> 'cb uring) \<Rightarrow> wait_result list \<Rightarrow> 'cb uring \<Rightarrow> 'cb uring" where
  "run_loop react [] s = s\<lparr>ur_running := False\<rparr>"
| "run_loop react (w # ws) s =
     (if \<not> ur_running s then s
      else case w of
             Wait_ready cs \<Rightarrow> run_loop react ws (fst (process_completions react cs s))
           | Wait_time \<Rightarrow> run_loop react ws s
           | Wait_intr \<Rightarrow> run_loop react ws s
           | Wait_error \<Rightarrow> s)"

definition uring_run :: "('cb \<Rightarrow> int \<Rightarrow> u32 \<Rightarrow> 'cb uring \<Rightarrow> 'cb uring) \<Rightarrow> wait_result list \<Rightarrow> 'cb uring \<Rightarrow> 'cb uring" where
  "uring_run react ws s = run_loop react ws (s\<lparr>ur_running := True\<rparr>)"

definition uring_stop :: "'cb uring \<Rightarrow> 'cb uring" where
  "uring_stop s = s\<lparr>ur_running := False\<rparr>"


section \<open>Pending operations\<close>

definition uring_ok :: "'cb uring \<Rightarrow> bool" where
  "uring_ok s \<longleftrightarrow> distinct (map fst (ur_pending s)) \<and> (\<forall>i \<in> fst ` set (ur_pending s). i < ur_next_id s)
     \<and> ur_pending_ops s = of_nat (length (ur_pending s))"

text \<open>What has been delivered to the callback of an operation.\<close>

definition delivered :: "nat \<Rightarrow> 'cb uring \<Rightarrow> ('cb \<times> int \<times> u32) list" where
  "delivered i s = map (\<lambda>(cb, j, r, f). (cb, r, f)) (filter (\<lambda>(cb, j, r, f). j = Some i) (ur_calls s))"

text \<open>One state comes after another without a completion: pending operations stay, new ones have new identifiers, nothing is delivered.\<close>

definition extends :: "'cb uring \<Rightarrow> 'cb uring \<Rightarrow> bool" where
  "extends s s' \<longleftrightarrow> uring_ok s' \<and> ur_next_id s \<le> ur_next_id s'
     \<and> (\<forall>i < ur_next_id s. map_of (ur_pending s') i = map_of (ur_pending s) i) \<and> (\<forall>i. delivered i s' = delivered i s)"

lemma extends_refl: "uring_ok s \<Longrightarrow> extends s s"
  by (simp add: extends_def)

lemma extends_trans: "extends s s' \<Longrightarrow> extends s' s'' \<Longrightarrow> extends s s''"
  by (auto simp: extends_def)

lemma extends_ok: "extends s s' \<Longrightarrow> uring_ok s'"
  by (simp add: extends_def)

lemma add_pending_extends:
  assumes "uring_ok s" and "ur_next_id s' = Suc (ur_next_id s)" and "ur_pending s' = hput (ur_next_id s) op (ur_pending s)"
    and "ur_pending_ops s' = ur_pending_ops s + 1" and "ur_calls s' = ur_calls s"
  shows "extends s s'"
proof -
  have "ur_next_id s \<notin> fst ` set (ur_pending s)"
    using assms(1) by (auto simp: uring_ok_def)
  then have "ur_pending s' = ur_pending s @ [(ur_next_id s, op)]"
    using assms(3) by (simp add: hput_new)
  then show ?thesis
    using assms by (auto simp: extends_def uring_ok_def delivered_def map_add_def split: option.splits)
qed

lemma call_extends:
  "uring_ok s \<Longrightarrow> extends s (s\<lparr>ur_calls := ur_calls s @ [(cb, None, r, f)]\<rparr>)"
  "uring_ok s \<Longrightarrow> extends s (s\<lparr>ur_prepared := ps, ur_calls := ur_calls s @ [(cb, None, r, f)]\<rparr>)"
  by (simp_all add: extends_def uring_ok_def delivered_def)

lemma submit_extends:
  assumes "uring_ok s"
  shows "extends s (submit_op got op args multishot cb s)"
proof (cases got)
  case True
  show ?thesis
    by (rule add_pending_extends [OF assms]) (simp_all add: submit_op_def next_user_data_def True)
qed (simp add: submit_op_def call_extends [OF assms])

lemma provide_extends:
  assumes "uring_ok s"
  shows "extends s (provide_buffers args s)"
  by (rule add_pending_extends [OF assms]) (simp_all add: provide_buffers_def next_user_data_def)

text \<open>Callbacks that start operations, any number of them.\<close>

definition starts_only :: "('cb \<Rightarrow> int \<Rightarrow> u32 \<Rightarrow> 'cb uring \<Rightarrow> 'cb uring) \<Rightarrow> bool" where
  "starts_only react \<longleftrightarrow> (\<forall>cb r f s. \<exists>ops. react cb r f s = fold (\<lambda>(got, op, args, m, cb). submit_op got op args m cb) ops s)"

lemma starts_extends:
  assumes "starts_only react" and "uring_ok s"
  shows "extends s (react cb r f s)"
proof -
  obtain ops where ops: "react cb r f s = fold (\<lambda>(got, op, args, m, cb). submit_op got op args m cb) ops s"
    using assms(1) unfolding starts_only_def by meson
  have "extends s (fold (\<lambda>(got, op, args, m, cb). submit_op got op args m cb) ops s)" if "uring_ok s" for s
    using that
  proof (induction ops arbitrary: s)
    case (Cons o' ops)
    obtain got op args m cb where o': "o' = (got, op, args, m, cb)"
      by (cases o')
    have "extends s (submit_op got op args m cb s)"
      using Cons.prems by (rule submit_extends)
    moreover from this have "extends (submit_op got op args m cb s) (fold (\<lambda>(got, op, args, m, cb). submit_op got op args m cb) ops (submit_op got op args m cb s))"
      by (intro Cons.IH) (simp add: extends_def)
    ultimately show ?case
      unfolding o' by (simp, rule extends_trans)
  qed (simp add: extends_refl)
  then show ?thesis
    using assms(2) ops by simp
qed

lemma erase_ok:
  assumes "uring_ok s" and "map_of (ur_pending s) i = Some op"
  shows "uring_ok (s\<lparr>ur_pending := hdel i (ur_pending s), ur_pending_ops := ur_pending_ops s - 1\<rparr>)"
proof -
  obtain xs ys where m: "ur_pending s = xs @ (i, op) # ys"
    using map_of_SomeD [OF assms(2)] by (auto dest: split_list)
  have "i \<notin> fst ` set xs" "i \<notin> fst ` set ys"
    using assms(1) by (auto simp: uring_ok_def m)
  then have "filter (\<lambda>(a, b). a \<noteq> i) xs = xs" "filter (\<lambda>(a, b). a \<noteq> i) ys = ys"
    by (force intro!: filter_True)+
  then have "hdel i (ur_pending s) = xs @ ys"
    by (simp add: hdel_def m)
  then show ?thesis
    using assms(1) by (auto simp: uring_ok_def m)
qed


text \<open>What a completion does: to the operation it belongs to, and to the others.\<close>

lemma handle_completion_ok:
  assumes "uring_ok s" and "starts_only react" and "s' = handle_completion react c s"
  shows "uring_ok s'" and "ur_next_id s \<le> ur_next_id s'"
    and "\<forall>i < ur_next_id s. i \<noteq> cqe_user_data c \<longrightarrow> map_of (ur_pending s') i = map_of (ur_pending s) i"
    and "\<forall>i. i \<noteq> cqe_user_data c \<longrightarrow> delivered i s' = delivered i s"
    and "map_of (ur_pending s) (cqe_user_data c) = None \<Longrightarrow> s' = s"
    and "map_of (ur_pending s) (cqe_user_data c) = Some op \<Longrightarrow>
      map_of (ur_pending s') (cqe_user_data c) = (if po_multishot op \<and> cqe_more c then Some op else None)
      \<and> delivered (cqe_user_data c) s' = delivered (cqe_user_data c) s @ (case po_callback op of None \<Rightarrow> [] | Some cb \<Rightarrow> [(cb, cqe_res c, cqe_flags c)])"
proof -
  let ?i = "cqe_user_data c"
  have none: "s' = s" if "map_of (ur_pending s) ?i = None"
    using that assms(3) by (simp add: handle_completion_def)
  have some: "uring_ok s' \<and> ur_next_id s \<le> ur_next_id s'
    \<and> (\<forall>i < ur_next_id s. i \<noteq> ?i \<longrightarrow> map_of (ur_pending s') i = map_of (ur_pending s) i)
    \<and> (\<forall>i. i \<noteq> ?i \<longrightarrow> delivered i s' = delivered i s)
    \<and> map_of (ur_pending s') ?i = (if po_multishot op \<and> cqe_more c then Some op else None)
    \<and> delivered ?i s' = delivered ?i s @ (case po_callback op of None \<Rightarrow> [] | Some cb \<Rightarrow> [(cb, cqe_res c, cqe_flags c)])"
    if op: "map_of (ur_pending s) ?i = Some op" for op
  proof -
    define t where "t = (case po_callback op of None \<Rightarrow> s
      | Some cb \<Rightarrow> s\<lparr>ur_calls := ur_calls s @ [(cb, Some ?i, cqe_res c, cqe_flags c)]\<rparr>)"
    define u where "u = (case po_callback op of None \<Rightarrow> t | Some cb \<Rightarrow> react cb (cqe_res c) (cqe_flags c) t)"
    have t: "uring_ok t" "ur_next_id t = ur_next_id s" "ur_pending t = ur_pending s"
      "\<forall>i. delivered i t = delivered i s @ (if i = ?i then (case po_callback op of None \<Rightarrow> [] | Some cb \<Rightarrow> [(cb, cqe_res c, cqe_flags c)]) else [])"
      using assms(1) by (auto simp: t_def uring_ok_def delivered_def split: option.splits)
    have u: "extends t u"
      using t(1) starts_extends [OF assms(2) t(1)] by (auto simp: u_def extends_refl split: option.splits)
    have i: "?i < ur_next_id s"
      using assms(1) map_of_SomeD [OF op] by (force simp: uring_ok_def)
    then have ui: "map_of (ur_pending u) ?i = Some op"
      using u t op by (simp add: extends_def)
    define v where "v = (if \<not> po_multishot op \<or> \<not> cqe_more c
      then u\<lparr>ur_pending := hdel ?i (ur_pending u), ur_pending_ops := ur_pending_ops u - 1\<rparr> else u)"
    have "uring_ok v"
      using u ui erase_ok [of u ?i op] by (simp add: v_def extends_def)
    moreover have s': "s' = v\<lparr>ur_completions := ur_completions v + 1\<rparr>"
      using assms(3) op by (simp add: handle_completion_def v_def u_def t_def Let_def split: option.splits)
    ultimately have ok: "uring_ok s'"
      by (simp add: uring_ok_def)
    have f: "ur_next_id s' = ur_next_id u" "ur_calls s' = ur_calls u"
      "map_of (ur_pending s') j = (if j = ?i \<and> \<not> (po_multishot op \<and> cqe_more c) then None else map_of (ur_pending u) j)" for j
      by (auto simp: s' v_def)
    have d: "delivered j s' = delivered j t" for j
      using u f(2) by (simp add: extends_def delivered_def)
    have p: "map_of (ur_pending u) j = map_of (ur_pending s) j" if "j < ur_next_id s" for j
      using u t(2,3) that by (simp add: extends_def)
    have n: "ur_next_id s \<le> ur_next_id s'"
      using u t(2) f(1) by (simp add: extends_def)
    show ?thesis
      using ok n ui by (intro conjI allI impI) (simp_all add: f(3) d t(4) p)
  qed
  show "uring_ok s'" "ur_next_id s \<le> ur_next_id s'"
    "\<forall>i < ur_next_id s. i \<noteq> ?i \<longrightarrow> map_of (ur_pending s') i = map_of (ur_pending s) i" "\<forall>i. i \<noteq> ?i \<longrightarrow> delivered i s' = delivered i s"
    using none some assms(1) by (cases "map_of (ur_pending s) ?i"; blast)+
  show "map_of (ur_pending s) ?i = None \<Longrightarrow> s' = s"
    by (rule none)
  show "map_of (ur_pending s) ?i = Some op \<Longrightarrow>
      map_of (ur_pending s') ?i = (if po_multishot op \<and> cqe_more c then Some op else None)
      \<and> delivered ?i s' = delivered ?i s @ (case po_callback op of None \<Rightarrow> [] | Some cb \<Rightarrow> [(cb, cqe_res c, cqe_flags c)])"
    using some [of op] by blast
qed


text \<open>What happens to the loop, in any order.\<close>

inductive uring_step :: "('cb \<Rightarrow> int \<Rightarrow> u32 \<Rightarrow> 'cb uring \<Rightarrow> 'cb uring) \<Rightarrow> 'cb uring \<Rightarrow> 'cb uring \<Rightarrow> bool" for react where
  ur_submit: "uring_step react s (submit_op got op args multishot cb s)"
| ur_recv_provided: "uring_step react s (async_recv_provided got stale fd g cb s)"
| ur_return: "uring_step react s (return_provided_buffer got g b s)"
| ur_register: "register_buffer_pool got st e g bs bc s = (s', ok) \<Longrightarrow> uring_step react s s'"
| ur_completions: "process_completions react cs s = (s', n) \<Longrightarrow> uring_step react s s'"

lemma recv_provided_extends: "uring_ok s \<Longrightarrow> extends s (async_recv_provided got stale fd g cb s)"
  by (simp add: async_recv_provided_def call_extends submit_extends split: option.splits)

lemma return_extends: "uring_ok s \<Longrightarrow> extends s (return_provided_buffer got g b s)"
  by (simp add: return_provided_buffer_def provide_extends extends_refl split: option.splits)

lemma register_extends:
  assumes "uring_ok s" and "register_buffer_pool got st e g bs bc s = (s', ok)"
  shows "extends s s'"
proof -
  have "extends s s2 \<Longrightarrow> extends s (s2\<lparr>ur_pools := ps\<rparr>)" for s2 ps
    by (simp add: extends_def uring_ok_def delivered_def)
  then show ?thesis
    using assms provide_extends [OF assms(1)] by (auto simp: register_buffer_pool_def extends_refl Let_def split: if_splits)
qed

lemma completions_ok: "uring_ok s \<Longrightarrow> starts_only react \<Longrightarrow> uring_ok (fold (handle_completion react) cs s)"
  by (induction cs arbitrary: s) (simp_all add: handle_completion_ok(1))

text \<open>
  Whatever is started, completed and registered, and whatever callbacks start without a rehash of the table, the pending operations have
  different identifiers and their number is the gauge.
\<close>

theorem uring_gauge_exact:
  assumes "(uring_step react)\<^sup>*\<^sup>* uring_init s" and "starts_only react"
  shows "distinct (map fst (ur_pending s)) \<and> ur_pending_ops s = of_nat (length (ur_pending s))"
proof -
  have step: "uring_ok s'" if "uring_step react s s'" "uring_ok s" for s s'
    using that
  proof (cases rule: uring_step.cases)
    case (ur_completions cs n)
    then show ?thesis
      using that(2) completions_ok [OF that(2) assms(2), of cs] by (simp add: process_completions_def)
  qed (use that(2) in \<open>auto intro: extends_ok [OF submit_extends] extends_ok [OF recv_provided_extends] extends_ok [OF return_extends]
      extends_ok [OF register_extends]\<close>)
  have "uring_ok s"
    using assms(1)
  proof (induction rule: rtranclp_induct)
    case base
    show ?case
      by (simp add: uring_ok_def uring_init_def)
  qed (rule step)
  then show ?thesis
    by (simp add: uring_ok_def)
qed

text \<open>
  As long as no callback rehashes the table: the callback of a single-shot operation gets exactly one of the completions that the loop handles, the first
  for it, however completions of other operations come in between.  (A completion that a registration takes off the ring is not among them, see below.)
\<close>

theorem single_shot_once:
  assumes "uring_ok s" and "starts_only react"
    and "map_of (ur_pending s) i = Some \<lparr>po_callback = Some cb, po_type = op, po_multishot = False\<rparr>" and "delivered i s = []"
    and "find (\<lambda>c. cqe_user_data c = i) cs = Some c"
  shows "delivered i (fold (handle_completion react) cs s) = [(cb, cqe_res c, cqe_flags c)]
    \<and> map_of (ur_pending (fold (handle_completion react) cs s)) i = None"
proof -
  have i: "i < ur_next_id s"
    using assms(1) map_of_SomeD [OF assms(3)] by (force simp: uring_ok_def)
  have gone: "delivered i (fold (handle_completion react) cs s) = delivered i s \<and> map_of (ur_pending (fold (handle_completion react) cs s)) i = None"
    if "uring_ok s" "i < ur_next_id s" "map_of (ur_pending s) i = None" for s cs
    using that
  proof (induction cs arbitrary: s)
    case (Cons c cs)
    note h = handle_completion_ok [OF Cons.prems(1) assms(2) refl, of c]
    show ?case
    proof (cases "cqe_user_data c = i")
      case True
      then show ?thesis
        using h(5) Cons by simp
    next
      case False
      then show ?thesis
        using h(1-4) Cons.IH [of "handle_completion react c s"] Cons.prems by simp
    qed
  qed simp
  show ?thesis
    using assms(1,3-5) i
  proof (induction cs arbitrary: s)
    case (Cons c' cs)
    note h = handle_completion_ok [OF Cons.prems(1) assms(2) refl, of c']
    show ?case
    proof (cases "cqe_user_data c' = i")
      case True
      then show ?thesis
        using h(1,2) h(6) [of "\<lparr>po_callback = Some cb, po_type = op, po_multishot = False\<rparr>"] gone [of "handle_completion react c' s" cs] Cons.prems
        by simp
    next
      case False
      then show ?thesis
        using h(1-4) Cons.IH [of "handle_completion react c' s"] Cons.prems by simp
    qed
  qed simp
qed

text \<open>
  The registration of a buffer pool takes a completion off the ring, whichever comes first, and delivers it to nobody: every operation that
  was pending is pending still, with nothing delivered, and so is the registration itself.
\<close>

theorem registration_loses_completion:
  assumes "uring_ok s" and "register_buffer_pool True st (i, r) g bs bc s = (s', ok)" and "map_of (ur_pending s) i = Some op"
  shows "map_of (ur_pending s') i = Some op \<and> delivered i s' = delivered i s \<and> ur_calls s' = ur_calls s
    \<and> map_of (ur_pending s') (ur_next_id s) \<noteq> None \<and> ur_pending_ops s' = ur_pending_ops s + 1"
proof -
  have "i < ur_next_id s"
    using assms(1) map_of_SomeD [OF assms(3)] by (force simp: uring_ok_def)
  then have "map_of (ur_pending s') i = Some op" "delivered i s' = delivered i s"
    using register_extends [OF assms(1,2)] assms(3) by (simp_all add: extends_def)
  then show ?thesis
    using assms(2) by (auto simp: register_buffer_pool_def provide_buffers_def next_user_data_def Let_def split: if_splits)
qed

text \<open>The buffers of a pool lie in its storage and do not overlap.\<close>

theorem provided_buffers_disjoint:
  assumes "map_of (ur_pools s) g = Some pool" and "get_provided_buffer g a s = Some p" and "get_provided_buffer g b s = Some q" and "a \<noteq> b"
  shows "{p ..< p + bp_buffer_size pool} \<inter> {q ..< q + bp_buffer_size pool} = {}
    \<and> p + bp_buffer_size pool \<le> bp_storage pool + bp_buffer_size pool * bp_buffer_count pool"
proof -
  have e: "p = bp_storage pool + a * bp_buffer_size pool" "q = bp_storage pool + b * bp_buffer_size pool" "Suc a \<le> bp_buffer_count pool"
    using assms by (auto simp: get_provided_buffer_def split: if_splits)
  have le: "i * bp_buffer_size pool + bp_buffer_size pool \<le> j * bp_buffer_size pool" if "Suc i \<le> j" for i j
    using mult_le_mono1 [OF that, of "bp_buffer_size pool"] by simp
  show ?thesis
    using le [of a b] le [of b a] le [OF e(3)] assms(4) unfolding e(1,2) by (cases a b rule: linorder_cases) (auto simp: mult.commute)
qed


section \<open>A small loop\<close>

definition echo_callback :: "nat \<Rightarrow> int \<Rightarrow> u32 \<Rightarrow> nat uring \<Rightarrow> nat uring" where
  "echo_callback cb r f s = submit_op True SEND [r] False (cb + 1) s"

lemma echo_callback_starts: "starts_only echo_callback"
  unfolding starts_only_def
proof (intro allI)
  fix cb r f and s :: "nat uring"
  show "\<exists>ops. echo_callback cb r f s = fold (\<lambda>(got, op, args, m, cb). submit_op got op args m cb) ops s"
    by (rule exI [of _ "[(True, SEND, [r], False, cb + 1)]"]) (simp add: echo_callback_def)
qed

definition small_loop :: "nat uring" where
  "small_loop = async_recv True 5 0 100 0 7 (async_accept True 3 True 1 uring_init)"

lemma small_loop_run: "(uring_step echo_callback)\<^sup>*\<^sup>* uring_init small_loop"
  unfolding small_loop_def async_recv_def async_accept_def
  by (rule rtranclp_trans; rule r_into_rtranclp) (rule ur_submit)+

lemma small_loop_facts:
  "uring_ok small_loop" "delivered 2 small_loop = []" "ur_next_id small_loop = 3"
  "map_of (ur_pending small_loop) 2 = Some \<lparr>po_callback = Some 7, po_type = RECV, po_multishot = False\<rparr>"
  by (simp_all add: small_loop_def async_recv_def async_accept_def submit_op_def next_user_data_def uring_init_def uring_ok_def delivered_def)

theorem uring_gauge_exact_witness: "ur_pending_ops small_loop = of_nat (length (ur_pending small_loop))"
  using uring_gauge_exact [OF small_loop_run echo_callback_starts] by blast

theorem single_shot_once_witness:
  "delivered 2 (fold (handle_completion echo_callback)
     [\<lparr>cqe_user_data = 1, cqe_res = 9, cqe_flags = 2\<rparr>, \<lparr>cqe_user_data = 2, cqe_res = 4, cqe_flags = 0\<rparr>, \<lparr>cqe_user_data = 2, cqe_res = 5, cqe_flags = 0\<rparr>]
     small_loop) = [(7, 4, 0)]"
  using single_shot_once [OF small_loop_facts(1) echo_callback_starts small_loop_facts(4,2), of
    "[\<lparr>cqe_user_data = 1, cqe_res = 9, cqe_flags = 2\<rparr>, \<lparr>cqe_user_data = 2, cqe_res = 4, cqe_flags = 0\<rparr>, \<lparr>cqe_user_data = 2, cqe_res = 5, cqe_flags = 0\<rparr>]"
    "\<lparr>cqe_user_data = 2, cqe_res = 4, cqe_flags = 0\<rparr>"] by simp

theorem registration_loses_completion_witness:
  "delivered 2 (fst (register_buffer_pool True 4096 (2, 4) 0 64 8 small_loop)) = []"
  using registration_loses_completion [OF small_loop_facts(1) surjective_pairing small_loop_facts(4), of 4096 4 0 64 8] small_loop_facts(2) by simp

theorem provided_buffers_disjoint_witness:
  "{4096 ..< 4096 + 64} \<inter> {4224 ..< 4224 + 64} = ({} :: nat set)
    \<and> get_provided_buffer 0 2 (fst (register_buffer_pool True 4096 (3, 0) 0 64 8 small_loop)) = Some 4224"
proof -
  let ?s = "fst (register_buffer_pool True 4096 (3, 0) 0 64 8 small_loop)"
  have s: "map_of (ur_pools ?s) 0 = Some \<lparr>bp_storage = 4096, bp_buffer_size = 64, bp_buffer_count = 8\<rparr>"
    by (simp add: register_buffer_pool_def Let_def)
  then have "get_provided_buffer 0 0 ?s = Some 4096" "get_provided_buffer 0 2 ?s = Some 4224"
    by (simp_all add: get_provided_buffer_def)
  with provided_buffers_disjoint [OF s this] show ?thesis
    by simp
qed

end
