(* ===== verification/Plugins.thy ===== *)
theory Plugins
  imports File_Handler
begin

text \<open>
  The plugin system (\<open>src/src/wasm_plugin.cpp\<close>): loading and unloading, and the hooks that run plugins on a request and its response.  What a
  plugin does inside the runtime is a program over the host functions (\<open>plugin_prog\<close>): it reads the request, changes request and response,
  uses the store that plugins share, and returns a number or fails.  The runtime is an argument: it gives the
  information of a module and the program of each of its functions; the runtime in the repository is \<open>stub_runtime\<close>.

  Shown: the flags of the result are faithful, so that a request or response that is not flagged is unchanged; a plugin that returns another number than
  zero stops those behind it; a plugin that is not registered for the hook does nothing.  And with the runtime of the
  repository no plugin is registered for anything, so no hook ever stops a request.
\<close>

section \<open>Data\<close>

datatype plugin_hook = ON_REQUEST | ON_RESPONSE | ON_ROUTE | ON_AUTH | ON_LOG

record plugin_info =
  pi_name :: bytes
  pi_version :: bytes
  pi_description :: bytes
  pi_author :: bytes
  pi_hooks :: "plugin_hook list"

record plugin_result =
  pr_continue :: bool
  pr_modified_request :: bool
  pr_modified_response :: bool
  pr_error :: bytes

text \<open>The host functions that a plugin calls, one after the other, and what it returns.\<close>

datatype plugin_prog =
    Returns "int option"
  | Get_request_method "bytes \<Rightarrow> plugin_prog"
  | Get_request_uri "bytes \<Rightarrow> plugin_prog"
  | Get_request_header bytes "bytes \<Rightarrow> plugin_prog"
  | Get_request_body "bytes \<Rightarrow> plugin_prog"
  | Get_client_ip "bytes \<Rightarrow> plugin_prog"
  | Set_request_header bytes bytes plugin_prog
  | Set_response_status int plugin_prog
  | Set_response_header bytes bytes plugin_prog
  | Set_response_body bytes plugin_prog
  | Kv_get bytes "bytes option \<Rightarrow> plugin_prog"
  | Kv_set bytes bytes plugin_prog

record wasm_runtime =
  rt_load_module :: "bytes \<Rightarrow> bool"
  rt_info :: "bytes \<Rightarrow> plugin_info"
  rt_function :: "bytes \<Rightarrow> bytes \<Rightarrow> plugin_prog"

record loaded_plugin =
  lp_info :: plugin_info
  lp_path :: bytes

record plugin_manager =
  pm_enabled :: bool
  pm_plugin_dir :: bytes
  pm_plugins :: "loaded_plugin list"
  pm_kv_store :: "bytes smap"

definition plugin_manager_init :: "bool \<Rightarrow> bytes \<Rightarrow> plugin_manager" where
  "plugin_manager_init enabled dir = \<lparr>pm_enabled = enabled, pm_plugin_dir = dir, pm_plugins = [], pm_kv_store = []\<rparr>"

section \<open>Loading\<close>

definition path_stem :: "bytes \<Rightarrow> bytes" where
  "path_stem p = take (length (path_filename p) - length (path_extension p)) (path_filename p)"

definition load_plugin :: "wasm_runtime \<Rightarrow> bytes \<Rightarrow> plugin_manager \<Rightarrow> plugin_manager \<times> bool" where
  "load_plugin rt p m =
     (if \<not> rt_load_module rt p then (m, False)
      else (m\<lparr>pm_plugins := pm_plugins m @ [\<lparr>lp_info = (rt_info rt p)\<lparr>pi_name := path_stem p\<rparr>, lp_path = p\<rparr>]\<rparr>, True))"

text \<open>\<open>dir\<close> is what the directory holds, if it exists.\<close>

definition load_plugins :: "wasm_runtime \<Rightarrow> bytes list option \<Rightarrow> plugin_manager \<Rightarrow> plugin_manager \<times> bool" where
  "load_plugins rt dir m =
     (if \<not> pm_enabled m then (m, True)
      else case dir of
             None \<Rightarrow> (m, True)
           | Some entries \<Rightarrow>
               (fold (\<lambda>p m. if path_extension p = lit ''.wasm'' then fst (load_plugin rt p m) else m) entries m, True))"

definition unload_plugin :: "bytes \<Rightarrow> plugin_manager \<Rightarrow> plugin_manager \<times> bool" where
  "unload_plugin name m =
     (if \<forall>p \<in> set (pm_plugins m). pi_name (lp_info p) \<noteq> name then (m, False)
      else (m\<lparr>pm_plugins := filter (\<lambda>p. pi_name (lp_info p) \<noteq> name) (pm_plugins m)\<rparr>, True))"

definition list_plugins :: "plugin_manager \<Rightarrow> plugin_info list" where
  "list_plugins m = map lp_info (pm_plugins m)"

definition has_plugins_for :: "plugin_hook \<Rightarrow> plugin_manager \<Rightarrow> bool" where
  "has_plugins_for hook m \<longleftrightarrow> (\<exists>p \<in> set (pm_plugins m). hook \<in> set (pi_hooks (lp_info p)))"

section \<open>Hooks\<close>

record plugin_state =
  ps_request :: http_request
  ps_response :: http_response
  ps_kv :: "bytes smap"
  ps_result :: plugin_result

primrec run_plugin :: "bytes \<Rightarrow> plugin_prog \<Rightarrow> plugin_state \<Rightarrow> plugin_state \<times> int option" where
  "run_plugin ip (Returns r) s = (s, r)"
| "run_plugin ip (Get_request_method k) s = run_plugin ip (k (method_str (ps_request s))) s"
| "run_plugin ip (Get_request_uri k) s = run_plugin ip (k (uri (ps_request s))) s"
| "run_plugin ip (Get_request_header n k) s = run_plugin ip (k (get_header (ps_request s) n)) s"
| "run_plugin ip (Get_request_body k) s = run_plugin ip (k (req_body (ps_request s))) s"
| "run_plugin ip (Get_client_ip k) s = run_plugin ip (k ip) s"
| "run_plugin ip (Set_request_header n v k) s =
     run_plugin ip k (s\<lparr>ps_request := (ps_request s)\<lparr>req_headers := hput n v (req_headers (ps_request s))\<rparr>,
                        ps_result := (ps_result s)\<lparr>pr_modified_request := True\<rparr>\<rparr>)"
| "run_plugin ip (Set_response_status c k) s =
     run_plugin ip k (s\<lparr>ps_response := (ps_response s)\<lparr>status_code := c\<rparr>, ps_result := (ps_result s)\<lparr>pr_modified_response := True\<rparr>\<rparr>)"
| "run_plugin ip (Set_response_header n v k) s =
     run_plugin ip k (s\<lparr>ps_response := (ps_response s)\<lparr>resp_headers := hput n v (resp_headers (ps_response s))\<rparr>,
                        ps_result := (ps_result s)\<lparr>pr_modified_response := True\<rparr>\<rparr>)"
| "run_plugin ip (Set_response_body b k) s =
     run_plugin ip k (s\<lparr>ps_response := (ps_response s)\<lparr>resp_body := b\<rparr>, ps_result := (ps_result s)\<lparr>pr_modified_response := True\<rparr>\<rparr>)"
| "run_plugin ip (Kv_get key k) s = run_plugin ip (k (map_of (ps_kv s) key)) s"
| "run_plugin ip (Kv_set key v k) s = run_plugin ip k (s\<lparr>ps_kv := hput key v (ps_kv s)\<rparr>)"

definition hook_name :: "plugin_hook \<Rightarrow> bytes" where
  "hook_name hook =
     (case hook of ON_REQUEST \<Rightarrow> lit ''on_request'' | ON_RESPONSE \<Rightarrow> lit ''on_response'' | ON_ROUTE \<Rightarrow> lit ''on_route''
      | ON_AUTH \<Rightarrow> lit ''on_auth'' | ON_LOG \<Rightarrow> lit ''on_log'')"

fun hook_loop :: "wasm_runtime \<Rightarrow> plugin_hook \<Rightarrow> bytes \<Rightarrow> loaded_plugin list \<Rightarrow> plugin_state \<Rightarrow> plugin_state" where
  "hook_loop rt hook ip [] s = s"
| "hook_loop rt hook ip (p # ps) s =
     (if hook \<notin> set (pi_hooks (lp_info p)) then hook_loop rt hook ip ps s
      else case run_plugin ip (rt_function rt (lp_path p) (hook_name hook)) s of
             (s, Some r) \<Rightarrow> if r \<noteq> 0 then s\<lparr>ps_result := (ps_result s)\<lparr>pr_continue := False\<rparr>\<rparr> else hook_loop rt hook ip ps s
           | (s, None) \<Rightarrow> hook_loop rt hook ip ps s)"

definition execute_hook :: "wasm_runtime \<Rightarrow> plugin_hook \<Rightarrow> http_request \<Rightarrow> http_response \<Rightarrow> bytes \<Rightarrow> plugin_manager
    \<Rightarrow> plugin_manager \<times> http_request \<times> http_response \<times> plugin_result" where
  "execute_hook rt hook req resp ip m =
     (let s = hook_loop rt hook ip (pm_plugins m)
                \<lparr>ps_request = req, ps_response = resp, ps_kv = pm_kv_store m,
                 ps_result = \<lparr>pr_continue = True, pr_modified_request = False, pr_modified_response = False, pr_error = []\<rparr>\<rparr>
      in (m\<lparr>pm_kv_store := ps_kv s\<rparr>, ps_request s, ps_response s, ps_result s))"

section \<open>The runtime of the repository\<close>

text \<open>Whether a file exists is an argument.\<close>

definition stub_runtime :: "(bytes \<Rightarrow> bool) \<Rightarrow> wasm_runtime" where
  "stub_runtime exists =
     \<lparr>rt_load_module = exists,
      rt_info = (\<lambda>p. \<lparr>pi_name = lit ''stub'', pi_version = lit ''0.0.0'', pi_description = lit ''Stub WASM runtime'', pi_author = lit ''JustServer'',
                      pi_hooks = []\<rparr>),
      rt_function = (\<lambda>p name. Returns (Some 0))\<rparr>"

section \<open>The result of a hook\<close>

text \<open>What changes of a state is flagged.\<close>

definition flagged :: "plugin_state \<Rightarrow> plugin_state \<Rightarrow> bool" where
  "flagged s s' \<longleftrightarrow>
     (pr_modified_request (ps_result s) \<longrightarrow> pr_modified_request (ps_result s'))
     \<and> (pr_modified_response (ps_result s) \<longrightarrow> pr_modified_response (ps_result s'))
     \<and> (\<not> pr_modified_request (ps_result s') \<longrightarrow> ps_request s' = ps_request s)
     \<and> (\<not> pr_modified_response (ps_result s') \<longrightarrow> ps_response s' = ps_response s)
     \<and> method_str (ps_request s') = method_str (ps_request s) \<and> uri (ps_request s') = uri (ps_request s)
     \<and> req_body (ps_request s') = req_body (ps_request s)"

lemma flagged_trans: "flagged s s' \<Longrightarrow> flagged s' s'' \<Longrightarrow> flagged s s''"
  by (auto simp: flagged_def)

lemma run_plugin_flagged: "flagged s (fst (run_plugin ip prog s)) \<and> pr_continue (ps_result (fst (run_plugin ip prog s))) = pr_continue (ps_result s)"
proof (induction prog arbitrary: s)
  case (Set_request_header n v k)
  let ?t = "s\<lparr>ps_request := (ps_request s)\<lparr>req_headers := hput n v (req_headers (ps_request s))\<rparr>, ps_result := (ps_result s)\<lparr>pr_modified_request := True\<rparr>\<rparr>"
  have "flagged s ?t"
    by (simp add: flagged_def)
  then show ?case
    using Set_request_header [of ?t] flagged_trans by auto
next
  case (Set_response_status c k)
  let ?t = "s\<lparr>ps_response := (ps_response s)\<lparr>status_code := c\<rparr>, ps_result := (ps_result s)\<lparr>pr_modified_response := True\<rparr>\<rparr>"
  have "flagged s ?t"
    by (simp add: flagged_def)
  then show ?case
    using Set_response_status [of ?t] flagged_trans by auto
next
  case (Set_response_header n v k)
  let ?t = "s\<lparr>ps_response := (ps_response s)\<lparr>resp_headers := hput n v (resp_headers (ps_response s))\<rparr>, ps_result := (ps_result s)\<lparr>pr_modified_response := True\<rparr>\<rparr>"
  have "flagged s ?t"
    by (simp add: flagged_def)
  then show ?case
    using Set_response_header [of ?t] flagged_trans by auto
next
  case (Set_response_body b k)
  let ?t = "s\<lparr>ps_response := (ps_response s)\<lparr>resp_body := b\<rparr>, ps_result := (ps_result s)\<lparr>pr_modified_response := True\<rparr>\<rparr>"
  have "flagged s ?t"
    by (simp add: flagged_def)
  then show ?case
    using Set_response_body [of ?t] flagged_trans by auto
next
  case (Kv_set key v k)
  then show ?case
    using Kv_set [of "s\<lparr>ps_kv := hput key v (ps_kv s)\<rparr>"] by (simp add: flagged_def)
qed (simp_all add: flagged_def)

lemma hook_loop_flagged: "flagged s (hook_loop rt hook ip ps s)"
proof (induction ps arbitrary: s)
  case (Cons p ps)
  obtain s1 r where r: "run_plugin ip (rt_function rt (lp_path p) (hook_name hook)) s = (s1, r)"
    by (cases "run_plugin ip (rt_function rt (lp_path p) (hook_name hook)) s")
  then have "flagged s s1"
    using run_plugin_flagged [of s ip "rt_function rt (lp_path p) (hook_name hook)"] by simp
  moreover have "flagged s1 (s1\<lparr>ps_result := (ps_result s1)\<lparr>pr_continue := False\<rparr>\<rparr>)"
    by (simp add: flagged_def)
  ultimately show ?case
    using Cons [of s] Cons [of s1] r by (auto split: option.splits intro: flagged_trans)
qed (simp add: flagged_def)

text \<open>
  Whatever the plugins do, the result of a hook is faithful: without its flag the request, or the response, is as it was; and no plugin changes
  the method, the target or the body of a request.
\<close>

theorem hook_flags_faithful:
  assumes "execute_hook rt hook req resp ip m = (m', req', resp', r)"
  shows "(\<not> pr_modified_request r \<longrightarrow> req' = req) \<and> (\<not> pr_modified_response r \<longrightarrow> resp' = resp)
    \<and> method_str req' = method_str req \<and> uri req' = uri req \<and> req_body req' = req_body req"
  using assms hook_loop_flagged [of _ rt hook ip "pm_plugins m"] unfolding execute_hook_def Let_def flagged_def by fastforce

text \<open>A runtime whose modules refuse every request, and a manager that has loaded one of them.\<close>

definition refusing_runtime :: wasm_runtime where
  "refusing_runtime =
     \<lparr>rt_load_module = (\<lambda>p. True),
      rt_info = (\<lambda>p. \<lparr>pi_name = [], pi_version = [], pi_description = [], pi_author = [], pi_hooks = [ON_AUTH]\<rparr>),
      rt_function = (\<lambda>p name. Get_client_ip (\<lambda>ip. Set_response_status 403 (Set_response_body ip (Returns (Some 1)))))\<rparr>"

definition refusing_plugin :: loaded_plugin where
  "refusing_plugin = \<lparr>lp_info = rt_info refusing_runtime [], lp_path = lit ''a.wasm''\<rparr>"

definition refusing_manager :: plugin_manager where
  "refusing_manager = (plugin_manager_init True [])\<lparr>pm_plugins := [refusing_plugin, refusing_plugin]\<rparr>"

lemma refusing_hook:
  "execute_hook refusing_runtime ON_AUTH empty_request empty_response [49] refusing_manager
    = (refusing_manager, empty_request, empty_response\<lparr>status_code := 403, resp_body := [49]\<rparr>,
       \<lparr>pr_continue = False, pr_modified_request = False, pr_modified_response = True, pr_error = []\<rparr>)"
  by (simp add: execute_hook_def refusing_manager_def refusing_plugin_def refusing_runtime_def plugin_manager_init_def)

theorem hook_flags_faithful_witness:
  "let (m', req', resp', r) = execute_hook refusing_runtime ON_AUTH empty_request empty_response [49] refusing_manager
   in \<not> pr_modified_request r \<and> req' = empty_request \<and> status_code resp' = 403"
  using hook_flags_faithful [OF refusing_hook] by (simp add: refusing_hook)

lemma hook_loop_unregistered:
  "\<forall>q \<in> set ps. hook \<notin> set (pi_hooks (lp_info q)) \<Longrightarrow> hook_loop rt hook ip (ps @ rest) s = hook_loop rt hook ip rest s"
  by (induction ps) simp_all

text \<open>
  A plugin that returns another number than zero ends the hook: the request is to be stopped, and the plugins behind it do not run.
\<close>

theorem hook_stopped:
  assumes "pm_plugins m = ps @ p # qs" and "\<forall>q \<in> set ps. hook \<notin> set (pi_hooks (lp_info q))" and "hook \<in> set (pi_hooks (lp_info p))"
    and "\<And>s. \<exists>r. snd (run_plugin ip (rt_function rt (lp_path p) (hook_name hook)) s) = Some r \<and> r \<noteq> 0"
  shows "\<not> pr_continue (snd (snd (snd (execute_hook rt hook req resp ip m))))
    \<and> execute_hook rt hook req resp ip (m\<lparr>pm_plugins := ps @ [p]\<rparr>)
      = ((fst (execute_hook rt hook req resp ip m))\<lparr>pm_plugins := ps @ [p]\<rparr>, snd (execute_hook rt hook req resp ip m))"
proof -
  have stop: "hook_loop rt hook ip (p # rest) s
      = (fst (run_plugin ip (rt_function rt (lp_path p) (hook_name hook)) s))\<lparr>ps_result :=
          (ps_result (fst (run_plugin ip (rt_function rt (lp_path p) (hook_name hook)) s)))\<lparr>pr_continue := False\<rparr>\<rparr>" for rest s
    using assms(3) assms(4) [of s] by (auto split: prod.splits)
  show ?thesis
    using assms(1) by (simp add: execute_hook_def Let_def hook_loop_unregistered [OF assms(2)] stop del: hook_loop.simps)
qed

theorem hook_stopped_witness:
  "\<not> pr_continue (snd (snd (snd (execute_hook refusing_runtime ON_AUTH empty_request empty_response [49] refusing_manager))))"
  using hook_stopped [of refusing_manager "[]" refusing_plugin "[refusing_plugin]" ON_AUTH "[49]" refusing_runtime empty_request empty_response]
  by (simp add: refusing_manager_def refusing_plugin_def refusing_runtime_def)

lemma stub_loads_no_hooks:
  assumes "\<forall>p \<in> set (pm_plugins m). pi_hooks (lp_info p) = []"
  shows "\<forall>p \<in> set (pm_plugins (fst (load_plugins (stub_runtime exists) dir m))). pi_hooks (lp_info p) = []"
proof -
  have "\<forall>p \<in> set (pm_plugins (fold (\<lambda>p m. if path_extension p = lit ''.wasm'' then fst (load_plugin (stub_runtime exists) p m) else m) es m)). pi_hooks (lp_info p) = []"
    for es
    using assms
  proof (induction es arbitrary: m)
    case (Cons e es)
    have "\<forall>p \<in> set (pm_plugins (fst (load_plugin (stub_runtime exists) e m))). pi_hooks (lp_info p) = []"
      using Cons.prems by (auto simp: load_plugin_def stub_runtime_def)
    then show ?case
      using Cons by simp
  qed simp
  then show ?thesis
    using assms by (auto simp: load_plugins_def split: option.splits)
qed

text \<open>
  With the runtime of the repository every plugin loads without hooks: nothing a plugin is meant to check is checked, and every request goes on
  as it came.
\<close>

theorem stub_never_stops:
  "execute_hook (stub_runtime exists) hook req resp ip (fst (load_plugins (stub_runtime exists) dir (plugin_manager_init enabled d)))
    = (fst (load_plugins (stub_runtime exists) dir (plugin_manager_init enabled d)), req, resp,
       \<lparr>pr_continue = True, pr_modified_request = False, pr_modified_response = False, pr_error = []\<rparr>)"
proof -
  let ?m = "fst (load_plugins (stub_runtime exists) dir (plugin_manager_init enabled d))"
  have "\<forall>p \<in> set (pm_plugins ?m). pi_hooks (lp_info p) = []"
    by (rule stub_loads_no_hooks) (simp add: plugin_manager_init_def)
  then have "hook_loop (stub_runtime exists) hook ip (pm_plugins ?m) s = s" for s
    using hook_loop_unregistered [of "pm_plugins ?m" hook _ ip "[]"] by simp
  then show ?thesis
    by (simp add: execute_hook_def)
qed

end
