(* ===== verification/Tls.thy ===== *)
theory Tls
  imports Prelude
begin

text \<open>
  The TLS context (\<open>src/src/tls_context.cpp\<close>): the choice of the protocol, the set-up of the context and the handshake with
  its deadline.  What OpenSSL, the clock and \<open>poll\<close> return is an argument.

  Shown: HTTP/2 is chosen exactly if the client offers it, whatever it sends; a context never allows a version before TLS 1.3; and a
  handshake ends with a connection exactly if the library accepts it in time, and ends at the latest with the deadline, however the
  client trickles its data.
\<close>

section \<open>The choice of the protocol\<close>

datatype negotiated_protocol = HTTP_1_1 | HTTP_2 | UNKNOWN_PROTOCOL

text \<open>One pass over the length-prefixed names that the client offers.\<close>

function alpn_pass :: "bytes \<Rightarrow> bytes \<Rightarrow> nat \<Rightarrow> bytes option" where
  "alpn_pass name inp i =
     (if length inp \<le> i then None
      else let proto_len = unat (inp ! i)
           in if length inp < i + 1 + proto_len then None
              else if proto_len = length name \<and> take proto_len (drop (i + 1) inp) = name
              then Some (take proto_len (drop (i + 1) inp))
              else alpn_pass name inp (i + 1 + proto_len))"
  by pat_completeness auto
termination
  by (relation "measure (\<lambda>(name, inp, i). length inp - i)") auto

declare alpn_pass.simps [simp del]

text \<open>\<open>None\<close> is \<open>SSL_TLSEXT_ERR_NOACK\<close>.\<close>

definition alpn_select_callback :: "bytes \<Rightarrow> bytes option" where
  "alpn_select_callback inp =
     (case alpn_pass (lit ''h2'') inp 0 of
        Some p \<Rightarrow> Some p
      | None \<Rightarrow> alpn_pass (lit ''http/1.1'') inp 0)"

text \<open>Of a session, if there is one, with the name that was selected.\<close>

definition get_negotiated_protocol :: "bytes option option \<Rightarrow> negotiated_protocol" where
  "get_negotiated_protocol ssl =
     (case ssl of
        None \<Rightarrow> HTTP_1_1
      | Some None \<Rightarrow> HTTP_1_1
      | Some (Some proto) \<Rightarrow> if length proto = 2 \<and> proto = lit ''h2'' then HTTP_2 else HTTP_1_1)"

section \<open>The context\<close>

definition TLS1_3_VERSION :: nat where
  "TLS1_3_VERSION = 0x0304"

record ssl_ctx =
  ctx_min_version :: nat
  ctx_ciphersuites :: "bytes list"
  ctx_alpn :: "bytes \<Rightarrow> bytes option"
  ctx_cert :: "bytes option"
  ctx_key :: "bytes option"

record ssl_outcomes =
  so_ctx_new :: bool
  so_ciphersuites :: bool
  so_certificate :: bool
  so_key :: bool
  so_match :: bool

definition ciphersuites :: "bytes list" where
  "ciphersuites = [lit ''TLS_AES_256_GCM_SHA384'', lit ''TLS_CHACHA20_POLY1305_SHA256'', lit ''TLS_AES_128_GCM_SHA256'']"

text \<open>The context that is left, which a failure does not take back, and the result.\<close>

definition tls_context_init :: "ssl_outcomes \<Rightarrow> bytes \<Rightarrow> bytes \<Rightarrow> ssl_ctx option \<times> bool" where
  "tls_context_init so cert_path key_path =
     (if \<not> so_ctx_new so then (None, False)
      else let ctx = \<lparr>ctx_min_version = TLS1_3_VERSION, ctx_ciphersuites = [], ctx_alpn = (\<lambda>inp. None), ctx_cert = None, ctx_key = None\<rparr>
           in if \<not> so_ciphersuites so then (Some ctx, False)
              else let ctx = ctx\<lparr>ctx_ciphersuites := ciphersuites, ctx_alpn := alpn_select_callback\<rparr>
                   in if \<not> so_certificate so then (Some ctx, False)
                      else let ctx = ctx\<lparr>ctx_cert := Some cert_path\<rparr>
                           in if \<not> so_key so then (Some ctx, False)
                              else let ctx = ctx\<lparr>ctx_key := Some key_path\<rparr> in (Some ctx, so_match so))"

section \<open>The handshake\<close>

datatype accept_result = Accepted | Want_read | Want_write | Accept_failed

text \<open>
  What the calls of the loop return, turn by turn: \<open>SSL_accept\<close>, the clock in milliseconds, and \<open>poll\<close> for a timeout (for reading, or
  else for writing).
\<close>

record handshake_env =
  hs_start :: int
  hs_accept :: "nat \<Rightarrow> accept_result"
  hs_clock :: "nat \<Rightarrow> int"
  hs_poll :: "nat \<Rightarrow> bool \<Rightarrow> int \<Rightarrow> int"

definition handshake_timeout_ms :: int where
  "handshake_timeout_ms = 5000"

text \<open>The conversion of the remaining time to \<open>int\<close> keeps 32 bits.\<close>

definition remaining_ms :: "handshake_env \<Rightarrow> int \<Rightarrow> nat \<Rightarrow> int" where
  "remaining_ms e deadline i = sint (word_of_int (deadline - hs_clock e i) :: 32 word)"

partial_function (option) handshake_loop :: "handshake_env \<Rightarrow> int \<Rightarrow> nat \<Rightarrow> bool option" where
  "handshake_loop e deadline i =
     (if hs_accept e i = Accepted then Some True
      else if hs_accept e i = Accept_failed then Some False
      else if remaining_ms e deadline i \<le> 0 then Some False
      else if hs_poll e i (hs_accept e i = Want_read) (remaining_ms e deadline i) \<le> 0 then Some False
      else handshake_loop e deadline (Suc i))"

text \<open>No session, one with a completed handshake, or one that was freed.\<close>

datatype wrap_result = No_session | Connected | Freed

definition wrap_socket :: "ssl_ctx option \<Rightarrow> bool \<Rightarrow> handshake_env \<Rightarrow> wrap_result option" where
  "wrap_socket ctx ssl_new e =
     (if ctx = None \<or> \<not> ssl_new then Some No_session
      else map_option (\<lambda>ok. if ok then Connected else Freed) (handshake_loop e (hs_start e + handshake_timeout_ms) 0))"

section \<open>What is chosen\<close>

text \<open>A list of names as the client sends it, and what may stand behind the last whole name.\<close>

definition alpn_wire :: "bytes list \<Rightarrow> bytes" where
  "alpn_wire ps = concat (map (\<lambda>p. of_nat (length p) # p) ps)"

definition cut_off :: "bytes \<Rightarrow> bool" where
  "cut_off rest \<longleftrightarrow> rest = [] \<or> length rest \<le> unat (hd rest)"

lemma alpn_wire_Cons: "alpn_wire (p # ps) = of_nat (length p) # p @ alpn_wire ps"
  by (simp add: alpn_wire_def)

lemma alpn_pass_wire:
  assumes "\<forall>p \<in> set ps. length p < 256" and "cut_off rest"
  shows "alpn_pass name (pre @ alpn_wire ps @ rest) (length pre) = (if name \<in> set ps then Some name else None)"
  using assms(1)
proof (induction ps arbitrary: pre)
  case Nil
  then show ?case
    using assms(2) by (subst alpn_pass.simps) (cases rest; simp add: alpn_wire_def cut_off_def)
next
  case (Cons p ps)
  then have n: "unat (of_nat (length p) :: byte) = length p"
    by (simp add: unat_of_nat)
  have "alpn_pass name (pre @ alpn_wire (p # ps) @ rest) (length pre)
      = (if p = name then Some name else alpn_pass name (pre @ alpn_wire (p # ps) @ rest) (length pre + 1 + length p))"
    by (subst alpn_pass.simps) (auto simp: alpn_wire_Cons n nth_append)
  also have "\<dots> = (if p = name then Some name else if name \<in> set ps then Some name else None)"
    using Cons.IH [of "pre @ of_nat (length p) # p"] Cons.prems by (simp add: alpn_wire_Cons)
  finally show ?case
    by auto
qed

text \<open>Every input is a list of names, with a name cut off at the end or nothing behind it.\<close>

lemma alpn_input_form: "\<exists>ps rest. inp = alpn_wire ps @ rest \<and> (\<forall>p \<in> set ps. length p < 256) \<and> cut_off rest"
proof (induction "length inp" arbitrary: inp rule: less_induct)
  case less
  show ?case
  proof (cases "cut_off inp")
    case True
    then show ?thesis
      by (intro exI [of _ "[]"] exI [of _ inp]) (simp add: alpn_wire_def)
  next
    case False
    then obtain b tl' where inp: "inp = b # tl'" "unat b \<le> length tl'"
      by (cases inp) (auto simp: cut_off_def)
    obtain ps rest where "drop (unat b) tl' = alpn_wire ps @ rest" "\<forall>p \<in> set ps. length p < 256" "cut_off rest"
      using less [of "drop (unat b) tl'"] inp by (auto simp: less_Suc_eq_le)
    moreover have "tl' = take (unat b) tl' @ drop (unat b) tl'" "length (take (unat b) tl') = unat b"
      using inp(2) by simp_all
    ultimately have "inp = alpn_wire (take (unat b) tl' # ps) @ rest" "\<forall>p \<in> set (take (unat b) tl' # ps). length p < 256"
      using inp(1) unat_byte_less [of b] by (auto simp: alpn_wire_Cons)
    then show ?thesis
      using \<open>cut_off rest\<close> by blast
  qed
qed

text \<open>
  C31. HTTP/2 is spoken exactly if the client offers it, wherever it stands in the list; HTTP/1.1 is chosen if only that is offered, and
  otherwise nothing is acknowledged.  A name that is cut off at the end changes nothing, and every input has this form.
\<close>

theorem protocol_negotiated:
  assumes "\<forall>p \<in> set ps. length p < 256" and "cut_off rest"
  shows "alpn_select_callback (alpn_wire ps @ rest)
      = (if lit ''h2'' \<in> set ps then Some (lit ''h2'') else if lit ''http/1.1'' \<in> set ps then Some (lit ''http/1.1'') else None)
    \<and> (get_negotiated_protocol (Some (alpn_select_callback (alpn_wire ps @ rest))) = HTTP_2 \<longleftrightarrow> lit ''h2'' \<in> set ps)"
proof -
  have "alpn_pass name (alpn_wire ps @ rest) 0 = (if name \<in> set ps then Some name else None)" for name
    using alpn_pass_wire [OF assms, of name "[]"] by simp
  then show ?thesis
    by (simp add: alpn_select_callback_def get_negotiated_protocol_def)
qed

theorem protocol_negotiated_witness:
  "alpn_select_callback (alpn_wire [lit ''http/1.1'', lit ''h2''] @ [9, 1]) = Some (lit ''h2'')"
  using protocol_negotiated [of "[lit ''http/1.1'', lit ''h2'']" "[9, 1]"] by (simp add: cut_off_def)

text \<open>Whatever fails, a context that is left allows no version before TLS 1.3; one that is ready has the protocols, certificate and key.\<close>

theorem context_versions:
  assumes "tls_context_init so cert key = (Some ctx, ok)"
  shows "ctx_min_version ctx = TLS1_3_VERSION
    \<and> (ok \<longrightarrow> ctx_ciphersuites ctx = ciphersuites \<and> ctx_alpn ctx = alpn_select_callback \<and> ctx_cert ctx = Some cert \<and> ctx_key ctx = Some key)"
  using assms by (auto simp: tls_context_init_def Let_def split: if_splits)

section \<open>When the handshake ends\<close>

definition wants :: "handshake_env \<Rightarrow> int \<Rightarrow> nat \<Rightarrow> bool" where
  "wants e deadline i \<longleftrightarrow> hs_accept e i \<in> {Want_read, Want_write} \<and> 0 < remaining_ms e deadline i
     \<and> 0 < hs_poll e i (hs_accept e i = Want_read) (remaining_ms e deadline i)"

lemma handshake_step:
  "handshake_loop e d i = (if hs_accept e i = Accepted then Some True else if wants e d i then handshake_loop e d (Suc i) else Some False)"
  by (subst handshake_loop.simps) (cases "hs_accept e i"; auto simp: wants_def)

lemma handshake_accepted: "(\<forall>j. i \<le> j \<and> j < n \<longrightarrow> wants e d j) \<Longrightarrow> i \<le> n \<Longrightarrow> handshake_loop e d i = handshake_loop e d n"
proof (induction "n - i" arbitrary: i)
  case (Suc k)
  then have "wants e d i" "handshake_loop e d (Suc i) = handshake_loop e d n"
    by auto
  moreover have "hs_accept e i \<noteq> Accepted"
    using \<open>wants e d i\<close> by (auto simp: wants_def)
  ultimately show ?case
    by (simp add: handshake_step [of e d i])
qed simp

lemma handshake_trueD: "handshake_loop e d i = Some r \<Longrightarrow> r \<Longrightarrow> \<exists>n \<ge> i. hs_accept e n = Accepted \<and> (\<forall>j. i \<le> j \<and> j < n \<longrightarrow> wants e d j)"
proof (induction rule: handshake_loop.raw_induct [rotated 1, consumes 1])
  case (1 loop e d i r)
  show ?case
  proof (cases "hs_accept e i = Accepted")
    case False
    then have w: "wants e d i" "loop e d (Suc i) = Some r"
      using 1(2,3) by (cases "hs_accept e i"; auto simp: wants_def split: if_splits)+
    then obtain n where "Suc i \<le> n" "hs_accept e n = Accepted" "\<forall>j. Suc i \<le> j \<and> j < n \<longrightarrow> wants e d j"
      using 1(1,3) by blast
    moreover have "wants e d j" if "i \<le> j" "j < n" for j
      using that w(1) calculation(3) by (cases "j = i") auto
    ultimately show ?thesis
      using Suc_leD by blast
  qed auto
qed

text \<open>
  A session is connected exactly if the library accepts it in some turn and in every turn before that it wanted more, there was time
  left and the descriptor became ready.
\<close>

theorem handshake_exact:
  "wrap_socket (Some ctx) True e = Some Connected
    \<longleftrightarrow> (\<exists>n. hs_accept e n = Accepted \<and> (\<forall>j < n. wants e (hs_start e + handshake_timeout_ms) j))"
  (is "?L \<longleftrightarrow> ?R")
proof
  assume ?L
  then have "handshake_loop e (hs_start e + handshake_timeout_ms) 0 = Some True"
    by (auto simp: wrap_socket_def split: if_splits)
  from handshake_trueD [OF this] show ?R by auto
next
  assume ?R
  then obtain n where n: "hs_accept e n = Accepted" "\<forall>j < n. wants e (hs_start e + handshake_timeout_ms) j"
    by blast
  then have "handshake_loop e (hs_start e + handshake_timeout_ms) 0 = Some True"
    using handshake_accepted [of 0 n e] by (simp add: handshake_step [of e _ n])
  then show ?L
    by (simp add: wrap_socket_def)
qed

text \<open>
  A client cannot stretch the handshake: once the clock has passed the deadline in some turn, by less than \<open>2 ^ 31\<close> milliseconds, and the
  library has not accepted the session by then, the loop has ended and the session is freed, however often it was ready before.
\<close>

theorem handshake_deadline:
  assumes "hs_start e + handshake_timeout_ms \<le> hs_clock e n" and "hs_clock e n < hs_start e + handshake_timeout_ms + 2 ^ 31"
    and "\<forall>j \<le> n. hs_accept e j \<noteq> Accepted"
  shows "wrap_socket (Some ctx) True e = Some Freed"
proof -
  let ?d = "hs_start e + handshake_timeout_ms"
  have "signed_take_bit 31 (?d - hs_clock e n) = ?d - hs_clock e n"
    using assms(1,2) by (intro signed_take_bit_int_eq_self) simp_all
  then have "remaining_ms e ?d n = ?d - hs_clock e n"
    unfolding remaining_ms_def signed_of_int by simp
  then have "\<not> wants e ?d n"
    using assms(1) by (simp add: wants_def)
  then have "handshake_loop e ?d i = Some False" if "i \<le> n" for i
    using that
  proof (induction "n - i" arbitrary: i)
    case (Suc k)
    then show ?case
      using assms(3) by (simp add: handshake_step [of e ?d i])
  qed (use assms(3) in \<open>simp add: handshake_step [of e ?d n]\<close>)
  then show ?thesis
    by (simp add: wrap_socket_def)
qed

text \<open>A client that sends a byte every second, and a clock in step with it.\<close>

definition slow_client :: handshake_env where
  "slow_client = \<lparr>hs_start = 100, hs_accept = (\<lambda>i. Want_read), hs_clock = (\<lambda>i. 100 + 1000 * int i), hs_poll = (\<lambda>i rd t. 1)\<rparr>"

theorem handshake_deadline_witness:
  "wrap_socket (fst (tls_context_init \<lparr>so_ctx_new = True, so_ciphersuites = True, so_certificate = True, so_key = True, so_match = True\<rparr> [] []))
     True slow_client = Some Freed"
proof -
  obtain ctx where "fst (tls_context_init \<lparr>so_ctx_new = True, so_ciphersuites = True, so_certificate = True, so_key = True, so_match = True\<rparr> [] []) = Some ctx"
    by (simp add: tls_context_init_def Let_def)
  moreover have "wrap_socket (Some ctx) True slow_client = Some Freed"
    by (rule handshake_deadline [of _ 5]) (simp_all add: slow_client_def handshake_timeout_ms_def)
  ultimately show ?thesis
    by simp
qed

theorem context_versions_witness:
  "ctx_min_version (the (fst (tls_context_init \<lparr>so_ctx_new = True, so_ciphersuites = True, so_certificate = False, so_key = True, so_match = True\<rparr> [] [])))
     = TLS1_3_VERSION"
  using context_versions [of "\<lparr>so_ctx_new = True, so_ciphersuites = True, so_certificate = False, so_key = True, so_match = True\<rparr>" "[]" "[]" _ False]
  by (simp add: tls_context_init_def Let_def)

end
