(* ===== verification/Logger.thy ===== *)
theory Logger
  imports Prelude
begin

text \<open>
  The logger (\<open>src/src/logger.cpp\<close>): levels, and the bytes that a message puts on the standard error stream.  The text of the clock is an
  argument.  The other theories leave their log messages out; this one shows what a message can do to the log.

  Shown: the log is the sequence of the lines at or above the level in force; and a message is printed as it is, so one
  with a line feed makes lines of its own, and one with a NUL is cut off.
\<close>

datatype log_level = LEVEL_DEBUG | LEVEL_INFO | LEVEL_WARN | LEVEL_ERROR

definition level_number :: "log_level \<Rightarrow> int" where
  "level_number l = (case l of LEVEL_DEBUG \<Rightarrow> 0 | LEVEL_INFO \<Rightarrow> 1 | LEVEL_WARN \<Rightarrow> 2 | LEVEL_ERROR \<Rightarrow> 3)"

record logger =
  lg_level :: log_level
  lg_stderr :: bytes

definition logger_init :: logger where
  "logger_init = \<lparr>lg_level = LEVEL_INFO, lg_stderr = []\<rparr>"

definition set_level :: "log_level \<Rightarrow> logger \<Rightarrow> logger" where
  "set_level l g = g\<lparr>lg_level := l\<rparr>"

definition set_level_str :: "bytes \<Rightarrow> logger \<Rightarrow> logger" where
  "set_level_str str g =
     (if str = lit ''debug'' then g\<lparr>lg_level := LEVEL_DEBUG\<rparr>
      else if str = lit ''info'' then g\<lparr>lg_level := LEVEL_INFO\<rparr>
      else if str = lit ''warn'' then g\<lparr>lg_level := LEVEL_WARN\<rparr>
      else if str = lit ''error'' then g\<lparr>lg_level := LEVEL_ERROR\<rparr>
      else g)"

text \<open>The conversion \<open>%.*s\<close> prints at most as many bytes as it is told, and stops at a NUL.\<close>

definition printed :: "bytes \<Rightarrow> bytes" where
  "printed str = takeWhile (\<lambda>b. b \<noteq> 0) str"

definition log_line :: "bytes \<Rightarrow> bytes \<Rightarrow> bytes \<Rightarrow> bytes" where
  "log_line time_str prefix msg = lit ''['' @ time_str @ lit ''] ['' @ printed prefix @ lit ''] '' @ printed msg @ [10]"

definition log_message :: "bytes \<Rightarrow> log_level \<Rightarrow> bytes \<Rightarrow> bytes \<Rightarrow> logger \<Rightarrow> logger" where
  "log_message time_str l prefix msg g =
     (if level_number l < level_number (lg_level g) then g else g\<lparr>lg_stderr := lg_stderr g @ log_line time_str prefix msg\<rparr>)"

text \<open>\<open>debug\<close>, \<open>info\<close>, \<open>warn\<close> and \<open>error\<close>.\<close>

definition level_prefix :: "log_level \<Rightarrow> bytes" where
  "level_prefix l = (case l of LEVEL_DEBUG \<Rightarrow> lit ''DEBUG'' | LEVEL_INFO \<Rightarrow> lit ''INFO'' | LEVEL_WARN \<Rightarrow> lit ''WARN'' | LEVEL_ERROR \<Rightarrow> lit ''ERROR'')"

definition log_at :: "log_level \<Rightarrow> bytes \<Rightarrow> bytes \<Rightarrow> logger \<Rightarrow> logger" where
  "log_at l time_str msg = log_message time_str l (level_prefix l) msg"

lemma printed_plain [simp]: "0 \<notin> set m \<Longrightarrow> printed m = m"
  by (simp add: printed_def takeWhile_eq_all_conv) metis

lemma prefix_plain [simp]: "printed (level_prefix l) = level_prefix l"
  by (cases l) (simp_all add: level_prefix_def printed_def lit_def)

text \<open>
  The log of a sequence of messages is made of the lines at or above the level, in order.
\<close>

theorem log_threshold:
  "lg_stderr (fold (\<lambda>(l, t, msg). log_at l t msg) msgs g)
    = lg_stderr g @ concat (map (\<lambda>(l, t, msg). log_line t (level_prefix l) msg)
        (filter (\<lambda>(l, t, msg). level_number (lg_level g) \<le> level_number l) msgs))"
proof (induction msgs arbitrary: g)
  case (Cons m msgs)
  obtain l t msg where m: "m = (l, t, msg)" by (cases m)
  have "lg_level (log_at l t msg g) = lg_level g"
    by (simp add: log_at_def log_message_def)
  then show ?case
    using Cons [of "log_at l t msg g"] by (simp add: m log_at_def log_message_def)
qed simp

text \<open>
  A message with a line feed forges a line: whoever chooses a part of a message can make the log look as if another message had been logged, at
  any level and time.
\<close>

theorem log_line_forged:
  assumes "0 \<notin> set msg" and "0 \<notin> set forged" and "0 \<notin> set t'" and "level_number (lg_level g) \<le> level_number l"
    and "level_number (lg_level g) \<le> level_number l'"
  shows "lg_stderr (log_at l t (msg @ 10 # lit ''['' @ t' @ lit ''] ['' @ level_prefix l' @ lit ''] '' @ forged) g)
    = lg_stderr (log_at l' t' forged (log_at l t msg g))"
proof -
  have "0 \<notin> set (level_prefix l')" "0 \<notin> set (lit ''['')" "0 \<notin> set (lit ''] ['')" "0 \<notin> set (lit ''] '')"
    by (cases l'; simp add: level_prefix_def lit_def) (simp_all add: lit_def)
  then show ?thesis
    using assms by (simp add: log_at_def log_message_def log_line_def)
qed

lemma printed_nul: "printed (msg @ 0 # hidden) = printed msg"
  by (induction msg) (simp_all add: printed_def)

text \<open>What stands behind a NUL is not logged.\<close>

theorem log_cut_at_nul: "log_at l t (msg @ 0 # hidden) g = log_at l t msg g"
  by (simp add: log_at_def log_message_def log_line_def printed_nul)

theorem log_line_forged_witness:
  "lg_stderr (log_at LEVEL_INFO (lit ''1'') (lit ''a'' @ 10 # lit ''['' @ lit ''2'' @ lit ''] ['' @ level_prefix LEVEL_ERROR @ lit ''] '' @ lit ''b'') logger_init)
    = lg_stderr (log_at LEVEL_ERROR (lit ''2'') (lit ''b'') (log_at LEVEL_INFO (lit ''1'') (lit ''a'') logger_init))"
  by (rule log_line_forged) (simp_all add: lit_def logger_init_def level_number_def)

end
