(* ===== verification/Huffman_Trie.thy ===== *)
theory Huffman_Trie
  imports Huffman "HOL-Library.Sublist"
begin

text \<open>
  The binary trie of \<open>src/src/http2.cpp\<close> (\<open>get_huffman_trie\<close>): nodes in a vector, children as 16-bit indices into it.  The decoder does not use
  it any more.  Shown: the trie finds a symbol at the end of a path exactly if the path is the code of that symbol in the table.
\<close>

section \<open>The trie\<close>

record huffman_node =
  hn_symbol :: int
  hn_child0 :: u16
  hn_child1 :: u16

definition empty_node :: huffman_node where
  "empty_node = \<lparr>hn_symbol = - 1, hn_child0 = 0, hn_child1 = 0\<rparr>"

definition child :: "huffman_node \<Rightarrow> bool \<Rightarrow> u16" where
  "child nd b = (if b then hn_child1 nd else hn_child0 nd)"

definition set_child :: "bool \<Rightarrow> u16 \<Rightarrow> huffman_node \<Rightarrow> huffman_node" where
  "set_child b n nd = (if b then nd\<lparr>hn_child1 := n\<rparr> else nd\<lparr>hn_child0 := n\<rparr>)"

text \<open>The inner loop: one bit of a code, and all of them.\<close>

definition trie_step :: "bool \<Rightarrow> huffman_node list \<times> u16 \<Rightarrow> huffman_node list \<times> u16" where
  "trie_step b = (\<lambda>(nodes, cur).
     (let nodes = (if child (nodes ! unat cur) b = 0
                   then nodes[unat cur := set_child b (of_nat (length nodes)) (nodes ! unat cur)] @ [empty_node]
                   else nodes)
      in (nodes, child (nodes ! unat cur) b)))"

definition trie_insert :: "bool list \<Rightarrow> int \<Rightarrow> huffman_node list \<Rightarrow> huffman_node list" where
  "trie_insert bits symbol nodes =
     (let (nodes, cur) = fold trie_step bits (nodes, 0)
      in nodes[unat cur := (nodes ! unat cur)\<lparr>hn_symbol := symbol\<rparr>])"

definition code_bits :: "nat \<Rightarrow> bool list" where
  "code_bits symbol = (let (code, bits) = HUFFMAN_TABLE ! symbol in map (\<lambda>bit. odd (code div 2 ^ bit)) (rev [0..<bits]))"

definition get_huffman_trie :: "huffman_node list" where
  "get_huffman_trie = fold (\<lambda>symbol. trie_insert (code_bits symbol) (int symbol)) [0..<257] [empty_node]"

section \<open>Paths\<close>

fun walk :: "huffman_node list \<Rightarrow> nat \<Rightarrow> bool list \<Rightarrow> nat option" where
  "walk nodes cur [] = Some cur"
| "walk nodes cur (b # bs) =
     (if child (nodes ! cur) b = 0 then None else walk nodes (unat (child (nodes ! cur) b)) bs)"

definition symbol_at :: "huffman_node list \<Rightarrow> bool list \<Rightarrow> int option" where
  "symbol_at nodes p = map_option (\<lambda>n. hn_symbol (nodes ! n)) (walk nodes 0 p)"

text \<open>Children lie behind their parents, and no node is the child of two.\<close>

definition trie_ok :: "huffman_node list \<Rightarrow> bool" where
  "trie_ok nodes \<longleftrightarrow> nodes \<noteq> [] \<and> length nodes < 2 ^ 16
     \<and> (\<forall>i < length nodes. \<forall>b. child (nodes ! i) b \<noteq> 0 \<longrightarrow> unat (child (nodes ! i) b) < length nodes)
     \<and> (\<forall>i < length nodes. \<forall>j < length nodes. \<forall>b b'.
          child (nodes ! i) b \<noteq> 0 \<and> child (nodes ! i) b = child (nodes ! j) b' \<longrightarrow> i = j \<and> b = b')"

lemma trie_ok_child: "trie_ok nodes \<Longrightarrow> i < length nodes \<Longrightarrow> child (nodes ! i) b \<noteq> 0 \<Longrightarrow> unat (child (nodes ! i) b) < length nodes"
  by (simp add: trie_ok_def)

lemma trie_ok_unique:
  "trie_ok nodes \<Longrightarrow> i < length nodes \<Longrightarrow> j < length nodes \<Longrightarrow> child (nodes ! i) b \<noteq> 0 \<Longrightarrow> child (nodes ! i) b = child (nodes ! j) b'
    \<Longrightarrow> i = j \<and> b = b'"
  unfolding trie_ok_def by blast

lemma child_set_child [simp]:
  "child (set_child b n nd) b' = (if b = b' then n else child nd b')" "hn_symbol (set_child b n nd) = hn_symbol nd"
  "child empty_node b = 0" "child (nd\<lparr>hn_symbol := s\<rparr>) b = child nd b" "hn_symbol empty_node = - 1"
  by (simp_all add: child_def set_child_def empty_node_def)

lemma walk_append: "walk nodes cur (p @ q) = Option.bind (walk nodes cur p) (\<lambda>n. walk nodes n q)"
  by (induction p arbitrary: cur) auto

lemma walk_bound: "trie_ok nodes \<Longrightarrow> cur < length nodes \<Longrightarrow> walk nodes cur p = Some n \<Longrightarrow> n < length nodes"
  by (induction p arbitrary: cur) (auto dest: trie_ok_child split: if_splits)

lemma walk_snoc:
  "walk nodes 0 (p @ [b]) = Some n \<longleftrightarrow> (\<exists>m. walk nodes 0 p = Some m \<and> child (nodes ! m) b \<noteq> 0 \<and> n = unat (child (nodes ! m) b))"
  by (auto simp: walk_append split: Option.bind_splits if_splits)

text \<open>A node is at the end of one path only.\<close>

lemma walk_inj:
  assumes "trie_ok nodes" and "walk nodes 0 p = Some n" and "walk nodes 0 q = Some n"
  shows "p = q"
  using assms(2,3)
proof (induction p arbitrary: q n rule: rev_induct)
  case Nil
  then show ?case
    by (cases q rule: rev_cases) (auto simp: walk_snoc unat_eq_zero)
next
  case (snoc b p)
  then obtain m where m: "walk nodes 0 p = Some m" "child (nodes ! m) b \<noteq> 0" "n = unat (child (nodes ! m) b)"
    by (auto simp: walk_snoc)
  obtain b' q' where q: "q = q' @ [b']"
    using snoc.prems(2) m(2,3) by (cases q rule: rev_cases) (auto simp: unat_eq_zero)
  then obtain m' where m': "walk nodes 0 q' = Some m'" "child (nodes ! m') b' \<noteq> 0" "n = unat (child (nodes ! m') b')"
    using snoc.prems(2) by (auto simp: walk_snoc)
  have "m < length nodes" "m' < length nodes"
    using walk_bound [OF assms(1) _ m(1)] walk_bound [OF assms(1) _ m'(1)] assms(1) by (auto simp: trie_ok_def)
  moreover have "child (nodes ! m) b = child (nodes ! m') b'"
    using m(3) m'(3) by (simp add: word_unat_eq_iff)
  ultimately have "m = m'" "b = b'"
    using trie_ok_unique [OF assms(1) _ _ m(2)] by auto
  then show ?case
    using snoc.IH [OF m(1)] m'(1) q by simp
qed

section \<open>One bit\<close>

text \<open>The new node is a child of the last one.\<close>

definition grown :: "huffman_node list \<Rightarrow> nat \<Rightarrow> bool \<Rightarrow> huffman_node list" where
  "grown nodes cur b = nodes[cur := set_child b (of_nat (length nodes)) (nodes ! cur)] @ [empty_node]"

lemma nth_grown:
  "i < length nodes \<Longrightarrow> cur < length nodes \<Longrightarrow>
    grown nodes cur b ! i = (if i = cur then set_child b (of_nat (length nodes)) (nodes ! cur) else nodes ! i)"
  "grown nodes cur b ! length nodes = empty_node" "length (grown nodes cur b) = Suc (length nodes)"
  by (auto simp: grown_def nth_append)

lemma child_grown:
  assumes "cur < length nodes" and "i \<le> length nodes"
  shows "child (grown nodes cur b ! i) b' =
    (if i = length nodes then 0 else if i = cur \<and> b = b' then of_nat (length nodes) else child (nodes ! i) b')"
  using assms nth_grown(1) [of i nodes cur b] nth_grown(2) [of nodes cur b] by auto

lemma trie_ok_grown:
  assumes "trie_ok nodes" and "cur < length nodes" and "child (nodes ! cur) b = 0" and "Suc (length nodes) < 2 ^ 16"
  shows "trie_ok (grown nodes cur b)"
proof -
  let ?n = "of_nat (length nodes) :: u16"
  have n: "unat ?n = length nodes"
    using assms(4) by (simp add: unat_of_nat)
  have new: "child (nodes ! i) b' \<noteq> ?n" if "i < length nodes" for i b'
  proof
    assume c: "child (nodes ! i) b' = ?n"
    then have "child (nodes ! i) b' \<noteq> 0"
      using n assms(2) by (auto simp: word_unat_eq_iff)
    then show False
      using trie_ok_child [OF assms(1) that, of b'] c n by simp
  qed
  show ?thesis
    unfolding trie_ok_def nth_grown(3)
  proof (intro conjI allI impI)
    show "grown nodes cur b \<noteq> []"
      by (simp add: grown_def)
    show "unat (child (grown nodes cur b ! i) b') < Suc (length nodes)"
      if "i < Suc (length nodes)" "child (grown nodes cur b ! i) b' \<noteq> 0" for i b'
      using that assms(1,2) n by (auto simp: child_grown less_Suc_eq trie_ok_def split: if_splits)
    fix i j b1 b2
    assume ij: "i < Suc (length nodes)" "j < Suc (length nodes)"
      and c: "child (grown nodes cur b ! i) b1 \<noteq> 0 \<and> child (grown nodes cur b ! i) b1 = child (grown nodes cur b ! j) b2"
    then have lt: "i < length nodes" "j < length nodes"
      using assms(2) by (auto simp: child_grown less_Suc_eq split: if_splits)
    have old: "i = j \<and> b1 = b2" if "child (nodes ! i) b1 \<noteq> 0" "child (nodes ! i) b1 = child (nodes ! j) b2"
      using that by (rule trie_ok_unique [OF assms(1) lt])
    have "child (grown nodes cur b ! i) b1 = (if i = cur \<and> b = b1 then ?n else child (nodes ! i) b1)"
      "child (grown nodes cur b ! j) b2 = (if j = cur \<and> b = b2 then ?n else child (nodes ! j) b2)"
      using lt child_grown [OF assms(2)] by auto
    then have "i = j \<and> b1 = b2"
      using c old new [OF lt(1), of b1] new [OF lt(2), of b2] by metis
    then show "i = j" "b1 = b2"
      by simp_all
  qed (use assms(4) in simp)
qed

text \<open>Paths stay, and the new ones lead to the new node.\<close>

lemma walk_grown:
  assumes "trie_ok nodes" and "walk nodes 0 q = Some cur" and "child (nodes ! cur) b = 0" and "Suc (length nodes) < 2 ^ 16"
  shows "walk (grown nodes cur b) 0 p = (if p = q @ [b] then Some (length nodes) else walk nodes 0 p)"
proof -
  have len: "0 < length nodes" "cur < length nodes"
    using assms(1) walk_bound [OF assms(1) _ assms(2)] by (auto simp: trie_ok_def)
  have n: "unat (of_nat (length nodes) :: u16) = length nodes" "(of_nat (length nodes) :: u16) \<noteq> 0"
    using assms(4) len(1) by (simp_all add: unat_of_nat word_unat_eq_iff)
  show ?thesis
  proof (induction p rule: rev_induct)
    case (snoc b' p)
    show ?case
    proof (cases "p = q @ [b]")
      case True
      then have "walk nodes 0 p = None" "walk (grown nodes cur b) 0 p = Some (length nodes)"
        using assms(2,3) snoc by (simp_all add: walk_append)
      then show ?thesis
        unfolding walk_append [of _ _ p "[b']"] using True len(2) by (simp add: child_grown)
    next
      case False
      show ?thesis
      proof (cases "walk nodes 0 p")
        case None
        then show ?thesis
          using snoc False assms(2) by (auto simp: walk_append)
      next
        case (Some m)
        have m: "m < length nodes"
          using walk_bound [OF assms(1) len(1) Some] .
        have "m = cur \<Longrightarrow> p = q" "p = q \<Longrightarrow> m = cur"
          using walk_inj [OF assms(1) Some, of q] Some assms(2) by simp_all
        then have eq: "p @ [b'] = q @ [b] \<longleftrightarrow> m = cur \<and> b = b'"
          unfolding append1_eq_conv by metis
        have g: "walk (grown nodes cur b) 0 p = Some m"
          using snoc False Some by simp
        have c: "child (grown nodes cur b ! m) b' = (if m = cur \<and> b = b' then of_nat (length nodes) else child (nodes ! m) b')"
          using child_grown [OF len(2), of m b b'] m by simp
        show ?thesis
          unfolding eq walk_append [of _ _ p "[b']"] g Some using n by (simp only: bind.simps walk.simps c) simp
      qed
    qed
  qed simp
qed

lemma symbol_grown:
  assumes "trie_ok nodes" and "walk nodes 0 q = Some cur" and "child (nodes ! cur) b = 0" and "Suc (length nodes) < 2 ^ 16"
  shows "symbol_at (grown nodes cur b) p = (if p = q @ [b] then Some (- 1) else symbol_at nodes p)"
proof -
  have len: "0 < length nodes" "cur < length nodes"
    using assms(1) walk_bound [OF assms(1) _ assms(2)] by (auto simp: trie_ok_def)
  have "hn_symbol (grown nodes cur b ! n) = hn_symbol (nodes ! n)" if "walk nodes 0 p = Some n" for n
    using nth_grown(1) [OF walk_bound [OF assms(1) len(1) that] len(2)] by simp
  then show ?thesis
    unfolding symbol_at_def walk_grown [OF assms] by (cases "walk nodes 0 p") (auto simp: nth_grown(2))
qed

section \<open>A code\<close>

lemma path_there: "walk nodes 0 q = Some n \<Longrightarrow> symbol_at nodes p = None \<Longrightarrow> \<not> prefix p q"
  by (auto simp: prefix_def symbol_at_def walk_append)

text \<open>What the paths lead to when a path and the beginnings of it are there.\<close>

definition with_path :: "bool list \<Rightarrow> (bool list \<Rightarrow> int option) \<Rightarrow> bool list \<Rightarrow> int option" where
  "with_path q f p = (case f p of Some x \<Rightarrow> Some x | None \<Rightarrow> if prefix p q then Some (- 1) else None)"

lemma trie_step_ok:
  assumes "trie_ok nodes" and "walk nodes 0 q = Some (unat cur)" and "Suc (length nodes) < 2 ^ 16"
    and "trie_step b (nodes, cur) = (nodes', cur')"
  shows "trie_ok nodes' \<and> walk nodes' 0 (q @ [b]) = Some (unat cur') \<and> length nodes' \<le> Suc (length nodes)
    \<and> symbol_at nodes' = with_path (q @ [b]) (symbol_at nodes)"
proof -
  have len: "0 < length nodes" "unat cur < length nodes"
    using assms(1) walk_bound [OF assms(1) _ assms(2)] by (auto simp: trie_ok_def)
  note there = path_there [OF assms(2)]
  show ?thesis
  proof (cases "child (nodes ! unat cur) b = 0")
    case True
    have n: "unat (of_nat (length nodes) :: u16) = length nodes"
      using assms(3) by (simp add: unat_of_nat)
    have e: "nodes' = grown nodes (unat cur) b" "cur' = of_nat (length nodes)"
      using assms(4) True len(2) by (auto simp: trie_step_def Let_def grown_def nth_append)
    have "symbol_at nodes (q @ [b]) = None"
      using assms(2) True by (simp add: symbol_at_def walk_append)
    then have "symbol_at nodes' = with_path (q @ [b]) (symbol_at nodes)"
      by (auto simp: fun_eq_iff e symbol_grown [OF assms(1,2) True assms(3)] with_path_def prefix_snoc split: option.split dest: there)
    then show ?thesis
      using trie_ok_grown [OF assms(1) len(2) True assms(3)] walk_grown [OF assms(1,2) True assms(3), of "q @ [b]"] n
      by (simp add: e nth_grown(3))
  next
    case False
    then have e: "nodes' = nodes" "cur' = child (nodes ! unat cur) b"
      using assms(4) by (auto simp: trie_step_def)
    have w: "walk nodes 0 (q @ [b]) = Some (unat cur')"
      using assms(2) False by (simp add: e walk_append)
    then have "symbol_at nodes (q @ [b]) \<noteq> None"
      by (simp add: symbol_at_def)
    then have "symbol_at nodes = with_path (q @ [b]) (symbol_at nodes)"
      by (auto simp: fun_eq_iff with_path_def prefix_snoc split: option.split dest: there)
    then show ?thesis
      using assms(1) w by (simp add: e(1))
  qed
qed

lemma trie_steps_ok:
  assumes "trie_ok nodes" and "walk nodes 0 q = Some (unat cur)" and "length nodes + length bits < 2 ^ 16"
    and "fold trie_step bits (nodes, cur) = (nodes', cur')"
  shows "trie_ok nodes' \<and> walk nodes' 0 (q @ bits) = Some (unat cur') \<and> length nodes' \<le> length nodes + length bits
    \<and> symbol_at nodes' = with_path (q @ bits) (symbol_at nodes)"
  using assms
proof (induction bits arbitrary: nodes cur q)
  case Nil
  then show ?case
    using path_there [OF Nil(2)] by (auto simp: fun_eq_iff with_path_def split: option.split)
next
  case (Cons b bits)
  obtain nodes1 cur1 where s: "trie_step b (nodes, cur) = (nodes1, cur1)"
    by (cases "trie_step b (nodes, cur)")
  have 1: "trie_ok nodes1" "walk nodes1 0 (q @ [b]) = Some (unat cur1)" "length nodes1 \<le> Suc (length nodes)"
    "symbol_at nodes1 = with_path (q @ [b]) (symbol_at nodes)"
    using trie_step_ok [OF Cons.prems(1,2) _ s] Cons.prems(3) by auto
  have "with_path (q @ b # bits) (with_path (q @ [b]) f) = with_path (q @ b # bits) f" for f
    by (auto simp: fun_eq_iff with_path_def split: option.split)
  then show ?case
    using Cons.IH [OF 1(1,2)] 1(3,4) Cons.prems(3,4) s by simp
qed

lemma walk_relabel: "walk (nodes[n := (nodes ! n)\<lparr>hn_symbol := x\<rparr>]) cur p = walk nodes cur p"
proof -
  have "child (nodes[n := (nodes ! n)\<lparr>hn_symbol := x\<rparr>] ! i) b = child (nodes ! i) b" for i b
    by (cases "n < length nodes") (auto simp: nth_list_update list_update_beyond)
  then show ?thesis
    by (induction p arbitrary: cur) simp_all
qed

lemma trie_insert_ok:
  assumes "trie_ok nodes" and "length nodes + length bits < 2 ^ 16"
  shows "trie_ok (trie_insert bits x nodes)" and "length (trie_insert bits x nodes) \<le> length nodes + length bits"
    and "symbol_at (trie_insert bits x nodes) = (with_path bits (symbol_at nodes))(bits \<mapsto> x)"
proof -
  obtain nodes1 cur where f: "fold trie_step bits (nodes, 0) = (nodes1, cur)"
    by (cases "fold trie_step bits (nodes, 0)")
  then have 1: "trie_ok nodes1" "walk nodes1 0 bits = Some (unat cur)" "length nodes1 \<le> length nodes + length bits"
    "symbol_at nodes1 = with_path bits (symbol_at nodes)"
    using trie_steps_ok [OF assms(1) _ assms(2) f, of "[]"] by simp_all
  let ?n = "nodes1[unat cur := (nodes1 ! unat cur)\<lparr>hn_symbol := x\<rparr>]"
  have e: "trie_insert bits x nodes = ?n"
    by (simp add: trie_insert_def f)
  have cur: "unat cur < length nodes1"
    using walk_bound [OF 1(1) _ 1(2)] 1(1) by (simp add: trie_ok_def)
  have ch: "child (?n ! i) b = child (nodes1 ! i) b" for i b
    by (cases "i = unat cur") (auto simp: cur nth_list_update)
  show "trie_ok (trie_insert bits x nodes)"
    using 1(1) by (simp only: e trie_ok_def length_list_update ch list_update_nonempty) blast
  show "length (trie_insert bits x nodes) \<le> length nodes + length bits"
    using 1(3) by (simp add: e)
  have "symbol_at ?n p = ((symbol_at nodes1)(bits \<mapsto> x)) p" for p
  proof (cases "walk nodes1 0 p")
    case (Some m)
    then show ?thesis
      using walk_inj [OF 1(1) Some, of bits] 1(2) cur by (auto simp: symbol_at_def walk_relabel nth_list_update)
  qed (use 1(2) in \<open>auto simp: symbol_at_def walk_relabel\<close>)
  then show "symbol_at (trie_insert bits x nodes) = (with_path bits (symbol_at nodes))(bits \<mapsto> x)"
    by (auto simp: e 1(4))
qed

section \<open>The whole table\<close>

text \<open>The bits of a code are those that the encoder of \<open>Huffman\<close> writes.\<close>

lemma code_bits_encoder: "code_bits (unat c) = huffman_code c"
  by (simp add: code_bits_def huffman_code_def to_bits_def case_prod_unfold Let_def)

lemma code_bits_length:
  assumes "s < 257"
  shows "length (code_bits s) \<le> 30"
proof -
  have "\<forall>(c, b) \<in> set HUFFMAN_TABLE. b \<le> 30"
    unfolding HUFFMAN_TABLE_def by simp
  then have "snd (HUFFMAN_TABLE ! s) \<le> 30"
    using assms nth_mem [of s HUFFMAN_TABLE] by fastforce
  then show ?thesis
    by (simp add: code_bits_def case_prod_unfold Let_def)
qed

lemma trie_fold_ok:
  assumes "set ss \<subseteq> {..<257}" and "30 * length ss < 65000"
  defines "nodes \<equiv> fold (\<lambda>s. trie_insert (code_bits s) (int s)) ss [empty_node]"
  shows "trie_ok nodes \<and> length nodes \<le> 1 + 30 * length ss
    \<and> (\<forall>p x. symbol_at nodes p = Some x \<and> 0 \<le> x \<longleftrightarrow> (\<exists>s. find (\<lambda>s. code_bits s = p) (rev ss) = Some s \<and> x = int s))"
  using assms(1,2) unfolding nodes_def
proof (induction ss rule: rev_induct)
  case Nil
  have "symbol_at [empty_node] p = Some x \<longleftrightarrow> p = [] \<and> x = - 1" for p x
    by (cases p) (auto simp: symbol_at_def)
  then show ?case
    by (auto simp: trie_ok_def)
next
  case (snoc s ss)
  let ?n = "fold (\<lambda>s. trie_insert (code_bits s) (int s)) ss [empty_node]"
  have IH: "trie_ok ?n" "length ?n \<le> 1 + 30 * length ss"
    "symbol_at ?n p = Some x \<and> 0 \<le> x \<longleftrightarrow> (\<exists>s. find (\<lambda>s. code_bits s = p) (rev ss) = Some s \<and> x = int s)" for p x
    using snoc by auto
  have "length (code_bits s) \<le> 30"
    using code_bits_length snoc.prems(1) by simp
  moreover have "length ?n + length (code_bits s) < 2 ^ 16"
    using calculation IH(2) snoc.prems(2) by simp
  note new = trie_insert_ok [OF IH(1) this, of "int s"]
  have "with_path q f p = Some x \<and> 0 \<le> x \<longleftrightarrow> f p = Some x \<and> 0 \<le> x" for q f p and x :: int
    by (auto simp: with_path_def split: option.split)
  then show ?case
    using new IH calculation by auto
qed

lemma find_rev_upt: "find P (rev [0..<n]) = Some s \<longleftrightarrow> s < n \<and> P s \<and> (\<forall>t < n. P t \<longrightarrow> t \<le> s)"
  by (induction n) (auto simp: less_Suc_eq)

text \<open>
  The trie finds a symbol at the end of a path exactly if the path is the code of the symbol in the table, and the last
  symbol with that code.  A symbol may stand at an inner node: in this table the code of the brace is the beginning of others.
\<close>

theorem trie_finds_codes:
  "symbol_at get_huffman_trie p = Some (int s) \<longleftrightarrow> s < 257 \<and> code_bits s = p \<and> (\<forall>t < 257. code_bits t = p \<longrightarrow> t \<le> s)"
proof -
  have "set [0..<257] \<subseteq> {..<257::nat}" "30 * length [0..<257] < 65000"
    unfolding set_upt length_upt by auto
  then have "symbol_at get_huffman_trie p = Some x \<and> 0 \<le> x
      \<longleftrightarrow> (\<exists>s. find (\<lambda>s. code_bits s = p) (rev [0..<257]) = Some s \<and> x = int s)" for x
    unfolding get_huffman_trie_def by (blast dest: trie_fold_ok)
  from this [of "int s"]
  have "symbol_at get_huffman_trie p = Some (int s) \<longleftrightarrow> find (\<lambda>s. code_bits s = p) (rev [0..<257]) = Some s"
    unfolding of_nat_eq_iff using of_nat_0_le_iff [of s, where 'a = int] by blast
  then show ?thesis
    unfolding find_rev_upt .
qed

end
