(* ===== verification/Spec2Isabelle.thy ===== *)
theory Spec2Isabelle
  imports Http2_Exchange Anti_Bot Tracing Server Proxy Slab Http3 Compression Streams Acme Io_Uring Plugins Tls Logger Huffman_Trie
begin

text \<open>
  JustServer, a web server in C++20: a verification library of its protocol engines, of the
  components that decide what happens to a request, and of the server that composes them.

  \<^bold>\<open>The program.\<close>  The server restricts its process, opens a socket and starts its workers; its
  event loop asks the connection guard about every connection and puts it into a queue.  A worker takes
  a connection, reads a request with the HTTP/1.1 parser (or hands over to HTTP/2 with HPACK, or
  after an upgrade to WebSocket), asks the firewall and the guard, and answers by a file, a FastCGI
  application, a gRPC method or the page with the metrics.  Beside this path stand the parts that the
  repository offers to applications: a reverse proxy with load balancer and response cache, the anti-bot
  engine, the validator of JSON web tokens, the tracing of requests, compression, HTTP/3, certificates
  over ACME, plugins, a second event loop on io_uring, and two allocators.

  \<^bold>\<open>Theories: shared.\<close>

  \<^item> \<open>Prelude\<close>: bytes, strings, numbers as text, machine words, ordered maps.
  \<^item> \<open>Wire\<close>: two interfaces as locales: \<open>codec\<close> (a printer and a parser with a
    remainder) and \<open>framed_input\<close> (a connection that eats its input buffer frame by frame).
  \<^item> \<open>Runtime\<close>: what the code uses of the standard library and of sockets: \<open>std::stoi\<close> with its
    exceptions, loops that write everything and read a number of bytes.

  \<^bold>\<open>Theories: protocols.\<close>

  \<^item> \<open>Http_Message\<close>, \<open>Http_Parser\<close>, \<open>Http_Requests\<close>: \<open>src/http_parser.cpp\<close>.  The record
    \<open>http_parser\<close> is the class, \<open>feed\<close> its method; shown are the round trip of printed requests,
    chunked bodies, independence of the segmentation, and the protection against smuggling: what the parser takes for a chunked body
    is told of the text of the head.
  \<^item> \<open>Websocket\<close>: \<open>src/websocket.cpp\<close>.  Frames, messages, control frames; an
    interpretation of both locales of \<open>Wire\<close>.
  \<^item> \<open>Hpack_Tables\<close>, \<open>Huffman\<close>, \<open>Huffman_Trie\<close>, \<open>Hpack\<close>: the header compression of \<open>src/http2.cpp\<close>.
  \<^item> \<open>Http2\<close>, \<open>Http2_Exchange\<close>: the rest of \<open>src/http2.cpp\<close>: frames, settings, streams, whole
    exchanges of a request and a response.
  \<^item> \<open>Tls\<close>: \<open>src/tls_context.cpp\<close>: the choice of the protocol and the handshake with its deadline.
  \<^item> \<open>Grpc\<close>: \<open>src/grpc_handler.cpp\<close>.
  \<^item> \<open>Fastcgi\<close>: \<open>src/fastcgi_client.cpp\<close>: the packet of a request is read back by the rules of the
    protocol (two interpretations of \<open>codec\<close>), and an answer gives the response it carries, in whatever pieces it arrives, as long as no
    header of a record is cut.
  \<^item> \<open>Http3\<close>: \<open>src/http3.cpp\<close>.  The libraries for QUIC and HTTP/3 report callbacks, and the theorems hold
    for every interleaving of them; the storage of a response's headers is modelled with its pointers.  The code never
    creates a session of either library, so the callbacks are code that no client reaches yet.
  \<^item> \<open>Streams\<close>: \<open>src/stream.cpp\<close>; the stream over HTTP/2 is a queue of bytes (locale \<open>byte_queue\<close>).

  \<^bold>\<open>Theories: decisions and services.\<close>

  \<^item> \<open>Load_Balancer\<close>: \<open>src/load_balancer.cpp\<close>; the interface of the four algorithms is the
    locale \<open>balancer\<close>, interpreted for each of them and for their dispatch.
  \<^item> \<open>Cache\<close>, \<open>Cache_Refinement\<close>: \<open>src/cache.cpp\<close>; the cache refines a map that forgets
    nothing (locale \<open>forgetful_store\<close>).
  \<^item> \<open>Unicode\<close>: \<open>src/unicode.cpp\<close>; the locale \<open>utf8_scan\<close> describes a scan over code points.
  \<^item> \<open>Waf\<close>: \<open>src/waf.cpp\<close>; every check keeps the contract of the locale \<open>waf_check\<close>.
  \<^item> \<open>Rate_Limit\<close>: \<open>src/ddos_guard.cpp\<close> and the token buckets of \<open>src/anti_bot.cpp\<close>; both are
    a \<open>bucket_store\<close>.  \<open>guard_books\<close> is the account of the guard that the server relies on.
  \<^item> \<open>Anti_Bot\<close>: the rest of \<open>src/anti_bot.cpp\<close>.
  \<^item> \<open>Json\<close>, \<open>Jwt\<close>: \<open>src/jwt_validator.cpp\<close>: the scanner finds exactly the members of a printed object;
    an accepted token is signed, allowed and in force, and an issued one is read back.
  \<^item> \<open>Tracing\<close>: \<open>src/tracing.cpp\<close>.
  \<^item> \<open>File_Handler\<close>: \<open>src/file_handler.cpp\<close>: exactly when a file is handed out, over a file system that is
    an argument.
  \<^item> \<open>Proxy\<close>: \<open>src/proxy.cpp\<close>: it composes the load balancer (through the locale \<open>balancer\<close>), the cache and the
    parser: connections are counted out again, and what a backend reads of a forwarded request.
  \<^item> \<open>Compression\<close>: \<open>src/compression.cpp\<close>: the choice of an encoding, and the loops around the codecs.
  \<^item> \<open>Acme\<close>, \<open>Plugins\<close>: \<open>src/acme_client.cpp\<close>, \<open>src/wasm_plugin.cpp\<close>.
  \<^item> \<open>Arena\<close>, \<open>Slab\<close>: \<open>include/arena_allocator.hpp\<close>, over 64-bit addresses; both hand out disjoint regions (locale
    \<open>region_source\<close>).
  \<^item> \<open>Io_Uring\<close>: \<open>src/io_uring_loop.cpp\<close>: operations in flight and their completions as a step relation, for runs in which no
    callback makes the table of operations rehash (there the behaviour of the code is undefined).
  \<^item> \<open>Config\<close>, \<open>Metrics\<close>, \<open>Logger\<close>: \<open>src/config.cpp\<close>, \<open>src/metrics.cpp\<close>, \<open>src/logger.cpp\<close>.

  \<^bold>\<open>Theories: the server.\<close>

  \<^item> \<open>Worker\<close>: \<open>src/worker.cpp\<close>: one connection from the handshake to its release, as a function of what
    the client and the calls do.
  \<^item> \<open>Startup\<close>: \<open>src/main.cpp\<close> and the start sequence of \<open>src/server.cpp\<close>, with the system call filter as a program
    of the packet filter and its interpreter.
  \<^item> \<open>Server\<close>: event loop, queue and worker threads of \<open>src/server.cpp\<close> as a step relation, one step per call of the guard, the
    metrics, the queue or the condition variable, with the runs of \<open>Worker\<close> as sequences of its steps.

  This theory holds what spans protocols: the two front ends hand the same request on.

  \<^bold>\<open>Conventions.\<close>  A byte is an \<open>8 word\<close>, integers of the code that may wrap are words, sizes
  are natural numbers.  A method that changes its object returns the new record, an
  \<open>std::optional\<close> is an \<open>option\<close>, a function that may throw returns a sum with the exception on the left.  An
  \<open>unordered_map\<close> that is iterated is an association list.
  Clocks, random bytes, the results of system calls and of OpenSSL and RE2 are arguments of
  the definitions.  Operations under a mutex run one at a time; times and tokens are real
  numbers, without the rounding of \<open>double\<close>.  The log messages of the components are left out.

  \<^bold>\<open>Loops.\<close>  Loops are total functions, structural or with a measure on the rest of the
  input, except those of \<open>Compression\<close> and \<open>Tls\<close> that a library or
  the clock can keep going for ever: they are partial functions, and that they return is a theorem under a condition on these.  The loops of the connections count down the length of the input buffer, which each
  turn shortens, so no bound cuts them off; no theorem depends on a choice of fuel.

  \<^bold>\<open>Not modelled.\<close>  What is inside the libraries (OpenSSL, RE2, Brotli, Zstandard, ngtcp2, nghttp3, liburing) and the kernel, which
  are arguments; the log messages of the components; the rounding of \<open>double\<close>; data races outside the mutexes, except for the
  threads of the server.
\<close>

section \<open>The two front ends\<close>

lemma methods_agree: "h2_method m = (if m = lit ''PATCH'' then UNKNOWN else method_of m)"
  by (simp add: h2_method_def method_of_def lit_def)

text \<open>
  C28. Both protocols hand on the same request: a method other than PATCH, a target and a host sent
  as an HTTP/1.1 request or as the header list of an HTTP/2 request give the same method,
  target, path and query string and the same key in the cache.
\<close>

theorem front_ends_agree:
  assumes "target_ok m" and "target_ok u" and "version_ok v" and "header_ok (lit ''Host'', a)" and "plain_header (lit ''Host'', a)"
    and "length body < 2 ^ 64" and "m \<noteq> lit ''PATCH''"
    and "r1 = p_request (fst (feed init_parser (print_request m u v
            [(lit ''Host'', a), (lit ''Content-Length'', to_dec (length body))] body)))"
    and "r2 = build_request [(lit '':method'', m), (lit '':path'', u), (lit '':authority'', a)] empty_request"
  shows "req_method r1 = req_method r2 \<and> method_str r1 = method_str r2 \<and> uri r1 = uri r2
       \<and> path r1 = path r2 \<and> query_string r1 = query_string r2 \<and> build_key r1 = build_key r2"
proof -
  have r1: "r1 = \<lparr>req_method = method_of m, method_str = m, uri = u, path = takeWhile (\<lambda>c. c \<noteq> 63) u,
      query_string = tl (dropWhile (\<lambda>c. c \<noteq> 63) u), version = v,
      req_headers = [(lit ''Host'', a), (lit ''Content-Length'', to_dec (length body))], req_body = body\<rparr>"
    using feed_printed_request [OF assms(1-3) _ _ assms(6) refl, of "[(lit ''Host'', a)]"] assms(4,5,8) by simp
  have r2: "r2 = \<lparr>req_method = h2_method m, method_str = m, uri = u, path = takeWhile (\<lambda>b. b \<noteq> 63) u,
      query_string = tl (dropWhile (\<lambda>b. b \<noteq> 63) u), version = lit ''HTTP/2'', req_headers = [(lit ''Host'', a)], req_body = []\<rparr>"
    unfolding assms(9) by (rule h2_request_fields)
  have names: "lower (lit ''Host'') = lit ''host''" "lower (lit ''Content-Length'') = lit ''content-length''"
    "lower (lit ''X-Forwarded-Proto'') = lit ''x-forwarded-proto''" "lower (lit ''Accept-Encoding'') = lit ''accept-encoding''"
    by code_simp+
  have differ: "lit ''content-length'' \<noteq> lit ''x-forwarded-proto''" "lit ''content-length'' \<noteq> lit ''accept-encoding''"
    by code_simp+
  have headers: "get_header r1 (lit ''Host'') = get_header r2 (lit ''Host'')"
    "get_header r1 (lit ''X-Forwarded-Proto'') = get_header r2 (lit ''X-Forwarded-Proto'')"
    "get_header r1 (lit ''Accept-Encoding'') = get_header r2 (lit ''Accept-Encoding'')"
    by (simp_all only: r1 r2 get_header_def names) (simp_all add: names differ)
  have fields: "method_str r1 = method_str r2" "uri r1 = uri r2"
    by (simp_all add: r1 r2)
  have "build_key r1 = build_key r2"
    by (simp only: build_key_def headers fields)
  moreover have "req_method r1 = req_method r2 \<and> path r1 = path r2 \<and> query_string r1 = query_string r2"
    using assms(7) by (simp add: r1 r2 methods_agree)
  ultimately show ?thesis
    using fields by simp
qed

theorem front_ends_agree_witness:
  "build_key (p_request (fst (feed init_parser (print_request (lit ''GET'') (lit ''/a?b'') (lit ''HTTP/1.1'')
      [(lit ''Host'', lit ''x''), (lit ''Content-Length'', to_dec (length (lit ''hi'')))] (lit ''hi'')))))
   = build_key (build_request [(lit '':method'', lit ''GET''), (lit '':path'', lit ''/a?b''), (lit '':authority'', lit ''x'')] empty_request)"
proof -
  have ok: "target_ok (lit ''GET'')" "target_ok (lit ''/a?b'')" "version_ok (lit ''HTTP/1.1'')"
      "header_ok (lit ''Host'', lit ''x'')" "plain_header (lit ''Host'', lit ''x'')" "length (lit ''hi'') < 2 ^ 64"
      "lit ''GET'' \<noteq> lit ''PATCH''"
    by (simp_all add: target_ok_def version_ok_def header_ok_def plain_header_def is_ws_def lit_def lower_def tolower_def)
  show ?thesis
    using front_ends_agree [OF ok refl refl] by blast
qed

end
